(* ===== verification/Pyth_Prelude.thy ===== *)
theory Pyth_Prelude
  imports Main "HOL-Library.Word" "HOL-Library.Monad_Syntax" "HOL-Library.Multiset"
    "HOL-Library.Signed_Division"
begin

unbundle bit_operations_syntax

text \<open>
  Shared vocabulary of the development: names for the machine types of the C and C++ sources,
  the checked signed arithmetic of C, and the generic lemmas on words, lists and options that
  the component theories rely on.

  Conventions.  An unsigned C integer whose wrap-around matters is a word.  A signed
  \<open>int64_t\<close>/\<open>int32_t\<close> whose overflow would be undefined behaviour is an \<open>int\<close> together with the
  checked operations below: \<open>None\<close> stands for undefined behaviour (signed overflow, division by
  zero, an index outside an array), so a theorem that an operation returns \<open>Some\<close> is a theorem
  that the C code has no undefined behaviour there.
\<close>

named_theorems arith_defs "definitions of the checked C arithmetic"
named_theorems word_defs "definitions of the word-level routines"

section \<open>Machine types\<close>

type_synonym u8 = "8 word"
type_synonym u16 = "16 word"
type_synonym u32 = "32 word"
type_synonym u64 = "64 word"

section \<open>Checked signed arithmetic\<close>

definition in_s64 :: "int \<Rightarrow> bool" where
  "in_s64 z \<longleftrightarrow> - (2 ^ 63) \<le> z \<and> z < 2 ^ 63"

definition in_s32 :: "int \<Rightarrow> bool" where
  "in_s32 z \<longleftrightarrow> - (2 ^ 31) \<le> z \<and> z < 2 ^ 31"

definition s64 :: "int \<Rightarrow> int option" where
  "s64 z = (if in_s64 z then Some z else None)"

definition s32 :: "int \<Rightarrow> int option" where
  "s32 z = (if in_s32 z then Some z else None)"

definition s64_div :: "int \<Rightarrow> int \<Rightarrow> int option" where
  "s64_div a b = (if b = 0 then None else s64 (a sdiv b))"

text \<open>Conversion of a \<open>uint64_t\<close> (a natural number below \<open>2 ^ 64\<close>) to \<open>int64_t\<close>.\<close>

definition to_s64 :: "nat \<Rightarrow> int" where
  "to_s64 n = (if n < 2 ^ 63 then int n else int n - 2 ^ 64)"

text \<open>The bounds as literals, for evaluation.\<close>

lemma in_s64_code [code]: "in_s64 z \<longleftrightarrow> - 9223372036854775808 \<le> z \<and> z < 9223372036854775808"
  by (simp add: in_s64_def)

lemma in_s32_code [code]: "in_s32 z \<longleftrightarrow> - 2147483648 \<le> z \<and> z < 2147483648"
  by (simp add: in_s32_def)

declare in_s64_def [arith_defs] in_s32_def [arith_defs] s64_def [arith_defs] s32_def [arith_defs]
  s64_div_def [arith_defs]

lemma s64_Some [simp]: "s64 z = Some y \<longleftrightarrow> in_s64 z \<and> y = z"
  by (auto simp: s64_def)

lemma s32_Some [simp]: "s32 z = Some y \<longleftrightarrow> in_s32 z \<and> y = z"
  by (auto simp: s32_def)

lemma s64_in [simp]: "in_s64 z \<Longrightarrow> s64 z = Some z"
  by (simp add: s64_def)

lemma s32_in [simp]: "in_s32 z \<Longrightarrow> s32 z = Some z"
  by (simp add: s32_def)

lemma in_s64I: "- (2 ^ 63) \<le> z \<Longrightarrow> z < 2 ^ 63 \<Longrightarrow> in_s64 z"
  by (simp add: in_s64_def)

lemma in_s64_abs: "\<bar>z\<bar> < 2 ^ 63 \<Longrightarrow> in_s64 z"
  by (auto simp: in_s64_def)

lemma in_s64_between: "in_s64 a \<Longrightarrow> in_s64 b \<Longrightarrow> a \<le> z \<Longrightarrow> z \<le> b \<Longrightarrow> in_s64 z"
  by (auto simp: in_s64_def)

lemma to_s64_range: "n < 2 ^ 64 \<Longrightarrow> in_s64 (to_s64 n)"
  by (auto simp: to_s64_def in_s64_def)

text \<open>C division truncates towards zero; the magnitude never grows.\<close>

lemma sdiv_abs: "\<bar>a sdiv b\<bar> = \<bar>a :: int\<bar> div \<bar>b\<bar>"
  by (cases "a = 0 \<or> b = 0")
    (auto simp: signed_divide_int_def abs_mult pos_imp_zdiv_nonneg_iff)

lemma sdiv_abs_le: "\<bar>a sdiv b\<bar> \<le> \<bar>a :: int\<bar>"
proof (cases "b = 0")
  case True
  then show ?thesis by (simp add: signed_divide_int_def)
next
  case False
  then have "1 \<le> \<bar>b\<bar>" by simp
  then have "\<bar>a\<bar> div \<bar>b\<bar> \<le> \<bar>a\<bar> div 1"
    by (intro zdiv_mono2) auto
  then show ?thesis by (simp add: sdiv_abs)
qed

end
