(* ===== verification/Int_Util.thy ===== *)
theory Int_Util
  imports Pyth_Prelude
begin

unbundle bit_operations_syntax

text \<open>
  The integer utilities of the oracle program, \<open>program/c/src/oracle/util\<close>: alignment
  (\<open>align.h\<close>), portable arithmetic right shift (\<open>sar.h\<close>), overflow-free averaging (\<open>avg.h\<close>),
  and the invertible integer hash (\<open>hash.h\<close>).  Every routine is a function on words of the
  source's width; a signed value is a word read by \<^const>\<open>sint\<close>.
\<close>

section \<open>align.h\<close>

definition align_ispow2 :: "u64 \<Rightarrow> bool" where
  "align_ispow2 a = (let mask = a - 1 in a > 0 \<and> a AND mask = 0)"

definition align_isaligned :: "u64 \<Rightarrow> u64 \<Rightarrow> bool" where
  "align_isaligned p a = (let mask = a - 1 in p AND mask = 0)"

definition align_dn :: "u64 \<Rightarrow> u64 \<Rightarrow> u64" where
  "align_dn p a = (let mask = a - 1 in p AND (NOT mask))"

definition align_up :: "u64 \<Rightarrow> u64 \<Rightarrow> u64" where
  "align_up p a = (let mask = a - 1 in (p + mask) AND (NOT mask))"

section \<open>sar.h\<close>

text \<open>The portable branch (\<open>PYTH_ORACLE_UTIL_SAR_USE_PLATFORM\<close> is 0): flip a negative value,
  shift logically, flip back.\<close>

definition sar_int8 :: "u8 \<Rightarrow> nat \<Rightarrow> u8" where
  "sar_int8 x n = (let ux = x; s = - (drop_bit 7 ux) in drop_bit n (ux XOR s) XOR s)"

definition sar_int16 :: "u16 \<Rightarrow> nat \<Rightarrow> u16" where
  "sar_int16 x n = (let ux = x; s = - (drop_bit 15 ux) in drop_bit n (ux XOR s) XOR s)"

definition sar_int32 :: "u32 \<Rightarrow> nat \<Rightarrow> u32" where
  "sar_int32 x n = (let ux = x; s = - (drop_bit 31 ux) in drop_bit n (ux XOR s) XOR s)"

definition sar_int64 :: "u64 \<Rightarrow> nat \<Rightarrow> u64" where
  "sar_int64 x n = (let ux = x; s = - (drop_bit 63 ux) in drop_bit n (ux XOR s) XOR s)"

section \<open>avg.h\<close>

definition avg_2_uint8 :: "u8 \<Rightarrow> u8 \<Rightarrow> u8" where
  "avg_2_uint8 x y = ucast (drop_bit 1 ((ucast x :: u16) + ucast y))"

definition avg_2_uint16 :: "u16 \<Rightarrow> u16 \<Rightarrow> u16" where
  "avg_2_uint16 x y = ucast (drop_bit 1 ((ucast x :: u32) + ucast y))"

definition avg_2_uint32 :: "u32 \<Rightarrow> u32 \<Rightarrow> u32" where
  "avg_2_uint32 x y = ucast (drop_bit 1 ((ucast x :: u64) + ucast y))"

definition avg_2_uint64 :: "u64 \<Rightarrow> u64 \<Rightarrow> u64" where
  "avg_2_uint64 x y =
     (let z = x + y; c = (if z < x then 1 else 0) in drop_bit 1 z + push_bit 63 c)"

definition avg_2_int8 :: "u8 \<Rightarrow> u8 \<Rightarrow> u8" where
  "avg_2_int8 x y = ucast (sar_int16 ((scast x :: u16) + scast y) 1)"

definition avg_2_int16 :: "u16 \<Rightarrow> u16 \<Rightarrow> u16" where
  "avg_2_int16 x y = ucast (sar_int32 ((scast x :: u32) + scast y) 1)"

definition avg_2_int32 :: "u32 \<Rightarrow> u32 \<Rightarrow> u32" where
  "avg_2_int32 x y = ucast (sar_int64 ((scast x :: u64) + scast y) 1)"

definition avg_2_int64 :: "u64 \<Rightarrow> u64 \<Rightarrow> u64" where
  "avg_2_int64 x y =
     (let t = x; z = t + y; b = (if z \<ge> t + push_bit 63 1 then 1 else 0)
      in drop_bit 1 z - push_bit 63 b)"

text \<open>The array averages.  The source's macro \<open>PYTH_ORACLE_UTIL_AVG_DECL(func,T)\<close> is instantiated
  at 8, 16 and 32 bits; here its body is polymorphic in the width of \<open>T\<close>.  The accumulator is
  64 bits wide; the array argument is the list of its \<open>n\<close> elements.\<close>

definition avg_uint :: "'a::len word list \<Rightarrow> 'a word" where
  "avg_uint x =
     (let n = length x in
      if n = 0 then 0
      else let a = foldl (\<lambda>a e. a + (ucast e :: u64)) 0 x in ucast (a div of_nat n))"

definition avg_int :: "'a::len word list \<Rightarrow> 'a word" where
  "avg_int x =
     (let n = length x in
      if n = 0 then 0
      else let a = foldl (\<lambda>a e. a + (scast e :: u64)) 0 x;
               s = (sint a < 0);
               u = (if s then - a else a) div of_nat n
           in ucast (if s then - u else u))"

section \<open>hash.h\<close>

definition hash_uint32 :: "u32 \<Rightarrow> u32" where
  "hash_uint32 x0 =
     (let x1 = x0 XOR drop_bit 16 x0; x2 = x1 * 0x85ebca6b;
          x3 = x2 XOR drop_bit 13 x2; x4 = x3 * 0xc2b2ae35
      in x4 XOR drop_bit 16 x4)"

definition hash_uint64 :: "u64 \<Rightarrow> u64" where
  "hash_uint64 x0 =
     (let x1 = x0 XOR drop_bit 33 x0; x2 = x1 * 0xff51afd7ed558ccd;
          x3 = x2 XOR drop_bit 33 x2; x4 = x3 * 0xc4ceb9fe1a85ec53
      in x4 XOR drop_bit 33 x4)"

definition hash_inverse_uint32 :: "u32 \<Rightarrow> u32" where
  "hash_inverse_uint32 x0 =
     (let x1 = x0 XOR drop_bit 16 x0; x2 = x1 * 0x7ed1b41d;
          x3 = x2 XOR (drop_bit 13 x2 XOR drop_bit 26 x2); x4 = x3 * 0xa5cb9243
      in x4 XOR drop_bit 16 x4)"

definition hash_inverse_uint64 :: "u64 \<Rightarrow> u64" where
  "hash_inverse_uint64 x0 =
     (let x1 = x0 XOR drop_bit 33 x0; x2 = x1 * 0x9cb4b2f8129337db;
          x3 = x2 XOR drop_bit 33 x2; x4 = x3 * 0x4f74430c22a54005
      in x4 XOR drop_bit 33 x4)"

section \<open>Arithmetic shift right\<close>

lemma sign_bit: "bit x (LENGTH('a) - Suc 0) \<longleftrightarrow> sint (x :: 'a::len word) < 0"
  by (simp add: bit_last_iff)

lemma sign_mask: "- (drop_bit (LENGTH('a) - Suc 0) x) = (if sint x < 0 then - 1 else (0 :: 'a::len word))"
proof -
  have "drop_bit (LENGTH('a) - Suc 0) x = of_bool (bit x (LENGTH('a) - Suc 0))"
  proof (rule bit_word_eqI)
    fix n assume "n < LENGTH('a)"
    then show "bit (drop_bit (LENGTH('a) - Suc 0) x) n = bit (of_bool (bit x (LENGTH('a) - Suc 0)) :: 'a word) n"
      by (cases n) (auto simp: bit_drop_bit_eq bit_1_iff dest: bit_imp_le_length)
  qed
  then show ?thesis by (simp add: sign_bit)
qed

text \<open>The flip-shift-flip trick is the arithmetic shift, at every width.\<close>

lemma sar_generic:
  fixes x :: "'a::len word"
  assumes "n < LENGTH('a)"
  shows "drop_bit n (x XOR (- drop_bit (LENGTH('a) - Suc 0) x)) XOR (- drop_bit (LENGTH('a) - Suc 0) x)
       = signed_drop_bit n x"
proof (rule bit_word_eqI)
  fix k assume k: "k < LENGTH('a)"
  show "bit (drop_bit n (x XOR (- drop_bit (LENGTH('a) - Suc 0) x)) XOR (- drop_bit (LENGTH('a) - Suc 0) x)) k
       = bit (signed_drop_bit n x) k"
    using k assms sign_bit [of x]
    by (auto simp: sign_mask bit_simps not_le not_less dest: bit_imp_le_length)
qed

lemma sar_signed_drop_bit [word_defs]:
  shows "n < 8 \<Longrightarrow> sar_int8 x8 n = signed_drop_bit n x8"
    and "n < 16 \<Longrightarrow> sar_int16 x16 n = signed_drop_bit n x16"
    and "n < 32 \<Longrightarrow> sar_int32 x32 n = signed_drop_bit n x32"
    and "n < 64 \<Longrightarrow> sar_int64 x64 n = signed_drop_bit n x64"
  using sar_generic [of n x8] sar_generic [of n x16] sar_generic [of n x32] sar_generic [of n x64]
  by (simp_all add: sar_int8_def sar_int16_def sar_int32_def sar_int64_def)

lemma sint_signed_drop_bit: "sint (signed_drop_bit n x) = sint (x :: 'a::len word) div 2 ^ n"
  by (simp add: sint_signed_drop_bit_eq drop_bit_eq_div)

section \<open>Averages\<close>

lemma uint_half: "uint (drop_bit (Suc 0) (w :: u64)) = uint w div 2"
  by (simp add: drop_bit_eq_div uint_div)

lemma sint_uint64: "sint (w :: u64) = (if uint w < 2 ^ 63 then uint w else uint w - 2 ^ 64)"
proof -
  have b: "0 \<le> uint w" "uint w < 2 ^ 64" using uint_lt2p [of w] by auto
  have "bit (uint w) 63 \<longleftrightarrow> odd (uint w div 2 ^ 63)" by (simp add: bit_iff_odd)
  also have "\<dots> \<longleftrightarrow> 2 ^ 63 \<le> uint w"
  proof (cases "2 ^ 63 \<le> uint w")
    case True
    with b have "uint w div 2 ^ 63 = 1" by (intro int_div_pos_eq [where r = "uint w - 2 ^ 63"]) auto
    with True show ?thesis by simp
  next
    case False
    with b show ?thesis by simp
  qed
  finally show ?thesis using b
    by (simp add: sint_uint signed_take_bit_eq_take_bit_minus take_bit_int_eq_self)
qed

lemma uint_add_carry:
  fixes x y :: "'a::len word"
  shows "uint (x + y) = (if uint x + uint y < 2 ^ LENGTH('a) then uint x + uint y
    else uint x + uint y - 2 ^ LENGTH('a))"
  using uint_add_lem [of x y] uint_plus_if' [of x y] by auto

lemma avg_2_uint64_floor: "uint (avg_2_uint64 x y) = (uint x + uint y) div 2"
proof -
  have b: "0 \<le> uint x" "uint x < 2 ^ 64" "0 \<le> uint y" "uint y < 2 ^ 64"
    using uint_lt2p [of x] uint_lt2p [of y] by auto
  have z: "uint (x + y) = (if uint x + uint y < 2 ^ 64 then uint x + uint y else uint x + uint y - 2 ^ 64)"
    using uint_add_carry [of x y] by simp
  have sh: "uint (drop_bit 1 (x + y)) = uint (x + y) div 2"
    by (simp add: uint_half)
  have p: "uint (push_bit 63 1 :: u64) = 2 ^ 63" by simp
  have lt: "(x + y < x) = (uint (x + y) < uint x)" by (simp add: word_less_def)
  show ?thesis
    unfolding avg_2_uint64_def Let_def
    using b z sh p lt uint_add_carry [of "drop_bit 1 (x + y)" "push_bit 63 1"]
    by (auto split: if_splits)
qed

lemma avg_2_int64_floor: "sint (avg_2_int64 x y) = (sint x + sint y) div 2"
proof -
  have b: "0 \<le> uint x" "uint x < 2 ^ 64" "0 \<le> uint y" "uint y < 2 ^ 64"
    using uint_lt2p [of x] uint_lt2p [of y] by auto
  have z: "uint (x + y) = (if uint x + uint y < 2 ^ 64 then uint x + uint y else uint x + uint y - 2 ^ 64)"
    using uint_add_carry [of x y] by simp
  have p: "uint (push_bit 63 1 :: u64) = 2 ^ 63" by simp
  have t: "uint (x + push_bit 63 1) = (if uint x < 2 ^ 63 then uint x + 2 ^ 63 else uint x - 2 ^ 63)"
    using uint_add_carry [of x "push_bit 63 1"] p by (auto split: if_splits)
  have le: "(x + y \<ge> x + push_bit 63 1) = (uint (x + push_bit 63 1) \<le> uint (x + y))"
    by (simp add: word_le_def)
  have sub: "uint (drop_bit 1 (x + y) - push_bit 63 1) = uint (x + y) div 2 + 2 ^ 63"
    using uint_sub_if' [of "drop_bit 1 (x + y)" "push_bit 63 1"] p uint_lt2p [of "x + y"]
    by (simp add: uint_half)
  show ?thesis
  proof (cases "x + y \<ge> x + push_bit 63 1")
    case True
    then have "sint (avg_2_int64 x y) = uint (x + y) div 2 - 2 ^ 63"
      using sub uint_lt2p [of "x + y"] by (simp add: avg_2_int64_def sint_uint64)
    with True show ?thesis using b z t le
      by (auto simp: sint_uint64 [of x] sint_uint64 [of y] split: if_splits)
  next
    case False
    then have "sint (avg_2_int64 x y) = uint (x + y) div 2"
      using uint_lt2p [of "x + y"] by (simp add: avg_2_int64_def sint_uint64 uint_half)
    with False show ?thesis using b z t le
      by (auto simp: sint_uint64 [of x] sint_uint64 [of y] split: if_splits;
          use uint_ge_0 [of y] in linarith)
  qed
qed

lemma avg_wide_unsigned:
  fixes x y :: "'a::len word"
  assumes "LENGTH('a) < LENGTH('b::len)"
  shows "uint (ucast (drop_bit (Suc 0) ((ucast x :: 'b word) + ucast y)) :: 'a word) = (uint x + uint y) div 2"
proof -
  have x: "uint x < 2 ^ LENGTH('a)" "uint y < 2 ^ LENGTH('a)" by (rule uint_lt2p)+
  have "(2::int) ^ Suc LENGTH('a) \<le> 2 ^ LENGTH('b)"
    using assms by (intro power_increasing) auto
  then have "2 * 2 ^ LENGTH('a) \<le> (2::int) ^ LENGTH('b)" by simp
  then have s: "uint x + uint y < 2 ^ LENGTH('b)" using x by linarith
  have u: "uint (ucast x :: 'b word) = uint x" "uint (ucast y :: 'b word) = uint y"
    using x assms less_le_trans [OF _ power_increasing [of "LENGTH('a)" "LENGTH('b)" 2], of "uint x"]
      less_le_trans [OF _ power_increasing [of "LENGTH('a)" "LENGTH('b)" 2], of "uint y"]
    by (simp_all add: unsigned_ucast_eq take_bit_int_eq_self)
  have "uint (drop_bit (Suc 0) ((ucast x :: 'b word) + ucast y)) = (uint x + uint y) div 2"
    unfolding unsigned_drop_bit_eq using s u uint_add_carry [of "ucast x :: 'b word" "ucast y"]
    by (simp add: take_bit_int_eq_self drop_bit_eq_div)
  moreover have "(uint x + uint y) div 2 < 2 ^ LENGTH('a)" using x by linarith
  ultimately show ?thesis by (simp add: unsigned_ucast_eq take_bit_int_eq_self)
qed

lemma avg_wide_signed:
  fixes x y :: "'a::len word"
  assumes "LENGTH('a) < LENGTH('b::len)"
  shows "sint (ucast (signed_drop_bit (Suc 0) ((scast x :: 'b word) + scast y)) :: 'a word) = (sint x + sint y) div 2"
proof -
  define L B where "L = LENGTH('a) - 1" and "B = (2::int) ^ L"
  have x: "- B \<le> sint x" "sint x < B" "- B \<le> sint y" "sint y < B"
    using sint_greater_eq [of x] sint_less [of x] sint_greater_eq [of y] sint_less [of y]
    by (simp_all add: B_def L_def)
  have "(2::int) ^ Suc L \<le> 2 ^ (LENGTH('b) - 1)"
    using assms by (intro power_increasing) (auto simp: L_def)
  then have le: "2 * B \<le> 2 ^ (LENGTH('b) - 1)" by (simp add: B_def)
  have self: "signed_take_bit (LENGTH('b) - Suc 0) z = z"
    if "- (2 * B) \<le> z" "z < 2 * B" for z :: int
    using that le by (intro signed_take_bit_int_eq_self) auto
  have u: "sint (scast x :: 'b word) = sint x" "sint (scast y :: 'b word) = sint y"
    using x self [of "sint x"] self [of "sint y"] by (simp_all add: signed_scast_eq)
  have s: "sint ((scast x :: 'b word) + scast y) = sint x + sint y"
    using x u self [of "sint x + sint y"] by (simp add: sint_word_ariths)
  have "sint (ucast (w :: 'b word) :: 'a word) = signed_take_bit L (sint w)" for w
    using assms by (intro bit_eqI) (auto simp: bit_simps bit_sint_iff min_def L_def)
  then have "sint (ucast (signed_drop_bit (Suc 0) ((scast x :: 'b word) + scast y)) :: 'a word)
     = signed_take_bit L ((sint x + sint y) div 2)"
    by (simp add: sint_signed_drop_bit s)
  then show ?thesis using x by (simp add: signed_take_bit_int_eq_self B_def)
qed

lemma avg_2_unsigned:
  shows "uint (avg_2_uint8 x8 y8) = (uint x8 + uint y8) div 2"
    and "uint (avg_2_uint16 x16 y16) = (uint x16 + uint y16) div 2"
    and "uint (avg_2_uint32 x32 y32) = (uint x32 + uint y32) div 2"
  using avg_wide_unsigned [where 'b = 16, of x8 y8] avg_wide_unsigned [where 'b = 32, of x16 y16]
    avg_wide_unsigned [where 'b = 64, of x32 y32]
  by (simp_all add: avg_2_uint8_def avg_2_uint16_def avg_2_uint32_def)

lemma avg_2_signed:
  shows "sint (avg_2_int8 x8 y8) = (sint x8 + sint y8) div 2"
    and "sint (avg_2_int16 x16 y16) = (sint x16 + sint y16) div 2"
    and "sint (avg_2_int32 x32 y32) = (sint x32 + sint y32) div 2"
  using avg_wide_signed [where 'b = 16, of x8 y8] avg_wide_signed [where 'b = 32, of x16 y16]
    avg_wide_signed [where 'b = 64, of x32 y32]
  by (simp_all add: avg_2_int8_def avg_2_int16_def avg_2_int32_def word_defs)

text \<open>The accumulator of the unsigned array average is exact: it wraps at 64 bits, but a sum of
  fewer than \<open>2 ^ 32\<close> values below \<open>2 ^ 32\<close> stays below \<open>2 ^ 64\<close>.\<close>

lemma foldl_ucast_sum:
  "uint (foldl (\<lambda>a e. a + (ucast e :: u64)) acc x) = (uint acc + (\<Sum>e\<leftarrow>x. uint (ucast (e :: 'a::len word) :: u64))) mod 2 ^ 64"
proof (induction x arbitrary: acc)
  case Nil
  then show ?case using uint_lt2p [of acc] by simp
next
  case (Cons e x)
  show ?case by (simp add: Cons.IH uint_word_ariths mod_simps add.assoc)
qed

lemma avg_uint_floor:
  fixes x :: "'a::len word list"
  assumes n: "0 < length x" "length x < 2 ^ 32" and w: "LENGTH('a) \<le> 32"
  shows "uint (avg_uint x) = (\<Sum>e\<leftarrow>x. uint e) div int (length x)"
proof -
  let ?n = "int (length x)" and ?S = "\<Sum>e\<leftarrow>x. uint e"
  have p: "(2::int) ^ LENGTH('a) \<le> 2 ^ 32" using w by (intro power_increasing) auto
  have e: "uint (ucast e :: u64) = uint e" for e :: "'a word"
  proof -
    have "(2::int) ^ 32 < 2 ^ 64" by simp
    then have "uint e < 2 ^ 64" using p uint_lt2p [of e] by linarith
    then show ?thesis by (simp add: unsigned_ucast_eq take_bit_int_eq_self)
  qed
  have S: "0 \<le> ?S" "?S \<le> ?n * (2 ^ LENGTH('a) - 1)"
  proof -
    show "0 \<le> ?S" by (induction x) auto
    show "?S \<le> ?n * (2 ^ LENGTH('a) - 1)"
    proof (induction x)
      case (Cons e x)
      have "uint e \<le> 2 ^ LENGTH('a) - 1" using uint_lt2p [of e] by linarith
      with Cons show ?case by (simp add: algebra_simps)
    qed simp
  qed
  have "?n * (2 ^ LENGTH('a) - 1) \<le> (2 ^ 32 - 1) * (2 ^ 32 - 1)"
    using n p by (intro mult_mono) auto
  then have S64: "?S < 2 ^ 64" using S(2) by simp
  let ?a = "foldl (\<lambda>a e. a + (ucast e :: u64)) 0 x"
  have a: "uint ?a = ?S"
    using foldl_ucast_sum [of 0 x] S S64 by (simp add: e)
  have "uint (of_nat (length x) :: u64) = ?n"
    using n by (simp add: unsigned_of_nat take_bit_nat_eq_self)
  with a have d: "uint (?a div of_nat (length x)) = ?S div ?n" by (simp add: uint_div)
  have "?S div ?n \<le> 2 ^ LENGTH('a) - 1"
    using S n zdiv_mono1 [OF S(2), of ?n] by simp
  then have "take_bit LENGTH('a) (?S div ?n) = ?S div ?n"
    using S n by (intro take_bit_int_eq_self) (auto simp: pos_imp_zdiv_nonneg_iff)
  then show ?thesis using n d by (simp add: avg_uint_def Let_def unsigned_ucast_eq)
qed

section \<open>The hash is a permutation\<close>

definition xorshift :: "nat \<Rightarrow> 'a::len word \<Rightarrow> 'a word" where
  "xorshift k x = x XOR drop_bit k x"

definition xorshift2 :: "nat \<Rightarrow> 'a::len word \<Rightarrow> 'a word" where
  "xorshift2 k x = x XOR (drop_bit k x XOR drop_bit (2 * k) x)"

lemma mult_inverse_word: "c * d = 1 \<Longrightarrow> x * c * d = (x :: 'a::len word)"
  by (simp add: mult.assoc)

lemma hash_uint64_alt: "hash_uint64 x =
    xorshift 33 (xorshift 33 (xorshift 33 x * 0xff51afd7ed558ccd) * 0xc4ceb9fe1a85ec53)"
  by (simp add: hash_uint64_def xorshift_def Let_def)

lemma hash_inverse_uint64_alt: "hash_inverse_uint64 x =
    xorshift 33 (xorshift 33 (xorshift 33 x * 0x9cb4b2f8129337db) * 0x4f74430c22a54005)"
  by (simp add: hash_inverse_uint64_def xorshift_def Let_def)

lemma hash_uint32_alt: "hash_uint32 x =
    xorshift 16 (xorshift 13 (xorshift 16 x * 0x85ebca6b) * 0xc2b2ae35)"
  by (simp add: hash_uint32_def xorshift_def Let_def)

lemma hash_inverse_uint32_alt: "hash_inverse_uint32 x =
    xorshift 16 (xorshift2 13 (xorshift 16 x * 0x7ed1b41d) * 0xa5cb9243)"
  by (simp add: hash_inverse_uint32_def xorshift_def xorshift2_def Let_def)

lemma xorshift_involution [simp]:
  "LENGTH('a) \<le> 2 * k \<Longrightarrow> xorshift k (xorshift k x) = (x :: 'a::len word)"
  unfolding xorshift_def
  by (intro bit_word_eqI) (auto simp: bit_simps dest: bit_imp_le_length)

lemma xorshift2_inverse [simp]:
  fixes x :: "'a::len word"
  assumes "LENGTH('a) \<le> 3 * k"
  shows "xorshift2 k (xorshift k x) = x" and "xorshift k (xorshift2 k x) = x"
  unfolding xorshift_def xorshift2_def using assms
  by (rule_tac bit_word_eqI; auto simp: bit_simps ac_simps mult_2 mult_2_right dest: bit_imp_le_length)+

lemma hash64_inverses [simp]:
  fixes x :: u64
  shows "x * 0xff51afd7ed558ccd * 0x4f74430c22a54005 = x"
    and "x * 0x4f74430c22a54005 * 0xff51afd7ed558ccd = x"
    and "x * 0xc4ceb9fe1a85ec53 * 0x9cb4b2f8129337db = x"
    and "x * 0x9cb4b2f8129337db * 0xc4ceb9fe1a85ec53 = x"
  by (rule mult_inverse_word, simp)+

lemma hash32_inverses [simp]:
  fixes x :: u32
  shows "x * 0x85ebca6b * 0xa5cb9243 = x" and "x * 0xa5cb9243 * 0x85ebca6b = x"
    and "x * 0xc2b2ae35 * 0x7ed1b41d = x" and "x * 0x7ed1b41d * 0xc2b2ae35 = x"
  by (rule mult_inverse_word, simp)+

lemmas hash_alts = hash_uint64_alt hash_inverse_uint64_alt hash_uint32_alt hash_inverse_uint32_alt

lemma hash_inverse_uint64_hash: "hash_inverse_uint64 (hash_uint64 x) = x"
  by (simp add: hash_alts)

lemma hash_hash_inverse_uint64: "hash_uint64 (hash_inverse_uint64 x) = x"
  by (simp add: hash_alts)

lemma hash_inverse_uint32_hash: "hash_inverse_uint32 (hash_uint32 x) = x"
  by (simp add: hash_alts)

lemma hash_hash_inverse_uint32: "hash_uint32 (hash_inverse_uint32 x) = x"
  by (simp add: hash_alts)

section \<open>Alignment\<close>

lemma nat_bit_ivl: "2 ^ k \<le> (n :: nat) \<Longrightarrow> n < 2 ^ Suc k \<Longrightarrow> bit n k"
proof -
  assume a: "2 ^ k \<le> n" "n < 2 ^ Suc k"
  then have "n div 2 ^ k = 1"
    by (simp add: div_nat_eqI)
  then show "bit n k" by (simp add: bit_iff_odd)
qed

lemma uint_2pow: "k < 64 \<Longrightarrow> uint (2 ^ k :: u64) = 2 ^ k"
  by (simp add: unsigned_push_bit_eq take_bit_push_bit flip: push_bit_of_1)

lemma ispow2_power:
  assumes "align_ispow2 a"
  shows "\<exists>k < 64. a = 2 ^ k"
proof -
  have a0: "0 < unat a" using assms
    by (simp add: align_ispow2_def Let_def unat_gt_0 word_gt_0)
  obtain k where k: "2 ^ k \<le> unat a" "unat a < 2 ^ Suc k"
    using ex_power_ivl1 [of 2 "unat a"] a0 by auto
  have k64: "k < 64"
  proof (rule ccontr)
    assume "\<not> k < 64"
    then have "(2::nat) ^ 64 \<le> 2 ^ k" by (intro power_increasing) auto
    then show False using k(1) unsigned_less [of a, where 'a = nat] by simp
  qed
  have "unat a = 2 ^ k"
  proof (rule ccontr)
    assume "unat a \<noteq> 2 ^ k"
    then have "2 ^ k \<le> unat a - 1" "unat a - 1 < 2 ^ Suc k" using k by auto
    moreover have "unat (a - 1) = unat a - 1" using a0 by (simp add: unat_minus_one unat_gt_0)
    ultimately have "bit (unat (a - 1)) k" and "bit (unat a) k"
      using nat_bit_ivl [of k "unat a"] nat_bit_ivl [of k "unat (a - 1)"] k by simp_all
    then have "bit (a - 1) k" and "bit a k" by (simp_all only: bit_unsigned_iff)
    then have "bit (a AND (a - 1)) k" by (simp add: bit_and_iff)
    then show False using assms by (simp add: align_ispow2_def Let_def)
  qed
  then have "int (unat a) = 2 ^ k" by simp
  then have "uint a = uint (2 ^ k :: u64)" using k64 by (simp add: uint_2pow)
  then have "a = 2 ^ k" by (simp only: word_uint_eq_iff)
  with k64 show ?thesis by blast
qed

lemma and_not_mask: "(p :: u64) AND NOT (2 ^ k - 1) = push_bit k (drop_bit k p)"
proof -
  have m: "(2 ^ k - 1 :: u64) = mask k" by (simp add: mask_eq_exp_minus_1)
  show ?thesis unfolding m
    by (rule bit_word_eqI) (auto simp: bit_simps)
qed

lemma uint_align:
  assumes "k < 64"
  shows "uint ((p :: u64) AND NOT (2 ^ k - 1)) = uint p - uint p mod 2 ^ k"
proof -
  have "uint (push_bit k (drop_bit k p)) = take_bit 64 (uint p div 2 ^ k * 2 ^ k)"
    unfolding unsigned_push_bit_eq unsigned_drop_bit_eq
    using uint_lt2p [of p] by (simp add: push_bit_eq_mult drop_bit_eq_div take_bit_int_eq_self)
  also have "\<dots> = uint p div 2 ^ k * 2 ^ k"
  proof (rule take_bit_int_eq_self)
    show "0 \<le> uint p div 2 ^ k * 2 ^ k"
      by (simp add: pos_imp_zdiv_nonneg_iff)
    have "uint p div 2 ^ k * 2 ^ k \<le> uint p" by (simp add: minus_mod_eq_div_mult [symmetric])
    then show "uint p div 2 ^ k * 2 ^ k < 2 ^ 64" using uint_lt2p [of p] by simp
  qed
  finally show ?thesis by (simp add: and_not_mask minus_mod_eq_div_mult)
qed

lemma align_dn_spec:
  assumes "align_ispow2 a"
  shows "uint (align_dn p a) = uint p - uint p mod uint a"
  using ispow2_power [OF assms] by (auto simp: align_dn_def Let_def uint_align uint_2pow)

lemma align_up_spec:
  assumes "align_ispow2 a" and "uint p + uint a \<le> 2 ^ 64"
  shows "uint (align_up p a) = (uint p + uint a - 1) - (uint p + uint a - 1) mod uint a"
proof -
  obtain k where k: "k < 64" "a = 2 ^ k" using ispow2_power [OF assms(1)] by blast
  have a: "uint a = 2 ^ k" using k by (simp add: uint_2pow)
  have "uint (a - 1) = 2 ^ k - 1" using a uint_sub_if' [of a 1] by simp
  then have "uint (p + (a - 1)) = uint p + 2 ^ k - 1"
    using assms(2) a by (simp add: uint_add_carry)
  then show ?thesis using k a by (simp add: align_up_def Let_def uint_align)
qed

lemma align_isaligned_iff:
  assumes "align_ispow2 a"
  shows "align_isaligned p a \<longleftrightarrow> uint p mod uint a = 0"
proof -
  obtain k where k: "k < 64" "a = 2 ^ k" using ispow2_power [OF assms(1)] by blast
  have "uint (p AND (2 ^ k - 1)) = uint p mod 2 ^ k"
    by (simp add: unsigned_take_bit_eq flip: take_bit_eq_mask mask_eq_exp_minus_1 take_bit_eq_mod)
  then show ?thesis unfolding k(2) align_isaligned_def Let_def
    using k(1) by (simp add: uint_2pow word_uint_eq_iff)
qed

section \<open>Properties\<close>

text \<open> Averaging two integers of any width, signed or unsigned, computes exactly
  the floor of their mathematical average: the 64-bit routines, which add with wrap-around and put
  the lost carry or borrow back, never lose the 65th bit.\<close>

theorem avg_2_exact:
  "uint (avg_2_uint64 x y) = (uint x + uint y) div 2 \<and>
   sint (avg_2_int64 x y) = (sint x + sint y) div 2 \<and>
   uint (avg_2_uint32 a b) = (uint a + uint b) div 2 \<and>
   sint (avg_2_int32 a b) = (sint a + sint b) div 2 \<and>
   uint (avg_2_uint16 c d) = (uint c + uint d) div 2 \<and>
   sint (avg_2_int16 c d) = (sint c + sint d) div 2 \<and>
   uint (avg_2_uint8 e f) = (uint e + uint f) div 2 \<and>
   sint (avg_2_int8 e f) = (sint e + sint f) div 2"
  by (simp only: avg_2_uint64_floor avg_2_int64_floor avg_2_unsigned avg_2_signed simp_thms)

text \<open> The two integer hashes are permutations of their word types, fix 0,
  and the inverse routines of the source are their inverses on both sides.\<close>

theorem hash_permutation:
  "bij hash_uint64 \<and> inv hash_uint64 = hash_inverse_uint64 \<and> hash_uint64 0 = 0 \<and>
   bij hash_uint32 \<and> inv hash_uint32 = hash_inverse_uint32 \<and> hash_uint32 0 = 0"
proof -
  have "bij hash_uint64" "bij hash_uint32"
    by (rule o_bij [of hash_inverse_uint64] o_bij [of hash_inverse_uint32],
        simp_all add: fun_eq_iff hash_hash_inverse_uint64 hash_inverse_uint64_hash
          hash_hash_inverse_uint32 hash_inverse_uint32_hash)+
  moreover have "inv hash_uint64 = hash_inverse_uint64" "inv hash_uint32 = hash_inverse_uint32"
    by (rule inv_unique_comp; simp add: fun_eq_iff hash_hash_inverse_uint64 hash_inverse_uint64_hash
        hash_hash_inverse_uint32 hash_inverse_uint32_hash)+
  ultimately show ?thesis by (simp add: hash_uint64_def hash_uint32_def)
qed

lemma ceil_multiple_least:
  fixes p a c :: int
  assumes "0 < a" and "p \<le> q" and "q mod a = 0"
  shows "(p + a - 1) - (p + a - 1) mod a \<le> q"
proof -
  obtain c where q: "q = c * a" using assms(3) by (metis mod_0_imp_dvd dvdE mult.commute)
  have "(p + a - 1) div a \<le> (c * a + (a - 1)) div a"
    using assms q by (intro zdiv_mono1) auto
  also have "\<dots> = c" using assms(1) by (simp add: div_add1_eq)
  finally have "(p + a - 1) div a * a \<le> c * a"
    using assms(1) by (intro mult_right_mono) auto
  then show ?thesis by (simp add: q minus_mod_eq_div_mult)
qed

text \<open> For a power-of-two alignment, and when the padded address does not wrap
  around the address space, \<open>align_up\<close> returns the least aligned address at or after the pointer.\<close>

theorem align_up_least:
  assumes "align_ispow2 a" and "uint p + uint a \<le> 2 ^ 64"
  shows "align_isaligned (align_up p a) a \<and> p \<le> align_up p a \<and>
    (\<forall>q. align_isaligned q a \<longrightarrow> p \<le> q \<longrightarrow> align_up p a \<le> q)"
proof -
  have a: "0 < uint a" using ispow2_power [OF assms(1)] by (auto simp: uint_2pow)
  note up = align_up_spec [OF assms]
  have "uint (align_up p a) mod uint a = 0" by (simp add: up minus_mod_eq_div_mult)
  moreover have "uint p \<le> uint (align_up p a)"
    using pos_mod_bound [OF a, of "uint p + uint a - 1"] by (simp add: up)
  moreover have "uint (align_up p a) \<le> uint q" if "uint q mod uint a = 0" "uint p \<le> uint q" for q :: u64
    unfolding up by (rule ceil_multiple_least [OF a that(2,1)])
  ultimately show ?thesis
    by (auto simp: align_isaligned_iff [OF assms(1)] word_le_def)
qed

theorem align_up_least_witness:
  "align_ispow2 8 \<and> uint (13 :: u64) + uint (8 :: u64) \<le> 2 ^ 64 \<and>
   align_isaligned (align_up 13 8) 8 \<and> 13 \<le> align_up 13 8 \<and> align_up 13 8 = 16"
proof -
  have h: "align_ispow2 8" "uint (13 :: u64) + uint (8 :: u64) \<le> 2 ^ 64"
    by (simp_all add: align_ispow2_def)
  show ?thesis using h align_up_least [OF h] by (simp add: align_up_def)
qed

end
