(* ===== verification/Sort_Stable.thy ===== *)
theory Sort_Stable
  imports Pyth_Prelude
begin

text \<open>
  The stable sort template of the oracle, \<open>program/c/src/oracle/sort/tmpl\<close>: an insertion sorting
  network for up to seven keys (\<open>sort_stable_base.c\<close>) below a merge sort that moves its data back
  and forth between the key array and a scratch array (\<open>sort_stable.c\<close>).

  The two arrays are modelled as two buffers of a memory; every access is checked, \<open>None\<close> being an
  access outside the array.  The sort therefore comes with a memory-safety result, and with the
  aliasing argument of the source's comment ("yr might overlap with the location for merge output
  but this will still work in that case").  \<open>SORT_BEFORE\<close> is the parameter \<open>before\<close>.
\<close>

section \<open>Memory\<close>

datatype buf = Key | Scratch

type_synonym 'k mem = "buf \<Rightarrow> 'k list"

definition rd :: "'k list \<Rightarrow> nat \<Rightarrow> 'k option" where
  "rd A i = (if i < length A then Some (A ! i) else None)"

definition wr :: "'k list \<Rightarrow> nat \<Rightarrow> 'k \<Rightarrow> 'k list option" where
  "wr A i v = (if i < length A then Some (A[i := v]) else None)"

section \<open>Base cases: sort\_stable\_base.c\<close>

definition SORT_STABLE_CE :: "('k \<Rightarrow> 'k \<Rightarrow> bool) \<Rightarrow> nat \<Rightarrow> nat \<Rightarrow> 'k list \<Rightarrow> 'k list option" where
  "SORT_STABLE_CE before i j A =
     do { u \<leftarrow> rd A i; v \<leftarrow> rd A j;
          let c = before v u;
          A \<leftarrow> wr A i (if c then v else u);
          wr A j (if c then u else v) }"

text \<open>One line of the switch: the comparators \<open>(0,1)\<close> to \<open>(n-2,n-1)\<close>; \<open>x\<close> is the address of the
  first key.\<close>

fun ce_pass :: "('k \<Rightarrow> 'k \<Rightarrow> bool) \<Rightarrow> nat \<Rightarrow> nat \<Rightarrow> 'k list \<Rightarrow> 'k list option" where
  "ce_pass before x 0 A = Some A"
| "ce_pass before x (Suc c) A =
     do { A \<leftarrow> SORT_STABLE_CE before x (x + 1) A; ce_pass before (x + 1) c A }"

text \<open>The switch with its fall-through: case \<open>n\<close> is a line followed by case \<open>n - 1\<close>; cases 1 and 0
  return.\<close>

fun sort_stable_base :: "('k \<Rightarrow> 'k \<Rightarrow> bool) \<Rightarrow> nat \<Rightarrow> nat \<Rightarrow> 'k list \<Rightarrow> 'k list option" where
  "sort_stable_base before x 0 A = Some A"
| "sort_stable_base before x (Suc 0) A = Some A"
| "sort_stable_base before x (Suc (Suc n)) A =
     do { A \<leftarrow> ce_pass before x (Suc n) A; sort_stable_base before x (Suc n) A }"

section \<open>Merging: sort\_stable.c\<close>

text \<open>The straggler loops \<open>do x[i++] = y[j++]; while( j<n );\<close>, with \<open>x\<close> and \<open>y\<close> the addresses of the
  output and of the source in their buffers.\<close>

function stragglers :: "'k mem \<Rightarrow> buf \<Rightarrow> nat \<Rightarrow> nat \<Rightarrow> buf \<Rightarrow> nat \<Rightarrow> nat \<Rightarrow> nat \<Rightarrow> 'k mem option" where
  "stragglers m out x i src y j n =
     do { v \<leftarrow> rd (m src) (y + j);
          A \<leftarrow> wr (m out) (x + i) v;
          let m = m(out := A);
          if j + 1 < n then stragglers m out x (i + 1) src y (j + 1) n else Some m }"
  by pat_completeness auto
termination
  by (relation "measure (\<lambda>(m, out, x, i, src, y, j, n). n - j)") auto

declare stragglers.simps [simp del]

function merge_loop :: "('k \<Rightarrow> 'k \<Rightarrow> bool) \<Rightarrow> 'k mem \<Rightarrow> buf \<Rightarrow> nat \<Rightarrow> nat \<Rightarrow> buf \<Rightarrow> nat \<Rightarrow> nat \<Rightarrow> nat
    \<Rightarrow> buf \<Rightarrow> nat \<Rightarrow> nat \<Rightarrow> nat \<Rightarrow> 'k mem option" where
  "merge_loop before m out x i bl yl j nl br yr k nr =
     do { r \<leftarrow> rd (m br) (yr + k);
          l \<leftarrow> rd (m bl) (yl + j);
          if before r l then do {
            A \<leftarrow> wr (m out) (x + i) r;
            let m = m(out := A);
            if k + 1 \<ge> nr then stragglers m out x (i + 1) bl yl j nl
            else merge_loop before m out x (i + 1) bl yl j nl br yr (k + 1) nr }
          else do {
            A \<leftarrow> wr (m out) (x + i) l;
            let m = m(out := A);
            if j + 1 \<ge> nl then stragglers m out x (i + 1) br yr k nr
            else merge_loop before m out x (i + 1) bl yl (j + 1) nl br yr k nr } }"
  by pat_completeness auto
termination
  by (relation "measure (\<lambda>(before, m, out, x, i, bl, yl, j, nl, br, yr, k, nr). (nl - j) + (nr - k))")
    auto

declare merge_loop.simps [simp del]

text \<open>\<open>stable_node\<close> sorts the \<open>n\<close> keys at address \<open>x\<close> of the key array, with the scratch array at the
  same address, and returns the buffer that holds the result.\<close>

function stable_node :: "('k \<Rightarrow> 'k \<Rightarrow> bool) \<Rightarrow> 'k mem \<Rightarrow> nat \<Rightarrow> nat \<Rightarrow> ('k mem \<times> buf) option" where
  "stable_node before m x n =
     (if n \<le> 7 then do { A \<leftarrow> sort_stable_base before x n (m Key); Some (m(Key := A), Key) }
      else let nl = drop_bit 1 n; nr = n - nl in
        do { (m, bl) \<leftarrow> stable_node before m x nl;
             (m, br) \<leftarrow> stable_node before m (x + nl) nr;
             let out = (if bl = Key then Scratch else Key);
             m \<leftarrow> merge_loop before m out x 0 bl x 0 nl br (x + nl) 0 nr;
             Some (m, out) })"
  by pat_completeness auto
termination
  by (relation "measure (\<lambda>(before, m, x, n). n)") (auto simp: drop_bit_eq_div)

declare stable_node.simps [simp del]

definition stable :: "('k \<Rightarrow> 'k \<Rightarrow> bool) \<Rightarrow> 'k list \<Rightarrow> nat \<Rightarrow> 'k list \<Rightarrow> ('k mem \<times> buf) option" where
  "stable before key cnt scratch = stable_node before (case_buf key scratch) 0 cnt"

section \<open>The network is a stable sort\<close>

fun bub :: "('k \<Rightarrow> 'k \<Rightarrow> bool) \<Rightarrow> 'k list \<Rightarrow> 'k list" where
  "bub before (u # v # r) = (if before v u then v # bub before (u # r) else u # bub before (v # r))"
| "bub before xs = xs"

lemma length_bub [simp]: "length (bub before xs) = length xs"
  by (induction before xs rule: bub.induct) auto

lemma mset_bub [simp]: "mset (bub before xs) = mset xs"
  by (induction before xs rule: bub.induct) auto

lemma filter_bub: "filter (\<lambda>x. c = f x) (bub (\<lambda>u v. f u < f v) xs) = filter (\<lambda>x. (c :: 'o::linorder) = f x) xs"
  by (induction "\<lambda>u v. f u < f v" xs rule: bub.induct) auto

lemma filter_sort_key: "filter (\<lambda>x. c = f x) (sort_key f xs) = filter (\<lambda>x. (c :: 'o::linorder) = f x) xs"
  using sort_key_stable [of f c xs] by (simp add: eq_commute)

lemma bub_Nil [simp]: "bub before xs = [] \<longleftrightarrow> xs = []"
  by (metis length_0_conv length_bub)

lemma last_bub: "x \<in> set xs \<Longrightarrow> f x \<le> (f (last (bub (\<lambda>u v. f u < f v) xs)) :: 'o::linorder)"
proof (induction "\<lambda>u v. f u < f v" xs arbitrary: x rule: bub.induct)
  case (1 u v r)
  show ?case
  proof (cases "f v < f u")
    case True
    then have "f y \<le> f (last (bub (\<lambda>u v. f u < f v) (u # r)))" if "y \<in> set (u # r)" for y
      using 1(1) that by blast
    with True 1(3) show ?thesis by (auto intro: order_trans [OF less_imp_le])
  next
    case False
    then have "f y \<le> f (last (bub (\<lambda>u v. f u < f v) (v # r)))" if "y \<in> set (v # r)" for y
      using 1(2) that by blast
    with False 1(3) show ?thesis by (auto simp: not_less intro: order_trans)
  qed
qed auto

lemma SORT_STABLE_CE_eq:
  assumes "length P = x"
  shows "SORT_STABLE_CE before x (x + 1) (P @ u # v # Q)
     = Some (P @ (if before v u then v # u # Q else u # v # Q))"
  using assms by (auto simp: SORT_STABLE_CE_def rd_def wr_def nth_append list_update_append)

lemma ce_pass_eq: "length P = x \<Longrightarrow> length xs = Suc c \<Longrightarrow>
   ce_pass before x c (P @ xs @ Q) = Some (P @ bub before xs @ Q)"
proof (induction before xs arbitrary: P x c rule: bub.induct)
  case (1 before u v r)
  then obtain c' where c: "c = Suc c'" "length r = c'" by auto
  show ?case
    using 1(1) [of "P @ [v]" "Suc x" c'] 1(2) [of "P @ [u]" "Suc x" c'] 1(3) c
      SORT_STABLE_CE_eq [of P x before u v "r @ Q"]
    by auto
qed auto

lemma sort_stable_base_eq:
  "length P = x \<Longrightarrow> sort_stable_base (\<lambda>u v. f u < f v) x (length xs) (P @ xs @ Q)
     = Some (P @ sort_key (f :: 'k \<Rightarrow> 'o::linorder) xs @ Q)"
proof (induction "length xs" arbitrary: xs Q rule: less_induct)
  case less
  show ?case
  proof (cases "length xs < 2")
    case True
    then show ?thesis by (cases xs rule: list.exhaust; cases "tl xs") auto
  next
    case False
    let ?b = "\<lambda>u v. f u < f v"
    define ys where "ys = bub ?b xs"
    obtain n where n: "length xs = Suc (Suc n)"
      using False by (metis add_2_eq_Suc le_Suc_ex not_less)
    have ys: "length ys = Suc (Suc n)" "ys \<noteq> []" using n by (auto simp: ys_def)
    have yQ: "butlast ys @ last ys # Q = ys @ Q"
      using append_butlast_last_id [OF ys(2)] by (metis append.assoc append_Cons append_Nil)
    have "sort_stable_base ?b x (length xs) (P @ xs @ Q) = sort_stable_base ?b x (Suc n) (P @ butlast ys @ last ys # Q)"
      using ce_pass_eq [OF less.prems n, of ?b Q] ys n
      by (simp add: yQ) (simp add: ys_def)
    also have "\<dots> = Some (P @ sort_key f (butlast ys) @ last ys # Q)"
      using less.hyps [of "butlast ys" "last ys # Q"] less.prems ys n by simp
    finally have eq: "sort_stable_base ?b x (length xs) (P @ xs @ Q) = Some (P @ sort_key f (butlast ys) @ last ys # Q)" .
    have "sort_key f (butlast ys) @ [last ys] = sort_key f xs"
    proof (rule sym, rule properties_for_sort_key)
      show "mset (sort_key f (butlast ys) @ [last ys]) = mset xs"
        using ys append_butlast_last_id [of ys] mset_bub [of ?b xs]
        by (metis mset_append mset_sort ys_def)
      show "filter (\<lambda>x. f c = f x) (sort_key f (butlast ys) @ [last ys]) = filter (\<lambda>x. f c = f x) xs" for c
        using ys append_butlast_last_id [of ys] filter_bub [of "f c" f xs]
        by (metis filter_append filter_sort_key ys_def)
      show "sorted (map f (sort_key f (butlast ys) @ [last ys]))"
        using last_bub [of _ xs f] mset_eq_setD [OF mset_bub [of ?b xs]]
        by (auto simp: sorted_append ys_def dest!: in_set_butlastD)
    qed
    then have "sort_key f (butlast ys) @ last ys # Q = sort_key f xs @ Q"
      by (metis append.assoc append_Cons append_Nil)
    with eq show ?thesis by simp
  qed
qed

section \<open>Merging\<close>

fun mrg :: "('k \<Rightarrow> 'k \<Rightarrow> bool) \<Rightarrow> 'k list \<Rightarrow> 'k list \<Rightarrow> 'k list" where
  "mrg before (l # ls) (r # rs) = (if before r l then r # mrg before (l # ls) rs else l # mrg before ls (r # rs))"
| "mrg before [] rs = rs"
| "mrg before ls [] = ls"

lemma mrg_Nil2 [simp]: "mrg before ls [] = ls"
  by (cases ls) auto

lemma length_mrg [simp]: "length (mrg before ls rs) = length ls + length rs"
  by (induction before ls rs rule: mrg.induct) auto

lemma mset_mrg [simp]: "mset (mrg before ls rs) = mset ls + mset rs"
  by (induction before ls rs rule: mrg.induct) auto

lemma set_mrg [simp]: "set (mrg before ls rs) = set ls \<union> set rs"
  by (induction before ls rs rule: mrg.induct) auto

lemma sorted_mrg: "sorted (map f ls) \<Longrightarrow> sorted (map f rs) \<Longrightarrow>
   sorted (map f (mrg (\<lambda>u v. f u < (f v :: 'o::linorder)) ls rs))"
  by (induction "\<lambda>u v. f u < f v" ls rs rule: mrg.induct) (auto simp: not_less intro: order_trans less_imp_le)

lemma filter_mrg: "sorted (map f ls) \<Longrightarrow> sorted (map f rs) \<Longrightarrow>
   filter (\<lambda>x. c = f x) (mrg (\<lambda>u v. f u < (f v :: 'o::linorder)) ls rs)
     = filter (\<lambda>x. c = f x) ls @ filter (\<lambda>x. c = f x) rs"
proof (induction "\<lambda>u v. f u < f v" ls rs rule: mrg.induct)
  case (1 l ls r rs)
  show ?case
  proof (cases "f r < f l")
    case True
    then have "filter (\<lambda>x. c = f x) (l # ls) = []" if "c = f r"
      using 1(3) that by (force simp: filter_empty_conv)
    with True 1 show ?thesis by auto
  qed (use 1 in auto)
qed auto

text \<open>Merging two stably sorted halves, the left one first on ties, sorts the whole stably.\<close>

lemma mrg_sort_key:
  "mrg (\<lambda>u v. f u < (f v :: 'o::linorder)) (sort_key f ls) (sort_key f rs) = sort_key f (ls @ rs)"
  by (rule sym, rule properties_for_sort_key) (auto simp: sorted_mrg filter_mrg filter_sort_key)

lemma stragglers_eq:
  assumes "j < n" "y + n \<le> length (m src)" "x + i + (n - j) \<le> length (m out)"
    and "src = out \<Longrightarrow> x + i \<le> y + j"
  shows "stragglers m out x i src y j n =
    Some (m(out := take (x + i) (m out) @ take (n - j) (drop (y + j) (m src)) @ drop (x + i + (n - j)) (m out)))"
  using assms
proof (induction m out x i src y j n rule: stragglers.induct)
  case (1 m out x i src y j n)
  let ?v = "m src ! (y + j)"
  let ?m = "m(out := (m out)[x + i := ?v])"
  have r: "rd (m src) (y + j) = Some ?v" "wr (m out) (x + i) ?v = Some ((m out)[x + i := ?v])"
    using 1(2-4) by (auto simp: rd_def wr_def)
  have one: "stragglers m out x i src y j n = (if j + 1 < n then stragglers ?m out x (i + 1) src y (j + 1) n else Some ?m)"
    by (subst stragglers.simps) (simp add: r)
  have t: "take (n - j) (drop (y + j) (m src)) = ?v # take (n - (j + 1)) (drop (y + (j + 1)) (m src))"
    using 1(2,3) by (simp add: Cons_nth_drop_Suc [symmetric] take_Cons' Suc_diff_Suc)
  have tk: "take (x + (i + 1)) (?m out) = take (x + i) (m out) @ [?v]"
    using 1(2,4) by (simp add: take_Suc_conv_app_nth)
  have dp: "drop (x + (i + 1) + (n - (j + 1))) (?m out) = drop (x + i + (n - j)) (m out)"
  proof -
    have "x + (i + 1) + (n - (j + 1)) = x + i + (n - j)" using 1(2) by simp
    moreover have "x + i < x + i + (n - j)" using 1(2) by simp
    ultimately show ?thesis by simp
  qed
  have src: "take k (drop (y + (j + 1)) (?m src)) = take k (drop (y + (j + 1)) (m src))" for k
    using 1(5) by auto
  show ?case
  proof (cases "j + 1 < n")
    case True
    have "stragglers ?m out x (i + 1) src y (j + 1) n = Some (?m(out := take (x + (i + 1)) (?m out)
        @ take (n - (j + 1)) (drop (y + (j + 1)) (?m src)) @ drop (x + (i + 1) + (n - (j + 1))) (?m out)))"
      using True 1(3-5) by (intro 1(1) [OF r refl]) auto
    with True one show ?thesis unfolding tk dp src t by (auto simp: fun_eq_iff)
  next
    case False
    with 1(2) have n: "n = j + 1" by simp
    then have "take (Suc 0) (drop (y + j) (m src)) = [?v]" using t by simp
    then show ?thesis using one 1(4) n
      by (auto simp: upd_conv_take_nth_drop fun_eq_iff)
  qed
qed

lemma merge_loop_eq:
  fixes before :: "'k \<Rightarrow> 'k \<Rightarrow> bool"
  assumes "j < nl" "k < nr" "bl \<noteq> out"
    and "yl + nl \<le> length (m bl)" "yr + nr \<le> length (m br)" "x + i + (nl - j) + (nr - k) \<le> length (m out)"
    and "br = out \<Longrightarrow> x + i + (nl - j) \<le> yr + k"
  shows "merge_loop before m out x i bl yl j nl br yr k nr = Some (m(out := take (x + i) (m out)
      @ mrg before (take (nl - j) (drop (yl + j) (m bl))) (take (nr - k) (drop (yr + k) (m br)))
      @ drop (x + i + (nl - j) + (nr - k)) (m out)))"
  using assms
proof (induction before m out x i bl yl j nl br yr k nr rule: merge_loop.induct)
  case (1 before m out x i bl yl j nl br yr k nr)
  note IHr = 1(1) and IHl = 1(2) and pre = 1(3-9)
  let ?l = "m bl ! (yl + j)" and ?r = "m br ! (yr + k)"
  let ?L = "\<lambda>j. take (nl - j) (drop (yl + j) (m bl))" and ?R = "\<lambda>k. take (nr - k) (drop (yr + k) (m br))"
  let ?m = "\<lambda>v. m(out := (m out)[x + i := v])"
  have rds: "rd (m br) (yr + k) = Some ?r" "rd (m bl) (yl + j) = Some ?l"
    "\<And>v. wr (m out) (x + i) v = Some ((m out)[x + i := v])"
    using pre by (auto simp: rd_def wr_def)
  have Lj: "?L j = ?l # ?L (j + 1)" and Rk: "?R k = ?r # ?R (k + 1)"
    using pre by (simp_all add: Cons_nth_drop_Suc [symmetric] take_Cons' Suc_diff_Suc)
  have tk: "take (x + (i + 1)) (?m v out) = take (x + i) (m out) @ [v]" for v
    using pre by (simp add: take_Suc_conv_app_nth)
  have dp: "drop a (?m v out) = drop a (m out)" if "x + i < a" for a v
    using that by simp
  have bl: "?m v bl = m bl" for v using pre(3) by simp
  have br: "drop a (?m v br) = drop a (m br)" if "x + i < a \<or> br \<noteq> out" for a v
    using that by auto
  show ?case
  proof (cases "before ?r ?l")
    case True
    then have one: "merge_loop before m out x i bl yl j nl br yr k nr =
      (if k + 1 \<ge> nr then stragglers (?m ?r) out x (i + 1) bl yl j nl
       else merge_loop before (?m ?r) out x (i + 1) bl yl j nl br yr (k + 1) nr)"
      by (subst merge_loop.simps) (simp add: rds)
    show ?thesis
    proof (cases "k + 1 \<ge> nr")
      case True
      with pre have n: "nr = k + 1" by simp
      have "stragglers (?m ?r) out x (i + 1) bl yl j nl = Some ((?m ?r)(out := take (x + (i + 1)) (?m ?r out)
          @ take (nl - j) (drop (yl + j) (?m ?r bl)) @ drop (x + (i + 1) + (nl - j)) (?m ?r out)))"
        using pre n by (intro stragglers_eq) auto
      moreover have "take (Suc 0) (drop (yr + k) (m br)) = [?r]" using Rk n by simp
      ultimately show ?thesis using one True \<open>before ?r ?l\<close>
        unfolding tk bl using n by (auto simp: Lj Rk fun_eq_iff)
    next
      case False
      have "merge_loop before (?m ?r) out x (i + 1) bl yl j nl br yr (k + 1) nr = Some ((?m ?r)(out := take (x + (i + 1)) (?m ?r out)
          @ mrg before (take (nl - j) (drop (yl + j) (?m ?r bl))) (take (nr - (k + 1)) (drop (yr + (k + 1)) (?m ?r br)))
          @ drop (x + (i + 1) + (nl - j) + (nr - (k + 1))) (?m ?r out)))"
        using pre False by (intro IHr [OF rds(1,2) True rds(3) refl False]) auto
      moreover have "x + (i + 1) + (nl - j) + (nr - (k + 1)) = x + i + (nl - j) + (nr - k)"
        using pre by simp
      moreover have "drop (yr + (k + 1)) (?m ?r br) = drop (yr + (k + 1)) (m br)"
        using pre by (intro br) auto
      moreover have "drop (x + i + (nl - j) + (nr - k)) (?m ?r out) = drop (x + i + (nl - j) + (nr - k)) (m out)"
        using pre by (intro dp) auto
      ultimately show ?thesis using one False \<open>before ?r ?l\<close>
        by (simp only: tk bl Lj Rk mrg.simps if_True if_False) (auto simp: fun_eq_iff)
    qed
  next
    case False
    then have one: "merge_loop before m out x i bl yl j nl br yr k nr =
      (if j + 1 \<ge> nl then stragglers (?m ?l) out x (i + 1) br yr k nr
       else merge_loop before (?m ?l) out x (i + 1) bl yl (j + 1) nl br yr k nr)"
      by (subst merge_loop.simps) (simp add: rds)
    have brk: "drop (yr + k) (?m ?l br) = drop (yr + k) (m br)"
      using pre by (intro br) auto
    show ?thesis
    proof (cases "j + 1 \<ge> nl")
      case True
      with pre have n: "nl = j + 1" by simp
      have "stragglers (?m ?l) out x (i + 1) br yr k nr = Some ((?m ?l)(out := take (x + (i + 1)) (?m ?l out)
          @ take (nr - k) (drop (yr + k) (?m ?l br)) @ drop (x + (i + 1) + (nr - k)) (?m ?l out)))"
        using pre n by (intro stragglers_eq) auto
      moreover have "take (Suc 0) (drop (yl + j) (m bl)) = [?l]" using Lj n by simp
      ultimately show ?thesis using one True \<open>\<not> before ?r ?l\<close>
        unfolding tk brk using n by (auto simp: Lj Rk fun_eq_iff)
    next
      case j: False
      have "merge_loop before (?m ?l) out x (i + 1) bl yl (j + 1) nl br yr k nr = Some ((?m ?l)(out := take (x + (i + 1)) (?m ?l out)
          @ mrg before (take (nl - (j + 1)) (drop (yl + (j + 1)) (?m ?l bl))) (take (nr - k) (drop (yr + k) (?m ?l br)))
          @ drop (x + (i + 1) + (nl - (j + 1)) + (nr - k)) (?m ?l out)))"
        using pre j by (intro IHl [OF rds(1,2) False rds(3) refl j]) auto
      moreover have "x + (i + 1) + (nl - (j + 1)) + (nr - k) = x + i + (nl - j) + (nr - k)"
        using pre by simp
      moreover have "drop (x + i + (nl - j) + (nr - k)) (?m ?l out) = drop (x + i + (nl - j) + (nr - k)) (m out)"
        using pre by (intro dp) auto
      ultimately show ?thesis using one j \<open>\<not> before ?r ?l\<close>
        by (simp only: tk bl brk Lj Rk mrg.simps if_True if_False) (auto simp: fun_eq_iff)
    qed
  qed
qed

section \<open>The whole sort\<close>

definition frame :: "nat \<Rightarrow> nat \<Rightarrow> 'k mem \<Rightarrow> 'k mem \<Rightarrow> bool" where
  "frame x n m m' \<longleftrightarrow> (\<forall>c. length (m' c) = length (m c) \<and> take x (m' c) = take x (m c) \<and>
     drop (x + n) (m' c) = drop (x + n) (m c))"

lemma frameD:
  assumes "frame x n m m'"
  shows "length (m' c) = length (m c)" "take x (m' c) = take x (m c)" "drop (x + n) (m' c) = drop (x + n) (m c)"
  using assms by (auto simp: frame_def)

lemma drop_eq_mono: "drop a A = drop a B \<Longrightarrow> a \<le> b \<Longrightarrow> drop b A = drop b B"
  by (metis drop_drop le_add_diff_inverse2)

lemma take_eq_mono: "take a A = take a B \<Longrightarrow> b \<le> a \<Longrightarrow> take b A = take b B"
  by (metis min.absorb1 take_take)

lemma stable_node_eq:
  fixes f :: "'k \<Rightarrow> 'o::linorder"
  assumes "x + n \<le> length (m Key)" "x + n \<le> length (m Scratch)"
  shows "\<exists>m' b. stable_node (\<lambda>u v. f u < f v) m x n = Some (m', b) \<and>
     take n (drop x (m' b)) = sort_key f (take n (drop x (m Key))) \<and> frame x n m m'"
  using assms
proof (induction "\<lambda>u v. f u < f v" m x n rule: stable_node.induct)
  case (1 m x n)
  let ?b = "\<lambda>u v. f u < f v"
  show ?case
  proof (cases "n \<le> 7")
    case True
    let ?s = "take n (drop x (m Key))"
    have split: "m Key = take x (m Key) @ ?s @ drop (x + n) (m Key)"
      by (metis add.commute append_take_drop_id drop_drop)
    have len: "length (take x (m Key)) = x" "length ?s = n" using 1(3) by auto
    have "sort_stable_base ?b x n (m Key) = Some (take x (m Key) @ sort_key f ?s @ drop (x + n) (m Key))"
      using sort_stable_base_eq [OF len(1), of f ?s "drop (x + n) (m Key)"] split len(2) by simp
    then have "stable_node ?b m x n = Some (m(Key := take x (m Key) @ sort_key f ?s @ drop (x + n) (m Key)), Key)"
      using True by (simp add: stable_node.simps)
    then show ?thesis using len 1(3) by (auto simp: frame_def)
  next
    case False
    define nl nr where "nl = n div 2" and "nr = n - nl"
    have nn: "drop_bit 1 n = nl" "n = nl + nr" "0 < nl" "0 < nr"
      using False by (auto simp: nl_def nr_def drop_bit_eq_div)
    obtain m1 bl where l: "stable_node ?b m x nl = Some (m1, bl)"
        "take nl (drop x (m1 bl)) = sort_key f (take nl (drop x (m Key)))" "frame x nl m m1"
      using 1(1) [OF False nn(1) [symmetric] nr_def] 1(3,4) nn by auto
    obtain m2 br where r: "stable_node ?b m1 (x + nl) nr = Some (m2, br)"
        "take nr (drop (x + nl) (m2 br)) = sort_key f (take nr (drop (x + nl) (m1 Key)))"
        "frame (x + nl) nr m1 m2"
      using 1(2) [OF False nn(1) [symmetric] nr_def l(1) refl] 1(3,4) nn frameD(1) [OF l(3)]
      by (auto simp: add.assoc)
    define out where "out = (if bl = Key then Scratch else Key)"
    have len: "length (m2 c) = length (m c)" "x + n \<le> length (m c)" for c
      using frameD(1) [OF l(3)] frameD(1) [OF r(3)] 1(3,4) by (cases c; simp)+
    have ml: "take nl (drop x (m2 bl)) = sort_key f (take nl (drop x (m Key)))"
      using frameD(2) [OF r(3), of bl] l(2) by (metis add.commute drop_take add_diff_cancel_left')
    have mr: "take nr (drop (x + nl) (m2 br)) = sort_key f (take nr (drop (x + nl) (m Key)))"
      using frameD(3) [OF l(3), of Key] r(2) by simp
    let ?M = "mrg ?b (take nl (drop x (m2 bl))) (take nr (drop (x + nl) (m2 br)))"
    have M: "?M = sort_key f (take n (drop x (m Key)))"
      unfolding ml mr mrg_sort_key by (simp add: nn(2) take_add add.commute)
    have lM: "length ?M = n" using 1(3) by (simp add: M)
    have "merge_loop ?b m2 out x 0 bl x 0 nl br (x + nl) 0 nr = Some (m2(out := take (x + 0) (m2 out)
      @ mrg ?b (take (nl - 0) (drop (x + 0) (m2 bl))) (take (nr - 0) (drop (x + nl + 0) (m2 br)))
      @ drop (x + 0 + (nl - 0) + (nr - 0)) (m2 out)))"
      using nn len [of bl] len [of br] len [of out] by (intro merge_loop_eq) (auto simp: out_def)
    then have g: "merge_loop ?b m2 out x 0 bl x 0 nl br (x + nl) 0 nr
      = Some (m2(out := take x (m2 out) @ ?M @ drop (x + n) (m2 out)))"
      by (simp add: nn(2) add.assoc)
    let ?m = "m2(out := take x (m2 out) @ ?M @ drop (x + n) (m2 out))"
    have "stable_node ?b m x n = Some (?m, out)"
      using False nn(1) l(1) r(1) g by (subst stable_node.simps) (simp add: Let_def nr_def [symmetric] out_def [symmetric])
    moreover have "take n (drop x (?m out)) = sort_key f (take n (drop x (m Key)))"
      using len [of out] lM M by simp
    moreover have "frame x n m ?m"
    proof -
      have "frame x n m m2"
        unfolding frame_def
        using frameD [OF l(3)] frameD [OF r(3)] nn(2) take_eq_mono [OF frameD(2) [OF r(3)], of x]
        by (auto simp: add.assoc intro: drop_eq_mono [where a = "x + nl"])
      then show ?thesis using lM len [of out] by (auto simp: frame_def)
    qed
    ultimately show ?thesis by blast
  qed
qed

text \<open>(C19) Given room for \<open>cnt\<close> keys in both arrays, the sort never touches memory
  outside them, and the buffer it returns holds the first \<open>cnt\<close> keys in ascending order, equal keys
  in their input order; the rest of both arrays is untouched.\<close>

theorem stable_sorts:
  fixes f :: "'k \<Rightarrow> 'o::linorder"
  assumes "cnt \<le> length key" and "cnt \<le> length scratch"
  shows "\<exists>m b. stable (\<lambda>u v. f u < f v) key cnt scratch = Some (m, b) \<and>
     take cnt (m b) = sort_key f (take cnt key) \<and>
     drop cnt (m Key) = drop cnt key \<and> drop cnt (m Scratch) = drop cnt scratch"
  using stable_node_eq [of 0 cnt "case_buf key scratch" f] assms
  by (fastforce simp: stable_def frame_def)

theorem stable_sorts_witness:
  "8 \<le> length [5, 3, 9, 1, 3, 7, 2, 8 :: int] \<and> 8 \<le> length (replicate 8 (0 :: int)) \<and>
   (\<exists>m b. stable (\<lambda>u v. id u < id v) [5, 3, 9, 1, 3, 7, 2, 8 :: int] 8 (replicate 8 0) = Some (m, b) \<and>
      take 8 (m b) = [1, 2, 3, 3, 5, 7, 8, 9])"
proof -
  let ?k = "[5, 3, 9, 1, 3, 7, 2, 8 :: int]"
  have h: "8 \<le> length ?k" "8 \<le> length (replicate 8 (0 :: int))" by simp_all
  moreover have "sort_key id (take 8 ?k) = [1, 2, 3, 3, 5, 7, 8, 9]" by simp
  ultimately show ?thesis using stable_sorts [OF h, of id] by auto
qed

end
