(* ===== verification/Price_Model.thy ===== *)
theory Price_Model
  imports Int_Util Sort_Stable
begin

unbundle bit_operations_syntax

text \<open>
  The aggregate price model, \<open>program/c/src/oracle/model\<close>: the quotes are sorted with the stable
  sort of \<open>Sort_Stable\<close> and the quartiles are read off the sorted array.  Quotes are \<open>int64_t\<close>
  values, here integers in the range \<^const>\<open>in_s64\<close>.
\<close>

section \<open>Sizes\<close>

text \<open>\<open>sizeof(int64_t)\<close> and \<open>alignof(int64_t)\<close> are 8; counts are \<open>uint64_t\<close>.\<close>

definition price_model_quote_min :: u64 where
  "price_model_quote_min = 1"

definition price_model_quote_max :: u64 where
  "price_model_quote_max = (- 1 - 8 + 1) div 8"

definition price_model_cnt_valid :: "u64 \<Rightarrow> bool" where
  "price_model_cnt_valid cnt \<longleftrightarrow> price_model_quote_min \<le> cnt \<and> cnt \<le> price_model_quote_max"

definition price_model_scratch_footprint :: "u64 \<Rightarrow> u64" where
  "price_model_scratch_footprint cnt = cnt * 8 + 8 - 1"

definition int64_sort_ascending_stable_cnt_valid :: "u64 \<Rightarrow> bool" where
  "int64_sort_ascending_stable_cnt_valid cnt =
     (let max = (- 1 - 8 + 1) div 8 in cnt = 0 \<or> (0 < cnt \<and> cnt < max) \<or> cnt = max)"

definition int64_sort_ascending_stable_scratch_footprint :: "u64 \<Rightarrow> u64" where
  "int64_sort_ascending_stable_scratch_footprint cnt =
     (if \<not> int64_sort_ascending_stable_cnt_valid cnt then 0 else 8 * cnt + 8 - 1)"

section \<open>The model\<close>

definition int64_sort_ascending_stable :: "int list \<Rightarrow> nat \<Rightarrow> int list \<Rightarrow> (int mem \<times> buf) option" where
  "int64_sort_ascending_stable = stable (\<lambda>u v. u < v)"

definition avg_2_s64 :: "int \<Rightarrow> int \<Rightarrow> int" where
  "avg_2_s64 x y = sint (avg_2_int64 (word_of_int x) (word_of_int y))"

record model_out =
  sort_quote :: "int mem \<times> buf"
  p25 :: int
  p50 :: int
  p75 :: int

definition price_model_core :: "nat \<Rightarrow> int list \<Rightarrow> int list \<Rightarrow> model_out option" where
  "price_model_core cnt quote scratch =
     do { (m, b) \<leftarrow> int64_sort_ascending_stable quote cnt scratch;
          let p25_idx = drop_bit 2 cnt;
          v25 \<leftarrow> rd (m b) p25_idx;
          v50 \<leftarrow> (if cnt AND 1 \<noteq> 0 then rd (m b) (drop_bit 1 cnt)
            else let p50_idx_right = drop_bit 1 cnt; p50_idx_left = p50_idx_right - 1 in
              do { vl \<leftarrow> rd (m b) p50_idx_left; vr \<leftarrow> rd (m b) p50_idx_right;
                   Some (avg_2_s64 vl vr) });
          v75 \<leftarrow> rd (m b) (cnt - 1 - p25_idx);
          Some \<lparr>sort_quote = (m, b), p25 = v25, p50 = v50, p75 = v75\<rparr> }"

text \<open>\<open>price_model\<close> copies the sorted quotes back over the input array when they ended up in the
  scratch array; the copy loop is \<open>copy_back\<close>.\<close>

fun copy_back :: "int list \<Rightarrow> int list \<Rightarrow> nat \<Rightarrow> nat \<Rightarrow> int list option" where
  "copy_back quote tmp idx 0 = Some quote"
| "copy_back quote tmp idx (Suc c) =
     do { v \<leftarrow> rd tmp idx; quote \<leftarrow> wr quote idx v; copy_back quote tmp (idx + 1) c }"

definition price_model :: "nat \<Rightarrow> int list \<Rightarrow> int list \<Rightarrow> (int list \<times> int \<times> int \<times> int) option" where
  "price_model cnt quote scratch =
     do { r \<leftarrow> price_model_core cnt quote scratch;
          let (m, b) = sort_quote r;
          q \<leftarrow> (if b \<noteq> Key then copy_back (m Key) (m b) 0 cnt else Some (m Key));
          Some (q, p25 r, p50 r, p75 r) }"

section \<open>Reference definitions\<close>

text \<open>The quartiles of a sorted list: rank statistics, the median with floor rounding.\<close>

definition q25 :: "int list \<Rightarrow> int" where
  "q25 S = S ! (length S div 4)"

definition q50 :: "int list \<Rightarrow> int" where
  "q50 S = (if odd (length S) then S ! (length S div 2)
     else (S ! (length S div 2 - 1) + S ! (length S div 2)) div 2)"

definition q75 :: "int list \<Rightarrow> int" where
  "q75 S = S ! (length S - 1 - length S div 4)"

section \<open>Lemmas\<close>

lemma sint_word_of_int: "in_s64 x \<Longrightarrow> sint (word_of_int x :: u64) = x"
  by (simp add: in_s64_def signed_of_int signed_take_bit_int_eq_self)

lemma avg_2_s64_floor: "in_s64 x \<Longrightarrow> in_s64 y \<Longrightarrow> avg_2_s64 x y = (x + y) div 2"
  by (simp add: avg_2_s64_def avg_2_int64_floor sint_word_of_int)

lemma rd_take: "take n A = S \<Longrightarrow> i < n \<Longrightarrow> n \<le> length A \<Longrightarrow> rd A i = Some (S ! i)"
  by (auto simp: rd_def)

lemma price_model_core_eq:
  assumes "0 < cnt" "cnt \<le> length quote" "cnt \<le> length scratch"
    and "\<forall>q \<in> set (take cnt quote). in_s64 q"
  shows "\<exists>m b. price_model_core cnt quote scratch = Some \<lparr>sort_quote = (m, b),
      p25 = q25 (sort (take cnt quote)), p50 = q50 (sort (take cnt quote)), p75 = q75 (sort (take cnt quote))\<rparr> \<and>
    take cnt (m b) = sort (take cnt quote) \<and> length (m Key) = length quote \<and>
    length (m Scratch) = length scratch \<and> drop cnt (m Key) = drop cnt quote"
proof -
  define S where "S = sort (take cnt quote)"
  obtain m b where mb: "stable (\<lambda>u v. u < v) quote cnt scratch = Some (m, b)" "take cnt (m b) = S"
      "frame 0 cnt (case_buf quote scratch) m"
    using stable_node_eq [of 0 cnt "case_buf quote scratch" "\<lambda>x. x"] assms by (auto simp: stable_def S_def)
  have len: "length (m Key) = length quote" "length (m Scratch) = length scratch" "cnt \<le> length (m b)"
    and d: "drop cnt (m Key) = drop cnt quote"
    using frameD [OF mb(3), of Key] frameD [OF mb(3), of Scratch] assms by (simp_all, cases b, simp_all)
  note rd = rd_take [OF mb(2) _ len(3)]
  have lS: "length S = cnt" using assms by (simp add: S_def)
  have s64: "in_s64 (S ! i)" if "i < cnt" for i
    using that assms(4) lS by (metis S_def nth_mem set_sort)
  have odd: "(cnt AND 1 \<noteq> 0) = odd cnt" by (simp add: and_one_eq odd_iff_mod_2_eq_one)
  have "price_model_core cnt quote scratch = Some \<lparr>sort_quote = (m, b), p25 = q25 S, p50 = q50 S, p75 = q75 S\<rparr>"
    using assms(1) rd s64
    by (auto simp: price_model_core_def int64_sort_ascending_stable_def mb(1) Let_def odd drop_bit_eq_div
        q25_def q50_def q75_def lS avg_2_s64_floor elim!: evenE)
  with mb(2) len d show ?thesis unfolding S_def by blast
qed

lemma q50_between:
  assumes "sorted S" "i \<le> length S - 1 - i" "S \<noteq> []"
  shows "S ! i \<le> q50 S" "q50 S \<le> S ! (length S - 1 - i)"
proof -
  let ?n = "length S"
  have n: "0 < ?n" using assms(3) by simp
  have mono: "S ! a \<le> S ! b" if "a \<le> b" "b < ?n" for a b
    using assms(1) that by (rule sorted_nth_mono)
  have "S ! i \<le> q50 S \<and> q50 S \<le> S ! (?n - 1 - i)"
  proof (cases "odd ?n")
    case True
    then have "i \<le> ?n div 2" "?n div 2 \<le> ?n - 1 - i" using assms(2) by (auto elim!: oddE)
    then show ?thesis using True n by (auto simp: q50_def intro!: mono)
  next
    case False
    then obtain h where h: "?n = 2 * h" by (auto elim: evenE)
    then have "i \<le> h - 1" "h \<le> ?n - 1 - i" "h < ?n" using assms(2) n by auto
    then have "S ! i \<le> S ! (h - 1)" "S ! (h - 1) \<le> S ! h" "S ! h \<le> S ! (?n - 1 - i)"
      using n by (auto intro!: mono)
    then show ?thesis using False h by (auto simp: q50_def)
  qed
  then show "S ! i \<le> q50 S" "q50 S \<le> S ! (?n - 1 - i)" by auto
qed

lemma quartiles_ordered:
  assumes "sorted S" "S \<noteq> []"
  shows "q25 S \<le> q50 S" "q50 S \<le> q75 S"
proof -
  have "length S div 4 \<le> length S - 1 - length S div 4" using assms(2) by (cases S) auto
  then show "q25 S \<le> q50 S" "q50 S \<le> q75 S"
    using q50_between [OF assms(1) _ assms(2)] by (auto simp: q25_def q75_def)
qed

text \<open>The sum of distances to the median, by pairing the i-th smallest with the i-th largest.\<close>

lemma sum_list_nth: "(\<Sum>x\<leftarrow>S. f x) = (\<Sum>i<length S. (f (S ! i) :: int))"
  by (simp add: sum_list_sum_nth atLeast0LessThan)

lemma median_minimises:
  assumes "sorted S"
  shows "(\<Sum>q\<leftarrow>S. \<bar>q - q50 S\<bar>) \<le> (\<Sum>q\<leftarrow>S. \<bar>q - x\<bar>)"
proof (cases "S = []")
  case False
  let ?n = "length S" and ?p = "q50 S"
  have twice: "2 * (\<Sum>q\<leftarrow>S. \<bar>q - y\<bar>) = (\<Sum>i<?n. \<bar>S ! i - y\<bar> + \<bar>S ! (?n - Suc i) - y\<bar>)" for y
    using sum.nat_diff_reindex [of "\<lambda>i. \<bar>S ! i - y\<bar>" ?n]
    by (simp add: sum_list_nth sum.distrib)
  have "\<bar>S ! i - ?p\<bar> + \<bar>S ! (?n - Suc i) - ?p\<bar> \<le> \<bar>S ! i - x\<bar> + \<bar>S ! (?n - Suc i) - x\<bar>" if "i < ?n" for i
  proof (cases "i \<le> ?n - 1 - i")
    case True
    then have "S ! i \<le> ?p" "?p \<le> S ! (?n - Suc i)" using q50_between [OF assms _ False, of i] by auto
    then show ?thesis by arith
  next
    case False
    define k where "k = ?n - Suc i"
    have k: "k \<le> ?n - 1 - k" "?n - Suc k = i" "?n - 1 - k = i" using False that by (auto simp: k_def)
    then have "S ! k \<le> ?p" "?p \<le> S ! i" using q50_between [OF assms _ \<open>S \<noteq> []\<close>, of k] by auto
    then show ?thesis unfolding k_def by arith
  qed
  then have "2 * (\<Sum>q\<leftarrow>S. \<bar>q - ?p\<bar>) \<le> 2 * (\<Sum>q\<leftarrow>S. \<bar>q - x\<bar>)"
    unfolding twice by (intro sum_mono) auto
  then show ?thesis by simp
qed simp

lemma copy_back_eq:
  "idx + c \<le> length quote \<Longrightarrow> idx + c \<le> length tmp \<Longrightarrow>
   copy_back quote tmp idx c = Some (take idx quote @ take c (drop idx tmp) @ drop (idx + c) quote)"
proof (induction c arbitrary: quote idx)
  case (Suc c)
  then have "copy_back quote tmp idx (Suc c) = copy_back (quote[idx := tmp ! idx]) tmp (idx + 1) c"
    by (simp add: rd_def wr_def)
  also have "\<dots> = Some (take idx quote @ [tmp ! idx] @ take c (drop (idx + 1) tmp) @ drop (idx + Suc c) quote)"
    using Suc.prems by (simp add: Suc.IH take_Suc_conv_app_nth)
  also have "\<dots> = Some (take idx quote @ take (Suc c) (drop idx tmp) @ drop (idx + Suc c) quote)"
    using Suc.prems by (simp add: Cons_nth_drop_Suc [symmetric])
  finally show ?case .
qed simp

lemma price_model_eq:
  assumes "0 < cnt" "cnt \<le> length quote" "cnt \<le> length scratch"
    and "\<forall>q \<in> set (take cnt quote). in_s64 q"
  shows "price_model cnt quote scratch = Some (sort (take cnt quote) @ drop cnt quote,
    q25 (sort (take cnt quote)), q50 (sort (take cnt quote)), q75 (sort (take cnt quote)))"
proof -
  obtain m b where mb: "price_model_core cnt quote scratch = Some \<lparr>sort_quote = (m, b),
      p25 = q25 (sort (take cnt quote)), p50 = q50 (sort (take cnt quote)), p75 = q75 (sort (take cnt quote))\<rparr>"
    "take cnt (m b) = sort (take cnt quote)" "length (m Key) = length quote"
    "length (m Scratch) = length scratch" "drop cnt (m Key) = drop cnt quote"
    using price_model_core_eq [OF assms] by blast
  have "(if b \<noteq> Key then copy_back (m Key) (m b) 0 cnt else Some (m Key)) = Some (sort (take cnt quote) @ drop cnt quote)"
  proof (cases b)
    case Key
    then show ?thesis using mb(2,5) append_take_drop_id [of cnt "m Key"] by simp
  next
    case Scratch
    then show ?thesis using mb assms by (simp add: copy_back_eq)
  qed
  then show ?thesis by (simp add: price_model_def mb(1))
qed

section \<open>Properties\<close>

text \<open>(C18) On between one and as many quotes as both arrays hold, the price
  model returns without leaving its arrays, with the quotes sorted in place; p25 and p75 are the
  documented rank statistics, the three outputs are ordered, and p50 minimises the sum of absolute
  distances to the quotes over all prices, which is the loss the source's comment names.\<close>

theorem price_model_correct:
  assumes "0 < cnt" "cnt \<le> length quote" "cnt \<le> length scratch"
    and "\<forall>q \<in> set (take cnt quote). in_s64 q"
  shows "\<exists>q a b c. price_model cnt quote scratch = Some (q, a, b, c) \<and>
    q = sort (take cnt quote) @ drop cnt quote \<and>
    a = q ! (cnt div 4) \<and> c = q ! (cnt - 1 - cnt div 4) \<and> a \<le> b \<and> b \<le> c \<and>
    (\<forall>x. (\<Sum>v\<leftarrow>take cnt quote. \<bar>v - b\<bar>) \<le> (\<Sum>v\<leftarrow>take cnt quote. \<bar>v - x\<bar>))"
proof -
  define S where "S = sort (take cnt quote)"
  have S3: "length S = cnt" using assms(2) by (simp add: S_def)
  have S: "sorted S" by (simp add: S_def)
  have S2: "S \<noteq> []" using assms(1) S3 by auto
  have sum: "(\<Sum>v\<leftarrow>take cnt quote. \<bar>v - x\<bar>) = (\<Sum>v\<leftarrow>S. \<bar>v - x\<bar>)" for x
  proof -
    have "mset (map (\<lambda>v. \<bar>v - x\<bar>) (take cnt quote)) = mset (map (\<lambda>v. \<bar>v - x\<bar>) S)"
      by (simp add: S_def)
    then show ?thesis by (simp only: sum_mset_sum_list [symmetric])
  qed
  have "cnt div 4 < cnt" "cnt - 1 - cnt div 4 < cnt" using assms(1) by auto
  then have "q25 S = (S @ drop cnt quote) ! (cnt div 4)" "q75 S = (S @ drop cnt quote) ! (cnt - 1 - cnt div 4)"
    by (simp_all add: q25_def q75_def S3 nth_append)
  moreover have "price_model cnt quote scratch = Some (S @ drop cnt quote, q25 S, q50 S, q75 S)"
    using price_model_eq [OF assms] by (simp only: S_def)
  ultimately show ?thesis
    unfolding sum S_def [symmetric]
    using quartiles_ordered [OF S S2] median_minimises [OF S] by simp
qed

theorem price_model_correct_witness:
  "\<exists>q a b c. price_model 6 [10, 7, 4, 9, 8, 12] (replicate 6 0) = Some (q, a, b, c) \<and>
    q = [4, 7, 8, 9, 10, 12] \<and> a = 7 \<and> c = 10 \<and> 7 \<le> b \<and> b \<le> 10"
proof -
  let ?q = "[10, 7, 4, 9, 8, 12 :: int]"
  have h: "0 < (6 :: nat)" "6 \<le> length ?q" "6 \<le> length (replicate 6 (0 :: int))"
      "\<forall>q \<in> set (take 6 ?q). in_s64 q"
    by (simp_all add: in_s64_def)
  have "sort (take 6 ?q) @ drop 6 ?q = [4, 7, 8, 9, 10, 12]" by simp
  then show ?thesis using price_model_correct [OF h] by auto
qed

text \<open> For a valid count the scratch footprint, computed in 64-bit
  arithmetic, does not wrap: it is the exact number of bytes, and the same count is valid for the
  sort, with the same footprint.\<close>

theorem price_model_footprint_no_wrap:
  assumes "price_model_cnt_valid cnt"
  shows "uint (price_model_scratch_footprint cnt) = 8 * uint cnt + 7 \<and>
    int64_sort_ascending_stable_cnt_valid cnt \<and>
    int64_sort_ascending_stable_scratch_footprint cnt = price_model_scratch_footprint cnt"
proof -
  have m: "price_model_quote_max = 0x1fffffffffffffff" by (simp add: price_model_quote_max_def)
  have c: "cnt \<le> 0x1fffffffffffffff" "1 \<le> cnt"
    using assms by (auto simp: price_model_cnt_valid_def price_model_quote_min_def m)
  then have u: "uint cnt \<le> 0x1fffffffffffffff" by (simp add: word_le_def)
  then have "uint (cnt * 8) = uint cnt * 8" by (subst uint_mult_lem [THEN iffD1]) auto
  then have "uint (cnt * 8 + 7) = uint cnt * 8 + 7" using u by (simp add: uint_add_carry)
  moreover have "price_model_scratch_footprint cnt = cnt * 8 + 7"
    by (simp add: price_model_scratch_footprint_def)
  moreover have "int64_sort_ascending_stable_cnt_valid cnt"
    using c by (auto simp: int64_sort_ascending_stable_cnt_valid_def word_gt_0 order_le_less)
  ultimately show ?thesis
    by (simp add: int64_sort_ascending_stable_scratch_footprint_def mult.commute)
qed

theorem price_model_footprint_no_wrap_witness:
  "price_model_cnt_valid 96 \<and> uint (price_model_scratch_footprint 96) = 775"
proof -
  have h: "price_model_cnt_valid 96"
    by (simp add: price_model_cnt_valid_def price_model_quote_min_def price_model_quote_max_def)
  show ?thesis using h price_model_footprint_no_wrap [OF h] by simp
qed

end
