(* ===== verification/Pd.thy ===== *)
theory Pd
  imports Complex_Main Sort_Stable
begin

unbundle bit_operations_syntax

text \<open>
  The decimal numbers of the moving averages, \<open>program/c/src/oracle/pd.h\<close>: a mantissa \<open>v_\<close>
  (\<open>int64_t\<close>) and a decimal exponent \<open>e_\<close> (\<open>int32_t\<close>).  All arithmetic is checked: an operation
  is \<open>None\<close> exactly where the C code would overflow a signed integer, divide by zero or index the
  table of powers of ten outside its bounds.
\<close>

definition PD_SCALE9 :: int where "PD_SCALE9 = 1000000000"
definition PD_EMA_MAX_DIFF :: int where "PD_EMA_MAX_DIFF = 4145"
definition PD_EMA_EXPO :: int where "PD_EMA_EXPO = - 9"
definition PD_EMA_DECAY :: int where "PD_EMA_DECAY = - 117065"
definition PC_FACTOR_SIZE :: int where "PC_FACTOR_SIZE = 18"
definition EXP_BITS :: nat where "EXP_BITS = 5"
definition EXP_MASK :: int where "EXP_MASK = push_bit EXP_BITS 1 - 1"

record pd =
  pd_e :: int
  pd_v :: int

definition pd_new :: "int \<Rightarrow> int \<Rightarrow> pd" where
  "pd_new v e = \<lparr>pd_e = e, pd_v = v\<rparr>"

section \<open>Normalisation\<close>

lemma sdiv_10: "0 \<le> (v :: int) \<Longrightarrow> v sdiv 10 = v div 10"
  by (cases "v = 0") (auto simp: signed_divide_int_def)

function pd_scale_loop :: "int \<Rightarrow> int \<Rightarrow> (int \<times> int) option" where
  "pd_scale_loop v e =
     (if v \<ge> 2 ^ 28 then do { e \<leftarrow> s32 (e + 1); pd_scale_loop (v sdiv 10) e } else Some (v, e))"
  by pat_completeness auto
termination
  by (relation "measure (\<lambda>(v, e). nat v)") (auto simp: sdiv_10)

declare pd_scale_loop.simps [simp del]

definition pd_scale :: "pd \<Rightarrow> pd option" where
  "pd_scale n =
     do { let neg = (pd_v n < 0);
          v \<leftarrow> (if neg then s64 (- pd_v n) else Some (pd_v n));
          (v, e) \<leftarrow> pd_scale_loop v (pd_e n);
          Some (pd_new (if neg then - v else v) e) }"

definition pd_new_scale :: "int \<Rightarrow> int \<Rightarrow> pd option" where
  "pd_new_scale v e = pd_scale (pd_new v e)"

section \<open>Packing into 64 bits\<close>

text \<open>The four loops of \<open>pd_store\<close>.  The first two shrink the mantissa into 59 bits, the third
  raises a small exponent, the fourth lowers a large one and gives up (\<open>Some None\<close>: the C function
  returns false) when the mantissa no longer fits.\<close>

function store_low :: "int \<Rightarrow> int \<Rightarrow> (int \<times> int) option" where
  "store_low v e =
     (if v < - (2 ^ 58) then do { e \<leftarrow> s32 (e + 1); store_low (v sdiv 10) e } else Some (v, e))"
  by pat_completeness auto
termination
  by (relation "measure (\<lambda>(v, e). nat (- v))") (auto simp: signed_divide_int_def)

function store_high :: "int \<Rightarrow> int \<Rightarrow> (int \<times> int) option" where
  "store_high v e =
     (if v > 2 ^ 58 - 1 then do { e \<leftarrow> s32 (e + 1); store_high (v sdiv 10) e } else Some (v, e))"
  by pat_completeness auto
termination
  by (relation "measure (\<lambda>(v, e). nat v)") (auto simp: sdiv_10)

function store_raise :: "int \<Rightarrow> int \<Rightarrow> int \<times> int" where
  "store_raise v e = (if e < - (2 ^ (EXP_BITS - 1)) then store_raise (v sdiv 10) (e + 1) else (v, e))"
  by pat_completeness auto
termination
  by (relation "measure (\<lambda>(v, e). nat (- e))") (auto simp: EXP_BITS_def)

function store_lower :: "int \<Rightarrow> int \<Rightarrow> (int \<times> int) option option" where
  "store_lower v e =
     (if e > 2 ^ (EXP_BITS - 1) - 1 then
        do { v \<leftarrow> s64 (v * 10);
             if v < - (2 ^ 58) \<or> v > 2 ^ 58 - 1 then Some None else store_lower v (e - 1) }
      else Some (Some (v, e)))"
  by pat_completeness auto
termination
  by (relation "measure (\<lambda>(v, e). nat e)") (auto simp: EXP_BITS_def)

declare store_low.simps [simp del] store_high.simps [simp del] store_raise.simps [simp del]
  store_lower.simps [simp del]

definition pd_store :: "pd \<Rightarrow> int option option" where
  "pd_store n =
     do { (v, e) \<leftarrow> store_low (pd_v n) (pd_e n);
          (v, e) \<leftarrow> store_high v e;
          let (v, e) = store_raise v e;
          r \<leftarrow> store_lower v e;
          Some (map_option (\<lambda>(v, e). push_bit EXP_BITS v OR (e AND EXP_MASK)) r) }"

text \<open>\<open>pd_load\<close> sign-extends the five exponent bits by shifting them to the top of an \<open>int64_t\<close> and
  back; the left shift wraps at 64 bits, written out here with \<^const>\<open>signed_take_bit\<close>.\<close>

definition pd_load :: "int \<Rightarrow> pd option" where
  "pd_load n =
     pd_scale (pd_new (drop_bit EXP_BITS n)
       (drop_bit 59 (signed_take_bit 63 (push_bit 59 (n AND EXP_MASK)))))"

section \<open>Arithmetic\<close>

definition pd_adjust :: "pd \<Rightarrow> int \<Rightarrow> int list \<Rightarrow> pd option" where
  "pd_adjust n e p =
     do { d \<leftarrow> s32 (pd_e n - e);
          v \<leftarrow> (if d > 0 then do { q \<leftarrow> rd p (nat d); s64 (pd_v n * q) }
               else if d < 0 then do { q \<leftarrow> rd p (nat (- d)); s64_div (pd_v n) q }
               else Some (pd_v n));
          Some (pd_new v e) }"

definition pd_mul :: "pd \<Rightarrow> pd \<Rightarrow> pd option" where
  "pd_mul n1 n2 =
     do { v \<leftarrow> s64 (pd_v n1 * pd_v n2); e \<leftarrow> s32 (pd_e n1 + pd_e n2); pd_scale (pd_new v e) }"

text \<open>The loop of \<open>pd_div\<close> multiplies the dividend by ten until one of the bits above bit 27 is set;
  it is entered with a positive dividend only, and that guard is kept in the model.\<close>

lemma drop_bit_28: "drop_bit 28 (v :: int) = 0 \<longleftrightarrow> 0 \<le> v \<and> v < 2 ^ 28"
proof -
  have "drop_bit 28 v = 0 \<longleftrightarrow> v div 2 ^ 28 = 0" by (simp add: drop_bit_eq_div)
  also have "\<dots> \<longleftrightarrow> 0 \<le> v \<and> v < 2 ^ 28" by (auto simp: zdiv_eq_0_iff)
  finally show ?thesis .
qed

function pd_div_loop :: "int \<Rightarrow> int \<Rightarrow> (int \<times> int) option" where
  "pd_div_loop v1 m =
     (if 0 < v1 \<and> drop_bit 28 v1 = 0 then
        do { v1 \<leftarrow> s64 (v1 * 10); m \<leftarrow> s32 (m + 1); pd_div_loop v1 m }
      else Some (v1, m))"
  by pat_completeness auto
termination
  by (relation "measure (\<lambda>(v, m). nat (2 ^ 28 - v))") (auto simp: drop_bit_28)

declare pd_div_loop.simps [simp del]

definition pd_div :: "pd \<Rightarrow> pd \<Rightarrow> pd option" where
  "pd_div n1 n2 =
     (if pd_v n1 = 0 then Some n1
      else do {
        let neg1 = (pd_v n1 < 0);
        let neg2 = (pd_v n2 < 0);
        v1 \<leftarrow> (if neg1 then s64 (- pd_v n1) else Some (pd_v n1));
        v2 \<leftarrow> (if neg2 then s64 (- pd_v n2) else Some (pd_v n2));
        (v1, m) \<leftarrow> pd_div_loop v1 0;
        q \<leftarrow> s64 (v1 * PD_SCALE9);
        r \<leftarrow> s64_div q v2;
        let r = (if neg1 then - r else r);
        let r = (if neg2 then - r else r);
        e \<leftarrow> s32 (pd_e n1 - pd_e n2);
        e \<leftarrow> s32 (e - m);
        e \<leftarrow> s32 (e - 9);
        pd_scale (pd_new r e) })"

definition pd_add :: "pd \<Rightarrow> pd \<Rightarrow> int list \<Rightarrow> pd option" where
  "pd_add n1 n2 p =
     do { d \<leftarrow> s32 (pd_e n1 - pd_e n2);
          r \<leftarrow>
            (if d = 0 then do { v \<leftarrow> s64 (pd_v n1 + pd_v n2); Some (pd_new v (pd_e n1)) }
             else if d > 0 then
               (if d < 9 then
                  do { q \<leftarrow> rd p (nat d); a \<leftarrow> s64 (pd_v n1 * q); v \<leftarrow> s64 (a + pd_v n2);
                       Some (pd_new v (pd_e n2)) }
                else if d < PC_FACTOR_SIZE + 9 then
                  do { a \<leftarrow> s64 (pd_v n1 * PD_SCALE9); q \<leftarrow> rd p (nat (d - 9));
                       b \<leftarrow> s64_div (pd_v n2) q; v \<leftarrow> s64 (a + b); e \<leftarrow> s32 (pd_e n1 - 9);
                       Some (pd_new v e) }
                else Some n1)
             else
               (let d = - d in
                if d < 9 then
                  do { q \<leftarrow> rd p (nat d); b \<leftarrow> s64 (pd_v n2 * q); v \<leftarrow> s64 (pd_v n1 + b);
                       Some (pd_new v (pd_e n1)) }
                else if d < PC_FACTOR_SIZE + 9 then
                  do { q \<leftarrow> rd p (nat (d - 9)); a \<leftarrow> s64_div (pd_v n1) q;
                       b \<leftarrow> s64 (pd_v n2 * PD_SCALE9); v \<leftarrow> s64 (a + b); e \<leftarrow> s32 (pd_e n2 - 9);
                       Some (pd_new v e) }
                else Some n2));
          pd_scale r }"

definition pd_sub :: "pd \<Rightarrow> pd \<Rightarrow> int list \<Rightarrow> pd option" where
  "pd_sub n1 n2 p =
     do { d \<leftarrow> s32 (pd_e n1 - pd_e n2);
          r \<leftarrow>
            (if d = 0 then do { v \<leftarrow> s64 (pd_v n1 - pd_v n2); Some (pd_new v (pd_e n1)) }
             else if d > 0 then
               (if d < 9 then
                  do { q \<leftarrow> rd p (nat d); a \<leftarrow> s64 (pd_v n1 * q); v \<leftarrow> s64 (a - pd_v n2);
                       Some (pd_new v (pd_e n2)) }
                else if d < PC_FACTOR_SIZE + 9 then
                  do { a \<leftarrow> s64 (pd_v n1 * PD_SCALE9); q \<leftarrow> rd p (nat (d - 9));
                       b \<leftarrow> s64_div (pd_v n2) q; v \<leftarrow> s64 (a - b); e \<leftarrow> s32 (pd_e n1 - 9);
                       Some (pd_new v e) }
                else Some n1)
             else
               (let d = - d in
                if d < 9 then
                  do { q \<leftarrow> rd p (nat d); b \<leftarrow> s64 (pd_v n2 * q); v \<leftarrow> s64 (pd_v n1 - b);
                       Some (pd_new v (pd_e n1)) }
                else if d < PC_FACTOR_SIZE + 9 then
                  do { q \<leftarrow> rd p (nat (d - 9)); a \<leftarrow> s64_div (pd_v n1) q;
                       b \<leftarrow> s64 (pd_v n2 * PD_SCALE9); v \<leftarrow> s64 (a - b); e \<leftarrow> s32 (pd_e n2 - 9);
                       Some (pd_new v e) }
                else do { v \<leftarrow> s64 (- pd_v n2); Some (pd_new v (pd_e n2)) }));
          pd_scale r }"

definition pd_lt :: "pd \<Rightarrow> pd \<Rightarrow> int list \<Rightarrow> bool option" where
  "pd_lt n1 n2 p = map_option (\<lambda>r. pd_v r < 0) (pd_sub n1 n2 p)"

definition pd_gt :: "pd \<Rightarrow> pd \<Rightarrow> int list \<Rightarrow> bool option" where
  "pd_gt n1 n2 p = map_option (\<lambda>r. pd_v r > 0) (pd_sub n1 n2 p)"


text \<open>The square root iterates Newton's step until two successive mantissas agree; whether it
  ends is a matter of the rounding, so a run that does not end is the value \<open>None\<close>, as is one that
  overflows.\<close>

partial_function (option) pd_sqrt_loop :: "pd \<Rightarrow> pd \<Rightarrow> pd \<Rightarrow> int list \<Rightarrow> pd option" where
  [code]: "pd_sqrt_loop t x hlf f =
     do { r \<leftarrow> pd_div t x; r \<leftarrow> pd_add r x f; r \<leftarrow> pd_mul r hlf;
          if pd_v x = pd_v r then Some r else pd_sqrt_loop t r hlf f }"

definition pd_sqrt :: "pd \<Rightarrow> int list \<Rightarrow> pd option" where
  "pd_sqrt val f =
     do { x \<leftarrow> pd_add val (pd_new 1 0) f;
          let hlf = pd_new 5 (- 1);
          x \<leftarrow> pd_mul x hlf;
          pd_sqrt_loop val x hlf f }"

section \<open>What normalisation does\<close>

text \<open>The number a \<open>pd\<close> denotes, its unit in the last place, and the normal form that \<open>pd_scale\<close>
  establishes: a mantissa below 28 bits.\<close>

definition pd_val :: "pd \<Rightarrow> real" where
  "pd_val n = of_int (pd_v n) * 10 powi pd_e n"

definition pd_ulp :: "pd \<Rightarrow> real" where
  "pd_ulp n = 10 powi pd_e n"

definition pd_norm :: "pd \<Rightarrow> bool" where
  "pd_norm n \<longleftrightarrow> \<bar>pd_v n\<bar> < 2 ^ 28"

definition pd_ok :: "int \<Rightarrow> pd \<Rightarrow> bool" where
  "pd_ok b n \<longleftrightarrow> pd_norm n \<and> \<bar>pd_e n\<bar> \<le> b"

lemma pd_new_sel [simp]: "pd_v (pd_new v e) = v" "pd_e (pd_new v e) = e"
  by (simp_all add: pd_new_def)

lemma pd_new_eta [simp]: "pd_new (pd_v n) (pd_e n) = n"
  by (simp add: pd_new_def)

lemma pd_scale_loop_spec:
  assumes "0 \<le> v" "v < 2 ^ 28 * 10 ^ n" "- (2 ^ 31) \<le> e" "e + int n < 2 ^ 31"
  shows "\<exists>k\<le>n. pd_scale_loop v e = Some (v div 10 ^ k, e + int k) \<and> v div 10 ^ k < 2 ^ 28 \<and>
    (0 < k \<longrightarrow> 2 ^ 28 \<le> v div 10 ^ (k - 1))"
  using assms
proof (induction n arbitrary: v e)
  case 0
  then show ?case by (simp add: pd_scale_loop.simps)
next
  case (Suc n)
  show ?case
  proof (cases "v < 2 ^ 28")
    case True
    then show ?thesis by (intro exI [of _ 0]) (simp add: pd_scale_loop.simps)
  next
    case False
    have "in_s32 (e + 1)" using Suc.prems by (simp add: in_s32_def)
    then have step: "pd_scale_loop v e = pd_scale_loop (v div 10) (e + 1)"
      using False Suc.prems by (simp add: pd_scale_loop.simps [of v] sdiv_10)
    have "0 \<le> v div 10" "v div 10 < 2 ^ 28 * 10 ^ n"
      using Suc.prems(1,2) by (auto simp: pos_imp_zdiv_nonneg_iff)
    then obtain k where k: "k \<le> n"
        "pd_scale_loop (v div 10) (e + 1) = Some (v div 10 div 10 ^ k, e + 1 + int k)"
        "v div 10 div 10 ^ k < 2 ^ 28" "0 < k \<longrightarrow> 2 ^ 28 \<le> v div 10 div 10 ^ (k - 1)"
      using Suc.IH [of "v div 10" "e + 1"] Suc.prems by auto
    have "v div 10 div 10 ^ k = v div 10 ^ Suc k"
      by (simp add: zdiv_zmult2_eq)
    moreover have "2 ^ 28 \<le> v div 10 ^ k"
    proof (cases k)
      case (Suc j)
      then have "v div 10 div 10 ^ (k - 1) = v div 10 ^ k" by (simp add: zdiv_zmult2_eq)
      then show ?thesis using k(4) Suc by simp
    qed (use False in simp)
    ultimately show ?thesis using step k by (intro exI [of _ "Suc k"]) auto
  qed
qed

text \<open>Scaling drops at most eleven decimal digits, and the dropped part is worth less than one unit
  of the result -- also when the mantissa itself stands for a real number truncated to an integer.\<close>

lemma trunc_quotient:
  assumes "\<bar>x - of_int v\<bar> < (1 :: real)" "\<bar>v'\<bar> = \<bar>v\<bar> div 10 ^ k" "v' = 0 \<or> (v' < 0 \<longleftrightarrow> v < 0)"
  shows "\<bar>x - of_int v' * 10 ^ k\<bar> < 10 ^ k"
proof -
  have "\<bar>v\<bar> mod 10 ^ k \<le> 10 ^ k - 1" by simp
  then have "\<bar>\<bar>v\<bar> - \<bar>v'\<bar> * 10 ^ k\<bar> \<le> 10 ^ k - 1"
    using assms(2) by (simp add: minus_div_mult_eq_mod)
  moreover have "\<bar>v - v' * 10 ^ k\<bar> = \<bar>\<bar>v\<bar> - \<bar>v'\<bar> * 10 ^ k\<bar>"
    using assms(3) by (cases "v' < 0"; cases "v < 0") auto
  ultimately have "\<bar>v - v' * 10 ^ k\<bar> \<le> 10 ^ k - 1" by simp
  then have "real_of_int \<bar>v - v' * 10 ^ k\<bar> \<le> real_of_int (10 ^ k - 1)" by (rule of_int_le_iff [THEN iffD2])
  then have "\<bar>of_int v - of_int v' * (10 :: real) ^ k\<bar> \<le> 10 ^ k - 1" by simp
  then show ?thesis using assms(1) by linarith
qed

lemma pd_scale_spec:
  assumes "\<bar>pd_v n\<bar> < 2 ^ 63" "- (2 ^ 31) \<le> pd_e n" "pd_e n + 11 < 2 ^ 31"
  obtains n' k where "pd_scale n = Some n'" "k \<le> 11" "pd_e n' = pd_e n + int k" "pd_norm n'"
    "\<bar>pd_v n'\<bar> = \<bar>pd_v n\<bar> div 10 ^ k" "pd_v n' = 0 \<or> (pd_v n' < 0 \<longleftrightarrow> pd_v n < 0)"
    "0 < k \<longrightarrow> 2 ^ 28 \<le> \<bar>pd_v n\<bar> div 10 ^ (k - 1)"
proof -
  have "\<bar>pd_v n\<bar> < 2 ^ 28 * 10 ^ 11" using assms(1) by simp
  then obtain k where k: "k \<le> 11" "\<bar>pd_v n\<bar> div 10 ^ k < 2 ^ 28"
      "pd_scale_loop \<bar>pd_v n\<bar> (pd_e n) = Some (\<bar>pd_v n\<bar> div 10 ^ k, pd_e n + int k)"
      "0 < k \<longrightarrow> 2 ^ 28 \<le> \<bar>pd_v n\<bar> div 10 ^ (k - 1)"
    using pd_scale_loop_spec [of "\<bar>pd_v n\<bar>" 11 "pd_e n"] assms by auto
  define m where "m = \<bar>pd_v n\<bar> div 10 ^ k"
  have m: "0 \<le> m" by (simp add: m_def pos_imp_zdiv_nonneg_iff)
  have "in_s64 (- pd_v n)" using assms(1) by (auto simp: in_s64_def)
  then have "pd_scale n = Some (pd_new (if pd_v n < 0 then - m else m) (pd_e n + int k))"
    using k(3) by (auto simp: pd_scale_def Let_def m_def)
  then show thesis
    using that [of "pd_new (if pd_v n < 0 then - m else m) (pd_e n + int k)" k] k m le_less [of 0 m]
    by (cases "pd_v n < 0") (auto simp: pd_norm_def m_def)
qed

lemma pd_scale_norm: "pd_norm n \<Longrightarrow> pd_scale n = Some n"
proof -
  assume "pd_norm n"
  then have "pd_scale_loop \<bar>pd_v n\<bar> (pd_e n) = Some (\<bar>pd_v n\<bar>, pd_e n)" "in_s64 (- pd_v n)"
    by (auto simp: pd_scale_loop.simps pd_norm_def in_s64_def)
  then show ?thesis by (cases "pd_v n < 0") (auto simp: pd_scale_def Let_def)
qed

text \<open>The form in which the arithmetic uses it: \<open>x\<close> is the exact result in units of \<open>10 powi e\<close>.\<close>

lemma pd_scale_accurate:
  assumes "\<bar>v\<bar> < 2 ^ 63" "- (2 ^ 31) \<le> e" "e + 11 < 2 ^ 31" "\<bar>x - of_int v\<bar> < (1 :: real)"
  shows "\<exists>r. pd_scale (pd_new v e) = Some r \<and> pd_norm r \<and> e \<le> pd_e r \<and> pd_e r \<le> e + 11 \<and>
             \<bar>x * 10 powi e - pd_val r\<bar> < pd_ulp r"
proof -
  from assms obtain r k where r: "pd_scale (pd_new v e) = Some r" "k \<le> 11" "pd_e r = e + int k"
      "pd_norm r" "\<bar>pd_v r\<bar> = \<bar>v\<bar> div 10 ^ k" "pd_v r = 0 \<or> (pd_v r < 0 \<longleftrightarrow> v < 0)"
    using pd_scale_spec [of "pd_new v e"] unfolding pd_new_sel by blast
  have "\<bar>x - of_int (pd_v r) * 10 ^ k\<bar> < 10 ^ k"
    using assms(4) r(5,6) by (rule trunc_quotient)
  then have "\<bar>x - of_int (pd_v r) * 10 ^ k\<bar> * 10 powi e < 10 ^ k * 10 powi e"
    by (rule mult_strict_right_mono) simp
  moreover have "\<bar>x - of_int (pd_v r) * 10 ^ k\<bar> * 10 powi e = \<bar>(x - of_int (pd_v r) * 10 ^ k) * 10 powi e\<bar>"
    by (simp add: abs_mult)
  moreover have "(x - of_int (pd_v r) * 10 ^ k) * 10 powi e = x * 10 powi e - pd_val r"
    by (simp add: pd_val_def r(3) power_int_add left_diff_distrib)
  moreover have "10 ^ k * 10 powi e = pd_ulp r"
    by (simp add: pd_ulp_def r(3) power_int_add)
  ultimately show ?thesis using r by auto
qed


section \<open>The arithmetic is defined and accurate on normalised numbers\<close>

text \<open>The table \<open>fact_\<close> that \<open>qset_new\<close> builds: the powers of ten below \<open>10 ^ 18\<close>.\<close>

definition fact_tab :: "int list" where
  "fact_tab = map (\<lambda>i. 10 ^ i) [0..<nat PC_FACTOR_SIZE]"

lemma rd_fact_tab: "d < 18 \<Longrightarrow> rd fact_tab d = Some (10 ^ d)"
  by (simp add: rd_def fact_tab_def PC_FACTOR_SIZE_def)

lemma pd_okD:
  "pd_ok b n \<Longrightarrow> \<bar>pd_v n\<bar> < 2 ^ 28" "pd_ok b n \<Longrightarrow> \<bar>pd_e n\<bar> \<le> b"
  "pd_ok b n \<Longrightarrow> pd_norm n"
  by (auto simp: pd_ok_def pd_norm_def)

lemma abs_prod_less: "\<bar>a\<bar> < m \<Longrightarrow> \<bar>b\<bar> < n \<Longrightarrow> \<bar>a * b :: int\<bar> < m * n"
  by (simp add: abs_mult mult_strict_mono')

text \<open>\<open>pd_acc b r x\<close>: the operation is defined, its result is normalised with an exponent in
  \<open>\<plusminus>b\<close>, and it differs from the exact value \<open>x\<close> by less than one unit in its last place.\<close>

definition pd_acc :: "int \<Rightarrow> pd option \<Rightarrow> real \<Rightarrow> bool" where
  "pd_acc b res x \<longleftrightarrow> (\<exists>r. res = Some r \<and> pd_ok b r \<and> \<bar>x - pd_val r\<bar> < pd_ulp r)"

lemma pd_accI:
  assumes "\<bar>v\<bar> < 2 ^ 63" "\<bar>e\<bar> \<le> b" "b + 11 < 2 ^ 31" "\<bar>y - of_int v\<bar> < 1" "x = y * 10 powi e"
  shows "pd_acc (b + 11) (pd_scale (pd_new v e)) x"
proof -
  obtain r where r: "pd_scale (pd_new v e) = Some r" "pd_norm r" "e \<le> pd_e r" "pd_e r \<le> e + 11"
      "\<bar>y * 10 powi e - pd_val r\<bar> < pd_ulp r"
    using pd_scale_accurate [of v e y] assms by (auto simp: abs_le_iff)
  have "\<bar>pd_e r\<bar> \<le> b + 11" using r(3,4) assms(2) by arith
  then show ?thesis using r assms(5) by (auto simp: pd_acc_def pd_ok_def)
qed

lemma pd_mul_accurate:
  assumes "pd_ok b n1" "pd_ok b n2" "b \<le> 10 ^ 9"
  shows "pd_acc (2 * b + 11) (pd_mul n1 n2) (pd_val n1 * pd_val n2)"
proof -
  have v: "\<bar>pd_v n1 * pd_v n2\<bar> < 2 ^ 28 * 2 ^ 28"
    using assms by (intro abs_prod_less) (auto dest: pd_okD)
  have e: "\<bar>pd_e n1 + pd_e n2\<bar> \<le> 2 * b" using assms pd_okD(2) [of b] by (smt (verit))
  have "in_s64 (pd_v n1 * pd_v n2)" "in_s32 (pd_e n1 + pd_e n2)"
    using v e assms(3) by (auto simp: in_s64_def in_s32_def)
  then have "pd_mul n1 n2 = pd_scale (pd_new (pd_v n1 * pd_v n2) (pd_e n1 + pd_e n2))"
    by (simp add: pd_mul_def)
  moreover have "pd_acc (2 * b + 11) \<dots> (pd_val n1 * pd_val n2)"
    by (rule pd_accI [where y = "of_int (pd_v n1 * pd_v n2)"])
       (use v e assms(3) in \<open>auto simp: pd_val_def power_int_add\<close>)
  ultimately show ?thesis by simp
qed

text \<open>Truncating division by a power of ten is off by less than one.\<close>

lemma sdiv_sign: "0 < b \<Longrightarrow> a sdiv b = 0 \<or> (a sdiv b < 0 \<longleftrightarrow> a < (0 :: int))"
proof (cases "a < 0")
  case True
  moreover assume "0 < b"
  ultimately have "0 \<le> - a div b" "a sdiv b = - (- a div b)"
    by (auto simp: signed_divide_int_def pos_imp_zdiv_nonneg_iff)
  then show ?thesis using True by auto
next
  case False
  moreover assume "0 < b"
  ultimately have "0 \<le> a sdiv b"
    by (cases "a = 0") (auto simp: signed_divide_int_def pos_imp_zdiv_nonneg_iff)
  then show ?thesis using False by auto
qed

lemma sdiv_pow10_trunc: "\<bar>of_int v / 10 ^ k - of_int (v sdiv 10 ^ k)\<bar> < (1 :: real)"
proof -
  have "\<bar>of_int v - of_int (v sdiv 10 ^ k) * 10 ^ k\<bar> < (10 :: real) ^ k"
    using sdiv_sign [of "10 ^ k" v] by (intro trunc_quotient [where v = v]) (auto simp: sdiv_abs)
  then have "\<bar>of_int v - of_int (v sdiv 10 ^ k) * 10 ^ k\<bar> / (10 :: real) ^ k < 1" by simp
  moreover have "\<bar>of_int v - of_int (v sdiv 10 ^ k) * 10 ^ k\<bar> / (10 :: real) ^ k =
      \<bar>(of_int v - of_int (v sdiv 10 ^ k) * 10 ^ k) / 10 ^ k\<bar>" by simp
  moreover have "(of_int v - of_int (v sdiv 10 ^ k) * 10 ^ k) / (10 :: real) ^ k =
      of_int v / 10 ^ k - of_int (v sdiv 10 ^ k)" by (simp add: diff_divide_distrib)
  ultimately show ?thesis by simp
qed

text \<open>Subtraction is addition of the negated operand, and addition is symmetric: one alignment
  proof covers all of them.\<close>

definition pd_neg :: "pd \<Rightarrow> pd" where
  "pd_neg n = pd_new (- pd_v n) (pd_e n)"

lemma sdiv_minus: "(- a) sdiv b = - (a sdiv (b :: int))"
  by (simp add: signed_divide_int_def sgn_minus)

lemma s64_div_minus:
  "\<bar>a\<bar> < 2 ^ 63 \<Longrightarrow> s64_div (- a) b = map_option uminus (s64_div a b)"
  using sdiv_abs_le [of a b] by (auto simp: s64_div_def s64_def in_s64_def sdiv_minus abs_le_iff)

lemma pd_neg_ok [simp]: "pd_ok b (pd_neg n) \<longleftrightarrow> pd_ok b n"
  by (simp add: pd_ok_def pd_norm_def pd_neg_def)

lemma pd_neg_val [simp]: "pd_val (pd_neg n) = - pd_val n"
  by (simp add: pd_val_def pd_neg_def)

lemma fact_mult_in:
  fixes v :: int
  assumes "\<bar>v\<bar> < 2 ^ 28" "d \<le> 9"
  shows "\<bar>v * 10 ^ d\<bar> < 2 ^ 28 * 10 ^ 9"
proof -
  have "(10 :: int) ^ d \<le> 10 ^ 9" using assms(2) by (rule power_increasing) simp
  then have "\<bar>v\<bar> * 10 ^ d \<le> \<bar>v\<bar> * 10 ^ 9" by (intro mult_left_mono) auto
  also have "\<dots> < 2 ^ 28 * 10 ^ 9" using assms(1) by simp
  finally show ?thesis by (simp add: abs_mult)
qed

lemma s64_div_fact: "\<bar>v\<bar> < 2 ^ 28 \<Longrightarrow> s64_div v (10 ^ d) = Some (v sdiv 10 ^ d)"
  using sdiv_abs_le [of v "10 ^ d"] by (auto simp: s64_div_def intro!: in_s64_abs)

lemma pd_sub_add:
  assumes "pd_ok b n2"
  shows "pd_sub n1 n2 fact_tab = pd_add n1 (pd_neg n2) fact_tab"
proof -
  have v: "\<bar>pd_v n2\<bar> < 2 ^ 28" using assms by (rule pd_okD)
  define d where "d = pd_e n1 - pd_e n2"
  have sc: "in_s64 (pd_v n2 * PD_SCALE9)" "in_s64 (- (pd_v n2 * PD_SCALE9))" "in_s64 (- pd_v n2)"
    using fact_mult_in [OF v, of 9] v by (auto simp: PD_SCALE9_def in_s64_def)
  have mul: "in_s64 (pd_v n2 * 10 ^ k)" "in_s64 (- (pd_v n2 * 10 ^ k))" if "k < 9" for k
    using fact_mult_in [OF v, of k] that by (auto simp: in_s64_def abs_if split: if_splits)
  have dv: "s64_div (- pd_v n2) (10 ^ k) = Some (- (pd_v n2 sdiv 10 ^ k))" for k
    using s64_div_fact [of "- pd_v n2" k] v by (simp add: sdiv_minus)
  consider "d = 0" | "0 < d" "d < 9" | "9 \<le> d" "d < 27" | "27 \<le> d"
    | "d < 0" "- 9 < d" | "d \<le> - 9" "- 27 < d" | "d \<le> - 27" by linarith
  then show ?thesis
    unfolding pd_sub_def pd_add_def pd_neg_def d_def [symmetric] pd_new_sel
    by cases (cases "s32 d"; simp add: s64_div_fact [OF v] dv sc mul PC_FACTOR_SIZE_def rd_fact_tab)+
qed

lemma pd_add_commute:
  assumes "pd_ok b n1" "pd_ok b n2" "b \<le> 10 ^ 9"
  shows "pd_add n1 n2 p = pd_add n2 n1 p"
proof -
  have "\<bar>pd_e n1 - pd_e n2\<bar> \<le> 2 * 10 ^ 9"
    using assms(3) pd_okD(2) [OF assms(1)] pd_okD(2) [OF assms(2)] by arith
  then have d: "in_s32 (pd_e n1 - pd_e n2)" "in_s32 (pd_e n2 - pd_e n1)"
    by (auto simp: in_s32_def)
  show ?thesis
    unfolding pd_add_def using d by (auto simp: Let_def add.commute split: Option.bind_splits)
qed

text \<open>The four alignments, by the distance \<open>d\<close> of the exponents.\<close>

lemma pd_add_same:
  assumes "pd_ok b n1" "pd_ok b n2" "b \<le> 10 ^ 9" "pd_e n1 = pd_e n2"
  shows "pd_acc (b + 11) (pd_add n1 n2 fact_tab) (pd_val n1 + pd_val n2)"
proof -
  note v1 = pd_okD(1) [OF assms(1)] and v2 = pd_okD(1) [OF assms(2)]
    and e1 = pd_okD(2) [OF assms(1)]
  have "in_s64 (pd_v n1 + pd_v n2)" using v1 v2 by (auto simp: in_s64_def)
  moreover have "in_s32 0" by (simp add: in_s32_def)
  ultimately have "pd_add n1 n2 fact_tab = pd_scale (pd_new (pd_v n1 + pd_v n2) (pd_e n1))"
    using assms(4) by (simp add: pd_add_def)
  moreover have "pd_acc (b + 11) \<dots> (pd_val n1 + pd_val n2)"
    by (rule pd_accI [where y = "of_int (pd_v n1 + pd_v n2)"])
       (use v1 v2 e1 assms(3,4) in \<open>auto simp: pd_val_def distrib_right\<close>)
  ultimately show ?thesis by simp
qed

lemma powi_split: "a = int k + c \<Longrightarrow> (10 :: real) powi a = 10 ^ k * 10 powi c"
  by (simp add: power_int_add)

lemma pd_add_near:
  assumes "pd_ok b n1" "pd_ok b n2" "b \<le> 10 ^ 9" "pd_e n1 = pd_e n2 + int d" "0 < d" "d < 9"
  shows "pd_acc (b + 11) (pd_add n1 n2 fact_tab) (pd_val n1 + pd_val n2)"
proof -
  note v1 = pd_okD(1) [OF assms(1)] and v2 = pd_okD(1) [OF assms(2)]
    and e2 = pd_okD(2) [OF assms(2)]
  have m: "\<bar>pd_v n1 * 10 ^ d\<bar> < 2 ^ 28 * 10 ^ 9" using v1 assms(6) by (intro fact_mult_in) auto
  have "in_s64 (pd_v n1 * 10 ^ d)" "in_s64 (pd_v n1 * 10 ^ d + pd_v n2)" "in_s32 (int d)"
    using m v2 assms(6) by (auto simp: in_s64_def in_s32_def)
  then have "pd_add n1 n2 fact_tab = pd_scale (pd_new (pd_v n1 * 10 ^ d + pd_v n2) (pd_e n2))"
    using assms(4-) by (simp add: pd_add_def rd_fact_tab)
  moreover have "pd_acc (b + 11) \<dots> (pd_val n1 + pd_val n2)"
    by (rule pd_accI [where y = "of_int (pd_v n1 * 10 ^ d + pd_v n2)"])
       (use m v2 e2 assms(3,4) in \<open>auto simp: pd_val_def distrib_right power_int_add\<close>)
  ultimately show ?thesis by simp
qed

lemma pd_add_far:
  assumes "pd_ok b n1" "pd_ok b n2" "b \<le> 10 ^ 9" "pd_e n1 = pd_e n2 + 9 + int k" "k < 18"
  shows "pd_acc (b + 20) (pd_add n1 n2 fact_tab) (pd_val n1 + pd_val n2)"
proof -
  note v1 = pd_okD(1) [OF assms(1)] and v2 = pd_okD(1) [OF assms(2)]
    and e1 = pd_okD(2) [OF assms(1)]
  have sc: "\<bar>pd_v n1 * 10 ^ 9\<bar> < 2 ^ 28 * 10 ^ 9" using v1 by (rule fact_mult_in) simp
  have t: "\<bar>pd_v n2 sdiv 10 ^ k\<bar> < 2 ^ 28" using sdiv_abs_le [of "pd_v n2" "10 ^ k"] v2 by linarith
  have "in_s64 (pd_v n1 * PD_SCALE9)" "in_s64 (pd_v n1 * PD_SCALE9 + pd_v n2 sdiv 10 ^ k)"
    "in_s32 (pd_e n1 - 9)" "in_s32 (9 + int k)"
    using sc t e1 assms(3,5) by (auto simp: in_s64_def in_s32_def PD_SCALE9_def)
  then have "pd_add n1 n2 fact_tab =
      pd_scale (pd_new (pd_v n1 * PD_SCALE9 + pd_v n2 sdiv 10 ^ k) (pd_e n1 - 9))"
    using assms(4,5) v2
    by (simp add: pd_add_def rd_fact_tab PC_FACTOR_SIZE_def s64_div_fact nat_add_distrib)
  moreover have "pd_acc (b + 9 + 11) \<dots> (pd_val n1 + pd_val n2)"
  proof (rule pd_accI [where y = "of_int (pd_v n1 * PD_SCALE9) + of_int (pd_v n2) / 10 ^ k"])
    show "\<bar>of_int (pd_v n1 * PD_SCALE9) + of_int (pd_v n2) / 10 ^ k -
        real_of_int (pd_v n1 * PD_SCALE9 + pd_v n2 sdiv 10 ^ k)\<bar> < 1"
      using sdiv_pow10_trunc [of "pd_v n2" k] by simp
    have "10 powi (pd_e n1 - 9) = (10 :: real) ^ k * 10 powi pd_e n2"
      by (rule powi_split) (use assms(4) in simp)
    moreover have "10 powi pd_e n1 = (10 :: real) ^ 9 * 10 powi (pd_e n1 - 9)"
      by (rule powi_split) simp
    ultimately show "pd_val n1 + pd_val n2 =
        (of_int (pd_v n1 * PD_SCALE9) + of_int (pd_v n2) / 10 ^ k) * 10 powi (pd_e n1 - 9)"
      by (simp add: pd_val_def PD_SCALE9_def distrib_right)
  qed (use sc t e1 assms(3) in \<open>auto simp: PD_SCALE9_def\<close>)
  ultimately show ?thesis by (simp add: add.commute)
qed

lemma pd_add_drop:
  assumes "pd_ok b n1" "pd_ok b n2" "b \<le> 10 ^ 9" "pd_e n2 + 27 \<le> pd_e n1"
  shows "pd_acc b (pd_add n1 n2 fact_tab) (pd_val n1 + pd_val n2)"
proof -
  have "in_s32 (pd_e n1 - pd_e n2)"
    using assms(3,4) pd_okD(2) [OF assms(1)] pd_okD(2) [OF assms(2)] by (auto simp: in_s32_def)
  then have "pd_add n1 n2 fact_tab = Some n1"
    using assms(4) pd_scale_norm [OF pd_okD(3) [OF assms(1)]]
    by (simp add: pd_add_def PC_FACTOR_SIZE_def)
  moreover have "\<bar>pd_val n2\<bar> < pd_ulp n1"
  proof -
    have "10 powi (9 + pd_e n2) \<le> (10 :: real) powi pd_e n1"
      by (rule power_int_increasing) (use assms(4) in auto)
    moreover have "\<bar>pd_val n2\<bar> < 10 ^ 9 * 10 powi pd_e n2"
      using pd_okD(1) [OF assms(2)] by (auto simp: pd_val_def abs_mult intro!: mult_strict_right_mono)
    ultimately show ?thesis by (simp add: pd_ulp_def power_int_add)
  qed
  ultimately show ?thesis using assms(1) by (auto simp: pd_acc_def pd_ok_def)
qed

lemma pd_acc_mono: "pd_acc b r x \<Longrightarrow> b \<le> c \<Longrightarrow> pd_acc c r x"
  by (auto simp: pd_acc_def pd_ok_def)

lemma pd_add_accurate_ge:
  assumes "pd_ok b n1" "pd_ok b n2" "b \<le> 10 ^ 9" "pd_e n2 \<le> pd_e n1"
  shows "pd_acc (b + 20) (pd_add n1 n2 fact_tab) (pd_val n1 + pd_val n2)"
proof -
  define d where "d = nat (pd_e n1 - pd_e n2)"
  have d: "pd_e n1 = pd_e n2 + int d" using assms(4) by (simp add: d_def)
  consider "d = 0" | "0 < d" "d < 9" | "9 \<le> d" "d < 27" | "27 \<le> d" by linarith
  then show ?thesis
  proof cases
    case 1
    then show ?thesis using pd_add_same [OF assms(1-3)] d by (auto intro: pd_acc_mono)
  next
    case 2
    then show ?thesis using pd_add_near [OF assms(1-3) d] by (auto intro: pd_acc_mono)
  next
    case 3
    then show ?thesis using pd_add_far [OF assms(1-3), of "d - 9"] d by simp
  next
    case 4
    then show ?thesis using pd_add_drop [OF assms(1-3)] d by (auto intro: pd_acc_mono)
  qed
qed

lemma pd_add_accurate:
  assumes "pd_ok b n1" "pd_ok b n2" "b \<le> 10 ^ 9"
  shows "pd_acc (b + 20) (pd_add n1 n2 fact_tab) (pd_val n1 + pd_val n2)"
  using pd_add_accurate_ge [OF assms] pd_add_accurate_ge [OF assms(2,1,3)] pd_add_commute [OF assms]
  by (cases "pd_e n2 \<le> pd_e n1") (auto simp: add.commute)

lemma pd_sub_accurate:
  assumes "pd_ok b n1" "pd_ok b n2" "b \<le> 10 ^ 9"
  shows "pd_acc (b + 20) (pd_sub n1 n2 fact_tab) (pd_val n1 - pd_val n2)"
  using pd_add_accurate [of b n1 "pd_neg n2"] assms by (simp add: pd_sub_add [OF assms(2)])

lemma pd_div_loop_spec:
  assumes "0 < v" "v < 10 * 2 ^ 28" "2 ^ 28 \<le> v * 10 ^ n" "0 \<le> m" "m + int n < 2 ^ 31"
  shows "\<exists>k\<le>n. pd_div_loop v m = Some (v * 10 ^ k, m + int k) \<and> v * 10 ^ k < 10 * 2 ^ 28"
  using assms
proof (induction n arbitrary: v m)
  case 0
  then show ?case by (simp add: pd_div_loop.simps drop_bit_28)
next
  case (Suc n)
  show ?case
  proof (cases "v < 2 ^ 28")
    case True
    have "in_s64 (v * 10)" "in_s32 (m + 1)" using True Suc.prems by (auto simp: in_s64_def in_s32_def)
    then have step: "pd_div_loop v m = pd_div_loop (v * 10) (m + 1)"
      using True Suc.prems(1) by (simp add: pd_div_loop.simps [of v] drop_bit_28)
    have "0 < v * 10" "v * 10 < 10 * 2 ^ 28" "2 ^ 28 \<le> v * 10 * 10 ^ n" "0 \<le> m + 1"
        "m + 1 + int n < 2 ^ 31" using True Suc.prems by auto
    from Suc.IH [OF this] obtain k where "k \<le> n" "v * 10 * 10 ^ k < 10 * 2 ^ 28"
        "pd_div_loop (v * 10) (m + 1) = Some (v * 10 * 10 ^ k, m + 1 + int k)" by auto
    then show ?thesis using step by (intro exI [of _ "Suc k"]) auto
  next
    case False
    then show ?thesis using Suc.prems
      by (intro exI [of _ 0]) (simp add: pd_div_loop.simps drop_bit_28)
  qed
qed

lemma sdiv_trunc:
  assumes "b \<noteq> 0"
  shows "\<bar>of_int a / of_int b - real_of_int (a sdiv b)\<bar> < 1"
proof -
  define x where "x = of_int \<bar>a\<bar> / real_of_int \<bar>b\<bar>"
  have f: "0 \<le> x - of_int \<lfloor>x\<rfloor>" "x - of_int \<lfloor>x\<rfloor> < 1" using floor_correct [of x] by linarith+
  have fl: "\<lfloor>x\<rfloor> = \<bar>a\<bar> div \<bar>b\<bar>" unfolding x_def by (rule floor_divide_of_int_eq)
  have "of_int a / of_int b - real_of_int (a sdiv b) = of_int (sgn a * sgn b) * (x - of_int \<lfloor>x\<rfloor>)"
    using assms unfolding fl by (auto simp: signed_divide_int_def sgn_if x_def)
  moreover have "sgn a * sgn b = - 1 \<or> sgn a * sgn b = 0 \<or> sgn a * sgn b = 1" by (auto simp: sgn_if)
  ultimately show ?thesis using f by (auto simp del: of_int_mult)
qed

lemma pd_div_accurate:
  assumes "pd_ok b n1" "pd_ok b n2" "b \<le> 10 ^ 9" "pd_v n2 \<noteq> 0"
  shows "pd_acc (2 * b + 29) (pd_div n1 n2) (pd_val n1 / pd_val n2)"
proof (cases "pd_v n1 = 0")
  case True
  then show ?thesis using assms(1)
    by (auto simp: pd_acc_def pd_div_def pd_val_def pd_ulp_def pd_ok_def)
next
  case False
  note v1 = pd_okD(1) [OF assms(1)] and v2 = pd_okD(1) [OF assms(2)]
    and e1 = pd_okD(2) [OF assms(1)] and e2 = pd_okD(2) [OF assms(2)]
  obtain k where k: "k \<le> 9" "pd_div_loop \<bar>pd_v n1\<bar> 0 = Some (\<bar>pd_v n1\<bar> * 10 ^ k, int k)"
      "\<bar>pd_v n1\<bar> * 10 ^ k < 10 * 2 ^ 28"
    using pd_div_loop_spec [of "\<bar>pd_v n1\<bar>" 9 0] False v1 by fastforce
  define a where "a = \<bar>pd_v n1\<bar> * 10 ^ k * PD_SCALE9"
  define q where "q = a sdiv \<bar>pd_v n2\<bar>"
  define r where "r = (pd_v n1 * 10 ^ k * PD_SCALE9) sdiv pd_v n2"
  define e where "e = pd_e n1 - pd_e n2 - int k - 9"
  have a: "0 \<le> a" "a < 10 * 2 ^ 28 * 10 ^ 9" using k(3) by (auto simp: a_def PD_SCALE9_def)
  have qb: "\<bar>q\<bar> < 10 * 2 ^ 28 * 10 ^ 9" using sdiv_abs_le [of a "\<bar>pd_v n2\<bar>"] a by (auto simp: q_def)
  have r: "r = (if (pd_v n1 < 0) = (pd_v n2 < 0) then q else - q)"
    using False assms(4) by (auto simp: r_def q_def a_def signed_divide_int_def sgn_if PD_SCALE9_def
        abs_mult mult_less_0_iff zero_less_mult_iff)
  have "in_s64 a" "s64_div a \<bar>pd_v n2\<bar> = Some q" "in_s64 (- pd_v n1)" "in_s64 (- pd_v n2)"
    using a qb assms(4) v1 v2 by (auto simp: s64_div_def in_s64_def q_def [symmetric])
  moreover have "in_s32 (pd_e n1 - pd_e n2)" "in_s32 (pd_e n1 - pd_e n2 - int k)" "in_s32 e"
    using e1 e2 assms(3) k(1) by (auto simp: in_s32_def e_def)
  ultimately have "pd_div n1 n2 = pd_scale (pd_new r e)"
    using False k(2) assms(4)
    by (cases "pd_v n1 < 0"; cases "pd_v n2 < 0") (auto simp: pd_div_def a_def r e_def)
  moreover have "pd_acc (2 * b + 18 + 11) \<dots> (pd_val n1 / pd_val n2)"
  proof (rule pd_accI [where y = "of_int (pd_v n1 * 10 ^ k * PD_SCALE9) / of_int (pd_v n2)"])
    show "\<bar>of_int (pd_v n1 * 10 ^ k * PD_SCALE9) / of_int (pd_v n2) - real_of_int r\<bar> < 1"
      unfolding r_def by (rule sdiv_trunc [OF assms(4)])
    have "(10 :: real) powi (pd_e n1 - pd_e n2) = 10 ^ (k + 9) * 10 powi e"
      by (rule powi_split) (simp add: e_def)
    then show "pd_val n1 / pd_val n2 =
        of_int (pd_v n1 * 10 ^ k * PD_SCALE9) / of_int (pd_v n2) * 10 powi e"
      by (simp add: pd_val_def PD_SCALE9_def power_int_diff power_add field_simps)
    show "\<bar>r\<bar> < 2 ^ 63" "\<bar>e\<bar> \<le> 2 * b + 18" using qb r e1 e2 k(1) by (auto simp: e_def)
  qed (use assms(3) in simp)
  ultimately show ?thesis by (simp add: add.commute)
qed

section \<open>Storing and loading\<close>

text \<open>The packed word of a normalised number: the mantissa above five bits of two's complement
  exponent.\<close>

lemma and_mask: "e AND EXP_MASK = e mod 32"
proof -
  have "EXP_MASK = mask 5" by (simp add: EXP_MASK_def EXP_BITS_def mask_eq_exp_minus_1)
  then have "e AND EXP_MASK = take_bit 5 e" by (simp add: take_bit_eq_mask)
  then show ?thesis by (simp add: take_bit_eq_mod)
qed

lemma pack_eq: "push_bit EXP_BITS v OR (e AND EXP_MASK) = v * 32 + e mod 32"
proof -
  have "push_bit 5 v OR take_bit 5 e = push_bit 5 v + take_bit 5 e"
    by (rule disjunctive_add_eq_or [symmetric], rule bit_eqI) (auto simp: bit_simps)
  then show ?thesis
    by (simp add: EXP_BITS_def and_mask push_bit_eq_mult take_bit_eq_mod)
qed

lemma unpack_e:
  assumes "- 16 \<le> e" "e \<le> 15"
  shows "drop_bit 59 (signed_take_bit 63 (push_bit 59 (e mod 32))) = (e :: int)"
proof -
  have "\<forall>e\<in>set [- 16..15]. drop_bit 59 (signed_take_bit 63 (push_bit 59 (e mod 32))) = (e :: int)"
    by code_simp
  moreover have "e \<in> set [- 16..15]" using assms unfolding set_upto by simp
  ultimately show ?thesis by blast
qed

lemma pd_store_norm:
  assumes "pd_norm n" "- 16 \<le> pd_e n" "pd_e n \<le> 15"
  shows "pd_store n = Some (Some (pd_v n * 32 + pd_e n mod 32))"
  using assms
  by (simp add: pd_store_def pd_norm_def store_low.simps store_high.simps store_raise.simps
      store_lower.simps EXP_BITS_def pack_eq [unfolded EXP_BITS_def] abs_less_iff)

lemma pd_load_pack:
  assumes "- 16 \<le> e" "e \<le> 15"
  shows "pd_load (v * 32 + e mod 32) = pd_scale (pd_new v e)"
proof -
  have "(v * 32 + e mod 32) mod 32 = e mod 32" by simp
  moreover have "(v * 32 + e mod 32) div 32 = v" by simp
  ultimately show ?thesis
    using unpack_e [OF assms] by (simp add: pd_load_def and_mask EXP_BITS_def drop_bit_eq_div)
qed

text \<open>
  (C20) Storing a normalised number whose exponent fits the five bits succeeds, the
  stored 64-bit word is in range, and loading it gives the number back unchanged.
\<close>

theorem pd_store_load:
  assumes "pd_norm n" "- 16 \<le> pd_e n" "pd_e n \<le> 15"
  shows "\<exists>w. pd_store n = Some (Some w) \<and> in_s64 w \<and> pd_load w = Some n"
proof -
  have "in_s64 (pd_v n * 32 + pd_e n mod 32)"
    using assms(1) pos_mod_bound [of 32 "pd_e n"] pos_mod_sign [of 32 "pd_e n"]
    by (auto simp: pd_norm_def in_s64_def)
  moreover have "pd_load (pd_v n * 32 + pd_e n mod 32) = Some n"
    using assms by (simp add: pd_load_pack pd_scale_norm)
  ultimately show ?thesis using pd_store_norm [OF assms] by blast
qed

theorem pd_store_load_witness:
  "\<exists>w. pd_store (pd_new (- 123456789) (- 8)) = Some (Some w) \<and> in_s64 w \<and>
       pd_load w = Some (pd_new (- 123456789) (- 8))"
  by (rule pd_store_load) (simp_all add: pd_norm_def)

text \<open>
  (C9) On normalised numbers with exponents up to a billion in magnitude, the four
  operations have no undefined behaviour (no signed overflow, no table index out of range), return a
  normalised number, and the number they return differs from the exact result by less than one unit
  in its last place; division needs a non-zero divisor.
\<close>

theorem pd_arith_accurate:
  assumes "pd_ok b n1" "pd_ok b n2" "b \<le> 10 ^ 9"
  shows "pd_acc (2 * b + 11) (pd_mul n1 n2) (pd_val n1 * pd_val n2) \<and>
         pd_acc (b + 20) (pd_add n1 n2 fact_tab) (pd_val n1 + pd_val n2) \<and>
         pd_acc (b + 20) (pd_sub n1 n2 fact_tab) (pd_val n1 - pd_val n2) \<and>
         (pd_v n2 \<noteq> 0 \<longrightarrow> pd_acc (2 * b + 29) (pd_div n1 n2) (pd_val n1 / pd_val n2))"
  using pd_mul_accurate [OF assms] pd_add_accurate [OF assms] pd_sub_accurate [OF assms]
    pd_div_accurate [OF assms] by blast

theorem pd_arith_accurate_witness:
  "pd_acc 31 (pd_mul (pd_new 5 (- 1)) (pd_new 3 0)) (pd_val (pd_new 5 (- 1)) * pd_val (pd_new 3 0)) \<and>
   pd_acc 49 (pd_div (pd_new 5 (- 1)) (pd_new 3 0)) (pd_val (pd_new 5 (- 1)) / pd_val (pd_new 3 0))"
  using pd_arith_accurate [of 10 "pd_new 5 (- 1)" "pd_new 3 0"]
  by (simp add: pd_ok_def pd_norm_def)

end
