(* ===== verification/Oracle.thy ===== *)
theory Oracle
  imports Pyth_Prelude
begin

text \<open>
  The account layouts of \<open>program/c/src/oracle/oracle.h\<close>: price information, component prices,
  moving averages and the price account itself, with their constants.  Fields keep the order and
  the widths of the C structs: a \<open>uint32_t\<close>, \<open>uint64_t\<close> or \<open>uint8_t\<close> field is a natural number below
  the bound its type gives (predicate \<open>wf_price\<close>), an \<open>int64_t\<close> or \<open>int32_t\<close> field is an integer in
  range.  A public key is its list of bytes
  (a byte is a \<open>char\<close> throughout the development).
\<close>

type_synonym pub_key = string

definition PC_MAGIC :: nat where "PC_MAGIC = 0xa1b2c3d4"
definition PC_VERSION :: nat where "PC_VERSION = 2"
definition PC_MAX_SEND_LATENCY :: nat where "PC_MAX_SEND_LATENCY = 25"
definition PC_PUBKEY_SIZE :: nat where "PC_PUBKEY_SIZE = 32"
definition PC_MAP_TABLE_SIZE :: nat where "PC_MAP_TABLE_SIZE = 5000"
definition PC_NUM_COMP :: nat where "PC_NUM_COMP = 64"

definition PC_PTYPE_UNKNOWN :: nat where "PC_PTYPE_UNKNOWN = 0"
definition PC_PTYPE_PRICE :: nat where "PC_PTYPE_PRICE = 1"

definition PC_STATUS_UNKNOWN :: nat where "PC_STATUS_UNKNOWN = 0"
definition PC_STATUS_TRADING :: nat where "PC_STATUS_TRADING = 1"
definition PC_STATUS_HALTED :: nat where "PC_STATUS_HALTED = 2"
definition PC_STATUS_AUCTION :: nat where "PC_STATUS_AUCTION = 3"
definition PC_STATUS_IGNORED :: nat where "PC_STATUS_IGNORED = 4"

definition CU_BUDGET_PER_IX :: nat where "CU_BUDGET_PER_IX = 20000"

record pc_price_info =
  pi_price :: int
  pi_conf :: nat
  pi_status :: nat
  pi_corp_act_status :: nat
  pi_pub_slot :: nat

record pc_price_comp =
  pc_pub :: pub_key
  pc_agg :: pc_price_info
  pc_latest :: pc_price_info

record pc_ema =
  ema_val :: int
  ema_numer :: int
  ema_denom :: int

record pc_price =
  px_magic :: nat
  px_ver :: nat
  px_type :: nat
  px_size :: nat
  px_ptype :: nat
  px_expo :: int
  px_num :: nat
  px_num_qt :: nat
  px_last_slot :: nat
  px_valid_slot :: nat
  px_twap :: pc_ema
  px_twac :: pc_ema
  px_timestamp :: int
  px_min_pub :: nat
  px_message_sent :: int
  px_max_latency :: nat
  px_drv3 :: int
  px_drv4 :: int
  px_prod :: pub_key
  px_next :: pub_key
  px_prev_slot :: nat
  px_prev_price :: int
  px_prev_conf :: nat
  px_prev_timestamp :: int
  px_agg :: pc_price_info
  px_comp :: "pc_price_comp list"

text \<open>The values the fields can hold, and the fixed number of component slots.\<close>

definition wf_info :: "pc_price_info \<Rightarrow> bool" where
  "wf_info i \<longleftrightarrow> in_s64 (pi_price i) \<and> pi_conf i < 2 ^ 64 \<and> pi_status i < 2 ^ 32 \<and> pi_pub_slot i < 2 ^ 64"

definition wf_price :: "pc_price \<Rightarrow> bool" where
  "wf_price p \<longleftrightarrow> length (px_comp p) = PC_NUM_COMP \<and> px_num p \<le> PC_NUM_COMP \<and>
     px_min_pub p < 2 ^ 8 \<and> px_max_latency p < 2 ^ 8 \<and> in_s32 (px_expo p) \<and> wf_info (px_agg p) \<and>
     (\<forall>c\<in>set (px_comp p). wf_info (pc_latest c))"

end
