(* ===== verification/Upd_Aggregate.thy ===== *)
theory Upd_Aggregate
  imports Oracle Price_Model Pd
begin

text \<open>
  The aggregation step of the on-chain program, \<open>program/c/src/oracle/upd_aggregate.h\<close>:
  \<open>upd_aggregate\<close> turns the component prices of a price account into the aggregate price and
  confidence, \<open>upd_twap\<close> and \<open>upd_ema\<close> keep the moving averages.  The model returns \<open>None\<close> exactly
  where the C code would have undefined behaviour; otherwise it returns the updated account and the
  Boolean the C function returns.
\<close>

section \<open>Model\<close>

definition INT64_MIN :: int where "INT64_MIN = - (2 ^ 63)"
definition INT64_MAX :: int where "INT64_MAX = 2 ^ 63 - 1"

text \<open>The validity test of one quote: the condition in the loop of \<open>upd_aggregate\<close>, with the
  short-circuit order of the source.\<close>

definition quote_valid :: "nat \<Rightarrow> int \<Rightarrow> pc_price_info \<Rightarrow> bool option" where
  "quote_valid slot max_latency q =
     do { slot_diff \<leftarrow> s64 (to_s64 slot - to_s64 (pi_pub_slot q));
          let price = pi_price q;
          let conf = to_s64 (pi_conf q);
          if pi_status q = PC_STATUS_TRADING \<and> 0 < conf then
            do { lo \<leftarrow> s64 (INT64_MIN + conf);
                 hi \<leftarrow> s64 (INT64_MAX - conf);
                 Some (lo \<le> price \<and> price \<le> hi \<and> slot_diff \<le> max_latency) }
          else Some False }"

text \<open>The loop over the components: \<open>comps\<close> is the component array, \<open>prcs\<close> the filled prefix of the
  local array of \<open>3 * PC_NUM_COMP\<close> prices, \<open>numv\<close> the number of valid quotes so far.\<close>

fun quote_loop :: "nat \<Rightarrow> int \<Rightarrow> nat \<Rightarrow> nat \<Rightarrow> pc_price_comp list \<Rightarrow> nat \<Rightarrow> int list \<Rightarrow>
    (pc_price_comp list \<times> nat \<times> int list) option" where
  "quote_loop slot max_latency 0 i comps numv prcs = Some (comps, numv, prcs)"
| "quote_loop slot max_latency (Suc left) i comps numv prcs =
     do { c \<leftarrow> rd comps i;
          let c = c\<lparr>pc_agg := pc_latest c\<rparr>;
          comps \<leftarrow> wr comps i c;
          valid \<leftarrow> quote_valid slot max_latency (pc_agg c);
          if valid then
            do { let price = pi_price (pc_agg c);
                 let conf = to_s64 (pi_conf (pc_agg c));
                 lo \<leftarrow> s64 (price - conf);
                 hi \<leftarrow> s64 (price + conf);
                 if length prcs + 3 \<le> 3 * PC_NUM_COMP
                 then quote_loop slot max_latency left (i + 1) comps (numv + 1) (prcs @ [lo, price, hi])
                 else None }
          else quote_loop slot max_latency left (i + 1) comps numv prcs }"

definition upd_aggregate :: "pc_price \<Rightarrow> nat \<Rightarrow> int \<Rightarrow> (pc_price \<times> bool) option" where
  "upd_aggregate p slot timestamp =
     do { let p = (if pi_status (px_agg p) = PC_STATUS_TRADING
                   then p\<lparr>px_prev_slot := pi_pub_slot (px_agg p), px_prev_price := pi_price (px_agg p),
                          px_prev_conf := pi_conf (px_agg p), px_prev_timestamp := px_timestamp p\<rparr>
                   else p);
          let p = p\<lparr>px_valid_slot := pi_pub_slot (px_agg p)\<rparr>;
          let p = p\<lparr>px_agg := (px_agg p)\<lparr>pi_pub_slot := slot\<rparr>\<rparr>;
          let p = p\<lparr>px_timestamp := timestamp\<rparr>;
          let max_latency = int (if px_max_latency p \<noteq> 0 then px_max_latency p else PC_MAX_SEND_LATENCY);
          (comps, numv, prcs) \<leftarrow> quote_loop slot max_latency (px_num p) 0 (px_comp p) 0 [];
          let p = p\<lparr>px_comp := comps, px_num_qt := numv\<rparr>;
          if numv = 0 \<or> numv < px_min_pub p
          then Some (p\<lparr>px_agg := (px_agg p)\<lparr>pi_status := PC_STATUS_UNKNOWN\<rparr>\<rparr>, False)
          else do {
            r \<leftarrow> price_model_core (length prcs) prcs (replicate (3 * PC_NUM_COMP) 0);
            let agg_price = p50 r;
            agg_conf_left \<leftarrow> s64 (agg_price - p25 r);
            agg_conf_right \<leftarrow> s64 (p75 r - agg_price);
            let agg_conf = (if agg_conf_right > agg_conf_left then agg_conf_right else agg_conf_left);
            if agg_conf \<le> 0
            then Some (p\<lparr>px_agg := (px_agg p)\<lparr>pi_status := PC_STATUS_UNKNOWN\<rparr>\<rparr>, False)
            else Some (p\<lparr>px_last_slot := slot,
                         px_agg := (px_agg p)\<lparr>pi_status := PC_STATUS_TRADING, pi_price := agg_price,
                                              pi_conf := nat agg_conf\<rparr>\<rparr>, True) } }"

text \<open>The tables of the quote set.  Its four price arrays are scratch space that the current program
  never reads.\<close>

record pc_qset =
  qs_decay :: "int list"
  qs_fact :: "int list"

definition qset_new :: pc_qset where
  "qset_new = \<lparr>
     qs_decay = [1000000000, 1000000000, 1414213562, 1732050807, 2000000000, 2236067977, 2449489742,
       2645751311, 2828427124, 3000000000, 3162277660, 3316624790, 3464101615, 3605551275, 3741657386,
       3872983346, 4000000000, 4123105625, 4242640687, 4358898943, 4472135954, 4582575694, 4690415759,
       4795831523, 4898979485, 5000000000],
     qs_fact = [1, 10, 100, 1000, 10000, 100000, 1000000, 10000000, 100000000, 1000000000,
       10000000000, 100000000000, 1000000000000, 10000000000000, 100000000000000, 1000000000000000,
       10000000000000000, 100000000000000000]\<rparr>"

text \<open>The moving averages.  \<open>one\<close> is \<open>100000000 * 10 ^ -8\<close>; both branches compute the new numerator
  and denominator, the second also the new value.\<close>

definition upd_ema :: "pc_ema \<Rightarrow> pd \<Rightarrow> pd \<Rightarrow> int \<Rightarrow> pc_qset \<Rightarrow> int \<Rightarrow> pc_ema option" where
  "upd_ema ptr val conf nslot qs expo =
     do { let one = pd_new 100000000 (- 8);
          cwgt \<leftarrow> (if pd_v conf \<noteq> 0 then pd_div one conf else Some one);
          (val, numer, denom) \<leftarrow>
            (if nslot > PD_EMA_MAX_DIFF then
               do { numer \<leftarrow> pd_mul val cwgt; Some (val, numer, cwgt) }
             else
               do { let diff = pd_new nslot 0;
                    let decay = pd_new PD_EMA_DECAY PD_EMA_EXPO;
                    decay \<leftarrow> pd_mul decay diff;
                    decay \<leftarrow> pd_add decay one (qs_fact qs);
                    numer \<leftarrow> pd_load (ema_numer ptr);
                    denom \<leftarrow> pd_load (ema_denom ptr);
                    numer \<leftarrow> pd_mul numer decay;
                    wval \<leftarrow> pd_mul val cwgt;
                    numer \<leftarrow> pd_add numer wval (qs_fact qs);
                    denom \<leftarrow> pd_mul denom decay;
                    denom \<leftarrow> pd_add denom cwgt (qs_fact qs);
                    val \<leftarrow> pd_div numer denom;
                    Some (val, numer, denom) });
          val \<leftarrow> pd_adjust val expo (qs_fact qs);
          let ptr = ptr\<lparr>ema_val := pd_v val\<rparr>;
          numer1 \<leftarrow> pd_store numer;
          (case numer1 of None \<Rightarrow> Some ptr
           | Some n1 \<Rightarrow>
               do { denom1 \<leftarrow> pd_store denom;
                    (case denom1 of None \<Rightarrow> Some ptr
                     | Some d1 \<Rightarrow> Some (ptr\<lparr>ema_numer := n1, ema_denom := d1\<rparr>)) }) }"

text \<open>\<open>upd_twap\<close> passes the same \<open>conf\<close> as value and confidence of the second call; \<open>upd_ema\<close> reads
  the confidence before it overwrites the value, so the aliasing has no effect on the result.\<close>

definition upd_twap :: "pc_price \<Rightarrow> int \<Rightarrow> pc_price option" where
  "upd_twap p nslots =
     do { px \<leftarrow> pd_new_scale (pi_price (px_agg p)) (px_expo p);
          conf \<leftarrow> pd_new_scale (to_s64 (pi_conf (px_agg p))) (px_expo p);
          twap \<leftarrow> upd_ema (px_twap p) px conf nslots qset_new (px_expo p);
          twac \<leftarrow> upd_ema (px_twac p) conf conf nslots qset_new (px_expo p);
          Some (p\<lparr>px_twap := twap, px_twac := twac\<rparr>) }"

section \<open>Specification of the aggregate\<close>

text \<open>The abstract contract, on lists of quotes \<open>(price, conf)\<close>.\<close>

definition quote_ok :: "nat \<Rightarrow> nat \<Rightarrow> pc_price_info \<Rightarrow> bool" where
  "quote_ok slot lat q \<longleftrightarrow> pi_status q = PC_STATUS_TRADING \<and> 0 < to_s64 (pi_conf q) \<and>
     in_s64 (pi_price q - to_s64 (pi_conf q)) \<and> in_s64 (pi_price q + to_s64 (pi_conf q)) \<and>
     to_s64 slot - to_s64 (pi_pub_slot q) \<le> int lat"

definition latency :: "pc_price \<Rightarrow> nat" where
  "latency p = (if px_max_latency p = 0 then PC_MAX_SEND_LATENCY else px_max_latency p)"

definition quotes :: "pc_price \<Rightarrow> nat \<Rightarrow> (int \<times> int) list" where
  "quotes p slot = map (\<lambda>q. (pi_price q, to_s64 (pi_conf q)))
     (filter (quote_ok slot (latency p)) (map pc_latest (take (px_num p) (px_comp p))))"

definition expand :: "(int \<times> int) list \<Rightarrow> int list" where
  "expand qs = concat (map (\<lambda>(p, c). [p - c, p, p + c]) qs)"

definition agg_price_of :: "(int \<times> int) list \<Rightarrow> int" where
  "agg_price_of qs = q50 (sort (expand qs))"

definition agg_conf_of :: "(int \<times> int) list \<Rightarrow> int" where
  "agg_conf_of qs = (let S = sort (expand qs) in max (q75 S - q50 S) (q50 S - q25 S))"

definition snapshot :: "pc_price \<Rightarrow> pc_price_comp list" where
  "snapshot p = map (\<lambda>c. c\<lparr>pc_agg := pc_latest c\<rparr>) (take (px_num p) (px_comp p)) @
     drop (px_num p) (px_comp p)"

definition agg_spec :: "pc_price \<Rightarrow> nat \<Rightarrow> int \<Rightarrow> pc_price \<times> bool" where
  "agg_spec p slot timestamp =
     (let trading = (pi_status (px_agg p) = PC_STATUS_TRADING);
          qs = quotes p slot;
          ok = (qs \<noteq> [] \<and> px_min_pub p \<le> length qs)
      in (p\<lparr>px_prev_slot := if trading then pi_pub_slot (px_agg p) else px_prev_slot p,
            px_prev_price := if trading then pi_price (px_agg p) else px_prev_price p,
            px_prev_conf := if trading then pi_conf (px_agg p) else px_prev_conf p,
            px_prev_timestamp := if trading then px_timestamp p else px_prev_timestamp p,
            px_valid_slot := pi_pub_slot (px_agg p),
            px_timestamp := timestamp,
            px_comp := snapshot p,
            px_num_qt := length qs,
            px_last_slot := if ok then slot else px_last_slot p,
            px_agg := (px_agg p)\<lparr>pi_pub_slot := slot,
                        pi_status := if ok then PC_STATUS_TRADING else PC_STATUS_UNKNOWN,
                        pi_price := if ok then agg_price_of qs else pi_price (px_agg p),
                        pi_conf := if ok then nat (agg_conf_of qs) else pi_conf (px_agg p)\<rparr>\<rparr>, ok))"

section \<open>The loop\<close>

lemma qset_fact: "qs_fact qset_new = fact_tab"
  by (simp add: qset_new_def fact_tab_def PC_FACTOR_SIZE_def upt_rec)

lemma to_s64_small: "n < 2 ^ 63 \<Longrightarrow> to_s64 n = int n"
  by (simp add: to_s64_def)

lemma quote_valid_ok:
  assumes "wf_info q" "slot < 2 ^ 63" "pi_pub_slot q < 2 ^ 63"
  shows "quote_valid slot (int lat) q = Some (quote_ok slot lat q)"
proof -
  have d: "in_s64 (to_s64 slot - to_s64 (pi_pub_slot q))"
    using assms by (auto simp: to_s64_small in_s64_def)
  have c: "in_s64 (to_s64 (pi_conf q))" using assms(1) by (simp add: wf_info_def to_s64_range)
  show ?thesis
  proof (cases "0 < to_s64 (pi_conf q)")
    case True
    then have "in_s64 (INT64_MIN + to_s64 (pi_conf q))" "in_s64 (INT64_MAX - to_s64 (pi_conf q))"
      using c by (auto simp: in_s64_def INT64_MIN_def INT64_MAX_def)
    moreover have "INT64_MIN + to_s64 (pi_conf q) \<le> pi_price q \<longleftrightarrow> in_s64 (pi_price q - to_s64 (pi_conf q))"
      "pi_price q \<le> INT64_MAX - to_s64 (pi_conf q) \<longleftrightarrow> in_s64 (pi_price q + to_s64 (pi_conf q))"
      using True assms(1) by (auto simp: INT64_MIN_def INT64_MAX_def in_s64_def wf_info_def)
    ultimately show ?thesis using d True by (simp add: quote_valid_def quote_ok_def Let_def)
  next
    case False
    then show ?thesis using d by (simp add: quote_valid_def quote_ok_def)
  qed
qed

lemma expand_simps [simp]:
  "expand [] = []" "expand ((p, c) # qs) = [p - c, p, p + c] @ expand qs"
  "expand (qs @ rs) = expand qs @ expand rs" "length (expand qs) = 3 * length qs"
  by (simp_all add: expand_def, induction qs, auto)

text \<open>The quotes collected from a list of components.\<close>

definition comp_quotes :: "nat \<Rightarrow> nat \<Rightarrow> pc_price_comp list \<Rightarrow> (int \<times> int) list" where
  "comp_quotes slot lat cs = map (\<lambda>q. (pi_price q, to_s64 (pi_conf q)))
     (filter (quote_ok slot lat) (map pc_latest cs))"

lemma quote_loop_eq:
  assumes "i + n \<le> length cs" "length prcs = 3 * numv" "numv \<le> i" "i + n \<le> PC_NUM_COMP" "slot < 2 ^ 63"
    "\<forall>c\<in>set cs. wf_info (pc_latest c) \<and> pi_pub_slot (pc_latest c) < 2 ^ 63"
  shows "quote_loop slot (int lat) n i cs numv prcs =
    Some (take i cs @ map (\<lambda>c. c\<lparr>pc_agg := pc_latest c\<rparr>) (take n (drop i cs)) @ drop (i + n) cs,
          numv + length (comp_quotes slot lat (take n (drop i cs))),
          prcs @ expand (comp_quotes slot lat (take n (drop i cs))))"
  using assms
proof (induction n arbitrary: i cs numv prcs)
  case (Suc n)
  let ?c = "cs ! i"
  let ?c' = "?c\<lparr>pc_agg := pc_latest ?c\<rparr>"
  have i: "i < length cs" using Suc.prems(1) by simp
  have wf: "wf_info (pc_latest ?c)" "pi_pub_slot (pc_latest ?c) < 2 ^ 63"
    using Suc.prems(6) i by auto
  have cs': "\<forall>c\<in>set (cs[i := ?c']). wf_info (pc_latest c) \<and> pi_pub_slot (pc_latest c) < 2 ^ 63"
    using Suc.prems(6) wf by (auto dest!: set_update_subset_insert [THEN subsetD])
  have split: "take (Suc n) (drop i cs) = ?c # take n (drop (i + 1) cs)"
    using i by (simp add: Cons_nth_drop_Suc [symmetric])
  have upd: "take (i + 1) (cs[i := ?c']) = take i cs @ [?c']" using i by (simp add: take_Suc_conv_app_nth)
  note v = quote_valid_ok [OF wf(1) Suc.prems(5) wf(2), of lat]
  show ?case
  proof (cases "quote_ok slot lat (pc_latest ?c)")
    case True
    let ?q = "pc_latest ?c"
    have "in_s64 (pi_price ?q - to_s64 (pi_conf ?q))" "in_s64 (pi_price ?q + to_s64 (pi_conf ?q))"
      using True by (auto simp: quote_ok_def)
    then have "quote_loop slot (int lat) (Suc n) i cs numv prcs =
        quote_loop slot (int lat) n (i + 1) (cs[i := ?c']) (numv + 1)
          (prcs @ [pi_price ?q - to_s64 (pi_conf ?q), pi_price ?q, pi_price ?q + to_s64 (pi_conf ?q)])"
      using True i v Suc.prems(2-4) by (simp add: rd_def wr_def Let_def)
    then show ?thesis
      using Suc.IH [of "i + 1" "cs[i := ?c']" _ "numv + 1"] Suc.prems cs' upd True
      by (simp add: split comp_quotes_def)
  next
    case False
    then have "quote_loop slot (int lat) (Suc n) i cs numv prcs =
        quote_loop slot (int lat) n (i + 1) (cs[i := ?c']) numv prcs"
      using i v by (simp add: rd_def wr_def)
    then show ?thesis
      using Suc.IH [of "i + 1" "cs[i := ?c']" prcs numv] Suc.prems cs' upd False
      by (simp add: split comp_quotes_def)
  qed
qed (simp add: comp_quotes_def)

section \<open>Counting quotes\<close>

text \<open>In a sorted list, a rank statistic is bounded by counting the elements below the bound.\<close>

lemma sorted_nth_le_count:
  assumes "sorted S" "k < length (filter (\<lambda>x. x \<le> b) S)"
  shows "S ! k \<le> (b :: int)"
  using assms
proof (induction S arbitrary: k)
  case (Cons x S)
  show ?case
  proof (cases "x \<le> b")
    case True
    then show ?thesis using Cons by (cases k) auto
  next
    case False
    then have "filter (\<lambda>y. y \<le> b) (x # S) = []" using Cons.prems(1) by (auto simp: filter_empty_conv)
    then show ?thesis using Cons.prems(2) by (simp only: list.size)
  qed
qed simp

lemma sorted_count_gt:
  assumes "sorted S" "k < length S" "S ! k \<le> (b :: int)"
  shows "k < length (filter (\<lambda>x. x \<le> b) S)"
proof -
  have "\<forall>x\<in>set (take (Suc k) S). x \<le> b"
  proof
    fix x assume "x \<in> set (take (Suc k) S)"
    then obtain i where "i \<le> k" "x = S ! i"
      using assms(2) by (force simp: in_set_conv_nth less_Suc_eq_le)
    then show "x \<le> b" using sorted_nth_mono [OF assms(1), of i k] assms by auto
  qed
  then have "filter (\<lambda>x. x \<le> b) (take (Suc k) S) = take (Suc k) S" by simp
  then have "Suc k \<le> length (filter (\<lambda>x. x \<le> b) (take (Suc k) S))" using assms(2) by simp
  also have "\<dots> \<le> length (filter (\<lambda>x. x \<le> b) (take (Suc k) S @ drop (Suc k) S))"
    by (simp only: filter_append length_append)
  finally show ?thesis by simp
qed

lemma sorted_middle_count:
  assumes "sorted S" "i \<le> j" "j < length S" "lo \<le> S ! i" "S ! j \<le> (hi :: int)"
  shows "j - i + 1 \<le> length (filter (\<lambda>y. lo \<le> y \<and> y \<le> hi) S)"
proof -
  let ?m = "take (j - i + 1) (drop i S)"
  have "\<forall>y\<in>set ?m. lo \<le> y \<and> y \<le> hi"
  proof
    fix y assume "y \<in> set ?m"
    then obtain k where "k < length ?m" "y = ?m ! k" by (auto simp: in_set_conv_nth)
    then have k: "i + k \<le> j" "y = S ! (i + k)" using assms by auto
    then have "S ! i \<le> y" "y \<le> S ! j" using sorted_nth_mono [OF assms(1)] assms(3) by auto
    then show "lo \<le> y \<and> y \<le> hi" using assms by simp
  qed
  then have "length (filter (\<lambda>y. lo \<le> y \<and> y \<le> hi) ?m) = length ?m" by simp
  also have "length ?m = j - i + 1" using assms by simp
  finally have "j - i + 1 = length (filter (\<lambda>y. lo \<le> y \<and> y \<le> hi) ?m)" ..
  also have "\<dots> \<le> length (filter (\<lambda>y. lo \<le> y \<and> y \<le> hi) (take i S @ ?m @ drop (j - i + 1) (drop i S)))"
    by (simp only: filter_append length_append)
  also have "take i S @ ?m @ drop (j - i + 1) (drop i S) = S" by (simp only: append_take_drop_id)
  finally show ?thesis .
qed

lemma sorted_run_count:
  assumes "sorted S" "i \<le> j" "j < length S" "S ! i = x" "S ! j = (x :: int)"
  shows "j - i + 1 \<le> length (filter (\<lambda>y. y = x) S)"
proof -
  have "j - i + 1 \<le> length (filter (\<lambda>y. x \<le> y \<and> y \<le> x) S)"
    using assms by (intro sorted_middle_count) auto
  also have "(\<lambda>y. x \<le> y \<and> y \<le> x) = (\<lambda>y. y = x)" by auto
  finally show ?thesis .
qed

lemma filter_sort_length: "length (filter P (sort xs)) = length (filter P xs)"
  by (metis mset_filter mset_sort size_mset)

text \<open>What one quote contributes: at most one copy of any value, and at most one negative value
  when its price is not negative.\<close>

lemma expand_count_eq:
  "\<forall>(p, c)\<in>set qs. 0 < c \<Longrightarrow> length (filter (\<lambda>y. y = x) (expand qs)) \<le> length qs"
  by (induction qs) auto

lemma expand_count_low:
  "\<forall>(p, c)\<in>set qs. 0 \<le> p \<and> 0 < c \<Longrightarrow> b < 0 \<Longrightarrow>
   length (filter (\<lambda>y. y \<le> b) (expand qs)) = length (filter (\<lambda>(p, c). p - c \<le> b) qs)"
  by (induction qs) auto

lemma expand_count_mid:
  "\<forall>(p, c)\<in>set qs. 0 \<le> p \<and> 0 < c \<and> p + c \<le> m \<Longrightarrow> b \<le> m \<Longrightarrow>
   2 * length (filter (\<lambda>(p, c). p - c \<le> b) qs) \<le> length (filter (\<lambda>y. y \<le> (b + m) div 2) (expand qs))"
  by (induction qs) auto

section \<open>The confidence is positive and does not overflow\<close>

lemma q50_le_mid: "sorted S \<Longrightarrow> S \<noteq> [] \<Longrightarrow> q50 S \<le> S ! (length S div 2)"
proof -
  assume s: "sorted S" and ne: "S \<noteq> []"
  have "S ! (length S div 2 - 1) \<le> S ! (length S div 2)"
    using ne by (intro sorted_nth_mono [OF s]) auto
  then show ?thesis by (auto simp: q50_def)
qed

lemma q50_ge_mid:
  "sorted S \<Longrightarrow> S \<noteq> [] \<Longrightarrow> k \<le> (length S - 1) div 2 \<Longrightarrow> S ! k \<le> q50 S"
  using q50_between(1) [of S k] by (metis (no_types) div_le_dividend
      le_diff_conv2 mult_2 order_trans times_div_less_eq_dividend add_mono)

lemma agg_conf_pos:
  assumes "qs \<noteq> []" "\<forall>(p, c)\<in>set qs. 0 < c"
  shows "0 < agg_conf_of qs"
proof (rule ccontr)
  define S where "S = sort (expand qs)"
  define n where "n = length S"
  have qs: "0 < length qs" using assms(1) by simp
  have nq: "n = 3 * length qs" by (simp add: S_def n_def)
  have "0 < length S" using nq qs by (simp add: n_def)
  then have ne: "S \<noteq> []" by (rule length_greater_0_conv [THEN iffD1])
  have S: "sorted S" "n = 3 * length qs" "S \<noteq> []" using nq ne by (simp_all add: S_def)
  assume "\<not> 0 < agg_conf_of qs"
  then have "q75 S = q25 S"
    using quartiles_ordered [OF S(1,3)] by (auto simp: agg_conf_of_def S_def [symmetric] Let_def)
  then have "S ! (n - 1 - n div 4) = S ! (n div 4)" by (simp add: q25_def q75_def n_def)
  moreover have "n div 4 \<le> n - 1 - n div 4" "n - 1 - n div 4 < n" using nq qs by linarith+
  ultimately have "n - 1 - n div 4 - n div 4 + 1 \<le> length (filter (\<lambda>y. y = S ! (n div 4)) S)"
    by (intro sorted_run_count [OF S(1)]) (simp_all add: n_def)
  also have "\<dots> \<le> length qs"
    unfolding S_def filter_sort_length by (rule expand_count_eq [OF assms(2)])
  finally show False using nq qs by linarith
qed

lemma agg_conf_bound:
  assumes "qs \<noteq> []" "\<forall>(p, c)\<in>set qs. 0 \<le> p \<and> 0 < c \<and> p + c \<le> m"
  defines "S \<equiv> sort (expand qs)"
  shows "q50 S - q25 S \<le> m" "q75 S - q50 S \<le> m"
proof -
  define n where "n = length S"
  have qs: "0 < length qs" using assms(1) by simp
  have nq: "n = 3 * length qs" by (simp add: S_def n_def)
  have "0 < length S" using nq qs by (simp add: n_def)
  then have ne: "S \<noteq> []" by (rule length_greater_0_conv [THEN iffD1])
  have S: "sorted S" "n = 3 * length qs" "S \<noteq> []" using nq ne by (simp_all add: S_def)
  have pc: "\<forall>(p, c)\<in>set qs. 0 \<le> p \<and> 0 < c" using assms(2) by auto
  have bnd: "- m \<le> x \<and> x \<le> m" if "x \<in> set S" for x
    using that assms(2) by (auto simp: S_def expand_def)
  have "n div 4 < n" "n - 1 - n div 4 < n" using nq qs by linarith+
  then have m: "- m \<le> q25 S" "q75 S \<le> m" "q25 S \<le> m"
    using bnd [of "q25 S"] bnd [of "q75 S"] by (auto simp: q25_def q75_def n_def)
  have "0 \<le> q50 S"
  proof (rule ccontr)
    assume neg: "\<not> 0 \<le> q50 S"
    have "length qs \<le> (n - 1) div 2" using S(2) qs by linarith
    then have "S ! length qs \<le> - 1" using q50_ge_mid [OF S(1,3), of "length qs"] neg by (simp add: n_def)
    then have "length qs < length (filter (\<lambda>x. x \<le> - 1) S)"
      using sorted_count_gt [OF S(1)] S(2) qs by (simp add: n_def)
    also have "\<dots> \<le> length qs"
      unfolding S_def filter_sort_length by (simp add: expand_count_low [OF pc])
    finally show False by simp
  qed
  then show "q75 S - q50 S \<le> m" using m by simp
  show "q50 S - q25 S \<le> m"
  proof (cases "q25 S < 0")
    case True
    let ?L = "q25 S"
    have "n div 4 < length (filter (\<lambda>x. x \<le> ?L) S)"
      using nq qs by (intro sorted_count_gt [OF S(1)]) (auto simp: q25_def n_def)
    then have "n div 4 < length (filter (\<lambda>(p, c). p - c \<le> ?L) qs)"
      unfolding S_def filter_sort_length by (simp only: expand_count_low [OF pc True [unfolded S_def]])
    then have "2 * (n div 4) + 2 \<le> length (filter (\<lambda>y. y \<le> (?L + m) div 2) S)"
      using expand_count_mid [OF assms(2) m(3)] by (simp add: S_def filter_sort_length)
    then have "S ! (n div 2) \<le> (?L + m) div 2"
      by (intro sorted_nth_le_count [OF S(1)]) linarith
    then show ?thesis using q50_le_mid [OF S(1,3)] m by (simp add: n_def)
  next
    case False
    have "q50 S \<le> q75 S" by (rule quartiles_ordered [OF S(1,3)])
    then show ?thesis using False m by simp
  qed
qed

section \<open>Refinement of the specification\<close>

text \<open>The hypothesis under which the aggregation has no undefined behaviour: slots below \<open>2 ^ 63\<close> and
  no negative price among the quotes that count.\<close>

definition slots_ok :: "pc_price \<Rightarrow> nat \<Rightarrow> bool" where
  "slots_ok p slot \<longleftrightarrow> slot < 2 ^ 63 \<and> (\<forall>c\<in>set (px_comp p). pi_pub_slot (pc_latest c) < 2 ^ 63)"

definition prices_nonneg :: "pc_price \<Rightarrow> nat \<Rightarrow> bool" where
  "prices_nonneg p slot \<longleftrightarrow> (\<forall>(x, c)\<in>set (quotes p slot). 0 \<le> x)"

lemma quotes_comp: "quotes p slot = comp_quotes slot (latency p) (take (px_num p) (px_comp p))"
  by (simp add: quotes_def comp_quotes_def)

lemma quotes_bounds:
  "\<forall>(x, c)\<in>set (quotes p slot). 0 < c \<and> in_s64 (x - c) \<and> in_s64 (x + c)"
  by (auto simp: quotes_def quote_ok_def)

lemma quotes_length: "wf_price p \<Longrightarrow> length (quotes p slot) \<le> PC_NUM_COMP"
  unfolding quotes_def wf_price_def length_map
  by (rule order_trans [OF length_filter_le]) simp

lemma expand_s64:
  "\<forall>(x, c)\<in>set qs. 0 < c \<and> in_s64 (x - c) \<and> in_s64 (x + c) \<Longrightarrow> x \<in> set (expand qs) \<Longrightarrow> in_s64 x"
  by (auto simp: expand_def in_s64_def)

lemma model_on_quotes:
  assumes "wf_price p" "quotes p slot \<noteq> []"
  defines "S \<equiv> sort (expand (quotes p slot))"
  shows "\<exists>r. price_model_core (length (expand (quotes p slot))) (expand (quotes p slot))
      (replicate (3 * PC_NUM_COMP) 0) = Some r \<and> p25 r = q25 S \<and> p50 r = q50 S \<and> p75 r = q75 S"
proof -
  let ?e = "expand (quotes p slot)"
  have len: "0 < length ?e" "length ?e \<le> length (replicate (3 * PC_NUM_COMP) (0 :: int))"
    using assms(2) quotes_length [OF assms(1), of slot] by simp_all
  have "\<forall>q\<in>set (take (length ?e) ?e). in_s64 q"
    using expand_s64 [OF quotes_bounds] by auto
  from price_model_core_eq [OF len(1) _ len(2) this]
  show ?thesis by (auto simp: S_def)
qed

definition conf_fits :: "pc_price \<Rightarrow> nat \<Rightarrow> bool" where
  "conf_fits p slot \<longleftrightarrow> (let S = sort (expand (quotes p slot)) in
     in_s64 (q50 S - q25 S) \<and> in_s64 (q75 S - q50 S))"

lemma nonneg_conf_fits:
  assumes "prices_nonneg p slot" "quotes p slot \<noteq> []"
  shows "conf_fits p slot"
proof -
  let ?S = "sort (expand (quotes p slot))"
  have pc: "\<forall>(x, c)\<in>set (quotes p slot). 0 \<le> x \<and> 0 < c \<and> x + c \<le> INT64_MAX"
    using quotes_bounds [of p slot] assms(1)
    by (fastforce simp: prices_nonneg_def in_s64_def INT64_MAX_def)
  have "length ?S \<noteq> 0" using assms(2) by simp
  then have "q25 ?S \<le> q50 ?S" "q50 ?S \<le> q75 ?S"
    by (intro quartiles_ordered; force)+
  then show ?thesis
    using agg_conf_bound [OF assms(2) pc] by (auto simp: conf_fits_def Let_def in_s64_def INT64_MAX_def)
qed

lemma quote_loop_full:
  assumes "wf_price p" "slots_ok p slot"
  shows "px_max_latency p = 0 \<Longrightarrow> quote_loop slot (int PC_MAX_SEND_LATENCY) (px_num p) 0 (px_comp p) 0 [] =
      Some (snapshot p, length (quotes p slot), expand (quotes p slot))"
    and "0 < px_max_latency p \<Longrightarrow> quote_loop slot (int (px_max_latency p)) (px_num p) 0 (px_comp p) 0 [] =
      Some (snapshot p, length (quotes p slot), expand (quotes p slot))"
proof -
  have "quote_loop slot (int (latency p)) (px_num p) 0 (px_comp p) 0 [] =
      Some (snapshot p, length (quotes p slot), expand (quotes p slot))"
    using assms
    by (subst quote_loop_eq) (auto simp: wf_price_def slots_ok_def snapshot_def quotes_comp)
  then show "px_max_latency p = 0 \<Longrightarrow> quote_loop slot (int PC_MAX_SEND_LATENCY) (px_num p) 0 (px_comp p) 0 [] =
      Some (snapshot p, length (quotes p slot), expand (quotes p slot))"
    and "0 < px_max_latency p \<Longrightarrow> quote_loop slot (int (px_max_latency p)) (px_num p) 0 (px_comp p) 0 [] =
      Some (snapshot p, length (quotes p slot), expand (quotes p slot))"
    by (auto simp: latency_def)
qed

lemma upd_aggregate_refines:
  assumes "wf_price p" "slots_ok p slot" "quotes p slot \<noteq> [] \<Longrightarrow> conf_fits p slot"
  shows "upd_aggregate p slot timestamp = Some (agg_spec p slot timestamp)"
proof (cases "quotes p slot = [] \<or> length (quotes p slot) < px_min_pub p")
  case True
  then show ?thesis
    by (cases "px_max_latency p = 0"; cases "pi_status (px_agg p) = PC_STATUS_TRADING")
       (auto simp: upd_aggregate_def agg_spec_def Let_def quote_loop_full [OF assms(1,2)])
next
  case False
  let ?qs = "quotes p slot"
  obtain r where r: "price_model_core (length (expand ?qs)) (expand ?qs)
        (replicate (3 * PC_NUM_COMP) 0) = Some r" "p25 r = q25 (sort (expand ?qs))"
      "p50 r = q50 (sort (expand ?qs))" "p75 r = q75 (sort (expand ?qs))"
    using model_on_quotes [OF assms(1)] False by blast
  have "\<forall>(x, c)\<in>set ?qs. 0 < c" using quotes_bounds [of p slot] by auto
  then have "0 < agg_conf_of ?qs" using agg_conf_pos False by blast
  moreover have "conf_fits p slot" using assms(3) False by blast
  ultimately show ?thesis using False r
    by (cases "px_max_latency p = 0"; cases "pi_status (px_agg p) = PC_STATUS_TRADING")
       (auto simp: upd_aggregate_def agg_spec_def Let_def quote_loop_full [OF assms(1,2)] conf_fits_def
         agg_conf_of_def agg_price_of_def max_def)
qed

section \<open>Robustness of the aggregate\<close>

lemma expand_count_all:
  "3 * length (filter (\<lambda>(p, c). P (p - c) \<and> P p \<and> P (p + c)) qs) \<le> length (filter P (expand qs))"
proof (induction qs)
  case (Cons q qs)
  obtain p c where "q = (p, c)" by fastforce
  then show ?case using Cons.IH by (cases "P (p - c)"; cases "P p"; cases "P (p + c)"; simp)
qed simp

lemma filter_length_mono:
  "(\<And>x. x \<in> set xs \<Longrightarrow> P x \<Longrightarrow> Q x) \<Longrightarrow> length (filter P xs) \<le> length (filter Q xs)"
proof (induction xs)
  case (Cons x xs)
  then show ?case by (cases "P x"; cases "Q x") auto
qed simp

lemma median_majority:
  assumes "length qs < 2 * length (filter (\<lambda>(p, c). a \<le> p - c \<and> p + c \<le> b) qs)"
    and "\<forall>(p, c)\<in>set qs. 0 < c"
  shows "a \<le> agg_price_of qs" "agg_price_of qs \<le> b"
proof -
  define S where "S = sort (expand qs)"
  define k where "k = length (filter (\<lambda>(p, c). a \<le> p - c \<and> p + c \<le> b) qs)"
  have n: "length S = 3 * length qs" by (simp add: S_def)
  have "0 < length qs" using assms(1) by (cases qs) auto
  then have pos: "0 < length S" using n by simp
  then have ne: "S \<noteq> []" by (rule length_greater_0_conv [THEN iffD1])
  have S: "sorted S" "S \<noteq> []" using ne by (simp_all add: S_def)
  have ge: "3 * k \<le> length (filter P S)" if P: "\<And>x. a \<le> x \<Longrightarrow> x \<le> b \<Longrightarrow> P x" for P
  proof -
    have "\<And>q. q \<in> set qs \<Longrightarrow> (\<lambda>(p, c). a \<le> p - c \<and> p + c \<le> b) q \<Longrightarrow>
        (\<lambda>(p, c). P (p - c) \<and> P p \<and> P (p + c)) q"
      using assms(2) by (auto intro!: P)
    then have "k \<le> length (filter (\<lambda>(p, c). P (p - c) \<and> P p \<and> P (p + c)) qs)"
      unfolding k_def by (rule filter_length_mono)
    then show ?thesis using expand_count_all [of P qs] by (simp add: S_def filter_sort_length)
  qed
  have k: "length qs < 2 * k" using assms(1) by (simp add: k_def)
  have "length S div 2 < 3 * k" using n k by linarith
  also have "3 * k \<le> length (filter (\<lambda>x. x \<le> b) S)" by (rule ge)
  finally have "S ! (length S div 2) \<le> b" by (rule sorted_nth_le_count [OF S(1)])
  then show "agg_price_of qs \<le> b"
    using q50_le_mid [OF S] by (simp add: agg_price_of_def S_def)
  have "\<not> S ! ((length S - 1) div 2) \<le> a - 1"
  proof
    have "(length S - 1) div 2 < length S" using pos by linarith
    moreover assume "S ! ((length S - 1) div 2) \<le> a - 1"
    ultimately have "(length S - 1) div 2 < length (filter (\<lambda>x. x \<le> a - 1) S)"
      by (rule sorted_count_gt [OF S(1)])
    moreover have "length (filter (\<lambda>x. x \<le> a - 1) S) + length (filter (\<lambda>x. \<not> x \<le> a - 1) S) = length S"
      by (rule sum_length_filter_compl)
    moreover have "3 * k \<le> length (filter (\<lambda>x. \<not> x \<le> a - 1) S)" by (rule ge) simp
    ultimately show False using k n by linarith
  qed
  then show "a \<le> agg_price_of qs"
    using q50_ge_mid [OF S, of "(length S - 1) div 2"] by (simp add: agg_price_of_def S_def)
qed

lemma agg_interval_half:
  assumes "qs \<noteq> []"
  shows "length (expand qs) \<le> 2 * length (filter (\<lambda>x. agg_price_of qs - agg_conf_of qs \<le> x \<and>
           x \<le> agg_price_of qs + agg_conf_of qs) (expand qs))"
proof -
  define S where "S = sort (expand qs)"
  let ?n = "length S"
  have n: "?n = 3 * length qs" "0 < length qs" using assms by (simp_all add: S_def)
  have i: "?n div 4 \<le> ?n - 1 - ?n div 4" "?n - 1 - ?n div 4 < ?n" using n by linarith+
  have "agg_price_of qs - agg_conf_of qs \<le> q25 S" "q75 S \<le> agg_price_of qs + agg_conf_of qs"
    by (auto simp: agg_price_of_def agg_conf_of_def Let_def S_def)
  then have "?n - 1 - ?n div 4 - ?n div 4 + 1 \<le> length (filter (\<lambda>x. agg_price_of qs - agg_conf_of qs \<le> x \<and>
           x \<le> agg_price_of qs + agg_conf_of qs) S)"
    using i by (intro sorted_middle_count) (auto simp: S_def q25_def q75_def)
  also have "\<dots> = length (filter (\<lambda>x. agg_price_of qs - agg_conf_of qs \<le> x \<and>
           x \<le> agg_price_of qs + agg_conf_of qs) (expand qs))"
    unfolding S_def by (rule filter_sort_length)
  finally show ?thesis using n i by (simp add: S_def)
qed

section \<open>The moving averages at their initial condition\<close>

lemma store_lower_total:
  assumes "- (2 ^ 58) \<le> v" "v < 2 ^ 58"
  shows "\<exists>r. store_lower v e = Some r"
  using assms
proof (induction v e rule: store_lower.induct)
  case (1 v e)
  have "in_s64 (v * 10)" using 1 by (simp add: in_s64_def)
  then show ?case using 1 by (subst store_lower.simps) auto
qed

lemma store_raise_le: "\<bar>fst (store_raise v e)\<bar> \<le> \<bar>v\<bar>"
proof (induction v e rule: store_raise.induct)
  case (1 v e)
  then show ?case using sdiv_abs_le [of v 10] by (subst store_raise.simps) auto
qed

lemma pd_store_total:
  assumes "pd_norm n"
  shows "\<exists>r. pd_store n = Some r"
proof -
  have v: "\<bar>pd_v n\<bar> < 2 ^ 28" using assms by (simp add: pd_norm_def)
  obtain v e where r: "store_raise (pd_v n) (pd_e n) = (v, e)" by fastforce
  then have "\<bar>v\<bar> < 2 ^ 28" using store_raise_le [of "pd_v n" "pd_e n"] v by simp
  then have "- (2 ^ 58) \<le> v" "v < 2 ^ 58" by auto
  then obtain x where "store_lower v e = Some x" using store_lower_total by blast
  moreover have "store_low (pd_v n) (pd_e n) = Some (pd_v n, pd_e n)"
    "store_high (pd_v n) (pd_e n) = Some (pd_v n, pd_e n)"
    using v by (auto simp: store_low.simps store_high.simps)
  ultimately show ?thesis using r by (simp add: pd_store_def)
qed

text \<open>The number of decimal digits that scaling clears: the least that leaves less than 28 bits.\<close>

definition scale_digits :: "int \<Rightarrow> nat" where
  "scale_digits v = (LEAST k. \<bar>v\<bar> div 10 ^ k < 2 ^ 28)"

lemma scale_digits_eq:
  assumes "\<bar>v\<bar> div 10 ^ k < 2 ^ 28" "0 < k \<longrightarrow> 2 ^ 28 \<le> \<bar>v\<bar> div 10 ^ (k - 1)"
  shows "scale_digits v = k"
  unfolding scale_digits_def
proof (rule Least_equality)
  fix j assume j: "\<bar>v\<bar> div 10 ^ j < 2 ^ 28"
  show "k \<le> j"
  proof (rule ccontr)
    assume "\<not> k \<le> j"
    then have "(10 :: int) ^ j \<le> 10 ^ (k - 1)" by (intro power_increasing) auto
    then have "\<bar>v\<bar> div 10 ^ (k - 1) \<le> \<bar>v\<bar> div 10 ^ j" by (intro zdiv_mono2) auto
    then show False using assms(2) j \<open>\<not> k \<le> j\<close> by auto
  qed
qed (rule assms(1))

text \<open>A value scaled from exponent \<open>expo\<close> and adjusted back to it is the value with these digits cleared.\<close>

lemma pd_scale_adjust:
  assumes "\<bar>v\<bar> < 2 ^ 63" "\<bar>expo\<bar> \<le> 10 ^ 6"
  defines "k \<equiv> scale_digits v"
  defines "n \<equiv> pd_new (v sdiv 10 ^ k) (expo + int k)"
  shows "k \<le> 11" "pd_new_scale v expo = Some n" "pd_ok (\<bar>expo\<bar> + 11) n"
    "pd_adjust n expo fact_tab = Some (pd_new (v sdiv 10 ^ k * 10 ^ k) expo)" "v sdiv 10 ^ k = 0 \<longleftrightarrow> v = 0"
proof -
  have e: "- (2 ^ 31) \<le> expo" "expo + 11 < 2 ^ 31" using assms(2) by auto
  obtain n' k' where n': "pd_scale (pd_new v expo) = Some n'" "k' \<le> 11" "pd_e n' = expo + int k'" "pd_norm n'"
      "\<bar>pd_v n'\<bar> = \<bar>v\<bar> div 10 ^ k'" "pd_v n' = 0 \<or> (pd_v n' < 0 \<longleftrightarrow> v < 0)"
      "0 < k' \<longrightarrow> 2 ^ 28 \<le> \<bar>v\<bar> div 10 ^ (k' - 1)"
    using pd_scale_spec [of "pd_new v expo"] assms(1) e unfolding pd_new_sel by blast
  have k: "k = k'" unfolding k_def using n'(4,5,7) by (intro scale_digits_eq) (simp_all add: pd_norm_def)
  have "v sdiv 10 ^ k = 0 \<or> (v sdiv 10 ^ k < 0 \<longleftrightarrow> v < 0)" by (rule sdiv_sign) simp
  moreover have "\<bar>v sdiv 10 ^ k\<bar> = \<bar>v\<bar> div 10 ^ k" by (simp add: sdiv_abs)
  ultimately have q: "pd_v n' = v sdiv 10 ^ k" using n'(5,6) k by (auto simp: abs_if split: if_splits)
  have n: "n' = n" using q n'(3) k pd_new_eta [of n'] by (simp add: n_def)
  have "\<bar>v\<bar> div 10 ^ k * 10 ^ k \<le> \<bar>v\<bar>" by (simp add: minus_mod_eq_div_mult [symmetric])
  then have "\<bar>pd_v n * 10 ^ k\<bar> < 2 ^ 63" using assms(1) n'(5) k n by (simp add: abs_mult)
  then have s: "in_s64 (pd_v n * 10 ^ k)" by (rule in_s64_abs)
  have "in_s32 (int k)" using n'(2) k by (simp add: in_s32_def)
  then have "pd_adjust n expo fact_tab = Some (pd_new (pd_v n * 10 ^ k) expo)"
    using n'(2,3) s k n by (cases "k = 0") (auto simp: pd_adjust_def rd_fact_tab)
  then show "pd_adjust n expo fact_tab = Some (pd_new (v sdiv 10 ^ k * 10 ^ k) expo)" by (simp add: n_def)
  show "k \<le> 11" "pd_new_scale v expo = Some n" "pd_ok (\<bar>expo\<bar> + 11) n"
    using n' k n by (auto simp: pd_ok_def pd_new_scale_def)
  show "v sdiv 10 ^ k = 0 \<longleftrightarrow> v = 0"
  proof (cases k)
    case (Suc i)
    have "k' = Suc i" using k Suc by simp
    then have "2 ^ 28 \<le> \<bar>v\<bar> div 10 ^ i" using n'(7) by simp
    then have "0 < \<bar>v\<bar> div 10 ^ i div 10" by (simp add: pos_imp_zdiv_pos_iff)
    moreover have "\<bar>v\<bar> div 10 ^ i div 10 = \<bar>v\<bar> div 10 ^ k" using Suc by (simp add: zdiv_zmult2_eq [symmetric] mult.commute)
    ultimately show ?thesis using \<open>\<bar>v sdiv 10 ^ k\<bar> = \<bar>v\<bar> div 10 ^ k\<close> by auto
  qed simp
qed

text \<open>The average after a restart: numerator and denominator are replaced when both can be stored.\<close>

definition ema_restart :: "pc_ema \<Rightarrow> int \<Rightarrow> pd \<Rightarrow> pd \<Rightarrow> pc_ema" where
  "ema_restart e v numer denom = (case (pd_store numer, pd_store denom) of
     (Some (Some n), Some (Some d)) \<Rightarrow> \<lparr>ema_val = v, ema_numer = n, ema_denom = d\<rparr>
   | _ \<Rightarrow> e\<lparr>ema_val := v\<rparr>)"

definition ema_holds :: "pc_ema \<Rightarrow> pd \<Rightarrow> pd \<Rightarrow> bool" where
  "ema_holds e numer denom \<longleftrightarrow> pd_load (ema_numer e) = Some numer \<and> pd_load (ema_denom e) = Some denom"

lemma ema_restart_holds:
  assumes "pd_norm n" "pd_norm d" "- 16 \<le> pd_e n" "pd_e n \<le> 15" "- 16 \<le> pd_e d" "pd_e d \<le> 15"
  shows "ema_holds (ema_restart e v n d) n d"
proof -
  have "pd_load (pd_v m * 32 + pd_e m mod 32) = Some m" if "pd_norm m" "- 16 \<le> pd_e m" "pd_e m \<le> 15" for m
    using that by (simp add: pd_load_pack pd_scale_norm)
  then show ?thesis using pd_store_norm [OF assms(1,3,4)] pd_store_norm [OF assms(2,5,6)] assms
    by (simp add: ema_restart_def ema_holds_def)
qed

lemma upd_weight:
  assumes "pd_ok b conf" "8 \<le> b" "b \<le> 10 ^ 7"
  obtains w where "(if pd_v conf \<noteq> 0 then pd_div (pd_new 100000000 (- 8)) conf else Some (pd_new 100000000 (- 8))) = Some w"
    "pd_ok (2 * b + 29) w" "\<bar>(if pd_v conf = 0 then 1 else 1 / pd_val conf) - pd_val w\<bar> < pd_ulp w"
proof (cases "pd_v conf = 0")
  case True
  have "pd_val (pd_new 100000000 (- 8)) = 1" by (simp add: pd_val_def power_int_minus)
  then show thesis using that [of "pd_new 100000000 (- 8)"] True assms by (simp add: pd_ok_def pd_norm_def pd_ulp_def)
next
  case False
  have one: "pd_ok b (pd_new 100000000 (- 8))" "pd_val (pd_new 100000000 (- 8)) = 1"
    using assms(2) by (simp_all add: pd_ok_def pd_norm_def pd_val_def power_int_minus)
  show thesis using that pd_div_accurate [OF one(1) assms(1) _ False] assms(3) False one(2)
    by (auto simp: pd_acc_def)
qed

lemma upd_ema_initial:
  assumes "pd_ok b val" "pd_ok b conf" "8 \<le> b" "b \<le> 10 ^ 7" "PD_EMA_MAX_DIFF < nslot"
    "pd_adjust val expo fact_tab = Some (pd_new x expo)" "pd_ok (2 * b + 29) w"
    "(if pd_v conf \<noteq> 0 then pd_div (pd_new 100000000 (- 8)) conf else Some (pd_new 100000000 (- 8))) = Some w"
  shows "\<exists>n. upd_ema ptr val conf nslot qset_new expo = Some (ema_restart ptr x n w) \<and> pd_norm n \<and>
    \<bar>pd_val val * pd_val w - pd_val n\<bar> < pd_ulp n"
proof -
  have "pd_ok (2 * b + 29) val" using assms(1,3) by (auto simp: pd_ok_def)
  from pd_mul_accurate [OF this assms(7)] obtain n where n: "pd_mul val w = Some n" "pd_norm n"
      "\<bar>pd_val val * pd_val w - pd_val n\<bar> < pd_ulp n"
    using assms(4) by (auto simp: pd_acc_def pd_ok_def)
  obtain s t where st: "pd_store n = Some s" "pd_store w = Some t"
    using pd_store_total n(2) assms(7) by (metis pd_ok_def)
  have "upd_ema ptr val conf nslot qset_new expo = Some (ema_restart ptr x n w)"
    using assms(5,6,8) n(1) st
    by (cases s; cases t; cases "pd_v conf = 0") (auto simp: upd_ema_def qset_fact Let_def ema_restart_def)
  then show ?thesis using n(2,3) by blast
qed

section \<open>The branches without the hypothesis on signs\<close>

lemma upd_aggregate_few:
  assumes "wf_price p" "slots_ok p slot" "quotes p slot = [] \<or> length (quotes p slot) < px_min_pub p"
  shows "upd_aggregate p slot timestamp = Some (agg_spec p slot timestamp)"
  by (cases "px_max_latency p = 0"; cases "pi_status (px_agg p) = PC_STATUS_TRADING")
     (use assms(3) in \<open>auto simp: upd_aggregate_def agg_spec_def Let_def quote_loop_full [OF assms(1,2)]\<close>)

lemma upd_aggregate_None:
  assumes "wf_price p" "slots_ok p slot" "quotes p slot \<noteq> []" "px_min_pub p \<le> length (quotes p slot)"
    "\<not> conf_fits p slot"
  shows "upd_aggregate p slot timestamp = None"
proof -
  let ?qs = "quotes p slot"
  obtain r where r: "price_model_core (length (expand ?qs)) (expand ?qs)
        (replicate (3 * PC_NUM_COMP) 0) = Some r" "p25 r = q25 (sort (expand ?qs))"
      "p50 r = q50 (sort (expand ?qs))" "p75 r = q75 (sort (expand ?qs))"
    using model_on_quotes [OF assms(1,3)] by blast
  have "s64 (p50 r - p25 r) = None \<or> s64 (p75 r - p50 r) = None"
    using assms(5) by (auto simp: conf_fits_def Let_def r s64_def)
  then show ?thesis using r(1) assms(3,4)
    by (cases "px_max_latency p = 0"; cases "pi_status (px_agg p) = PC_STATUS_TRADING")
       (auto simp: upd_aggregate_def Let_def quote_loop_full [OF assms(1,2)] split: Option.bind_splits)
qed

section \<open>Properties\<close>

text \<open>Example accounts: the first \<open>n\<close> component slots hold the given \<open>(price, conf, slot)\<close> quotes with
  status TRADING, the others are zero.\<close>

definition info :: "int \<Rightarrow> nat \<Rightarrow> nat \<Rightarrow> nat \<Rightarrow> pc_price_info" where
  "info price conf status slot = \<lparr>pi_price = price, pi_conf = conf, pi_status = status,
     pi_corp_act_status = 0, pi_pub_slot = slot\<rparr>"

definition ex_comps :: "(int \<times> nat \<times> nat) list \<Rightarrow> pc_price_comp list" where
  "ex_comps qs =
     map (\<lambda>(p, c, s). \<lparr>pc_pub = [], pc_agg = info 0 0 0 0, pc_latest = info p c PC_STATUS_TRADING s\<rparr>) qs @
     replicate (PC_NUM_COMP - length qs) \<lparr>pc_pub = [], pc_agg = info 0 0 0 0, pc_latest = info 0 0 0 0\<rparr>"

definition ex_price :: "int \<Rightarrow> pc_price_info \<Rightarrow> (int \<times> nat \<times> nat) list \<Rightarrow> pc_price" where
  "ex_price expo agg qs = \<lparr>px_magic = PC_MAGIC, px_ver = PC_VERSION, px_type = 3, px_size = 3312, px_ptype = 1,
     px_expo = expo, px_num = length qs, px_num_qt = 0, px_last_slot = 0, px_valid_slot = 0,
     px_twap = \<lparr>ema_val = 0, ema_numer = 0, ema_denom = 0\<rparr>,
     px_twac = \<lparr>ema_val = 0, ema_numer = 0, ema_denom = 0\<rparr>,
     px_timestamp = 0, px_min_pub = 1, px_message_sent = 0, px_max_latency = 0, px_drv3 = 0, px_drv4 = 0,
     px_prod = [], px_next = [], px_prev_slot = 0, px_prev_price = 0, px_prev_conf = 0,
     px_prev_timestamp = 0, px_agg = agg, px_comp = ex_comps qs\<rparr>"

lemmas ex_defs = ex_price_def ex_comps_def info_def PC_NUM_COMP_def PC_STATUS_TRADING_def
  PC_STATUS_UNKNOWN_def PC_MAX_SEND_LATENCY_def

lemma ex_wf:
  assumes "length qs \<le> 64" "\<forall>(p, c, s)\<in>set qs. in_s64 p \<and> c < 2 ^ 64 \<and> s < 2 ^ 63" "in_s32 expo"
    "wf_info agg"
  shows "wf_price (ex_price expo agg qs)"
  using assms by (fastforce simp: wf_price_def wf_info_def ex_defs in_s64_def)

lemma ex_slots:
  assumes "\<forall>(p, c, s)\<in>set qs. s < 2 ^ 63" "slot < 2 ^ 63"
  shows "slots_ok (ex_price expo agg qs) slot"
  using assms by (fastforce simp: slots_ok_def ex_defs)

lemma ex_quotes:
  "quotes (ex_price expo agg qs) slot = map (\<lambda>(p, c, s). (p, to_s64 c))
     (filter (\<lambda>(p, c, s). quote_ok slot 25 (info p c PC_STATUS_TRADING s)) qs)"
  by (simp add: quotes_def latency_def ex_defs filter_map o_def case_prod_unfold)

text \<open>
  (C1) On a well-formed price account, with slots below \<open>2 ^ 63\<close> and no negative
  price among the valid quotes, the aggregation has no undefined behaviour and computes exactly the
  specification \<^const>\<open>agg_spec\<close>: the previous TRADING aggregate is saved, the component snapshots
  are taken, and either the new aggregate is the median of the expanded quotes with the larger
  quartile distance as confidence, or, with no or too few quotes, only the status becomes UNKNOWN.
  In particular the branch guarding against a confidence of zero is never taken.
\<close>

theorem upd_aggregate_correct:
  assumes "wf_price p" "slots_ok p slot" "prices_nonneg p slot"
  shows "upd_aggregate p slot timestamp = Some (agg_spec p slot timestamp)"
  using upd_aggregate_refines [OF assms(1,2) nonneg_conf_fits [OF assms(3)]] .

theorem upd_aggregate_correct_witness:
  "upd_aggregate (ex_price (- 8) (info 0 0 PC_STATUS_TRADING 4) [(100, 10, 7), (105, 5, 9), (90, 2, 3)]) 10 77 =
     Some (agg_spec (ex_price (- 8) (info 0 0 PC_STATUS_TRADING 4) [(100, 10, 7), (105, 5, 9), (90, 2, 3)]) 10 77)"
proof (rule upd_aggregate_correct)
  show "prices_nonneg (ex_price (- 8) (info 0 0 PC_STATUS_TRADING 4) [(100, 10, 7), (105, 5, 9), (90, 2, 3)]) 10"
    by (auto simp: prices_nonneg_def ex_quotes)
qed (auto intro!: ex_wf ex_slots simp: in_s64_def in_s32_def wf_info_def info_def PC_STATUS_TRADING_def)

text \<open>
  (C17) On a well-formed account with slots below \<open>2 ^ 63\<close>, and whatever the signs of the
  prices, an aggregation that succeeds reports TRADING at the current slot with a positive confidence
  from at least \<open>min_pub\<close> quotes, the interval price \<open>\<plusminus>\<close> conf holds at least half of the expanded quotes,
  and if the intervals of a strict majority of the valid quotes lie in \<open>[a, b]\<close>, so does the price: a
  minority of publishers cannot move it out.
\<close>

theorem upd_aggregate_robust:
  assumes "wf_price p" "slots_ok p slot"
    and "upd_aggregate p slot timestamp = Some (p', True)"
    and "length (quotes p slot) < 2 * length (filter (\<lambda>(x, c). a \<le> x - c \<and> x + c \<le> b) (quotes p slot))"
  shows "pi_status (px_agg p') = PC_STATUS_TRADING \<and> pi_pub_slot (px_agg p') = slot \<and> px_last_slot p' = slot \<and>
    0 < pi_conf (px_agg p') \<and> px_min_pub p \<le> px_num_qt p' \<and> px_num_qt p' = length (quotes p slot) \<and>
    a \<le> pi_price (px_agg p') \<and> pi_price (px_agg p') \<le> b \<and>
    length (expand (quotes p slot)) \<le> 2 * length (filter (\<lambda>x.
      pi_price (px_agg p') - int (pi_conf (px_agg p')) \<le> x \<and>
      x \<le> pi_price (px_agg p') + int (pi_conf (px_agg p'))) (expand (quotes p slot)))"
proof -
  let ?qs = "quotes p slot"
  have ne: "?qs \<noteq> []" using assms(4) by (cases ?qs) auto
  have enough: "\<not> (?qs = [] \<or> length ?qs < px_min_pub p)"
    using upd_aggregate_few [OF assms(1,2), of timestamp] assms(3) by (auto simp: agg_spec_def Let_def)
  then have "conf_fits p slot" using upd_aggregate_None [OF assms(1,2), of timestamp] assms(3) by fastforce
  then have spec: "(p', True) = agg_spec p slot timestamp"
    using upd_aggregate_refines [OF assms(1,2), of timestamp] assms(3) by simp
  have c: "\<forall>(x, c)\<in>set ?qs. 0 < c" using quotes_bounds [of p slot] by auto
  show ?thesis
    using spec agg_conf_pos [OF ne c] median_majority [OF assms(4) c] agg_interval_half [OF ne]
    by (simp add: agg_spec_def Let_def)
qed

theorem upd_aggregate_robust_witness:
  "\<exists>p'. upd_aggregate (ex_price (- 8) (info 0 0 PC_STATUS_TRADING 4) [(100, 10, 7), (105, 5, 9), (900, 2, 3)]) 10 77 = Some (p', True) \<and>
     90 \<le> pi_price (px_agg p') \<and> pi_price (px_agg p') \<le> 110"
proof -
  let ?qs = "[(100, 10, 7), (105, 5, 9), (900, 2, 3)] :: (int \<times> nat \<times> nat) list"
  let ?p = "ex_price (- 8) (info 0 0 PC_STATUS_TRADING 4) ?qs"
  have wf: "wf_price ?p" "slots_ok ?p 10"
    by (auto intro!: ex_wf ex_slots simp: in_s64_def in_s32_def wf_info_def info_def PC_STATUS_TRADING_def)
  have qs: "quotes ?p 10 = [(100, 10), (105, 5), (900, 2)]"
    by (simp add: ex_quotes quote_ok_def info_def PC_STATUS_TRADING_def to_s64_def in_s64_def)
  have nn: "prices_nonneg ?p 10" by (simp add: prices_nonneg_def qs)
  have "snd (agg_spec ?p 10 77)" by (simp add: agg_spec_def qs Let_def, simp add: ex_price_def)
  then obtain p' where "upd_aggregate ?p 10 77 = Some (p', True)"
    using upd_aggregate_refines [OF wf nonneg_conf_fits [OF nn], of 77]
    by (cases "agg_spec ?p 10 77") simp
  then show ?thesis
    using upd_aggregate_robust [OF wf, of 77 p' 90 110] by (simp add: qs)
qed

text \<open>
  (C21) With no valid quote, or fewer than \<open>min_pub\<close>, the aggregation returns
  false and marks the aggregate UNKNOWN; price, confidence and the slot of the last good aggregate
  keep their values, whatever the signs of the prices.
\<close>

theorem upd_aggregate_too_few:
  assumes "wf_price p" "slots_ok p slot" "quotes p slot = [] \<or> length (quotes p slot) < px_min_pub p"
  shows "\<exists>p'. upd_aggregate p slot timestamp = Some (p', False) \<and>
    pi_status (px_agg p') = PC_STATUS_UNKNOWN \<and> pi_price (px_agg p') = pi_price (px_agg p) \<and>
    pi_conf (px_agg p') = pi_conf (px_agg p) \<and> px_last_slot p' = px_last_slot p \<and>
    px_num_qt p' = length (quotes p slot) \<and> px_timestamp p' = timestamp"
  using upd_aggregate_few [OF assms(1,2), of timestamp] assms(3)
  by (auto simp: agg_spec_def Let_def)

theorem upd_aggregate_too_few_witness:
  "\<exists>p'. upd_aggregate (ex_price (- 8) (info 55 5 PC_STATUS_TRADING 4) [(100, 10, 7)]) 33 77 = Some (p', False) \<and>
     pi_status (px_agg p') = PC_STATUS_UNKNOWN \<and> pi_price (px_agg p') = 55"
proof -
  let ?p = "ex_price (- 8) (info 55 5 PC_STATUS_TRADING 4) [(100, 10, 7)]"
  have "wf_price ?p" "slots_ok ?p 33"
    by (auto intro!: ex_wf ex_slots simp: in_s64_def in_s32_def wf_info_def info_def PC_STATUS_TRADING_def)
  moreover have "quotes ?p 33 = []"
    by (simp add: ex_quotes quote_ok_def info_def to_s64_def)
  ultimately show ?thesis
    using upd_aggregate_too_few [of ?p 33 77] by (auto simp: ex_price_def info_def)
qed

text \<open>
  (C23) The subtraction that computes the left confidence can overflow:
  the validity test admits negative prices, and three valid quotes, one below \<open>-(2 ^ 62)\<close> and two above
  \<open>2 ^ 62\<close>, make the difference of median and lower quartile exceed \<open>INT64_MAX\<close>, which the comment
  in the source excludes on the ground that valid quotes have positive prices.
\<close>

theorem upd_aggregate_negative_overflow:
  "let p = ex_price (- 8) (info 0 0 PC_STATUS_TRADING 4)
             [(- 5000000000000000000, 2, 9), (5000000000000000000, 2, 9), (5000000000000000000, 2, 9)]
   in wf_price p \<and> slots_ok p 10 \<and> length (quotes p 10) = 3 \<and> upd_aggregate p 10 77 = None"
proof -
  let ?p = "ex_price (- 8) (info 0 0 PC_STATUS_TRADING 4)
     [(- 5000000000000000000, 2, 9), (5000000000000000000, 2, 9), (5000000000000000000, 2, 9)]"
  have wf: "wf_price ?p" "slots_ok ?p 10"
    by (auto intro!: ex_wf ex_slots simp: in_s64_def in_s32_def wf_info_def info_def PC_STATUS_TRADING_def)
  have qs: "quotes ?p 10 = [(- 5000000000000000000, 2), (5000000000000000000, 2), (5000000000000000000, 2)]"
    by (simp add: ex_quotes quote_ok_def info_def PC_STATUS_TRADING_def to_s64_def in_s64_def)
  have "\<not> conf_fits ?p 10"
    by (simp add: conf_fits_def qs q25_def q50_def q75_def in_s64_def Let_def)
  then have "upd_aggregate ?p 10 77 = None"
    by (intro upd_aggregate_None [OF wf]) (auto simp: qs, simp add: ex_price_def)
  then show ?thesis using wf qs by (simp add: Let_def)
qed

text \<open>
  (C22) More than \<open>PD_EMA_MAX_DIFF\<close> slots after the last update the averages restart.  For an
  exponent of at most a million in magnitude, a price other than \<open>INT64_MIN\<close> and a confidence below
  \<open>2 ^ 63\<close> there is no undefined behaviour.  The stored time-weighted price and confidence are the
  aggregate's, with the fewest trailing decimal digits cleared that leave 28 bits.  The new denominator
  is the weight, one over the confidence (or one for a confidence of zero), and the new numerator is the
  value times the weight, each up to one unit in its last place; nothing of the old averages enters.
  Both are stored unless one does not fit its 64 bits (\<open>ema_restart\<close>), and for exponents within the five
  bits of the encoding they are read back exactly.
\<close>

theorem upd_twap_initial:
  assumes "\<bar>px_expo p\<bar> \<le> 10 ^ 6" "\<bar>pi_price (px_agg p)\<bar> < 2 ^ 63" "pi_conf (px_agg p) < 2 ^ 63"
    and "PD_EMA_MAX_DIFF < nslots"
  defines "price \<equiv> pi_price (px_agg p)" and "conf \<equiv> int (pi_conf (px_agg p))"
  defines "j \<equiv> scale_digits price" and "k \<equiv> scale_digits conf"
  defines "x \<equiv> pd_new (price sdiv 10 ^ j) (px_expo p + int j)" and "y \<equiv> pd_new (conf sdiv 10 ^ k) (px_expo p + int k)"
  shows "j \<le> 11 \<and> k \<le> 11 \<and> (\<exists>w n m.
    upd_twap p nslots = Some (p\<lparr>px_twap := ema_restart (px_twap p) (price sdiv 10 ^ j * 10 ^ j) n w,
                               px_twac := ema_restart (px_twac p) (conf sdiv 10 ^ k * 10 ^ k) m w\<rparr>) \<and>
    \<bar>(if conf = 0 then 1 else 1 / pd_val y) - pd_val w\<bar> < pd_ulp w \<and>
    \<bar>pd_val x * pd_val w - pd_val n\<bar> < pd_ulp n \<and> \<bar>pd_val y * pd_val w - pd_val m\<bar> < pd_ulp m \<and>
    (pd_e n \<in> {-16..15} \<and> pd_e w \<in> {-16..15} \<longrightarrow> ema_holds (ema_restart (px_twap p) (price sdiv 10 ^ j * 10 ^ j) n w) n w) \<and>
    (pd_e m \<in> {-16..15} \<and> pd_e w \<in> {-16..15} \<longrightarrow> ema_holds (ema_restart (px_twac p) (conf sdiv 10 ^ k * 10 ^ k) m w) m w))"
proof -
  have cf: "to_s64 (pi_conf (px_agg p)) = conf" "\<bar>conf\<bar> < 2 ^ 63"
    using assms(3) by (auto simp: to_s64_small conf_def)
  note X = pd_scale_adjust [OF assms(2) [folded price_def] assms(1), folded j_def, folded x_def]
  note Y = pd_scale_adjust [OF cf(2) assms(1), folded k_def, folded y_def]
  have b: "8 \<le> \<bar>px_expo p\<bar> + 11" "\<bar>px_expo p\<bar> + 11 \<le> 10 ^ 7" using assms(1) by auto
  obtain w where w: "(if pd_v y \<noteq> 0 then pd_div (pd_new 100000000 (- 8)) y else Some (pd_new 100000000 (- 8))) = Some w"
      "pd_ok (2 * (\<bar>px_expo p\<bar> + 11) + 29) w" "\<bar>(if pd_v y = 0 then 1 else 1 / pd_val y) - pd_val w\<bar> < pd_ulp w"
    by (rule upd_weight [OF Y(3) b])
  obtain n where n: "upd_ema (px_twap p) x y nslots qset_new (px_expo p) =
      Some (ema_restart (px_twap p) (price sdiv 10 ^ j * 10 ^ j) n w)" "pd_norm n" "\<bar>pd_val x * pd_val w - pd_val n\<bar> < pd_ulp n"
    using upd_ema_initial [OF X(3) Y(3) b assms(4) X(4) w(2,1)] by blast
  obtain m where m: "upd_ema (px_twac p) y y nslots qset_new (px_expo p) =
      Some (ema_restart (px_twac p) (conf sdiv 10 ^ k * 10 ^ k) m w)" "pd_norm m" "\<bar>pd_val y * pd_val w - pd_val m\<bar> < pd_ulp m"
    using upd_ema_initial [OF Y(3) Y(3) b assms(4) Y(4) w(2,1)] by blast
  have "upd_twap p nslots = Some (p\<lparr>px_twap := ema_restart (px_twap p) (price sdiv 10 ^ j * 10 ^ j) n w,
                               px_twac := ema_restart (px_twac p) (conf sdiv 10 ^ k * 10 ^ k) m w\<rparr>)"
    using X(2) Y(2) n(1) m(1) by (simp add: upd_twap_def cf(1) price_def)
  moreover have "\<bar>(if conf = 0 then 1 else 1 / pd_val y) - pd_val w\<bar> < pd_ulp w"
    using w(3) Y(5) by (simp add: y_def)
  moreover have "pd_e n \<in> {-16..15} \<and> pd_e w \<in> {-16..15} \<longrightarrow> ema_holds (ema_restart e v n w) n w"
    "pd_e m \<in> {-16..15} \<and> pd_e w \<in> {-16..15} \<longrightarrow> ema_holds (ema_restart e v m w) m w" for e v
    using ema_restart_holds w(2) n(2) m(2) by (auto simp: pd_ok_def)
  ultimately show ?thesis using X(1) Y(1) n(3) m(3) by blast
qed

theorem upd_twap_initial_witness:
  "scale_digits 123456789012 \<le> 11 \<and> (\<exists>p'. upd_twap (ex_price (- 8) (info 123456789012 500 PC_STATUS_TRADING 4) []) 5000 = Some p')"
  using upd_twap_initial [of "ex_price (- 8) (info 123456789012 500 PC_STATUS_TRADING 4) []" 5000]
  by (auto simp: ex_price_def info_def PD_EMA_MAX_DIFF_def)

text \<open>The run behind the last property, step by step.\<close>

lemma zero_run_twap:
  "upd_ema \<lparr>ema_val = 0, ema_numer = 0, ema_denom = 0\<rparr> (pd_new 0 (- 5)) (pd_new 100000000 (- 5)) 1 qset_new (- 5)
     = Some \<lparr>ema_val = 0, ema_numer = 16, ema_denom = 3200000021\<rparr>"
  by code_simp

lemma zero_run_twac:
  "upd_ema \<lparr>ema_val = 0, ema_numer = 0, ema_denom = 0\<rparr> (pd_new 100000000 (- 5)) (pd_new 100000000 (- 5)) 1 qset_new (- 5)
     \<noteq> None"
  by code_simp

lemma zero_run_twap2:
  "upd_ema \<lparr>ema_val = 0, ema_numer = 16, ema_denom = 3200000021\<rparr> (pd_new 0 (- 5)) (pd_new 100000000 (- 5)) 1 qset_new (- 5)
     = None"
  by code_simp

text \<open>
  (C24) With an aggregate price of zero at exponent -5 and a confidence of
  \<open>10 ^ 8\<close>, the first slot-by-slot update of the averages is fine, and the second reads the table of
  powers of ten outside its 18 entries (\<open>pd_adjust\<close> with an exponent distance of 19): the exponent of
  a zero numerator keeps falling because nothing normalises it.
\<close>

theorem upd_twap_index_out_of_range:
  "\<exists>p1. upd_twap (ex_price (- 5) (info 0 100000000 PC_STATUS_TRADING 4) []) 1 = Some p1 \<and>
        pi_price (px_agg p1) = 0 \<and> upd_twap p1 1 = None"
proof -
  let ?p = "ex_price (- 5) (info 0 100000000 PC_STATUS_TRADING 4) []"
  have sc: "pd_new_scale 0 (- 5) = Some (pd_new 0 (- 5))"
    "pd_new_scale 100000000 (- 5) = Some (pd_new 100000000 (- 5))"
    by (simp_all add: pd_new_scale_def pd_scale_norm pd_norm_def)
  have sel: "px_expo ?p = - 5" "pi_price (px_agg ?p) = 0" "to_s64 (pi_conf (px_agg ?p)) = 100000000"
    "px_twap ?p = \<lparr>ema_val = 0, ema_numer = 0, ema_denom = 0\<rparr>"
    "px_twac ?p = \<lparr>ema_val = 0, ema_numer = 0, ema_denom = 0\<rparr>"
    by (simp_all add: ex_price_def info_def to_s64_def)
  obtain c where "upd_ema \<lparr>ema_val = 0, ema_numer = 0, ema_denom = 0\<rparr> (pd_new 100000000 (- 5))
      (pd_new 100000000 (- 5)) 1 qset_new (- 5) = Some c"
    using zero_run_twac by blast
  then have "upd_twap ?p 1 = Some (?p\<lparr>px_twap := \<lparr>ema_val = 0, ema_numer = 16, ema_denom = 3200000021\<rparr>, px_twac := c\<rparr>)"
    by (simp add: upd_twap_def sel sc zero_run_twap)
  moreover have "upd_twap (?p\<lparr>px_twap := \<lparr>ema_val = 0, ema_numer = 16, ema_denom = 3200000021\<rparr>, px_twac := c\<rparr>) 1 = None"
    by (simp add: upd_twap_def sel sc zero_run_twap2)
  ultimately show ?thesis using sel(2) by auto
qed

end
