(* ===== verification/Text_Codec.thy ===== *)
theory Text_Codec
  imports Pyth_Prelude "HOL-Library.Char_ord"
begin

unbundle bit_operations_syntax

text \<open>
  The text conversions of \<open>pc/misc.cpp\<close>: base58, base64, integers, decimals, time stamps and the
  \<open>host:port:port\<close> convention.  A byte, signed or unsigned, is a \<^typ>\<open>char\<close> (exactly eight bits), a
  buffer of bytes is a list of them; \<open>of_char\<close> reads a byte as the unsigned number below 256 and
  \<open>char_of\<close> truncates a number to a byte.  Output buffers are returned as lists.
\<close>

abbreviation byte :: "char \<Rightarrow> nat" where "byte \<equiv> of_char"
abbreviation to_byte :: "nat \<Rightarrow> char" where "to_byte \<equiv> char_of"

abbreviation in_range :: "char \<Rightarrow> char \<Rightarrow> char \<Rightarrow> bool" where
  "in_range lo hi c \<equiv> lo \<le> c \<and> c \<le> hi"

section \<open>Base 58\<close>

definition ALPHABET :: string where
  "ALPHABET = ''123456789ABCDEFGHJKLMNPQRSTUVWXYZabcdefghijkmnopqrstuvwxyz''"

text \<open>The position of a character in the alphabet, -1 for all others.\<close>

definition ALPHABET_MAP :: "int list" where
  "ALPHABET_MAP = [
     - 1, - 1, - 1, - 1, - 1, - 1, - 1, - 1, - 1, - 1, - 1, - 1, - 1, - 1, - 1, - 1,
     - 1, - 1, - 1, - 1, - 1, - 1, - 1, - 1, - 1, - 1, - 1, - 1, - 1, - 1, - 1, - 1,
     - 1, - 1, - 1, - 1, - 1, - 1, - 1, - 1, - 1, - 1, - 1, - 1, - 1, - 1, - 1, - 1,
     - 1, 0, 1, 2, 3, 4, 5, 6, 7, 8, - 1, - 1, - 1, - 1, - 1, - 1,
     - 1, 9, 10, 11, 12, 13, 14, 15, 16, - 1, 17, 18, 19, 20, 21, - 1,
     22, 23, 24, 25, 26, 27, 28, 29, 30, 31, 32, - 1, - 1, - 1, - 1, - 1,
     - 1, 33, 34, 35, 36, 37, 38, 39, 40, 41, 42, 43, - 1, 44, 45, 46,
     47, 48, 49, 50, 51, 52, 53, 54, 55, 56, 57, - 1, - 1, - 1, - 1, - 1,
     - 1, - 1, - 1, - 1, - 1, - 1, - 1, - 1, - 1, - 1, - 1, - 1, - 1, - 1, - 1, - 1,
     - 1, - 1, - 1, - 1, - 1, - 1, - 1, - 1, - 1, - 1, - 1, - 1, - 1, - 1, - 1, - 1,
     - 1, - 1, - 1, - 1, - 1, - 1, - 1, - 1, - 1, - 1, - 1, - 1, - 1, - 1, - 1, - 1,
     - 1, - 1, - 1, - 1, - 1, - 1, - 1, - 1, - 1, - 1, - 1, - 1, - 1, - 1, - 1, - 1,
     - 1, - 1, - 1, - 1, - 1, - 1, - 1, - 1, - 1, - 1, - 1, - 1, - 1, - 1, - 1, - 1,
     - 1, - 1, - 1, - 1, - 1, - 1, - 1, - 1, - 1, - 1, - 1, - 1, - 1, - 1, - 1, - 1,
     - 1, - 1, - 1, - 1, - 1, - 1, - 1, - 1, - 1, - 1, - 1, - 1, - 1, - 1, - 1, - 1,
     - 1, - 1, - 1, - 1, - 1, - 1, - 1, - 1, - 1, - 1, - 1, - 1, - 1, - 1, - 1, - 1]"

text \<open>The size of the digit array is computed in floating point from the constant \<open>iFactor\<close>, the ratio of
  the logarithms of 256 and 58; the model takes the integer part of the exact product with seventeen
  decimal digits of the constant, which is what the double computation yields for the lengths of
  keys, hashes and signatures.\<close>

definition b58_size :: "nat \<Rightarrow> nat" where
  "b58_size n = 1 + n * 136565823730976103 div 100000000000000000"

text \<open>The inner loop: \<open>r\<close> is \<open>it1 + 1\<close>.\<close>

fun enc58_inner :: "nat \<Rightarrow> nat list \<Rightarrow> nat \<Rightarrow> nat \<Rightarrow> nat \<Rightarrow> nat list \<times> nat \<times> nat" where
  "enc58_inner 0 b58 carry i len = (b58, carry, i)"
| "enc58_inner (Suc it1) b58 carry i len =
     (if carry \<noteq> 0 \<or> i < len then
        let carry = carry + 256 * b58 ! it1
        in enc58_inner it1 (b58[it1 := carry mod 58]) (carry div 58) (i + 1) len
      else (b58, carry, i))"

fun enc58_loop :: "nat \<Rightarrow> string \<Rightarrow> nat list \<Rightarrow> nat \<Rightarrow> (nat list \<times> nat) option" where
  "enc58_loop sz [] b58 len = Some (b58, len)"
| "enc58_loop sz (c # cs) b58 len =
     (case enc58_inner sz b58 (byte c) 0 len of
        (b58, carry, i) \<Rightarrow> if carry \<noteq> 0 then None else enc58_loop sz cs b58 i)"

text \<open>The result: \<open>Some text\<close> with the returned length its length, or \<open>None\<close> where the code returns 0
  without writing (no room, or a digit array that turned out too small).\<close>

definition enc_base58 :: "string \<Rightarrow> nat \<Rightarrow> string option" where
  "enc_base58 source reslen =
     (if source = [] then None
      else let rest = dropWhile (\<lambda>c. byte c = 0) source;
               zeros = length source - length rest;
               sz = b58_size (length rest)
           in case enc58_loop sz rest (replicate sz 0) 0 of
                None \<Rightarrow> None
              | Some (b58, len) \<Rightarrow>
                  let digits = dropWhile (\<lambda>d. d = 0) (drop (sz - len) b58)
                  in if reslen < zeros + length digits + 1 then None
                     else Some (replicate zeros CHR ''1'' @ map (\<lambda>d. ALPHABET ! d) digits))"

fun dec58_inner :: "nat list \<Rightarrow> nat \<Rightarrow> nat list \<times> nat" where
  "dec58_inner [] carry = ([], carry)"
| "dec58_inner (r # rs) carry =
     (let carry = carry + r * 58;
          (rs, c) = dec58_inner rs (carry div 256)
      in ((carry mod 256) # rs, c))"

fun push_carry :: "nat \<Rightarrow> nat list" where
  "push_carry carry = (if carry > 0 then (carry mod 256) # push_carry (carry div 256) else [])"

declare push_carry.simps [simp del]

text \<open>\<open>result\<close> holds the filled part of the output buffer, least significant byte first; a character
  outside the alphabet ends the loop.\<close>

fun dec58_loop :: "string \<Rightarrow> nat list \<Rightarrow> nat list" where
  "dec58_loop [] result = result"
| "dec58_loop (c # cs) result =
     (let carry = ALPHABET_MAP ! byte c
      in if carry = - 1 then result
         else case dec58_inner result (nat carry) of
                (result, carry) \<Rightarrow> dec58_loop cs (result @ push_carry carry))"

text \<open>The in-place reversal, from the last index down to the middle (\<open>z\<close> is at least 1, so index 0 is
  never the larger one of a pair).\<close>

function rev_swap :: "nat \<Rightarrow> nat \<Rightarrow> 'a list \<Rightarrow> 'a list" where
  "rev_swap z i a =
     (if z \<le> i \<and> 0 < i then rev_swap z (i - 1) (a[i := a ! (length a - i - 1), length a - i - 1 := a ! i])
      else a)"
  by pat_completeness auto
termination by (relation "measure (\<lambda>(z, i, a). i)") auto

declare rev_swap.simps [simp del]

definition dec_base58 :: "string \<Rightarrow> string" where
  "dec_base58 str =
     (let result = dec58_loop str [0];
          result = result @ replicate (length (takeWhile (\<lambda>c. c = CHR ''1'') str)) 0;
          n = length result
      in map to_byte (rev_swap (n div 2 + n mod 2) (n - 1) result))"

section \<open>Integers\<close>

text \<open>The digits are written backwards from the end of the caller's buffer; the returned text is
  what stands between the returned pointer and that end.\<close>

definition digit :: "nat \<Rightarrow> char" where
  "digit d = to_byte (48 + d)"

definition is_digit :: "char \<Rightarrow> bool" where
  "is_digit c \<longleftrightarrow> CHR ''0'' \<le> c \<and> c \<le> CHR ''9''"

fun put_digits :: "nat \<Rightarrow> string \<Rightarrow> string" where
  "put_digits v acc = (if v = 0 then acc else put_digits (v div 10) (digit (v mod 10) # acc))"

declare put_digits.simps [simp del]

definition uint_to_str :: "u64 \<Rightarrow> string" where
  "uint_to_str v = (if v \<noteq> 0 then put_digits (unat v) [] else ''0'')"

fun str_to_uint_loop :: "string \<Rightarrow> u64 \<Rightarrow> u64" where
  "str_to_uint_loop [] res = res"
| "str_to_uint_loop (c # cs) res =
     (if is_digit c then str_to_uint_loop cs (res * 10 + of_nat (byte c - 48)) else 0)"

definition str_to_uint :: "string \<Rightarrow> u64" where
  "str_to_uint s = str_to_uint_loop s 0"

text \<open>The signed versions are checked: \<open>None\<close> is signed overflow.\<close>

definition int_to_str :: "int \<Rightarrow> string option" where
  "int_to_str v =
     (if v \<noteq> 0 then
        do { let is_neg = (v < 0);
             v \<leftarrow> (if is_neg then s64 (- v) else Some v);
             let t = put_digits (nat v) [];
             Some (if is_neg then CHR ''-'' # t else t) }
      else Some ''0'')"

fun str_to_int_loop :: "string \<Rightarrow> int \<Rightarrow> bool \<Rightarrow> (int \<times> bool) option" where
  "str_to_int_loop [] res is_neg = Some (res, is_neg)"
| "str_to_int_loop (c # cs) res is_neg =
     (if is_digit c then
        do { r \<leftarrow> s64 (res * 10); r \<leftarrow> s64 (r + (int (byte c) - 48)); str_to_int_loop cs r is_neg }
      else if c = CHR ''-'' then str_to_int_loop cs res True
      else Some (0, is_neg))"

definition str_to_int :: "string \<Rightarrow> int option" where
  "str_to_int s = do { (res, is_neg) \<leftarrow> str_to_int_loop s 0 False; Some (if is_neg then - res else res) }"

section \<open>Base 64\<close>

definition b64_alphabet :: string where
  "b64_alphabet = ''ABCDEFGHIJKLMNOPQRSTUVWXYZabcdefghijklmnopqrstuvwxyz0123456789+/''"

definition a3_to_a4 :: "nat \<Rightarrow> nat \<Rightarrow> nat \<Rightarrow> nat list" where
  "a3_to_a4 x y z =
     [drop_bit 2 (x AND 0xfc), push_bit 4 (x AND 0x03) + drop_bit 4 (y AND 0xf0),
      push_bit 2 (y AND 0x0f) + drop_bit 6 (z AND 0xc0), z AND 0x3f]"

definition a4_to_a3 :: "nat \<Rightarrow> nat \<Rightarrow> nat \<Rightarrow> nat \<Rightarrow> string" where
  "a4_to_a3 p q r t =
     [to_byte (push_bit 2 p + drop_bit 4 (q AND 0x30)), to_byte (push_bit 4 (q AND 0xf) + drop_bit 2 (r AND 0x3c)),
      to_byte (push_bit 6 (r AND 0x3) + t)]"

definition b64_lookup :: "char \<Rightarrow> nat" where
  "b64_lookup c =
     (if in_range CHR ''A'' CHR ''Z'' c then byte c - 65
      else if in_range CHR ''a'' CHR ''z'' c then byte c - 71
      else if in_range CHR ''0'' CHR ''9'' c then byte c + 4
      else if c = CHR ''+'' then 62
      else if c = CHR ''/'' then 63
      else 255)"

definition enc_base64_len :: "nat \<Rightarrow> nat" where
  "enc_base64_len n = (n + 2 - (n + 2) mod 3) div 3 * 4"

fun enc_base64 :: "string \<Rightarrow> string" where
  "enc_base64 (x # y # z # inp) = map (\<lambda>i. b64_alphabet ! i) (a3_to_a4 (byte x) (byte y) (byte z)) @ enc_base64 inp"
| "enc_base64 [x, y] = map (\<lambda>i. b64_alphabet ! i) (take 3 (a3_to_a4 (byte x) (byte y) 0)) @ ''=''"
| "enc_base64 [x] = map (\<lambda>i. b64_alphabet ! i) (take 2 (a3_to_a4 (byte x) 0 0)) @ ''==''"
| "enc_base64 [] = []"

text \<open>The decoder collects characters in groups of four and stops at the first \<open>=\<close>; \<open>a4\<close> is the
  part of the current group read so far.\<close>

definition dec64_group :: "string \<Rightarrow> string" where
  "dec64_group a4 = a4_to_a3 (b64_lookup (a4 ! 0)) (b64_lookup (a4 ! 1)) (b64_lookup (a4 ! 2)) (b64_lookup (a4 ! 3))"

fun dec64_loop :: "string \<Rightarrow> string \<Rightarrow> string" where
  "dec64_loop [] a4 =
     (if a4 = [] then [] else take (length a4 - 1) (dec64_group (a4 @ replicate (4 - length a4) (to_byte 0))))"
| "dec64_loop (c # cs) a4 =
     (if c = CHR ''='' then dec64_loop [] a4
      else let a4 = a4 @ [c]
           in if length a4 = 4 then dec64_group a4 @ dec64_loop cs [] else dec64_loop cs a4)"

definition dec_base64 :: "string \<Rightarrow> string" where
  "dec_base64 inp = dec64_loop inp []"

section \<open>Fixed-width digits and time stamps\<close>

definition uint_to_str6 :: "nat \<Rightarrow> string" where
  "uint_to_str6 v = [digit (v div 100000 mod 10), digit (v div 10000 mod 10), digit (v div 1000 mod 10),
     digit (v div 100 mod 10), digit (v div 10 mod 10), digit (v mod 10)]"

definition uint_to_str4 :: "nat \<Rightarrow> string" where
  "uint_to_str4 v = [digit (v div 1000 mod 10), digit (v div 100 mod 10), digit (v div 10 mod 10), digit (v mod 10)]"

definition uint_to_str2 :: "nat \<Rightarrow> string" where
  "uint_to_str2 v = [digit (v div 10 mod 10), digit (v mod 10)]"

record tm =
  tm_year :: nat
  tm_mon :: nat
  tm_mday :: nat
  tm_hour :: nat
  tm_min :: nat
  tm_sec :: nat

text \<open>The broken-down time comes from the C library; \<open>gmtime\<close> is that function.\<close>

definition nsecs_to_utc6 :: "(nat \<Rightarrow> tm) \<Rightarrow> nat \<Rightarrow> string" where
  "nsecs_to_utc6 gmtime ts =
     (let nsecs = ts mod 1000000000; t = gmtime (ts div 1000000000)
      in uint_to_str4 (tm_year t + 1900) @ ''-'' @ uint_to_str2 (tm_mon t + 1) @ ''-'' @ uint_to_str2 (tm_mday t) @
         ''T'' @ uint_to_str2 (tm_hour t) @ '':'' @ uint_to_str2 (tm_min t) @ '':'' @ uint_to_str2 (tm_sec t) @
         ''.'' @ uint_to_str6 (nsecs div 1000) @ ''Z'')"

section \<open>Decimals\<close>

definition is_space :: "char \<Rightarrow> bool" where
  "is_space c \<longleftrightarrow> c = CHR '' '' \<or> 9 \<le> byte c \<and> byte c \<le> 13"

definition strip_zeros :: "string \<Rightarrow> string" where
  "strip_zeros cs = rev (dropWhile (\<lambda>c. c = CHR ''0'') (rev cs))"

lemma strip_zeros_len: "length (strip_zeros cs) \<le> length cs"
  using length_dropWhile_le [of _ "rev cs"] by (simp add: strip_zeros_def)

text \<open>The main loop of \<open>str_to_dec\<close>: \<open>pos\<close> is \<open>cptr - val\<close>.  \<open>Some None\<close> is the early return of 0 on a
  character that is neither a digit nor a point; \<open>None\<close> is signed overflow.\<close>

function dec_scan :: "string \<Rightarrow> int \<Rightarrow> int \<Rightarrow> int \<Rightarrow> (int \<times> int \<times> int) option option" where
  "dec_scan [] pos mant expo = Some (Some (mant, expo, pos))"
| "dec_scan (c # cs) pos mant expo =
     (if is_digit c then
        do { m \<leftarrow> s64 (mant * 10); m \<leftarrow> s64 (m + (int (byte c) - 48)); dec_scan cs (pos + 1) m expo }
      else if c = CHR ''.'' then dec_scan (strip_zeros cs) (pos + 1) mant (1 + pos)
      else Some None)"
  by pat_completeness auto
termination
  by (relation "measure (\<lambda>(cs, _). length cs)") (auto intro: le_imp_less_Suc strip_zeros_len)

fun scale_up :: "nat \<Rightarrow> int \<Rightarrow> int option" where
  "scale_up 0 mant = Some mant"
| "scale_up (Suc k) mant = do { m \<leftarrow> s64 (mant * 10); scale_up k m }"

fun scale_down :: "nat \<Rightarrow> int \<Rightarrow> int" where
  "scale_down 0 mant = mant"
| "scale_down (Suc k) mant = scale_down k (mant sdiv 10)"

definition str_to_dec :: "string \<Rightarrow> int \<Rightarrow> int option" where
  "str_to_dec s texpo =
     (let rest = dropWhile is_space s;
          is_neg = (rest \<noteq> [] \<and> hd rest = CHR ''-'');
          rest' = (if is_neg then tl rest else rest)
      in do { r \<leftarrow> dec_scan rest' (int (length s - length rest')) 0 (- 1);
              (case r of None \<Rightarrow> Some 0
               | Some (mant, expo, pos) \<Rightarrow>
                   do { let expo = (if expo < 0 then 0 else expo - pos);
                        mant \<leftarrow> scale_up (nat (expo - texpo)) mant;
                        let mant = scale_down (nat (texpo - expo)) mant;
                        Some (if is_neg then - mant else mant) }) })"

section \<open>Host and ports\<close>

definition get_rpc_end_point :: "string \<Rightarrow> string" where
  "get_rpc_end_point rhost =
     (if rhost = ''api.devnet.solana.com'' then rhost @ '':80:80''
      else if rhost = ''api.mainnet-beta.solana.com'' then rhost @ '':80:80''
      else if rhost = ''api.testnet.solana.com'' then rhost @ '':80:80''
      else rhost)"

text \<open>\<open>std::stoi\<close>: leading white space, an optional sign, the longest run of digits; \<open>None\<close> is the
  exception thrown when there is no digit or the value does not fit an \<open>int\<close>.\<close>

definition stoi :: "string \<Rightarrow> int option" where
  "stoi s =
     (let s = dropWhile is_space s;
          neg = (s \<noteq> [] \<and> hd s = CHR ''-'');
          s = (if s \<noteq> [] \<and> (hd s = CHR ''-'' \<or> hd s = CHR ''+'') then tl s else s);
          ds = takeWhile is_digit s;
          v = foldl (\<lambda>a c. a * 10 + (int (byte c) - 48)) 0 ds;
          v = (if neg then - v else v)
      in if ds = [] then None else s32 v)"

text \<open>The scan for at most two colons; \<open>res\<close> are the pieces so far, \<open>cur\<close> the current one.\<close>

fun split_host :: "string \<Rightarrow> nat \<Rightarrow> string \<Rightarrow> string list" where
  "split_host [] num cur = [cur]"
| "split_host (c # cs) num cur =
     (if num < 2 then (if c = CHR '':'' then cur # split_host cs (num + 1) [] else split_host cs num (cur @ [c]))
      else [cur @ c # cs])"

definition get_host_port :: "string \<Rightarrow> (string \<times> int \<times> int) option" where
  "get_host_port hosti =
     (let res = split_host (get_rpc_end_point hosti) 0 []
      in do { port1 \<leftarrow> (if length res > 1 then stoi (res ! 1) else Some 0);
              port2 \<leftarrow> (if length res > 2 then stoi (res ! 2) else Some 0);
              Some (res ! 0, port1, port2) })"

section \<open>Positional numbers\<close>

text \<open>The value of a list of digits, least significant first.\<close>

fun lev :: "nat \<Rightarrow> nat list \<Rightarrow> nat" where
  "lev b [] = 0"
| "lev b (d # ds) = d + b * lev b ds"

lemma lev_append: "lev b (xs @ ys) = lev b xs + b ^ length xs * lev b ys"
  by (induction xs) (auto simp: algebra_simps)

lemma lev_zeros [simp]: "lev b (replicate n 0) = 0"
  by (induction n) auto

lemma lev_all_zero: "\<forall>d\<in>set ds. d = 0 \<Longrightarrow> lev b ds = 0"
  by (induction ds) auto

lemma lev_nth_zero: "\<forall>j < length ds. ds ! j = 0 \<Longrightarrow> lev b ds = 0"
  by (rule lev_all_zero) (metis in_set_conv_nth)

lemma lev_less: "\<forall>d\<in>set ds. d < b \<Longrightarrow> lev b ds < b ^ length ds"
proof (induction ds)
  case (Cons d ds)
  then have "d + b * lev b ds < b * (lev b ds + 1)" "lev b ds + 1 \<le> b ^ length ds" by auto
  then have "d + b * lev b ds < b * b ^ length ds"
    by (metis less_le_trans mult_le_mono2)
  then show ?case by simp
qed simp

lemma lev_ge: "ds \<noteq> [] \<Longrightarrow> last ds \<noteq> 0 \<Longrightarrow> b ^ (length ds - 1) \<le> lev b ds"
proof (induction ds)
  case (Cons d ds)
  show ?case
  proof (cases "ds = []")
    case False
    then obtain n where n: "length ds = Suc n" by (cases ds) auto
    have "b * b ^ n \<le> b * lev b ds" using Cons False n by simp
    then have "b * b ^ n \<le> d + b * lev b ds" by (rule trans_le_add2)
    then show ?thesis using n by (simp only: list.size lev.simps) simp
  qed (use Cons in auto)
qed simp

text \<open>A number has one representation without leading zeros.\<close>

lemma lev_inj:
  assumes "\<forall>d\<in>set xs. d < b" "\<forall>d\<in>set ys. d < b" "xs = [] \<or> last xs \<noteq> 0" "ys = [] \<or> last ys \<noteq> 0"
    "lev b xs = lev b ys"
  shows "xs = ys"
  using assms
proof (induction xs arbitrary: ys)
  case Nil
  have "ys = []"
  proof (rule ccontr)
    assume ne: "ys \<noteq> []"
    then have "hd ys < b" using Nil.prems(2) by simp
    then have "0 < b ^ (length ys - 1)" by simp
    then show False using lev_ge [OF ne, of b] Nil.prems ne by auto
  qed
  then show ?case by simp
next
  case (Cons x xs)
  have "ys \<noteq> []"
  proof
    assume "ys = []"
    then have "lev b (x # xs) = 0" using Cons.prems(5) by simp
    moreover have "0 < b" using Cons.prems(1) by auto
    ultimately show False using lev_ge [of "x # xs" b] Cons.prems(3) by simp
  qed
  then obtain y ys' where ys: "ys = y # ys'" by (cases ys) auto
  have "x = (x + b * lev b xs) mod b" "y = (y + b * lev b ys') mod b"
    using Cons.prems(1,2) ys by auto
  then have "x = y" using Cons.prems(5) ys by (metis lev.simps(2))
  moreover have "lev b xs = lev b ys'" using Cons.prems(1,5) ys \<open>x = y\<close> by auto
  ultimately show ?case using Cons.IH [of ys'] Cons.prems ys by (auto split: if_splits)
qed

section \<open>Base 58: encoding\<close>

text \<open>The inner loop seen from the least significant digit.\<close>

fun mul_acc :: "nat list \<Rightarrow> nat \<Rightarrow> nat \<Rightarrow> nat \<Rightarrow> nat list \<times> nat \<times> nat" where
  "mul_acc [] c i len = ([], c, i)"
| "mul_acc (d # ds) c i len =
     (if c \<noteq> 0 \<or> i < len then
        let (ds', c', i') = mul_acc ds ((c + 256 * d) div 58) (i + 1) len in ((c + 256 * d) mod 58 # ds', c', i')
      else (d # ds, c, i))"

lemma enc58_inner_eq:
  "r \<le> length b \<Longrightarrow> enc58_inner r b c i len =
     (let (ds, c', i') = mul_acc (rev (take r b)) c i len in (rev ds @ drop r b, c', i'))"
proof (induction r arbitrary: b c i)
  case (Suc r)
  have t: "rev (take (Suc r) b) = b ! r # rev (take r b)" using Suc.prems by (simp add: take_Suc_conv_app_nth)
  show ?case
  proof (cases "c \<noteq> 0 \<or> i < len")
    case True
    have "drop r (b[r := x]) = x # drop (Suc r) b" for x
      using Suc.prems by (simp add: Cons_nth_drop_Suc [symmetric])
    then show ?thesis using True Suc t by (auto simp: Let_def split: prod.splits)
  next
    case False
    then show ?thesis using t Suc.prems
      by (simp add: append_take_drop_id [symmetric] take_Suc_conv_app_nth Cons_nth_drop_Suc)
  qed
qed simp

lemma mul_acc_spec:
  assumes "mul_acc ds c i len = (ds', c', i')" "\<forall>j < length ds. len - i \<le> j \<longrightarrow> ds ! j = 0" "\<forall>d\<in>set ds. d < 58"
  shows "lev 58 ds' + c' * 58 ^ length ds = 256 * lev 58 ds + c \<and> length ds' = length ds \<and>
    (\<forall>d\<in>set ds'. d < 58) \<and> i \<le> i' \<and> i' \<le> i + length ds \<and> (\<forall>j < length ds'. i' - i \<le> j \<longrightarrow> ds' ! j = 0)"
  using assms
proof (induction ds arbitrary: c i ds' c' i')
  case (Cons d ds)
  show ?case
  proof (cases "c \<noteq> 0 \<or> i < len")
    case True
    obtain es c1 i1 where r: "mul_acc ds ((c + 256 * d) div 58) (i + 1) len = (es, c1, i1)"
      by (cases "mul_acc ds ((c + 256 * d) div 58) (i + 1) len") auto
    have z: "\<forall>j < length ds. len - (i + 1) \<le> j \<longrightarrow> ds ! j = 0"
    proof (intro allI impI)
      fix j assume "j < length ds" "len - (i + 1) \<le> j"
      then show "ds ! j = 0" using Cons.prems(2) [rule_format, of "Suc j"] by simp
    qed
    have d: "\<forall>d\<in>set ds. d < 58" using Cons.prems(3) by simp
    note IH = Cons.IH [OF r z d]
    have ih: "lev 58 es + c1 * 58 ^ length ds = 256 * lev 58 ds + (c + 256 * d) div 58" "length es = length ds"
        "\<forall>d\<in>set es. d < 58" "i + 1 \<le> i1" "i1 \<le> i + 1 + length ds" "\<forall>j < length es. i1 - (i + 1) \<le> j \<longrightarrow> es ! j = 0"
      using IH by blast+
    have eq: "ds' = (c + 256 * d) mod 58 # es" "c' = c1" "i' = i1"
      using Cons.prems(1) True r by (auto simp: Let_def)
    have "lev 58 ds' + c' * 58 ^ length (d # ds) =
        (c + 256 * d) mod 58 + 58 * (lev 58 es + c1 * 58 ^ length ds)" by (simp add: eq)
    also have "\<dots> = 256 * lev 58 (d # ds) + c" unfolding ih(1) by simp
    finally have A: "lev 58 ds' + c' * 58 ^ length (d # ds) = 256 * lev 58 (d # ds) + c" .
    have Z: "\<forall>j < length ds'. i' - i \<le> j \<longrightarrow> ds' ! j = 0"
    proof (intro allI impI)
      fix j assume j: "j < length ds'" "i' - i \<le> j"
      then obtain k where k: "j = Suc k" using ih(4) eq(3) by (cases j) auto
      then have "es ! k = 0" using j ih(6) eq by auto
      then show "ds' ! j = 0" using k eq(1) by simp
    qed
    have "length ds' = length (d # ds)" "\<forall>d\<in>set ds'. d < 58" "i \<le> i'" "i' \<le> i + length (d # ds)"
      using ih(2-5) by (simp_all add: eq)
    then show ?thesis using A Z by blast
  next
    case False
    then have "\<forall>j < length (d # ds). (d # ds) ! j = 0" using Cons.prems(2) by simp
    then have 0: "lev 58 (d # ds) = 0" by (rule lev_nth_zero)
    have eq: "ds' = d # ds" "c' = 0" "i' = i" "c = 0" using False Cons.prems(1) by auto
    show ?thesis
      using 0 Cons.prems(3) \<open>\<forall>j < length (d # ds). (d # ds) ! j = 0\<close> unfolding eq by simp
  qed
qed auto

text \<open>The outer loop: \<open>ds\<close> is the digit array, most significant first; the digits above \<open>len\<close> are zero.\<close>

definition b58_inv :: "nat \<Rightarrow> nat list \<Rightarrow> nat \<Rightarrow> nat \<Rightarrow> bool" where
  "b58_inv sz b58 len v \<longleftrightarrow> length b58 = sz \<and> lev 58 (rev b58) = v \<and> (\<forall>d\<in>set b58. d < 58) \<and> len \<le> sz \<and>
     (\<forall>j < sz. len \<le> j \<longrightarrow> rev b58 ! j = 0)"

abbreviation bytes_val :: "string \<Rightarrow> nat" where
  "bytes_val cs \<equiv> lev 256 (rev (map byte cs))"

lemma enc58_loop_ok:
  assumes "b58_inv sz b58 len v" "v * 256 ^ length cs + bytes_val cs < 58 ^ sz"
  shows "\<exists>b58' len'. enc58_loop sz cs b58 len = Some (b58', len') \<and>
    b58_inv sz b58' len' (v * 256 ^ length cs + bytes_val cs)"
  using assms
proof (induction cs arbitrary: b58 len v)
  case (Cons c cs)
  obtain ds c' i' where m: "mul_acc (rev b58) (byte c) 0 len = (ds, c', i')"
    by (cases "mul_acc (rev b58) (byte c) 0 len") auto
  have inv: "length b58 = sz" "lev 58 (rev b58) = v" "\<forall>d\<in>set (rev b58). d < 58"
      "\<forall>j < length (rev b58). len - 0 \<le> j \<longrightarrow> rev b58 ! j = 0"
    using Cons.prems(1) by (auto simp: b58_inv_def)
  from mul_acc_spec [OF m inv(4,3)] have
    s: "lev 58 ds + c' * 58 ^ sz = 256 * v + byte c" "length ds = sz" "\<forall>d\<in>set ds. d < 58" "i' \<le> sz"
      "\<forall>j < sz. i' \<le> j \<longrightarrow> ds ! j = 0" using inv by auto
  have val: "(256 * v + byte c) * 256 ^ length cs + bytes_val cs = v * 256 ^ length (c # cs) + bytes_val (c # cs)"
    by (simp add: lev_append algebra_simps)
  have lt: "256 * v + byte c < 58 ^ sz"
  proof -
    have "256 * v + byte c \<le> (256 * v + byte c) * 256 ^ length cs" by simp
    then show ?thesis using Cons.prems(2) val by linarith
  qed
  then have "c' = 0" using s(1) by (cases c') auto
  moreover have "enc58_inner sz b58 (byte c) 0 len = (rev ds, c', i')"
    using enc58_inner_eq [of sz b58 "byte c" 0 len] m inv(1) by simp
  moreover have "b58_inv sz (rev ds) i' (256 * v + byte c)"
    using s \<open>c' = 0\<close> by (simp add: b58_inv_def)
  moreover have "(256 * v + byte c) * 256 ^ length cs + bytes_val cs < 58 ^ sz"
    using Cons.prems(2) val by simp
  ultimately show ?case using Cons.IH [of "rev ds" i' "256 * v + byte c"] val by simp
qed simp

text \<open>The digit array is large enough, for every length up to 120 bytes (keys have 32, signatures 64): 41 bytes
  need no more than 56 digits.\<close>

lemma b58_size_ratio: "n \<le> 120 \<Longrightarrow> 56 * n \<le> 41 * b58_size n"
proof -
  assume n: "n \<le> 120"
  define k where "k = n * 136565823730976103 div 100000000000000000"
  have lt: "n * 136565823730976103 < 100000000000000000 + k * 100000000000000000"
    unfolding k_def by (rule dividend_less_div_times) simp
  show "56 * n \<le> 41 * b58_size n"
  proof (rule ccontr)
    assume "\<not> 56 * n \<le> 41 * b58_size n"
    then have "41 * k + 42 \<le> 56 * n" unfolding b58_size_def k_def [symmetric] by simp
    then show False using lt n by simp
  qed
qed

lemma b58_size_enough:
  assumes "n \<le> 120"
  shows "256 ^ n \<le> (58 :: nat) ^ b58_size n"
proof -
  have "((256 :: nat) ^ n) ^ 41 = (256 ^ 41) ^ n" by (simp only: power_mult [symmetric] mult.commute)
  also have "\<dots> \<le> (58 ^ 56) ^ n" by (rule power_mono) simp_all
  also have "\<dots> = 58 ^ (56 * n)" by (simp only: power_mult)
  also have "\<dots> \<le> 58 ^ (41 * b58_size n)" using b58_size_ratio [OF assms] by (intro power_increasing) simp_all
  also have "\<dots> = (58 ^ b58_size n) ^ 41" by (simp only: power_mult [symmetric] mult.commute)
  finally show ?thesis by (rule power_le_imp_le_base [of _ 40, unfolded Suc_numeral semiring_norm]) simp
qed

lemma b58_size_le: "b58_size n \<le> 1 + (n + n div 2)"
proof -
  have "n * 136565823730976103 div 100000000000000000 \<le> n * 150000000000000000 div 100000000000000000"
    by (intro div_le_mono) simp
  also have "\<dots> = n + n div 2" by simp
  finally show ?thesis by (simp add: b58_size_def)
qed

lemma dropWhile_zero:
  "lev b (rev (dropWhile (\<lambda>d. d = 0) ds)) = lev b (rev ds)"
  by (induction ds) (auto simp: lev_append)

lemma enc_base58_digits:
  assumes "source \<noteq> []" "length source \<le> 120" "length source + length source div 2 + 2 \<le> reslen"
  defines "rest \<equiv> dropWhile (\<lambda>c. byte c = 0) source"
  shows "\<exists>digits. enc_base58 source reslen =
      Some (replicate (length source - length rest) CHR ''1'' @ map (\<lambda>d. ALPHABET ! d) digits) \<and>
    (\<forall>d\<in>set digits. d < 58) \<and> (digits = [] \<or> hd digits \<noteq> 0) \<and> lev 58 (rev digits) = bytes_val rest"
proof -
  let ?sz = "b58_size (length rest)"
  have len: "length rest \<le> length source" by (simp add: rest_def length_dropWhile_le)
  have "bytes_val rest < 256 ^ length rest" using lev_less [of "rev (map byte rest)" 256] by simp
  also have "\<dots> \<le> 58 ^ ?sz" using len assms(2) by (intro b58_size_enough) simp
  finally have lt: "0 * 256 ^ length rest + bytes_val rest < 58 ^ ?sz" by simp
  have "b58_inv ?sz (replicate ?sz 0) 0 0" by (simp add: b58_inv_def)
  from enc58_loop_ok [OF this lt] obtain b58 n where
    l: "enc58_loop ?sz rest (replicate ?sz 0) 0 = Some (b58, n)" and inv: "b58_inv ?sz b58 n (bytes_val rest)"
    by auto
  define digits where "digits = dropWhile (\<lambda>d. d = 0) (drop (?sz - n) b58)"
  have b: "length b58 = ?sz" "lev 58 (rev b58) = bytes_val rest" "\<forall>d\<in>set b58. d < 58" "n \<le> ?sz"
      "\<forall>j < ?sz. n \<le> j \<longrightarrow> rev b58 ! j = 0"
    using inv by (auto simp: b58_inv_def)
  have "lev 58 (rev (take (?sz - n) b58)) = 0"
  proof (rule lev_nth_zero, intro allI impI)
    fix j assume "j < length (rev (take (?sz - n) b58))"
    then have j: "j < ?sz - n" using b(1) by simp
    then have "rev (take (?sz - n) b58) ! j = rev b58 ! (n + j)"
      using b(1,4) by (simp add: rev_nth)
    then show "rev (take (?sz - n) b58) ! j = 0" using b(5) j by simp
  qed
  moreover have "rev b58 = rev (drop (?sz - n) b58) @ rev (take (?sz - n) b58)"
    by (simp flip: rev_append)
  ultimately have v: "lev 58 (rev (drop (?sz - n) b58)) = bytes_val rest"
    using b(2) by (simp add: lev_append)
  have "length digits \<le> ?sz" unfolding digits_def using b(1) by (intro le_trans [OF length_dropWhile_le]) simp
  also have "?sz \<le> 1 + (length rest + length rest div 2)" by (rule b58_size_le)
  also have "length rest div 2 \<le> length source div 2" using len by (rule div_le_mono)
  finally have room: "\<not> reslen < length source - length rest + length digits + 1"
    using assms(3) len by linarith
  have "enc_base58 source reslen =
      Some (replicate (length source - length rest) CHR ''1'' @ map (\<lambda>d. ALPHABET ! d) digits)"
    using assms(1) l room by (simp add: enc_base58_def rest_def [symmetric] digits_def [symmetric] Let_def)
  moreover have "\<forall>d\<in>set digits. d < 58"
    using b(3) by (auto simp: digits_def dest!: set_dropWhileD in_set_dropD)
  moreover have "digits = [] \<or> hd digits \<noteq> 0"
    using hd_dropWhile [of "\<lambda>d. d = 0" "drop (?sz - n) b58"] unfolding digits_def by blast
  moreover have "lev 58 (rev digits) = bytes_val rest" using v by (simp add: digits_def dropWhile_zero)
  ultimately show ?thesis by blast
qed

section \<open>Base 58: decoding\<close>

lemma alphabet_map: "d < 58 \<Longrightarrow> ALPHABET_MAP ! byte (ALPHABET ! d) = int d"
proof -
  have "\<forall>d\<in>set [0..<58]. ALPHABET_MAP ! byte (ALPHABET ! d) = int d" by code_simp
  then show "d < 58 \<Longrightarrow> ALPHABET_MAP ! byte (ALPHABET ! d) = int d" by simp
qed

lemma alphabet_one: "d < 58 \<Longrightarrow> ALPHABET ! d = CHR ''1'' \<longleftrightarrow> d = 0"
proof -
  have "\<forall>d\<in>set [0..<58]. ALPHABET ! d = CHR ''1'' \<longleftrightarrow> d = 0" by code_simp
  then show "d < 58 \<Longrightarrow> ALPHABET ! d = CHR ''1'' \<longleftrightarrow> d = 0" by simp
qed

lemma dec58_inner_spec:
  "dec58_inner rs c = (rs', c') \<Longrightarrow>
   lev 256 rs' + c' * 256 ^ length rs = 58 * lev 256 rs + c \<and> length rs' = length rs \<and> (\<forall>r\<in>set rs'. r < 256)"
proof (induction rs arbitrary: c rs' c')
  case (Cons r rs)
  obtain es c1 where e: "dec58_inner rs ((c + r * 58) div 256) = (es, c1)"
    by (cases "dec58_inner rs ((c + r * 58) div 256)") auto
  then have eq: "rs' = (c + r * 58) mod 256 # es" "c' = c1" using Cons.prems by (auto simp: Let_def)
  have ih: "lev 256 es + c1 * 256 ^ length rs = 58 * lev 256 rs + (c + r * 58) div 256"
      "length es = length rs" "\<forall>r\<in>set es. r < 256" using Cons.IH [OF e] by blast+
  have "lev 256 rs' + c' * 256 ^ length (r # rs) =
      (c + r * 58) mod 256 + 256 * (lev 256 es + c1 * 256 ^ length rs)" by (simp add: eq)
  also have "\<dots> = 58 * lev 256 (r # rs) + c" unfolding ih(1) by simp
  finally show ?case using ih(2,3) by (simp add: eq)
qed simp

lemma push_carry_spec:
  "lev 256 (push_carry c) = c \<and> (\<forall>r\<in>set (push_carry c). r < 256) \<and> (push_carry c = [] \<or> last (push_carry c) \<noteq> 0)"
proof (induction c rule: push_carry.induct)
  case (1 c)
  show ?case
  proof (cases "c > 0")
    case True
    then have "push_carry (c div 256) = [] \<Longrightarrow> c mod 256 \<noteq> 0"
      using 1 [OF True] by (metis lev.simps(1) div_mult_mod_eq add_0 less_not_refl mult_0)
    then show ?thesis using 1 [OF True] True by (auto simp: push_carry.simps [of c])
  qed (simp add: push_carry.simps)
qed

text \<open>The numeral in the buffer: canonical, except that zero is the single byte 0.\<close>

definition le256 :: "nat list \<Rightarrow> nat \<Rightarrow> bool" where
  "le256 rs v \<longleftrightarrow> (\<forall>r\<in>set rs. r < 256) \<and> lev 256 rs = v \<and> (if v = 0 then rs = [0] else rs \<noteq> [] \<and> last rs \<noteq> 0)"

lemma dec58_step:
  assumes "le256 rs v" "d < 58" "dec58_inner rs d = (rs', c)"
  shows "le256 (rs' @ push_carry c) (58 * v + d)"
proof -
  have s: "lev 256 rs' + c * 256 ^ length rs = 58 * v + d" "length rs' = length rs" "\<forall>r\<in>set rs'. r < 256"
    using dec58_inner_spec [OF assms(3)] assms(1) by (auto simp: le256_def)
  note p = push_carry_spec [of c]
  have val: "lev 256 (rs' @ push_carry c) = 58 * v + d" using s p by (simp add: lev_append mult.commute)
  have ne: "rs \<noteq> []" using assms(1) by (auto simp: le256_def split: if_splits)
  show ?thesis
  proof (cases "58 * v + d = 0")
    case True
    then have "rs' = [0]" "c = 0" using assms(1,3) by (auto simp: le256_def)
    then show ?thesis using True by (simp add: le256_def push_carry.simps)
  next
    case False
    have "last (rs' @ push_carry c) \<noteq> 0"
    proof (cases "push_carry c = []")
      case True
      then have c: "c = 0" using p by simp
      show ?thesis
      proof
        assume "last (rs' @ push_carry c) = 0"
        then have l: "last rs' = 0" using True by simp
        have ne': "rs' \<noteq> []" using ne s(2) by auto
        then have "rs' = butlast rs' @ [0]" using l by (metis append_butlast_last_id)
        then have "lev 256 rs' = lev 256 (butlast rs')" using lev_append [of 256 "butlast rs'" "[0]"] by simp
        also have "\<dots> < 256 ^ (length rs - 1)"
          using lev_less [of "butlast rs'" 256] s(2,3) by (auto dest: in_set_butlastD)
        finally have lt: "58 * v + d < 256 ^ (length rs - 1)" using s(1) c by simp
        show False
        proof (cases "v = 0")
          case True
          then have "rs = [0]" using assms(1) by (simp add: le256_def)
          then show False using lt False by simp
        next
          case v: False
          then have "256 ^ (length rs - 1) \<le> v" using lev_ge [of rs 256] assms(1) by (auto simp: le256_def)
          then show False using lt by simp
        qed
      qed
    next
      case False
      then show ?thesis using p by simp
    qed
    then show ?thesis using False val s(3) p ne s(2) by (auto simp: le256_def)
  qed
qed

lemma dec58_loop_digits:
  "le256 rs v \<Longrightarrow> \<forall>d\<in>set ds. d < 58 \<Longrightarrow>
   le256 (dec58_loop (map (\<lambda>d. ALPHABET ! d) ds) rs) (58 ^ length ds * v + lev 58 (rev ds))"
proof (induction ds arbitrary: rs v)
  case (Cons d ds)
  obtain rs' c where r: "dec58_inner rs d = (rs', c)" by (cases "dec58_inner rs d") auto
  have "le256 (rs' @ push_carry c) (58 * v + d)" using dec58_step [OF Cons.prems(1) _ r] Cons.prems(2) by simp
  from Cons.IH [OF this] Cons.prems(2)
  have "le256 (dec58_loop (map (\<lambda>d. ALPHABET ! d) ds) (rs' @ push_carry c))
      (58 ^ length ds * (58 * v + d) + lev 58 (rev ds))" by simp
  moreover have "dec58_loop (map (\<lambda>d. ALPHABET ! d) (d # ds)) rs =
      dec58_loop (map (\<lambda>d. ALPHABET ! d) ds) (rs' @ push_carry c)"
    using Cons.prems(2) r by (simp add: alphabet_map)
  moreover have "58 ^ length ds * (58 * v + d) + lev 58 (rev ds) = 58 ^ length (d # ds) * v + lev 58 (rev (d # ds))"
    by (simp add: lev_append algebra_simps)
  ultimately show ?case by simp
qed simp

lemma rev_swap_nth:
  assumes "i < length a" "length a \<le> 2 * z" "0 < z"
  shows "length (rev_swap z i a) = length a \<and> (\<forall>j < length a. rev_swap z i a ! j =
    (if z \<le> j \<and> j \<le> i \<or> z \<le> length a - 1 - j \<and> length a - 1 - j \<le> i then a ! (length a - 1 - j) else a ! j))"
  using assms
proof (induction z i a rule: rev_swap.induct)
  case (1 z i a)
  show ?case
  proof (cases "z \<le> i \<and> 0 < i")
    case True
    let ?n = "length a"
    let ?b = "a[i := a ! (?n - i - 1), ?n - i - 1 := a ! i]"
    have ih: "length (rev_swap z (i - 1) ?b) = ?n \<and> (\<forall>j < ?n. rev_swap z (i - 1) ?b ! j =
      (if z \<le> j \<and> j \<le> i - 1 \<or> z \<le> ?n - 1 - j \<and> ?n - 1 - j \<le> i - 1 then ?b ! (?n - 1 - j) else ?b ! j))"
      using 1 True by auto
    have eq: "rev_swap z i a = rev_swap z (i - 1) ?b" using True by (simp add: rev_swap.simps [of z i])
    have b: "?b ! j = (if j = ?n - i - 1 then a ! i else if j = i then a ! (?n - i - 1) else a ! j)" if "j < ?n" for j
      using that 1(2) by (simp add: nth_list_update)
    show ?thesis
    proof (intro conjI allI impI)
      show "length (rev_swap z i a) = ?n" using ih eq by simp
      fix j assume j: "j < ?n"
      have r: "rev_swap z i a ! j = (if z \<le> j \<and> j \<le> i - 1 \<or> z \<le> ?n - 1 - j \<and> ?n - 1 - j \<le> i - 1
          then ?b ! (?n - 1 - j) else ?b ! j)" using ih eq j by simp
      consider "j = i" | "j = ?n - i - 1" | "j \<noteq> i" "j \<noteq> ?n - i - 1" by blast
      then show "rev_swap z i a ! j = (if z \<le> j \<and> j \<le> i \<or> z \<le> ?n - 1 - j \<and> ?n - 1 - j \<le> i
          then a ! (?n - 1 - j) else a ! j)"
      proof cases
        case 1
        then show ?thesis unfolding r using True j \<open>length a \<le> 2 * z\<close> b [of i] by auto
      next
        case 2
        then show ?thesis unfolding r using True j \<open>length a \<le> 2 * z\<close> \<open>i < length a\<close> b [of j] by auto
      next
        case 3
        then have "?b ! j = a ! j" "?b ! (?n - 1 - j) = a ! (?n - 1 - j)" using j b \<open>i < length a\<close> by auto
        then show ?thesis unfolding r using 3 j True by auto
      qed
    qed
  next
    case False
    then show ?thesis using 1 by (auto simp: rev_swap.simps [of z i])
  qed
qed

lemma rev_swap_rev: "a \<noteq> [] \<Longrightarrow> rev_swap (length a div 2 + length a mod 2) (length a - 1) a = rev a"
proof -
  let ?n = "length a" and ?z = "length a div 2 + length a mod 2"
  assume "a \<noteq> []"
  then have n: "0 < ?n" by simp
  have half: "m \<le> 2 * (m div 2 + m mod 2) \<and> 0 < m div 2 + m mod 2 \<and> 2 * (m div 2 + m mod 2) \<le> m + 1"
    if "0 < m" for m :: nat using that by presburger
  have z: "?n \<le> 2 * ?z" "0 < ?z" "2 * ?z \<le> ?n + 1" using half [OF n] by auto
  have r: "length (rev_swap ?z (?n - 1) a) = ?n" "\<And>j. j < ?n \<Longrightarrow> rev_swap ?z (?n - 1) a ! j =
    (if ?z \<le> j \<and> j \<le> ?n - 1 \<or> ?z \<le> ?n - 1 - j \<and> ?n - 1 - j \<le> ?n - 1 then a ! (?n - 1 - j) else a ! j)"
    using rev_swap_nth [OF _ z(1,2), of "?n - 1"] n by auto
  show ?thesis
  proof (rule nth_equalityI)
    show "length (rev_swap ?z (?n - 1) a) = length (rev a)" using r(1) by simp
    fix j assume "j < length (rev_swap ?z (?n - 1) a)"
    then have j: "j < ?n" using r(1) by simp
    have mid: "n - 1 - j = j" if "\<not> m \<le> j" "\<not> m \<le> n - 1 - j" "j < n" "2 * m \<le> n + 1" for n m j :: nat
      using that by linarith
    have "?n - 1 - j = j" if "\<not> ?z \<le> j" "\<not> ?z \<le> ?n - 1 - j" using mid [OF that j z(3)] .
    then show "rev_swap ?z (?n - 1) a ! j = rev a ! j" using r(2) [OF j] j by (auto simp: rev_nth)
  qed
qed

lemma dec58_loop_ones: "dec58_loop (replicate k CHR ''1'' @ cs) [0] = dec58_loop cs [0]"
proof (induction k)
  case (Suc k)
  have "ALPHABET_MAP ! byte (CHR ''1'') = 0" using alphabet_map [of 0] by (simp add: ALPHABET_def)
  then show ?case using Suc by (simp add: push_carry.simps)
qed simp

lemma base58_enc_dec:
  assumes "source \<noteq> []" "length source \<le> 120" "length source + length source div 2 + 2 \<le> reslen"
  shows "\<exists>text. enc_base58 source reslen = Some text \<and>
    dec_base58 text = (if \<exists>c\<in>set source. byte c \<noteq> 0 then source else to_byte 0 # source)"
proof -
  define rest where "rest = dropWhile (\<lambda>c. byte c = 0) source"
  define zeros where "zeros = length source - length rest"
  obtain ds where ds: "enc_base58 source reslen = Some (replicate zeros CHR ''1'' @ map (\<lambda>d. ALPHABET ! d) ds)"
      "\<forall>d\<in>set ds. d < 58" "ds = [] \<or> hd ds \<noteq> 0" "lev 58 (rev ds) = bytes_val rest"
    using enc_base58_digits [OF assms] unfolding rest_def zeros_def by blast
  let ?t = "replicate zeros CHR ''1'' @ map (\<lambda>d. ALPHABET ! d) ds"
  have "le256 [0] 0" by (simp add: le256_def)
  from dec58_loop_digits [OF this ds(2)]
  have le: "le256 (dec58_loop ?t [0]) (bytes_val rest)" by (simp add: dec58_loop_ones ds(4))
  have tw: "takeWhile (\<lambda>c. c = CHR ''1'') ?t = replicate zeros CHR ''1''"
    using ds(2,3) by (cases ds) (auto simp: takeWhile_append alphabet_one)
  have src: "source = replicate zeros (to_byte 0) @ rest"
  proof -
    have "takeWhile (\<lambda>c. byte c = 0) source = replicate (length (takeWhile (\<lambda>c. byte c = 0) source)) (to_byte 0)"
      by (rule replicate_eqI [symmetric, THEN sym]) (auto dest!: set_takeWhileD, metis char_of_char)
    moreover have "length (takeWhile (\<lambda>c. byte c = 0) source) = zeros"
      unfolding zeros_def rest_def by (metis add_diff_cancel_right' length_append takeWhile_dropWhile_id)
    ultimately show ?thesis unfolding rest_def by (metis takeWhile_dropWhile_id)
  qed
  have dec: "dec_base58 ?t = map to_byte (rev (dec58_loop ?t [0] @ replicate zeros 0))"
    unfolding dec_base58_def Let_def tw using rev_swap_rev [of "dec58_loop ?t [0] @ replicate zeros 0"] le
    by (auto simp: le256_def split: if_splits)
  show ?thesis
  proof (cases "rest = []")
    case True
    then have "dec58_loop ?t [0] = [0]" using le by (simp add: le256_def)
    moreover have "\<not> (\<exists>c\<in>set source. byte c \<noteq> 0)" using True by (auto simp: rest_def)
    ultimately show ?thesis using ds(1) dec src True by (simp add: replicate_append_same [symmetric])
  next
    case False
    have hd: "byte (hd rest) \<noteq> 0" using False hd_dropWhile unfolding rest_def by blast
    have nz: "\<exists>c\<in>set source. byte c \<noteq> 0" using hd False src by (metis Un_iff list.set_sel(1) set_append)
    have "last (rev (map byte rest)) \<noteq> 0" using hd False by (simp add: last_rev hd_map)
    moreover have "bytes_val rest \<noteq> 0"
    proof -
      have "256 ^ (length (rev (map byte rest)) - 1) \<le> bytes_val rest"
        using False calculation by (intro lev_ge) auto
      moreover have "0 < (256 :: nat) ^ (length (rev (map byte rest)) - 1)" by simp
      ultimately show ?thesis by linarith
    qed
    ultimately have "dec58_loop ?t [0] = rev (map byte rest)"
      using le False by (intro lev_inj [of _ 256]) (auto simp: le256_def)
    then have "dec_base58 ?t = source" using dec src by (simp add: o_def)
    then show ?thesis using ds(1) nz by auto
  qed
qed

text \<open>
  (C13) Decoding undoes encoding for every byte string of up to 120 bytes that has a
  non-zero byte.  A string of \<open>n\<close> zero bytes (such as the default public key), which encodes to \<open>n\<close>
  times the character 1, decodes to \<open>n + 1\<close> zero bytes: one more than the source had.
\<close>

theorem base58_roundtrip:
  assumes "source \<noteq> []" "length source \<le> 120" "length source + length source div 2 + 2 \<le> reslen"
  shows "\<exists>text. enc_base58 source reslen = Some text \<and>
    dec_base58 text = (if \<exists>c\<in>set source. byte c \<noteq> 0 then source else to_byte 0 # source)"
  by (rule base58_enc_dec [OF assms])

theorem base58_roundtrip_witness:
  "\<exists>text. enc_base58 ''Hello'' 50 = Some text \<and> dec_base58 text = ''Hello''"
  using base58_roundtrip [of "''Hello''" 50] by simp

section \<open>Integers\<close>

text \<open>The decimal value of a text of digits.\<close>

definition dec_val :: "string \<Rightarrow> nat" where
  "dec_val s = foldl (\<lambda>a c. a * 10 + (byte c - 48)) 0 s"

lemma dec_val_snoc [simp]: "dec_val (s @ [c]) = dec_val s * 10 + (byte c - 48)"
  by (simp add: dec_val_def)

lemma digit_props: "d < 10 \<Longrightarrow> is_digit (digit d) \<and> byte (digit d) = 48 + d"
proof -
  have "\<forall>d\<in>set [0..<10]. is_digit (digit d) \<and> byte (digit d) = 48 + d" by code_simp
  then show "d < 10 \<Longrightarrow> is_digit (digit d) \<and> byte (digit d) = 48 + d" by simp
qed

lemma dec_val_foldl: "foldl (\<lambda>a c. a * 10 + (byte c - 48)) v s = v * 10 ^ length s + dec_val s"
proof (induction s arbitrary: v)
  case (Cons c s)
  have "dec_val (c # s) = foldl (\<lambda>a c. a * 10 + (byte c - 48)) (byte c - 48) s" by (simp add: dec_val_def)
  then show ?case using Cons [of "v * 10 + (byte c - 48)"] Cons [of "byte c - 48"] by (simp add: algebra_simps)
qed (simp add: dec_val_def)

lemma dec_val_append: "dec_val (s @ t) = dec_val s * 10 ^ length t + dec_val t"
  using dec_val_foldl [of "dec_val s" t] by (simp add: dec_val_def)

lemma dec_val_Cons: "dec_val (c # s) = (byte c - 48) * 10 ^ length s + dec_val s"
  using dec_val_append [of "[c]" s] by (simp add: dec_val_def)

lemma put_digits_spec:
  "\<exists>s. put_digits v acc = s @ acc \<and> dec_val s = v \<and> list_all is_digit s \<and> (s = [] \<longleftrightarrow> v = 0)"
proof (induction v acc rule: put_digits.induct)
  case (1 v acc)
  show ?case
  proof (cases "v = 0")
    case False
    have d: "v mod 10 < 10" by simp
    from 1 [OF False] obtain s where "put_digits (v div 10) (digit (v mod 10) # acc) = s @ digit (v mod 10) # acc"
        "dec_val s = v div 10" "list_all is_digit s" by blast
    then show ?thesis using False digit_props [OF d]
      by (intro exI [of _ "s @ [digit (v mod 10)]"]) (simp add: put_digits.simps [of v])
  qed (simp add: put_digits.simps dec_val_def)
qed

lemma str_to_uint_loop_digits:
  "list_all is_digit s \<Longrightarrow> str_to_uint_loop s r = r * 10 ^ length s + of_nat (dec_val s)"
proof (induction s arbitrary: r)
  case (Cons c s)
  define d where "d = byte c - 48"
  show ?case using Cons by (simp add: dec_val_Cons d_def [symmetric] algebra_simps)
qed (simp add: dec_val_def)

text \<open>Signed parsing accumulates without overflow as long as the value fits.\<close>

lemma str_to_int_loop_digits:
  "list_all is_digit s \<Longrightarrow> 0 \<le> r \<Longrightarrow> r * 10 ^ length s + int (dec_val s) < 2 ^ 63 \<Longrightarrow>
   str_to_int_loop s r n = Some (r * 10 ^ length s + int (dec_val s), n)"
proof (induction s arbitrary: r)
  case (Cons c s)
  have c: "48 \<le> byte c" "is_digit c" using Cons.prems(1) by (auto simp: is_digit_def less_eq_char_def)
  let ?r = "r * 10 + (int (byte c) - 48)"
  have eq: "?r * 10 ^ length s + int (dec_val s) = r * 10 ^ length (c # s) + int (dec_val (c # s))"
  proof -
    define d where "d = byte c - 48"
    have "int (byte c) - 48 = int d" using c(1) by (simp add: d_def)
    then show ?thesis by (simp add: dec_val_Cons d_def [symmetric] algebra_simps)
  qed
  have "?r \<le> ?r * 10 ^ length s" using c Cons.prems(2) by (simp add: mult_le_cancel_left1)
  then have lt: "?r < 2 ^ 63" using Cons.prems(3) eq by linarith
  have "r * 10 \<le> ?r" using c by simp
  then have "in_s64 (r * 10)" "in_s64 ?r" using lt Cons.prems(2) c by (auto simp: in_s64_def)
  then show ?case using Cons.IH [of ?r] Cons.prems c eq by simp
qed (simp add: dec_val_def)

lemma int_str_uint: "str_to_uint (uint_to_str u) = u"
proof -
  obtain s where "put_digits (unat u) [] = s" "dec_val s = unat u" "list_all is_digit s"
    using put_digits_spec [of "unat u" "[]"] by auto
  then show ?thesis
    by (auto simp: str_to_uint_def uint_to_str_def str_to_uint_loop_digits dec_val_def is_digit_def less_eq_char_def)
qed

lemma int_str_int:
  assumes "- (2 ^ 63) < v" "v < 2 ^ 63"
  shows "\<exists>s. int_to_str v = Some s \<and> str_to_int s = Some v"
proof -
  have v: "- (2 ^ 63) < v \<and> v < 2 ^ 63" using assms by simp
  obtain t where t: "put_digits (nat \<bar>v\<bar>) [] = t" "dec_val t = nat \<bar>v\<bar>" "list_all is_digit t"
    using put_digits_spec [of "nat \<bar>v\<bar>" "[]"] by auto
  have l: "str_to_int_loop t 0 n = Some (\<bar>v\<bar>, n)" for n
    using str_to_int_loop_digits [OF t(3), of 0 n] t(2) v by (simp add: abs_if)
  have nd: "\<not> is_digit (CHR ''-'')" by (simp add: is_digit_def less_eq_char_def)
  have nv: "in_s64 (- v)" using v by (auto simp: in_s64_def)
  show "\<exists>s. int_to_str v = Some s \<and> str_to_int s = Some v"
  proof (cases "v = 0")
    case True
    then show ?thesis by (simp add: int_to_str_def str_to_int_def is_digit_def less_eq_char_def in_s64_def)
  next
    case False
    then show ?thesis using t(1) l nd nv
      by (cases "v < 0") (auto simp: int_to_str_def str_to_int_def)
  qed
qed

text \<open>
   Printing and parsing agree: every \<open>uint64_t\<close> is read back from its text, and
  every \<open>int64_t\<close> other than the smallest is printed without overflow and read back from its text;
  the text of an unsigned number consists of digits only.
\<close>

theorem int_str_roundtrip:
  "str_to_uint (uint_to_str u) = u \<and> list_all is_digit (uint_to_str u) \<and>
   (- (2 ^ 63) < v \<and> v < 2 ^ 63 \<longrightarrow> (\<exists>s. int_to_str v = Some s \<and> str_to_int s = Some v)) \<and>
   int_to_str (- (2 ^ 63)) = None"
proof (intro conjI impI)
  obtain s where s: "put_digits (unat u) [] = s" "dec_val s = unat u" "list_all is_digit s"
    using put_digits_spec [of "unat u" "[]"] by auto
  show "str_to_uint (uint_to_str u) = u" by (rule int_str_uint)
  show "list_all is_digit (uint_to_str u)" using s by (auto simp: uint_to_str_def is_digit_def less_eq_char_def)
  show "int_to_str (- (2 ^ 63)) = None" by (simp add: int_to_str_def s64_def in_s64_def)
  assume "- (2 ^ 63) < v \<and> v < 2 ^ 63"
  then show "\<exists>s. int_to_str v = Some s \<and> str_to_int s = Some v" by (simp add: int_str_int)
qed

theorem int_str_roundtrip_witness: "\<exists>s. int_to_str (- 42) = Some s \<and> str_to_int s = Some (- 42)"
  using int_str_roundtrip [of 0 "- 42"] by simp

section \<open>Base 64\<close>

lemma and_low_bits: "(a :: nat) AND 3 = a mod 4" "(a :: nat) AND 15 = a mod 16" "(a :: nat) AND 63 = a mod 64"
  using take_bit_eq_mask [of 2 a] take_bit_eq_mask [of 4 a] take_bit_eq_mask [of 6 a]
  by (simp_all add: take_bit_eq_mod mask_eq_exp_minus_1)

lemma high_bits:
  "drop_bit 2 (a AND 0xfc) = a div 4 mod (64 :: nat)" "drop_bit 4 (a AND 0xf0) = a div 16 mod (16 :: nat)"
  "drop_bit 6 (a AND 0xc0) = a div 64 mod (4 :: nat)" "drop_bit 4 (a AND 0x30) = a div 16 mod (4 :: nat)"
  "drop_bit 2 (a AND 0x3c) = a div 4 mod (16 :: nat)"
  unfolding drop_bit_and by (simp_all add: drop_bit_eq_div and_low_bits)

lemma a3_to_a4_arith:
  assumes "x < 256" "y < 256" "z < 256"
  shows "a3_to_a4 x y z = [x div 4, x mod 4 * 16 + y div 16, y mod 16 * 4 + z div 64, z mod 64]"
proof -
  have "x div 4 mod 64 = x div 4" "y div 16 mod 16 = y div 16" "z div 64 mod 4 = z div 64" using assms by simp_all
  then show ?thesis by (simp only: a3_to_a4_def high_bits push_bit_eq_mult and_low_bits) simp
qed

lemma a4_to_a3_arith:
  "a4_to_a3 p q r t =
   [to_byte (p * 4 + q div 16 mod 4), to_byte (q mod 16 * 16 + r div 4 mod 16), to_byte (r mod 4 * 64 + t)]"
  by (simp only: a4_to_a3_def high_bits push_bit_eq_mult and_low_bits) simp

lemma b64_lookup_alphabet: "i < 64 \<Longrightarrow> b64_lookup (b64_alphabet ! i) = i \<and> b64_alphabet ! i \<noteq> CHR ''=''"
proof -
  have "\<forall>i\<in>set [0..<64]. b64_lookup (b64_alphabet ! i) = i \<and> b64_alphabet ! i \<noteq> CHR ''=''" by code_simp
  then show "i < 64 \<Longrightarrow> b64_lookup (b64_alphabet ! i) = i \<and> b64_alphabet ! i \<noteq> CHR ''=''" by simp
qed

text \<open>The sextets of three bytes, and the bytes they give back.\<close>

lemma sextets:
  fixes x y z :: nat
  assumes "x < 256" "y < 256" "z < 256"
  defines "p \<equiv> x div 4" and "q \<equiv> x mod 4 * 16 + y div 16" and "r \<equiv> y mod 16 * 4 + z div 64" and "t \<equiv> z mod 64"
  shows "p < 64" "q < 64" "r < 64" "t < 64" "p * 4 + q div 16 mod 4 = x"
    "q mod 16 * 16 + r div 4 mod 16 = y" "r mod 4 * 64 + t = z"
proof -
  have y: "y div 16 < 16" "y div 16 div 16 = 0" using assms(2) by auto
  have z: "z div 64 < 4" "z div 64 div 4 = 0" using assms(3) by auto
  have q: "q div 16 = x mod 4" "q mod 16 = y div 16" using y unfolding q_def by auto
  have r: "r div 4 = y mod 16" "r mod 4 = z div 64" using z unfolding r_def by auto
  show "p < 64" "t < 64" using assms(1) by (auto simp: p_def t_def)
  have "x mod 4 < 4" "y mod 16 < 16" by auto
  then show "q < 64" "r < 64" unfolding q_def r_def using y(1) z(1) by linarith+
  show "p * 4 + q div 16 mod 4 = x" by (simp add: q p_def)
  show "q mod 16 * 16 + r div 4 mod 16 = y" by (simp add: q r)
  show "r mod 4 * 64 + t = z" by (simp add: r t_def)
qed

lemma group_roundtrip:
  obtains p q r t where "a3_to_a4 (byte x) (byte y) (byte z) = [p, q, r, t]" "p < 64" "q < 64" "r < 64" "t < 64"
    "a4_to_a3 p q r t = [x, y, z]"
proof -
  have lt: "byte c < 256" for c :: char by simp
  note s = sextets [OF lt [of x] lt [of y] lt [of z]]
  show thesis
    by (rule that [OF a3_to_a4_arith [OF lt lt lt] s(1-4)]) (simp only: a4_to_a3_arith s(5-7) char_of_char)
qed

lemma byte_zero: "byte (to_byte 0) = 0"
  by simp

lemma dec_enc64: "dec64_loop (enc_base64 inp) [] = inp"
proof (induction inp rule: enc_base64.induct)
  case (1 x y z inp)
  obtain p q r t where g: "a3_to_a4 (byte x) (byte y) (byte z) = [p, q, r, t]" "p < 64" "q < 64" "r < 64" "t < 64"
    "a4_to_a3 p q r t = [x, y, z]" by (rule group_roundtrip)
  then show ?case using 1 by (simp add: b64_lookup_alphabet dec64_group_def Let_def)
next
  case (2 x y)
  obtain p q r t where g: "a3_to_a4 (byte x) (byte y) (byte (to_byte 0)) = [p, q, r, t]" "p < 64" "q < 64" "r < 64"
    "a4_to_a3 p q r t = [x, y, to_byte 0]" by (rule group_roundtrip)
  have "take 2 (a4_to_a3 p q r u) = [x, y]" for u using g(5) by (simp add: a4_to_a3_def)
  then show ?case using g(1-4) by (simp add: b64_lookup_alphabet dec64_group_def Let_def numeral_2_eq_2)
next
  case (3 x)
  obtain p q r t where g: "a3_to_a4 (byte x) (byte (to_byte 0)) (byte (to_byte 0)) = [p, q, r, t]" "p < 64" "q < 64"
    "a4_to_a3 p q r t = [x, to_byte 0, to_byte 0]" by (rule group_roundtrip)
  have "take 1 (a4_to_a3 p q u v) = [x]" for u v using g(4) by (simp add: a4_to_a3_def)
  then show ?case using g(1-3) by (simp add: b64_lookup_alphabet dec64_group_def Let_def)
qed simp

lemma enc_base64_len_eq: "enc_base64_len n = (n + 2) div 3 * 4"
  by (simp add: enc_base64_len_def minus_mod_eq_mult_div)

lemma enc64_len: "length (enc_base64 inp) = enc_base64_len (length inp)"
proof (induction inp rule: enc_base64.induct)
  case (1 x y z inp)
  moreover have "(5 + length inp) div 3 = Suc (Suc (length inp)) div 3 + 1"
    using div_add_self2 [of 3 "length inp + 2"] by (simp add: add.commute)
  ultimately show ?case by (simp add: a3_to_a4_def enc_base64_len_eq)
qed (simp_all add: a3_to_a4_def enc_base64_len_eq)

text \<open>
   Decoding undoes base-64 encoding for every byte string, and the encoded length
  is what \<open>enc_base64_len\<close> announces, which is what the callers allocate.
\<close>

theorem base64_roundtrip:
  "dec_base64 (enc_base64 inp) = inp \<and> length (enc_base64 inp) = enc_base64_len (length inp)"
  by (simp add: dec_base64_def dec_enc64 enc64_len)

section \<open>Decimals\<close>

lemma dec_scan_digits:
  "list_all is_digit s \<Longrightarrow> 0 \<le> m \<Longrightarrow> m * 10 ^ length s + int (dec_val s) < 2 ^ 63 \<Longrightarrow>
   dec_scan (s @ t) pos m e = dec_scan t (pos + int (length s)) (m * 10 ^ length s + int (dec_val s)) e"
proof (induction s arbitrary: m pos)
  case (Cons c s)
  have c: "48 \<le> byte c" "is_digit c" using Cons.prems(1) by (auto simp: is_digit_def less_eq_char_def)
  let ?m = "m * 10 + (int (byte c) - 48)"
  have eq: "?m * 10 ^ length s + int (dec_val s) = m * 10 ^ length (c # s) + int (dec_val (c # s))"
  proof -
    define d where "d = byte c - 48"
    have "int (byte c) - 48 = int d" using c(1) by (simp add: d_def)
    then show ?thesis by (simp add: dec_val_Cons d_def [symmetric] algebra_simps)
  qed
  have "?m \<le> ?m * 10 ^ length s" using c Cons.prems(2) by (simp add: mult_le_cancel_left1)
  then have lt: "?m < 2 ^ 63" using Cons.prems(3) eq by linarith
  have "m * 10 \<le> ?m" using c by simp
  then have "in_s64 (m * 10)" "in_s64 ?m" using lt Cons.prems(2) c by (auto simp: in_s64_def)
  then show ?case using Cons.IH [of ?m "pos + 1"] Cons.prems c eq by (simp add: add.assoc)
qed (simp add: dec_val_def)

lemma strip_zeros_split: "\<exists>k. s = strip_zeros s @ replicate k CHR ''0''"
proof -
  have "rev s = takeWhile (\<lambda>c. c = CHR ''0'') (rev s) @ dropWhile (\<lambda>c. c = CHR ''0'') (rev s)" by simp
  moreover have "takeWhile (\<lambda>c. c = CHR ''0'') (rev s) =
      replicate (length (takeWhile (\<lambda>c. c = CHR ''0'') (rev s))) CHR ''0''"
    by (rule replicate_eqI [symmetric, THEN sym]) (auto dest: set_takeWhileD)
  ultimately have "s = strip_zeros s @ replicate (length (takeWhile (\<lambda>c. c = CHR ''0'') (rev s))) CHR ''0''"
    unfolding strip_zeros_def by (metis rev_append rev_replicate rev_rev_ident)
  then show ?thesis by blast
qed

lemma dec_val_zeros [simp]: "dec_val (replicate k CHR ''0'') = 0"
  by (induction k) (auto simp: dec_val_Cons, simp add: dec_val_def)

lemma scale_up_eq: "0 \<le> m \<Longrightarrow> m * 10 ^ k < 2 ^ 63 \<Longrightarrow> scale_up k m = Some (m * 10 ^ k)"
proof (induction k arbitrary: m)
  case (Suc k)
  have "m * 10 * 1 \<le> m * 10 * 10 ^ k" using Suc.prems(1) by (intro mult_left_mono) auto
  then have "in_s64 (m * 10)" using Suc.prems by (auto simp: in_s64_def algebra_simps)
  then show ?case using Suc.IH [of "m * 10"] Suc.prems by (simp add: algebra_simps)
qed simp

text \<open>
  (C14) A decimal text \<open>[-]A.B\<close> with digits \<open>A\<close> and at most \<open>k\<close> digits \<open>B\<close> is read at
  exponent \<open>-k\<close> as exactly the integer it denotes in units of \<open>10 ^ -k\<close>, trailing zeros or not, without
  overflow whenever that integer fits an \<open>int64_t\<close>.
\<close>

theorem str_to_dec_exact:
  assumes "list_all is_digit A" "list_all is_digit B" "A \<noteq> []" "length B \<le> k"
    and "int (dec_val (A @ B)) * 10 ^ (k - length B) < 2 ^ 63"
  shows "str_to_dec ((if neg then ''-'' else []) @ A @ ''.'' @ B) (- int k) =
    Some ((if neg then - 1 else 1) * (int (dec_val (A @ B)) * 10 ^ (k - length B)))"
proof -
  obtain z where B: "B = strip_zeros B @ replicate z CHR ''0''" using strip_zeros_split by blast
  define B' where "B' = strip_zeros B"
  have BB: "B = B' @ replicate z CHR ''0''" using B by (simp add: B'_def)
  have len: "length B = length B' + z" by (subst BB) simp
  define M where "M = int (dec_val (A @ B'))"
  have val: "int (dec_val (A @ B)) = M * 10 ^ z" by (subst BB) (simp add: M_def dec_val_append power_add algebra_simps)
  have kz: "10 ^ (k - length B') = (10 :: int) ^ z * 10 ^ (k - length B)"
    using len assms(4) by (simp flip: power_add)
  have tot: "M * 10 ^ (k - length B') < 2 ^ 63" using assms(5) unfolding val kz by (simp add: mult.assoc)
  have "M * 1 \<le> M * 10 ^ (k - length B')" unfolding M_def by (intro mult_left_mono) auto
  then have M: "M < 2 ^ 63" using tot by linarith
  have dA: "int (dec_val A) * 1 \<le> int (dec_val A) * 10 ^ length B'" by (intro mult_left_mono) auto
  have MA: "M = int (dec_val A) * 10 ^ length B' + int (dec_val B')" by (simp add: M_def dec_val_append)
  have dB': "list_all is_digit B'" using assms(2) BB by (metis list_all_append)
  obtain a A' where A: "A = a # A'" using assms(3) by (cases A) auto
  have a: "is_digit a" using assms(1) A by simp
  have ns: "\<not> is_space a" "a \<noteq> CHR ''-''" using a by (auto simp: is_digit_def is_space_def less_eq_char_def)
  have nsm: "\<not> is_space (CHR ''-'')" by (simp add: is_space_def)
  let ?p = "int (if neg then 1 else 0)"
  have "dec_scan (A @ ''.'' @ B) ?p 0 (- 1) = dec_scan (''.'' @ B) (?p + int (length A)) (int (dec_val A)) (- 1)"
    using dec_scan_digits [OF assms(1), of 0 "''.'' @ B" ?p "- 1"] dA M MA by simp
  also have "\<dots> = dec_scan (B' @ []) (?p + int (length A) + 1) (int (dec_val A)) (1 + (?p + int (length A)))"
    by (simp add: B'_def is_digit_def less_eq_char_def)
  also have "\<dots> = Some (Some (M, 1 + (?p + int (length A)), ?p + int (length A) + 1 + int (length B')))"
    using M MA by (subst dec_scan_digits [OF dB']) auto
  finally have scan: "dec_scan (A @ ''.'' @ B) ?p 0 (- 1) =
      Some (Some (M, 1 + (?p + int (length A)), ?p + int (length A) + 1 + int (length B')))" .
  have up: "scale_up (k - length B') M = Some (M * 10 ^ (k - length B'))"
    using tot by (intro scale_up_eq) (auto simp: M_def)
  have diff: "nat (- int (length B') - - int k) = k - length B'" "nat (- int k - - int (length B')) = 0"
    using len assms(4) by auto
  have "str_to_dec ((if neg then ''-'' else []) @ A @ ''.'' @ B) (- int k) =
      Some ((if neg then - 1 else 1) * (M * 10 ^ (k - length B')))"
    using scan up diff A ns nsm by (cases neg) (auto simp: str_to_dec_def Let_def)
  then show ?thesis unfolding val kz by (simp add: mult.assoc)
qed

theorem str_to_dec_exact_witness: "str_to_dec ''-12.340'' (- 8) = Some (- 1234000000)"
  using str_to_dec_exact [of "''12''" "''340''" 8 True]
  by (simp add: is_digit_def less_eq_char_def dec_val_def)

section \<open>Host and ports\<close>

lemma split_host_plain: "CHR '':'' \<notin> set s \<Longrightarrow> split_host s num cur = [cur @ s]"
  by (induction s arbitrary: cur) auto

lemma split_host_colon:
  "CHR '':'' \<notin> set s \<Longrightarrow> num < 2 \<Longrightarrow> split_host (s @ CHR '':'' # t) num cur = (cur @ s) # split_host t (num + 1) []"
  by (induction s arbitrary: cur) auto

lemma split_host_rest: "split_host s 2 cur = [cur @ s]"
  by (cases s) auto

lemma digits_no_colon: "list_all is_digit s \<Longrightarrow> CHR '':'' \<notin> set s"
  by (auto simp: list_all_iff is_digit_def less_eq_char_def)

lemma dec_val_int:
  "list_all is_digit s \<Longrightarrow> foldl (\<lambda>a c. a * 10 + (int (byte c) - 48)) v s = v * 10 ^ length s + int (dec_val s)"
proof (induction s arbitrary: v)
  case (Cons c s)
  define d where "d = byte c - 48"
  have "48 \<le> byte c" using Cons.prems by (auto simp: is_digit_def less_eq_char_def)
  then have "int (byte c) - 48 = int d" by (simp add: d_def)
  then show ?case using Cons by (simp add: dec_val_Cons d_def [symmetric] algebra_simps)
qed (simp add: dec_val_def)

lemma stoi_digits:
  assumes "list_all is_digit s" "s \<noteq> []" "dec_val s < 2 ^ 31"
  shows "stoi s = Some (int (dec_val s))"
proof -
  obtain c cs where s: "s = c # cs" using assms(2) by (cases s) auto
  have c: "is_digit c" "\<not> is_space c" "c \<noteq> CHR ''-''" "c \<noteq> CHR ''+''"
    using assms(1) s by (auto simp: is_digit_def is_space_def less_eq_char_def)
  have tw: "takeWhile is_digit (c # cs) = c # cs" using assms(1) s by (simp add: list_all_iff)
  have v: "foldl (\<lambda>a c. a * 10 + (int (byte c) - 48)) 0 (c # cs) = int (dec_val s)"
    using dec_val_int [OF assms(1), of 0] s by simp
  have "stoi (c # cs) = s32 (int (dec_val s))"
    unfolding stoi_def Let_def using c by (simp add: tw v del: foldl_Cons takeWhile.simps)
  then show ?thesis using s assms(3) by (simp add: in_s32_def)
qed

text \<open>
   \<open>host:port1:port2\<close> and its shortened forms are split into the host and the two
  ports, missing ports being 0, for every host without a colon and every port text of digits below
  \<open>2 ^ 31\<close>; the three well-known end points get ports 80 and 80.
\<close>

theorem get_host_port_parse:
  assumes "CHR '':'' \<notin> set h" "list_all is_digit p" "p \<noteq> []" "dec_val p < 2 ^ 31"
    and "list_all is_digit q" "q \<noteq> []" "dec_val q < 2 ^ 31"
  shows "get_host_port (h @ '':'' @ p @ '':'' @ q) = Some (h, int (dec_val p), int (dec_val q)) \<and>
    get_host_port (h @ '':'' @ p) = Some (h, int (dec_val p), 0) \<and>
    get_host_port h = (if h \<in> {''api.devnet.solana.com'', ''api.mainnet-beta.solana.com'', ''api.testnet.solana.com''}
      then Some (h, 80, 80) else Some (h, 0, 0))"
proof -
  have "CHR '':'' \<notin> set ''api.devnet.solana.com''" "CHR '':'' \<notin> set ''api.mainnet-beta.solana.com''"
    "CHR '':'' \<notin> set ''api.testnet.solana.com''" by simp_all
  then have ep: "get_rpc_end_point (h @ CHR '':'' # t) = h @ CHR '':'' # t" for t
    unfolding get_rpc_end_point_def by (metis in_set_conv_decomp)
  have s80: "stoi ''80'' = Some 80" using stoi_digits [of "''80''"]
    by (simp add: is_digit_def less_eq_char_def dec_val_def)
  have e80: "get_host_port h = Some (h, 80, 80)" if "get_rpc_end_point h = h @ '':80:80''"
    using that split_host_colon [OF assms(1), of 0 "''80:80''"] s80
    by (simp add: get_host_port_def Let_def)
  have e0: "get_host_port h = Some (h, 0, 0)" if "get_rpc_end_point h = h"
    using that split_host_plain [OF assms(1)] by (simp add: get_host_port_def Let_def)
  have s2: "split_host (h @ CHR '':'' # p @ CHR '':'' # q) 0 [] = [h, p, q]"
    using split_host_colon [OF assms(1), of 0] split_host_colon [OF digits_no_colon [OF assms(2)], of 1]
      split_host_rest [of q] by (simp add: numeral_2_eq_2)
  have s1: "split_host (h @ CHR '':'' # p) 0 [] = [h, p]"
    using split_host_colon [OF assms(1), of 0] split_host_plain [OF digits_no_colon [OF assms(2)]] by simp
  note st = stoi_digits [OF assms(2,3,4)] stoi_digits [OF assms(5,6,7)]
  have "get_host_port (h @ '':'' @ p @ '':'' @ q) = Some (h, int (dec_val p), int (dec_val q))"
    by (simp add: get_host_port_def ep s2 st)
  moreover have "get_host_port (h @ '':'' @ p) = Some (h, int (dec_val p), 0)"
    by (simp add: get_host_port_def ep s1 st)
  moreover have "get_rpc_end_point h = (if h \<in> {''api.devnet.solana.com'', ''api.mainnet-beta.solana.com'',
      ''api.testnet.solana.com''} then h @ '':80:80'' else h)" by (auto simp: get_rpc_end_point_def)
  ultimately show ?thesis using e0 e80 by presburger
qed

theorem get_host_port_parse_witness:
  "get_host_port ''node.example:8899:8900'' = Some (''node.example'', 8899, 8900)"
  using get_host_port_parse [of "''node.example''" "''8899''" "''8900''"]
  by (simp add: is_digit_def less_eq_char_def dec_val_def)

end
