(* ===== verification/Hash_Map.thy ===== *)
theory Hash_Map
  imports Sort_Stable
begin

text \<open>
  The hash map of the client, \<open>pc/hash_map.hpp\<close>: a vector of nodes, a table of bucket heads and a
  list of free nodes, all linked by indices, index 0 meaning the end of a list.  An iterator is the
  address of an index cell: a table entry or the \<open>nxt_\<close> field of a node.  Every access goes through
  the vector bounds, and a search in a cyclic chain would not end; both are \<open>None\<close> in the model, so
  the lemmas that the operations return \<open>Some\<close> exclude them.  An index is a 32-bit number in every
  instance of the template, so a new node has the number of nodes modulo 2^32, and the vector is
  resized to the wrapped sum; the map works as long as it has fewer than \<open>HM_ROOM\<close> entries.

  The interface the rest of the client relies on is the locale \<open>finite_map\<close>; it is interpreted on
  the hash map at the end.
\<close>

section \<open>Model\<close>

record ('k, 'v) node =
  hn_nxt :: nat
  hn_key :: 'k
  hn_val :: 'v

datatype slot = Htab nat | Nxt nat

record ('k, 'v) hash_map =
  nvec :: "('k, 'v) node list"
  htab :: "nat list"
  rhd :: nat
  hfn :: "'k \<Rightarrow> nat"
  nval :: nat

text \<open>A fresh node of a resized vector is value-initialised; \<open>nd0\<close> stands for that value.\<close>

definition hash_map_new :: "('k, 'v) node \<Rightarrow> nat \<Rightarrow> ('k \<Rightarrow> nat) \<Rightarrow> ('k, 'v) hash_map" where
  "hash_map_new nd0 hsize h = \<lparr>nvec = [nd0], htab = replicate hsize 0, rhd = 0, hfn = h, nval = 0\<rparr>"

fun load_slot :: "('k, 'v) hash_map \<Rightarrow> slot \<Rightarrow> nat option" where
  "load_slot m (Htab i) = rd (htab m) i"
| "load_slot m (Nxt i) = map_option hn_nxt (rd (nvec m) i)"

fun store_slot :: "('k, 'v) hash_map \<Rightarrow> slot \<Rightarrow> nat \<Rightarrow> ('k, 'v) hash_map option" where
  "store_slot m (Htab i) v = do { t \<leftarrow> wr (htab m) i v; Some (m\<lparr>htab := t\<rparr>) }"
| "store_slot m (Nxt i) v =
     do { nd \<leftarrow> rd (nvec m) i; t \<leftarrow> wr (nvec m) i (nd\<lparr>hn_nxt := v\<rparr>); Some (m\<lparr>nvec := t\<rparr>) }"

partial_function (option) hm_find_loop ::
    "('k, 'v) hash_map \<Rightarrow> 'k \<Rightarrow> slot \<Rightarrow> slot option option" where
  [code]: "hm_find_loop m k p =
     do { i \<leftarrow> load_slot m p;
          if i = 0 then Some None
          else do { nd \<leftarrow> rd (nvec m) i;
                    if k = hn_key nd then Some (Some p) else hm_find_loop m k (Nxt i) } }"

definition hm_find :: "('k, 'v) hash_map \<Rightarrow> 'k \<Rightarrow> slot option option" where
  "hm_find m k = hm_find_loop m k (Htab (hfn m k mod length (htab m)))"

definition hm_del :: "('k, 'v) hash_map \<Rightarrow> slot \<Rightarrow> ('k, 'v) hash_map option" where
  "hm_del m i =
     do { it \<leftarrow> load_slot m i;
          nd \<leftarrow> rd (nvec m) it;
          m \<leftarrow> store_slot m i (hn_nxt nd);
          m \<leftarrow> store_slot m (Nxt it) (rhd m);
          Some (m\<lparr>rhd := it, nval := nval m - 1\<rparr>) }"

text \<open>\<open>std::vector::resize\<close>, and the number of entries below which a new index fits.\<close>

definition nv_resize :: "nat \<Rightarrow> 'a \<Rightarrow> 'a list \<Rightarrow> 'a list" where
  "nv_resize n x xs = take n xs @ replicate (n - length xs) x"

definition HM_ROOM :: nat where "HM_ROOM = 2 ^ 32 - 2"

definition hm_add :: "('k, 'v) node \<Rightarrow> ('k, 'v) hash_map \<Rightarrow> 'k \<Rightarrow> (('k, 'v) hash_map \<times> slot) option" where
  "hm_add nd0 m k =
     do { (m, res) \<leftarrow>
            (if rhd m \<noteq> 0 then
               do { nd \<leftarrow> rd (nvec m) (rhd m); Some (m\<lparr>rhd := hn_nxt nd\<rparr>, rhd m) }
             else let res = length (nvec m) mod 2 ^ 32
                  in Some (m\<lparr>nvec := nv_resize ((1 + res) mod 2 ^ 32) nd0 (nvec m)\<rparr>, res));
          let i = hfn m k mod length (htab m);
          n \<leftarrow> rd (htab m) i;
          t \<leftarrow> wr (htab m) i res;
          nd \<leftarrow> rd (nvec m) res;
          v \<leftarrow> wr (nvec m) res (nd\<lparr>hn_nxt := n, hn_key := k\<rparr>);
          Some (m\<lparr>htab := t, nvec := v, nval := nval m + 1\<rparr>, Htab i) }"

definition hm_obj :: "('k, 'v) hash_map \<Rightarrow> slot \<Rightarrow> 'v option" where
  "hm_obj m i = do { it \<leftarrow> load_slot m i; nd \<leftarrow> rd (nvec m) it; Some (hn_val nd) }"

text \<open>\<open>ref\<close> returns a reference; the model of \<open>ref( i ) = x\<close> is the write through it.\<close>

definition hm_ref_set :: "('k, 'v) hash_map \<Rightarrow> slot \<Rightarrow> 'v \<Rightarrow> ('k, 'v) hash_map option" where
  "hm_ref_set m i x =
     do { it \<leftarrow> load_slot m i; nd \<leftarrow> rd (nvec m) it;
          v \<leftarrow> wr (nvec m) it (nd\<lparr>hn_val := x\<rparr>); Some (m\<lparr>nvec := v\<rparr>) }"

definition hm_size :: "('k, 'v) hash_map \<Rightarrow> nat" where
  "hm_size m = nval m"

definition hm_clear :: "('k, 'v) hash_map \<Rightarrow> ('k, 'v) hash_map" where
  "hm_clear m = m\<lparr>nvec := take 1 (nvec m), rhd := 0, nval := 0, htab := replicate (length (htab m)) 0\<rparr>"

text \<open>How the client uses the map: look up, hm_find-or-hm_add and assign, hm_find and delete.\<close>

definition map_get :: "('k, 'v) hash_map \<Rightarrow> 'k \<Rightarrow> 'v option option" where
  "map_get m k =
     do { p \<leftarrow> hm_find m k;
          (case p of None \<Rightarrow> Some None | Some p \<Rightarrow> do { v \<leftarrow> hm_obj m p; Some (Some v) }) }"

definition map_put :: "('k, 'v) node \<Rightarrow> 'k \<Rightarrow> 'v \<Rightarrow> ('k, 'v) hash_map \<Rightarrow> ('k, 'v) hash_map option" where
  "map_put nd0 k v m =
     do { p \<leftarrow> hm_find m k;
          (case p of None \<Rightarrow> do { (m, p) \<leftarrow> hm_add nd0 m k; hm_ref_set m p v } | Some p \<Rightarrow> hm_ref_set m p v) }"

definition map_remove :: "'k \<Rightarrow> ('k, 'v) hash_map \<Rightarrow> ('k, 'v) hash_map option" where
  "map_remove k m =
     do { p \<leftarrow> hm_find m k; (case p of None \<Rightarrow> Some m | Some p \<Rightarrow> hm_del m p) }"

section \<open>Chains\<close>

text \<open>\<open>chain nv i xs\<close>: following \<open>nxt_\<close> from index \<open>i\<close> visits exactly the nodes \<open>xs\<close>.\<close>

fun chain :: "('k, 'v) node list \<Rightarrow> nat \<Rightarrow> nat list \<Rightarrow> bool" where
  "chain nv i [] \<longleftrightarrow> i = 0"
| "chain nv i (x # xs) \<longleftrightarrow> i = x \<and> 0 < x \<and> x < length nv \<and> chain nv (hn_nxt (nv ! x)) xs"

lemma chain_set: "chain nv i xs \<Longrightarrow> x \<in> set xs \<Longrightarrow> 0 < x \<and> x < length nv"
  by (induction xs arbitrary: i) auto

lemma chain_cong:
  assumes "chain nv i xs" "length nv \<le> length nv'" "\<And>x. x \<in> set xs \<Longrightarrow> hn_nxt (nv' ! x) = hn_nxt (nv ! x)"
  shows "chain nv' i xs"
  using assms by (induction xs arbitrary: i) auto

lemma chain_update:
  "chain nv i xs \<Longrightarrow> x \<notin> set xs \<Longrightarrow> chain (nv[x := nd]) i xs"
  by (erule chain_cong) (auto, metis nth_list_update_neq)

lemma chain_update_nxt:
  "chain nv i xs \<Longrightarrow> hn_nxt nd = hn_nxt (nv ! x) \<Longrightarrow> chain (nv[x := nd]) i xs"
  by (erule chain_cong) (auto, metis nth_list_update list_update_beyond not_less nth_list_update_neq)

fun slot_of :: "('k, 'v) node list \<Rightarrow> 'k \<Rightarrow> slot \<Rightarrow> nat list \<Rightarrow> slot option" where
  "slot_of nv k p [] = None"
| "slot_of nv k p (x # xs) = (if k = hn_key (nv ! x) then Some p else slot_of nv k (Nxt x) xs)"

lemma hm_find_loop_chain:
  "load_slot m p = Some i \<Longrightarrow> chain (nvec m) i xs \<Longrightarrow> hm_find_loop m k p = Some (slot_of (nvec m) k p xs)"
proof (induction xs arbitrary: i p)
  case Nil
  then show ?case by (subst hm_find_loop.simps) simp
next
  case (Cons x xs)
  then show ?case by (subst hm_find_loop.simps) (simp add: rd_def)
qed

lemma slot_of_None: "slot_of nv k p xs = None \<longleftrightarrow> (\<forall>x\<in>set xs. hn_key (nv ! x) \<noteq> k)"
  by (induction xs arbitrary: p) auto

lemma slot_of_Some:
  assumes "slot_of nv k p xs = Some q"
  obtains ys x zs where "xs = ys @ x # zs" "hn_key (nv ! x) = k" "\<forall>y\<in>set ys. hn_key (nv ! y) \<noteq> k"
    "q = (if ys = [] then p else Nxt (last ys))"
  using assms
proof (induction xs arbitrary: p thesis)
  case (Cons a xs)
  show ?case
  proof (cases "k = hn_key (nv ! a)")
    case True
    then show ?thesis using Cons.prems(1) [of "[]" a xs] Cons.prems(2) by auto
  next
    case False
    then have "slot_of nv k (Nxt a) xs = Some q" using Cons.prems(2) by simp
    then obtain ys x zs where "xs = ys @ x # zs" "hn_key (nv ! x) = k" "\<forall>y\<in>set ys. hn_key (nv ! y) \<noteq> k"
        "q = (if ys = [] then Nxt a else Nxt (last ys))" using Cons.IH by blast
    then show ?thesis using Cons.prems(1) [of "a # ys" x zs] False by auto
  qed
qed simp

lemma chain_at: "chain nv i (ys @ x # zs) \<Longrightarrow> (if ys = [] then i else hn_nxt (nv ! last ys)) = x"
  by (induction ys arbitrary: i) auto

lemma chain_tail: "chain nv i (ys @ zs) \<Longrightarrow> ys \<noteq> [] \<Longrightarrow> chain nv (hn_nxt (nv ! last ys)) zs"
  by (induction ys arbitrary: i) (auto split: if_splits)

lemma chain_unlink:
  assumes "chain nv i (ys @ x # zs)" "ys \<noteq> []" "distinct (ys @ x # zs)"
  shows "chain (nv[last ys := (nv ! last ys)\<lparr>hn_nxt := hn_nxt (nv ! x)\<rparr>]) i (ys @ zs)"
  using assms
proof (induction ys arbitrary: i)
  case (Cons a ys)
  show ?case
  proof (cases "ys = []")
    case True
    then have "chain nv (hn_nxt (nv ! x)) zs" "a \<notin> set zs" "0 < a" "a < length nv" "i = a" using Cons.prems by auto
    then show ?thesis using True chain_update [of nv _ zs a] by simp
  next
    case False
    then have "last ys \<noteq> a" using Cons.prems(3) by auto
    then show ?thesis using Cons False by simp
  qed
qed simp

section \<open>Invariant\<close>

text \<open>\<open>hm_rel m C F\<close>: bucket \<open>i\<close> of \<open>m\<close> is the chain \<open>C i\<close>, the free list is \<open>F\<close>; no node is on two
  lists, a node is in the bucket its key hashes to, and a bucket holds each key once.\<close>

definition hm_rel :: "('k, 'v) hash_map \<Rightarrow> (nat \<Rightarrow> nat list) \<Rightarrow> nat list \<Rightarrow> bool" where
  "hm_rel m C F \<longleftrightarrow> 0 < length (htab m) \<and> nvec m \<noteq> [] \<and>
     (\<forall>i < length (htab m). chain (nvec m) (htab m ! i) (C i) \<and> distinct (C i) \<and>
        set (C i) \<inter> set F = {} \<and> distinct (map (\<lambda>x. hn_key (nvec m ! x)) (C i)) \<and>
        (\<forall>x\<in>set (C i). hfn m (hn_key (nvec m ! x)) mod length (htab m) = i)) \<and>
     (\<forall>i < length (htab m). \<forall>j < length (htab m). i \<noteq> j \<longrightarrow> set (C i) \<inter> set (C j) = {}) \<and>
     chain (nvec m) (rhd m) F \<and> distinct F \<and> nval m = (\<Sum>i < length (htab m). length (C i))"

text \<open>No node is lost: every index above 0 is on the chain of a bucket or on the free list.\<close>

definition hm_cover :: "('k, 'v) hash_map \<Rightarrow> (nat \<Rightarrow> nat list) \<Rightarrow> nat list \<Rightarrow> bool" where
  "hm_cover m C F \<longleftrightarrow> {1..<length (nvec m)} \<subseteq> set F \<union> (\<Union>i < length (htab m). set (C i))"

definition hm_inv :: "('k, 'v) hash_map \<Rightarrow> bool" where
  "hm_inv m \<longleftrightarrow> (\<exists>C F. hm_rel m C F \<and> hm_cover m C F)"

text \<open>The map it represents.\<close>

definition hm_lookup :: "('k, 'v) hash_map \<Rightarrow> 'k \<Rightarrow> 'v option" where
  "hm_lookup m k = (case map_get m k of Some r \<Rightarrow> r | None \<Rightarrow> None)"

abbreviation bucket :: "('k, 'v) hash_map \<Rightarrow> 'k \<Rightarrow> nat" where
  "bucket m k \<equiv> hfn m k mod length (htab m)"

abbreviation pairs :: "('k, 'v) node list \<Rightarrow> nat list \<Rightarrow> ('k \<times> 'v) list" where
  "pairs nv xs \<equiv> map (\<lambda>x. (hn_key (nv ! x), hn_val (nv ! x))) xs"

lemma hm_relD:
  assumes "hm_rel m C F"
  shows "0 < length (htab m)" "nvec m \<noteq> []" "chain (nvec m) (rhd m) F" "distinct F"
    "nval m = (\<Sum>i < length (htab m). length (C i))"
    "i < length (htab m) \<Longrightarrow> chain (nvec m) (htab m ! i) (C i)"
    "i < length (htab m) \<Longrightarrow> distinct (C i)"
    "i < length (htab m) \<Longrightarrow> set (C i) \<inter> set F = {}"
    "i < length (htab m) \<Longrightarrow> distinct (map (\<lambda>x. hn_key (nvec m ! x)) (C i))"
    "i < length (htab m) \<Longrightarrow> x \<in> set (C i) \<Longrightarrow> bucket m (hn_key (nvec m ! x)) = i"
    "i < length (htab m) \<Longrightarrow> j < length (htab m) \<Longrightarrow> i \<noteq> j \<Longrightarrow> set (C i) \<inter> set (C j) = {}"
  using assms unfolding hm_rel_def by blast+

lemma hm_relI:
  assumes "0 < length (htab m)" "nvec m \<noteq> []" "chain (nvec m) (rhd m) F" "distinct F"
    "nval m = (\<Sum>i < length (htab m). length (C i))"
    "\<And>i. i < length (htab m) \<Longrightarrow> chain (nvec m) (htab m ! i) (C i)"
    "\<And>i. i < length (htab m) \<Longrightarrow> distinct (C i)"
    "\<And>i. i < length (htab m) \<Longrightarrow> set (C i) \<inter> set F = {}"
    "\<And>i. i < length (htab m) \<Longrightarrow> distinct (map (\<lambda>x. hn_key (nvec m ! x)) (C i))"
    "\<And>i x. i < length (htab m) \<Longrightarrow> x \<in> set (C i) \<Longrightarrow> bucket m (hn_key (nvec m ! x)) = i"
    "\<And>i j. i < length (htab m) \<Longrightarrow> j < length (htab m) \<Longrightarrow> i \<noteq> j \<Longrightarrow> set (C i) \<inter> set (C j) = {}"
  shows "hm_rel m C F"
  unfolding hm_rel_def by (intro conjI allI impI ballI; (rule assms; assumption))

lemma hm_nodes:
  assumes "hm_rel m C F" "hm_cover m C F"
  shows "{1..<length (nvec m)} = set F \<union> (\<Union>i < length (htab m). set (C i))"
    "length (nvec m) = 1 + nval m + length F"
proof -
  note R = hm_relD [OF assms(1)]
  have "0 < x \<and> x < length (nvec m)" if "x \<in> set F \<union> (\<Union>i < length (htab m). set (C i))" for x
    using that chain_set [OF R(3)] chain_set [OF R(6)] by blast
  then show eq: "{1..<length (nvec m)} = set F \<union> (\<Union>i < length (htab m). set (C i))"
    using assms(2) by (force simp: hm_cover_def)
  have "card (\<Union>i < length (htab m). set (C i)) = (\<Sum>i < length (htab m). card (set (C i)))"
    using R(11) by (intro card_UN_disjoint) auto
  also have "\<dots> = nval m" using R(5,7) by (simp add: distinct_card)
  finally have n: "card (\<Union>i < length (htab m). set (C i)) = nval m" .
  have "set F \<inter> (\<Union>i < length (htab m). set (C i)) = {}" using R(8) by blast
  then have "card {1..<length (nvec m)} = length F + nval m"
    using n R(4) unfolding eq by (subst card_Un_disjoint) (auto simp: distinct_card)
  then have "length (nvec m) - 1 = length F + nval m" by simp
  moreover have "0 < length (nvec m)" using R(2) by simp
  ultimately show "length (nvec m) = 1 + nval m + length F" by linarith
qed

lemma hm_find_rel:
  assumes "hm_rel m C F"
  shows "hm_find m k = Some (slot_of (nvec m) k (Htab (bucket m k)) (C (bucket m k)))"
proof -
  have b: "bucket m k < length (htab m)" using hm_relD(1) [OF assms] by simp
  then show ?thesis using hm_relD(6) [OF assms b]
    unfolding hm_find_def by (intro hm_find_loop_chain) (auto simp: rd_def)
qed

text \<open>The slot a successful search returns points at the node found.\<close>

lemma slot_points:
  assumes "hm_rel m C F" "hm_find m k = Some (Some p)"
  obtains ys x zs where "C (bucket m k) = ys @ x # zs" "hn_key (nvec m ! x) = k" "load_slot m p = Some x"
    "p = (if ys = [] then Htab (bucket m k) else Nxt (last ys))" "0 < x" "x < length (nvec m)"
    "\<forall>y\<in>set ys. hn_key (nvec m ! y) \<noteq> k"
proof -
  have b: "bucket m k < length (htab m)" using hm_relD(1) [OF assms(1)] by simp
  note ch = hm_relD(6) [OF assms(1) b]
  have "slot_of (nvec m) k (Htab (bucket m k)) (C (bucket m k)) = Some p"
    using assms hm_find_rel by fastforce
  then obtain ys x zs where *: "C (bucket m k) = ys @ x # zs" "hn_key (nvec m ! x) = k"
      "\<forall>y\<in>set ys. hn_key (nvec m ! y) \<noteq> k" "p = (if ys = [] then Htab (bucket m k) else Nxt (last ys))"
    by (rule slot_of_Some)
  have "load_slot m p = Some x"
    using chain_at [OF ch [unfolded *(1)]] b chain_set [OF ch, of "last ys"] *(1,4)
    by (cases "ys = []") (auto simp: rd_def)
  then show thesis using that * chain_set [OF ch, of x] by simp
qed

lemma map_get_rel:
  assumes "hm_rel m C F"
  shows "map_get m k = Some (map_of (pairs (nvec m) (C (bucket m k))) k)"
proof (cases "slot_of (nvec m) k (Htab (bucket m k)) (C (bucket m k))")
  case None
  then have "map_of (pairs (nvec m) (C (bucket m k))) k = None"
    by (auto simp: slot_of_None map_of_eq_None_iff)
  then show ?thesis using None by (simp add: map_get_def hm_find_rel [OF assms])
next
  case (Some p)
  then have f: "hm_find m k = Some (Some p)" by (simp add: hm_find_rel [OF assms])
  from slot_points [OF assms f] obtain ys x zs where x: "C (bucket m k) = ys @ x # zs"
      "hn_key (nvec m ! x) = k" "load_slot m p = Some x" "x < length (nvec m)"
      "\<forall>y\<in>set ys. hn_key (nvec m ! y) \<noteq> k" by metis
  have "map_of (pairs (nvec m) ys) k = None" using x(5) by (auto simp: map_of_eq_None_iff)
  then have "map_of (pairs (nvec m) (C (bucket m k))) k = Some (hn_val (nvec m ! x))"
    using x(1,2) by (simp add: map_add_def)
  then show ?thesis using f x(3,4) by (simp add: map_get_def hm_obj_def rd_def)
qed

lemma hm_lookup_rel: "hm_rel m C F \<Longrightarrow> hm_lookup m k = map_of (pairs (nvec m) (C (bucket m k))) k"
  by (simp add: hm_lookup_def map_get_rel)

section \<open>The operations keep the invariant\<close>

lemma ref_set_rel:
  assumes "hm_rel m C F" "hm_find m k = Some (Some p)"
  shows "\<exists>m'. hm_ref_set m p v = Some m' \<and> hm_rel m' C F \<and> (hm_cover m C F \<longrightarrow> hm_cover m' C F) \<and>
    hm_lookup m' = (hm_lookup m)(k \<mapsto> v) \<and> nval m' = nval m"
proof -
  obtain ys x zs where x: "C (bucket m k) = ys @ x # zs" "hn_key (nvec m ! x) = k" "load_slot m p = Some x"
      "x < length (nvec m)" "\<forall>y\<in>set ys. hn_key (nvec m ! y) \<noteq> k"
    using slot_points [OF assms] by metis
  let ?nv = "(nvec m)[x := (nvec m ! x)\<lparr>hn_val := v\<rparr>]"
  let ?m = "m\<lparr>nvec := ?nv\<rparr>"
  have key: "hn_key (?nv ! y) = hn_key (nvec m ! y)" for y
    using x(4) by (cases "x = y") auto
  have ch: "chain ?nv i xs" if "chain (nvec m) i xs" for i xs
    using that by (rule chain_update_nxt) simp
  have rel: "hm_rel ?m C F"
    using assms(1) ch unfolding hm_rel_def by (simp add: key)
  have b: "bucket m k < length (htab m)" using hm_relD(1) [OF assms(1)] by simp
  have "hm_lookup ?m k' = ((hm_lookup m)(k \<mapsto> v)) k'" for k'
  proof (cases "k' = k")
    case True
    have "map_of (pairs ?nv ys) k = None" using x(5) by (auto simp: map_of_eq_None_iff key)
    then show ?thesis using True x by (simp add: hm_lookup_rel [OF rel] map_add_def)
  next
    case False
    have "map_of (pairs ?nv xs) k' = map_of (pairs (nvec m) xs) k'" for xs
    proof (induction xs)
      case (Cons a xs)
      then show ?case using False x(2,4) by (cases "a = x") auto
    qed simp
    then show ?thesis using False by (simp add: hm_lookup_rel [OF rel] hm_lookup_rel [OF assms(1)])
  qed
  then have "hm_lookup ?m = (hm_lookup m)(k \<mapsto> v)" by blast
  moreover have "hm_ref_set m p v = Some ?m" using x(3,4) by (simp add: hm_ref_set_def rd_def wr_def)
  moreover have "hm_cover m C F \<longrightarrow> hm_cover ?m C F" by (simp add: hm_cover_def)
  ultimately show ?thesis using rel by auto
qed

text \<open>Adding a node at the head of a bucket, whether it comes from the free list or from the end of
  the vector: \<open>m0\<close> is the map after the node \<open>res\<close> has been taken.\<close>

lemma link_rel:
  assumes rel: "hm_rel m0 C F" and k: "hm_lookup m0 k = None"
    and res: "0 < res" "res < length (nvec m0)" "res \<notin> set F" "\<forall>i < length (htab m0). res \<notin> set (C i)"
  defines "b \<equiv> bucket m0 k"
  defines "m1 \<equiv> m0\<lparr>htab := (htab m0)[b := res],
      nvec := (nvec m0)[res := (nvec m0 ! res)\<lparr>hn_nxt := htab m0 ! b, hn_key := k\<rparr>], nval := nval m0 + 1\<rparr>"
  shows "hm_rel m1 (C(b := res # C b)) F" "hm_find m1 k = Some (Some (Htab b))"
    "\<And>k'. k' \<noteq> k \<Longrightarrow> hm_lookup m1 k' = hm_lookup m0 k'"
proof -
  note R = hm_relD [OF rel]
  have b: "b < length (htab m0)" using R(1) by (simp add: b_def)
  let ?nv = "(nvec m0)[res := (nvec m0 ! res)\<lparr>hn_nxt := htab m0 ! b, hn_key := k\<rparr>]"
  have old: "?nv ! x = nvec m0 ! x" if "x \<noteq> res" for x using that by simp
  have neq: "x \<noteq> res" if "i < length (htab m0)" "x \<in> set (C i)" for i x using res(4) that by auto
  have keys: "map (\<lambda>x. hn_key (?nv ! x)) (C i) = map (\<lambda>x. hn_key (nvec m0 ! x)) (C i)"
    if "i < length (htab m0)" for i
    by (rule map_cong [OF refl]) (simp only: old [OF neq [OF that]])
  have fresh: "\<forall>x\<in>set (C b). hn_key (nvec m0 ! x) \<noteq> k"
    using k b by (auto simp: hm_lookup_rel [OF rel] map_of_eq_None_iff b_def image_image)
  have ch: "chain ?nv (htab m0 ! i) (C i)" if "i < length (htab m0)" for i
    using R(6) [OF that] res(4) that by (intro chain_update) auto
  have dk: "distinct (map (\<lambda>x. hn_key (?nv ! x)) (res # C b))"
    unfolding list.map keys [OF b] using R(9) [OF b] fresh res(2) by auto
  have cb: "chain ?nv res (res # C b)" using ch [OF b] res(1,2) by simp
  have cF: "chain ?nv (rhd m0) F" using R(3) res(3) by (rule chain_update)
  have sum: "(\<Sum>i < length (htab m0). length ((C(b := res # C b)) i)) = nval m0 + 1"
  proof -
    have "(\<Sum>i < length (htab m0). length ((C(b := res # C b)) i)) =
        (\<Sum>i < length (htab m0). length (C i) + (if i = b then 1 else 0))"
      by (rule sum.cong) auto
    then show ?thesis using b R(5) by (simp add: sum.distrib)
  qed
  have sel: "htab m1 = (htab m0)[b := res]" "nvec m1 = ?nv" "rhd m1 = rhd m0" "nval m1 = nval m0 + 1" "hfn m1 = hfn m0"
    by (simp_all add: m1_def)
  show 1: "hm_rel m1 (C(b := res # C b)) F"
  proof (rule hm_relI; (unfold sel length_list_update)?)
    show "nval m0 + 1 = (\<Sum>i < length (htab m0). length ((C(b := res # C b)) i))" using sum by simp
    fix i assume i: "i < length (htab m0)"
    show "chain ?nv ((htab m0)[b := res] ! i) ((C(b := res # C b)) i)" using cb ch i by auto
    show "distinct ((C(b := res # C b)) i)" using R(7) i res(4) b by auto
    show "set ((C(b := res # C b)) i) \<inter> set F = {}" using R(8) i b res(3) by auto
    show "distinct (map (\<lambda>x. hn_key (?nv ! x)) ((C(b := res # C b)) i))"
    proof (cases "i = b")
      case True
      then show ?thesis using dk by (simp only: fun_upd_same)
    next
      case False
      then have "(C(b := res # C b)) i = C i" by simp
      then show ?thesis by (simp only: keys [OF i] R(9) [OF i])
    qed
    show "hfn m0 (hn_key (?nv ! x)) mod length (htab m0) = i" if "x \<in> set ((C(b := res # C b)) i)" for x
    proof (cases "x = res")
      case True
      then have "i = b" using that i res(4) by (auto split: if_splits)
      then show ?thesis using True res(2) by (simp add: b_def)
    next
      case False
      then have "x \<in> set (C i)" using that by (auto split: if_splits)
      then show ?thesis using R(10) [OF i] False by simp
    qed
    show "set ((C(b := res # C b)) i) \<inter> set ((C(b := res # C b)) j) = {}" if "j < length (htab m0)" "i \<noteq> j" for j
      using R(11) [OF i that] res(4) i that by auto
  qed (use R(1,2,4) cF in auto)
  show "hm_find m1 k = Some (Some (Htab b))"
    using res(2) by (simp add: hm_find_rel [OF 1], simp add: m1_def b_def)
  fix k' assume k': "k' \<noteq> k"
  have p: "pairs ?nv (C i) = pairs (nvec m0) (C i)" if "i < length (htab m0)" for i
    by (rule map_cong [OF refl]) (simp only: old [OF neq [OF that]])
  have b': "bucket m0 k' < length (htab m0)" using R(1) by simp
  have "map_of (pairs ?nv ((C(b := res # C b)) (bucket m0 k'))) k' = map_of (pairs (nvec m0) (C (bucket m0 k'))) k'"
  proof (cases "bucket m0 k' = b")
    case True
    have "map_of (pairs ?nv (res # C b)) k' = map_of (pairs ?nv (C b)) k'" using k' res(2) by simp
    then show ?thesis by (simp only: True fun_upd_same p [OF b])
  next
    case False
    then have "(C(b := res # C b)) (bucket m0 k') = C (bucket m0 k')" by simp
    then show ?thesis by (simp only: p [OF b'])
  qed
  then show "hm_lookup m1 k' = hm_lookup m0 k'"
    unfolding hm_lookup_rel [OF 1] hm_lookup_rel [OF rel] sel length_list_update .
qed

text \<open>Taking a node for a new entry: from the free list, or a new one at the end of the vector.\<close>

lemma take_free_rel:
  assumes "hm_rel m C (x # F)"
  shows "hm_rel (m\<lparr>rhd := hn_nxt (nvec m ! x)\<rparr>) C F"
  by (rule hm_relI) (use hm_relD [OF assms] in auto)

lemma take_new_rel:
  assumes "hm_rel m C F"
  shows "hm_rel (m\<lparr>nvec := nvec m @ [nd0]\<rparr>) C F"
proof -
  note R = hm_relD [OF assms]
  have old: "(nvec m @ [nd0]) ! x = nvec m ! x" if "x < length (nvec m)" for x using that by (simp add: nth_append)
  have ch: "chain (nvec m @ [nd0]) i xs" if "chain (nvec m) i xs" for i xs
    using that by (rule chain_cong) (use chain_set [OF that] old in auto)
  have lt: "x < length (nvec m)" if "i < length (htab m)" "x \<in> set (C i)" for i x
    using chain_set [OF R(6) [OF that(1)] that(2)] by simp
  have keys: "map (\<lambda>x. hn_key ((nvec m @ [nd0]) ! x)) (C i) = map (\<lambda>x. hn_key (nvec m ! x)) (C i)"
    if "i < length (htab m)" for i
    by (rule map_cong [OF refl]) (simp only: old [OF lt [OF that]])
  show ?thesis
  proof (rule hm_relI; simp?)
    fix i assume i: "i < length (htab m)"
    show "distinct (map (\<lambda>x. hn_key ((nvec m @ [nd0]) ! x)) (C i))" using R(9) [OF i] by (simp only: keys [OF i])
    show "bucket m (hn_key ((nvec m @ [nd0]) ! x)) = i" if "x \<in> set (C i)" for x
      using R(10) [OF i that] by (simp only: old [OF lt [OF i that]])
  qed (use R ch in auto)
qed

lemma take_new_lookup:
  assumes "hm_rel m C F"
  shows "hm_lookup (m\<lparr>nvec := nvec m @ [nd0]\<rparr>) k = hm_lookup m k"
proof -
  have b: "bucket m k < length (htab m)" using hm_relD(1) [OF assms] by simp
  have "(nvec m @ [nd0]) ! x = nvec m ! x" if "x \<in> set (C (bucket m k))" for x
    using chain_set [OF hm_relD(6) [OF assms b] that] by (simp add: nth_append)
  then have "pairs (nvec m @ [nd0]) (C (bucket m k)) = pairs (nvec m) (C (bucket m k))"
    by (intro map_cong [OF refl]) simp
  then show ?thesis
    by (simp add: hm_lookup_rel [OF take_new_rel [OF assms]] hm_lookup_rel [OF assms] del: map_eq_conv)
qed

lemma find_lookup:
  assumes "hm_rel m C F"
  shows "hm_find m k = Some None \<longleftrightarrow> hm_lookup m k = None"
  by (auto simp: hm_find_rel [OF assms] slot_of_None hm_lookup_rel [OF assms] map_of_eq_None_iff image_image)

lemma hm_add_rel:
  assumes "hm_inv m" "hm_lookup m k = None" "nval m < HM_ROOM"
  shows "\<exists>m' p. hm_add nd0 m k = Some (m', p) \<and> hm_inv m' \<and> hm_find m' k = Some (Some p) \<and>
    (\<forall>k'. k' \<noteq> k \<longrightarrow> hm_lookup m' k' = hm_lookup m k') \<and> nval m' = nval m + 1"
proof -
  from assms(1) obtain C F where rel: "hm_rel m C F" and cov: "hm_cover m C F" by (auto simp: hm_inv_def)
  note R = hm_relD [OF rel]
  note N = hm_nodes [OF rel cov]
  have b: "bucket m k < length (htab m)" using R(1) by simp
  show ?thesis
  proof (cases F)
    case Nil
    let ?m0 = "m\<lparr>nvec := nvec m @ [nd0]\<rparr>" and ?res = "length (nvec m)"
    have rel0: "hm_rel ?m0 C F" by (rule take_new_rel [OF rel])
    have 1: "rhd m = 0" using R(3) Nil by simp
    have 2: "hm_lookup ?m0 k = None" using assms(2) by (simp add: take_new_lookup [OF rel])
    have 3: "0 < ?res" "?res < length (nvec ?m0)" "?res \<notin> set F" using R(2) Nil by auto
    have 4: "\<forall>i < length (htab ?m0). ?res \<notin> set (C i)"
      using chain_set [OF R(6), of _ ?res] by auto
    note L = link_rel [OF rel0 2 3 4]
    let ?m1 = "?m0\<lparr>htab := (htab ?m0)[bucket ?m0 k := ?res],
      nvec := (nvec ?m0)[?res := (nvec ?m0 ! ?res)\<lparr>hn_nxt := htab ?m0 ! bucket ?m0 k, hn_key := k\<rparr>], nval := nval ?m0 + 1\<rparr>"
    have small: "?res < 2 ^ 32 - 1" using N(2) assms(3) Nil by (simp add: HM_ROOM_def)
    have idx: "?res mod 2 ^ 32 = ?res" "nv_resize ((1 + ?res mod 2 ^ 32) mod 2 ^ 32) nd0 (nvec m) = nvec m @ [nd0]"
      using small by (simp_all add: nv_resize_def)
    have "{1..<length (nvec ?m1)} \<subseteq> insert ?res {1..<length (nvec m)}" by auto
    also have "\<dots> \<subseteq> set F \<union> (\<Union>i < length (htab m). set ((C(bucket m k := ?res # C (bucket m k))) i))"
      using b unfolding N(1) by (auto split: if_splits)
    finally have cov1: "hm_cover ?m1 (C(bucket m k := ?res # C (bucket m k))) F" by (simp add: hm_cover_def)
    have inv1: "hm_inv ?m1" using L(1) cov1 unfolding hm_inv_def by auto
    have "hm_add nd0 m k = Some (?m1, Htab (bucket m k))"
      using b 1 idx R(2) by (simp add: hm_add_def rd_def wr_def Let_def)
    then show ?thesis
      using L(2) L(3) inv1 by (auto simp: take_new_lookup [OF rel])
  next
    case (Cons x F')
    let ?m0 = "m\<lparr>rhd := hn_nxt (nvec m ! x)\<rparr>"
    have rel0: "hm_rel ?m0 C F'" by (rule take_free_rel [OF rel [unfolded Cons]])
    have same: "hm_lookup ?m0 k' = hm_lookup m k'" for k'
      by (simp add: hm_lookup_rel [OF rel0] hm_lookup_rel [OF rel])
    have 1: "rhd m = x" "x < length (nvec m)" using R(3) Cons by auto
    have 2: "hm_lookup ?m0 k = None" using assms(2) by (simp add: same)
    have 3: "0 < x" "x < length (nvec ?m0)" "x \<notin> set F'" using R(3,4) Cons by auto
    have 4: "\<forall>i < length (htab ?m0). x \<notin> set (C i)" using R(8) Cons by auto
    note L = link_rel [OF rel0 2 3 4]
    let ?m1 = "?m0\<lparr>htab := (htab ?m0)[bucket ?m0 k := x],
      nvec := (nvec ?m0)[x := (nvec ?m0 ! x)\<lparr>hn_nxt := htab ?m0 ! bucket ?m0 k, hn_key := k\<rparr>], nval := nval ?m0 + 1\<rparr>"
    have "{1..<length (nvec m)} \<subseteq> set F' \<union> (\<Union>i < length (htab m). set ((C(bucket m k := x # C (bucket m k))) i))"
      using b Cons unfolding N(1) by (auto split: if_splits)
    then have cov1: "hm_cover ?m1 (C(bucket m k := x # C (bucket m k))) F'" by (simp add: hm_cover_def)
    have inv1: "hm_inv ?m1" using L(1) cov1 unfolding hm_inv_def by auto
    have "hm_add nd0 m k = Some (?m1, Htab (bucket m k))"
      using b 1 3(1) by (simp add: hm_add_def rd_def wr_def Let_def)
    then show ?thesis
      using L(2) L(3) inv1 by (auto simp: same)
  qed
qed

text \<open>Deleting: the node leaves its bucket and becomes the head of the free list.  \<open>unlink\<close> is the
  node vector after the two writes.\<close>

definition unlink :: "('k, 'v) node list \<Rightarrow> nat list \<Rightarrow> nat \<Rightarrow> nat \<Rightarrow> ('k, 'v) node list" where
  "unlink nv ys x r =
     (if ys = [] then nv else nv[last ys := (nv ! last ys)\<lparr>hn_nxt := hn_nxt (nv ! x)\<rparr>])[x := (nv ! x)\<lparr>hn_nxt := r\<rparr>]"

lemma unlink_same:
  assumes "x < length nv" "ys \<noteq> [] \<Longrightarrow> last ys < length nv" "ys \<noteq> [] \<Longrightarrow> last ys \<noteq> x"
  shows "length (unlink nv ys x r) = length nv" "hn_key (unlink nv ys x r ! y) = hn_key (nv ! y)"
    "hn_val (unlink nv ys x r ! y) = hn_val (nv ! y)" "hn_nxt (unlink nv ys x r ! x) = r"
  using assms by (cases "x = y"; cases "last ys = y"; cases "ys = []"; force simp: unlink_def)+

lemma unlink_chain_other:
  "chain nv i xs \<Longrightarrow> x \<notin> set xs \<Longrightarrow> (ys \<noteq> [] \<Longrightarrow> last ys \<notin> set xs) \<Longrightarrow> chain (unlink nv ys x r) i xs"
  by (auto simp: unlink_def intro!: chain_update)

lemma unlink_chain_self:
  assumes "chain nv i (ys @ x # zs)" "distinct (ys @ x # zs)"
  shows "chain (unlink nv ys x r) (if ys = [] then hn_nxt (nv ! x) else i) (ys @ zs)"
proof (cases "ys = []")
  case True
  then show ?thesis using assms by (auto simp: unlink_def intro!: chain_update)
next
  case False
  then show ?thesis using chain_unlink [OF assms(1) False assms(2)] assms(2)
    by (auto simp: unlink_def intro!: chain_update)
qed

lemma hm_del_eq:
  assumes "load_slot m p = Some x" "x < length (nvec m)" "b < length (htab m)"
    "p = (if ys = [] then Htab b else Nxt (last ys))" "ys \<noteq> [] \<Longrightarrow> last ys < length (nvec m) \<and> last ys \<noteq> x"
  shows "hm_del m p = Some (m\<lparr>htab := (if ys = [] then (htab m)[b := hn_nxt (nvec m ! x)] else htab m),
      nvec := unlink (nvec m) ys x (rhd m), rhd := x, nval := nval m - 1\<rparr>)"
  using assms by (cases "ys = []") (auto simp: hm_del_def rd_def wr_def unlink_def)

lemma hm_del_rel:
  assumes rel: "hm_rel m C F" and cov: "hm_cover m C F" and find: "hm_find m k = Some (Some p)"
  shows "\<exists>m'. hm_del m p = Some m' \<and> hm_inv m' \<and> hm_lookup m' = (hm_lookup m)(k := None) \<and> nval m' = nval m - 1"
proof -
  note R = hm_relD [OF rel]
  let ?b = "bucket m k"
  obtain ys x zs where x: "C ?b = ys @ x # zs" "hn_key (nvec m ! x) = k" "load_slot m p = Some x"
      "p = (if ys = [] then Htab ?b else Nxt (last ys))" "0 < x" "x < length (nvec m)"
    using slot_points [OF rel find] by metis
  have b: "?b < length (htab m)" using R(1) by simp
  have dist: "distinct (ys @ x # zs)" using R(7) [OF b] x(1) by simp
  have ly: "last ys < length (nvec m) \<and> last ys \<noteq> x" if "ys \<noteq> []"
    using that chain_set [OF R(6) [OF b], of "last ys"] dist x(1) by auto
  let ?nv = "unlink (nvec m) ys x (rhd m)"
  let ?m = "m\<lparr>htab := (if ys = [] then (htab m)[?b := hn_nxt (nvec m ! x)] else htab m),
      nvec := ?nv, rhd := x, nval := nval m - 1\<rparr>"
  have del: "hm_del m p = Some ?m" by (rule hm_del_eq [OF x(3,6) b x(4) ly])
  note same = unlink_same [OF x(6), of ys, OF ly [THEN conjunct1] ly [THEN conjunct2]]
  have in_b: "x \<in> set (C ?b)" "ys \<noteq> [] \<Longrightarrow> last ys \<in> set (C ?b)" using x(1) by auto
  have sub: "set ((C(?b := ys @ zs)) i) \<subseteq> set (C i)" for i using x(1) by auto
  have rel': "hm_rel ?m (C(?b := ys @ zs)) (x # F)"
  proof (rule hm_relI)
    have "chain ?nv (rhd m) F"
      using R(3) R(8) [OF b] in_b by (intro unlink_chain_other) auto
    then show "chain (nvec ?m) (rhd ?m) (x # F)" using x(5,6) same by simp
    show "distinct (x # F)" using R(4) R(8) [OF b] in_b by auto
    have "(\<Sum>i < length (htab m). length (C i)) =
        (\<Sum>i < length (htab m). length ((C(?b := ys @ zs)) i) + (if i = ?b then 1 else 0))"
      using x(1) by (intro sum.cong) auto
    then show "nval ?m = (\<Sum>i < length (htab ?m). length ((C(?b := ys @ zs)) i))"
      using b R(5) by (simp add: sum.distrib)
    fix i assume "i < length (htab ?m)"
    then have i: "i < length (htab m)" by (simp split: if_splits)
    show "chain (nvec ?m) (htab ?m ! i) ((C(?b := ys @ zs)) i)"
    proof (cases "i = ?b")
      case True
      then show ?thesis using unlink_chain_self [OF R(6) [OF b, unfolded x(1)] dist, of "rhd m"] b
        by (cases "ys = []") auto
    next
      case False
      then have "x \<notin> set (C i)" "ys \<noteq> [] \<Longrightarrow> last ys \<notin> set (C i)" using R(11) [OF i b False] in_b by auto
      then have "chain ?nv (htab m ! i) (C i)" using unlink_chain_other [OF R(6) [OF i]] by auto
      then show ?thesis using False by (cases "ys = []") auto
    qed
    show "distinct ((C(?b := ys @ zs)) i)" using R(7) [OF i] dist by simp
    show "set ((C(?b := ys @ zs)) i) \<inter> set (x # F) = {}"
      using sub [of i] R(8) [OF i] R(11) [OF i b] in_b(1) dist by (cases "i = ?b") auto
    show "distinct (map (\<lambda>x. hn_key (nvec ?m ! x)) ((C(?b := ys @ zs)) i))"
      using R(9) [OF i] x(1) by (cases "i = ?b") (simp_all add: same)
    show "bucket ?m (hn_key (nvec ?m ! y)) = i" if "y \<in> set ((C(?b := ys @ zs)) i)" for y
      using R(10) [OF i] that sub [of i] by (auto simp: same)
    show "set ((C(?b := ys @ zs)) i) \<inter> set ((C(?b := ys @ zs)) j) = {}" if "j < length (htab ?m)" "i \<noteq> j" for j
    proof -
      have "j < length (htab m)" using that(1) by (simp split: if_splits)
      then show ?thesis using R(11) [OF i _ that(2), of] sub [of i] sub [of j] by blast
    qed
  qed (use R(1,2) same in \<open>auto simp flip: length_greater_0_conv\<close>)
  have "{1..<length (nvec ?m)} \<subseteq> set (x # F) \<union> (\<Union>i < length (htab m). set ((C(?b := ys @ zs)) i))"
  proof
    fix y assume "y \<in> {1..<length (nvec ?m)}"
    then have "y \<in> {1..<length (nvec m)}" using same(1) by simp
    then consider "y \<in> set F" | i where "i < length (htab m)" "y \<in> set (C i)"
      unfolding hm_nodes(1) [OF rel cov] by blast
    then show "y \<in> set (x # F) \<union> (\<Union>i < length (htab m). set ((C(?b := ys @ zs)) i))"
    proof cases
      case (2 i)
      then have "y = x \<or> y \<in> set ((C(?b := ys @ zs)) i)" using x(1) by auto
      moreover have "i \<in> {..<length (htab m)}" using 2(1) by simp
      ultimately show ?thesis by (metis UN_I Un_iff list.set_intros(1))
    qed simp
  qed
  moreover have "length (htab ?m) = length (htab m)" by simp
  ultimately have cov': "hm_cover ?m (C(?b := ys @ zs)) (x # F)" unfolding hm_cover_def by metis
  define m' where "m' = ?m"
  have sel: "nvec m' = ?nv" "hfn m' = hfn m" "length (htab m') = length (htab m)" by (simp_all add: m'_def)
  note look = hm_lookup_rel [OF rel' [folded m'_def], unfolded sel]
  have "hm_lookup m' k' = ((hm_lookup m)(k := None)) k'" for k'
  proof (cases "k' = k")
    case True
    have "k \<notin> (\<lambda>y. hn_key (nvec m ! y)) ` set (ys @ zs)" using R(9) [OF b] x(1,2) by auto
    then have "map_of (pairs (nvec m) (ys @ zs)) k = None"
      by (simp add: map_of_eq_None_iff image_image del: map_append)
    then show ?thesis using True by (simp add: look same del: map_append)
  next
    case False
    then have "map_of (pairs (nvec m) (ys @ zs)) k' = map_of (pairs (nvec m) (ys @ x # zs)) k'"
      using x(2) by (simp add: map_add_def split: option.split)
    then show ?thesis using False x(1)
      by (simp add: look same hm_lookup_rel [OF rel] del: map_append)
  qed
  then have "hm_lookup m' = (hm_lookup m)(k := None)" by blast
  moreover have "hm_del m p = Some m'" "nval m' = nval m - 1" using del by (simp_all add: m'_def)
  ultimately show ?thesis using rel' [folded m'_def] cov' [folded m'_def] by (auto simp: hm_inv_def)
qed

section \<open>The interface\<close>

text \<open>What the client assumes of a map: every operation succeeds on a state that satisfies the
  invariant, an insertion if the size is below the capacity, keeps the invariant, and acts on the
  represented map like the corresponding map update; the size is the number of keys.\<close>

fun updates :: "('k \<Rightarrow> 'v \<Rightarrow> 'm \<Rightarrow> 'm option) \<Rightarrow> ('k \<Rightarrow> 'm \<Rightarrow> 'm option) \<Rightarrow>
    ('k \<times> 'v option) list \<Rightarrow> 'm \<Rightarrow> 'm option" where
  "updates put rem [] m = Some m"
| "updates put rem ((k, Some v) # us) m = Option.bind (put k v m) (updates put rem us)"
| "updates put rem ((k, None) # us) m = Option.bind (rem k m) (updates put rem us)"

locale finite_map =
  fixes inv :: "'m \<Rightarrow> bool" and lookup :: "'m \<Rightarrow> 'k \<Rightarrow> 'v option"
    and get :: "'m \<Rightarrow> 'k \<Rightarrow> 'v option option" and put :: "'k \<Rightarrow> 'v \<Rightarrow> 'm \<Rightarrow> 'm option"
    and rem :: "'k \<Rightarrow> 'm \<Rightarrow> 'm option" and count :: "'m \<Rightarrow> nat" and room :: nat
  assumes get_lookup: "inv m \<Longrightarrow> get m k = Some (lookup m k)"
    and put_ok: "inv m \<Longrightarrow> count m < room \<Longrightarrow> \<exists>m'. put k v m = Some m' \<and> inv m' \<and> lookup m' = (lookup m)(k \<mapsto> v) \<and>
        count m' = (if lookup m k = None then count m + 1 else count m)"
    and rem_ok: "inv m \<Longrightarrow> \<exists>m'. rem k m = Some m' \<and> inv m' \<and> lookup m' = (lookup m)(k := None) \<and>
        count m' = (if lookup m k = None then count m else count m - 1)"
begin

lemma get_put: "inv m \<Longrightarrow> count m < room \<Longrightarrow> put k v m = Some m' \<Longrightarrow> get m' k' = Some (if k' = k then Some v else lookup m k')"
  using put_ok [of m k v] get_lookup [of m'] by auto

lemma get_rem: "inv m \<Longrightarrow> rem k m = Some m' \<Longrightarrow> get m' k' = Some (if k' = k then None else lookup m k')"
  using rem_ok [of m k] get_lookup [of m'] by auto

lemma put_inv: "inv m \<Longrightarrow> count m < room \<Longrightarrow> put k v m = Some m' \<Longrightarrow> inv m'"
  using put_ok [of m k v] by auto

lemma rem_inv: "inv m \<Longrightarrow> rem k m = Some m' \<Longrightarrow> inv m'"
  using rem_ok [of m k] by auto

text \<open>A sequence of updates that fits from any good state succeeds and leaves the composed map.\<close>

lemma updates_ok:
  "inv m \<Longrightarrow> count m + length us \<le> room \<Longrightarrow> \<exists>m'. updates put rem us m = Some m' \<and> inv m' \<and>
     lookup m' = foldl (\<lambda>f (k, v). f(k := v)) (lookup m) us"
proof (induction us arbitrary: m)
  case (Cons u us)
  obtain k w where u: "u = (k, w)" by fastforce
  obtain m1 where "(case w of Some v \<Rightarrow> put k v m | None \<Rightarrow> rem k m) = Some m1" "inv m1"
      "lookup m1 = (lookup m)(k := w)" "count m1 \<le> count m + 1"
  proof (cases w)
    case None
    then show thesis using rem_ok [OF Cons.prems(1), of k] that by (force split: if_splits)
  next
    case (Some v)
    have "count m < room" using Cons.prems(2) by simp
    from put_ok [OF Cons.prems(1) this, of k v] show thesis using Some that by (force split: if_splits)
  qed
  then show ?case using Cons.IH [of m1] Cons.prems(2) u by (cases w) auto
qed simp

end

lemma map_put_ok:
  assumes "hm_inv m" "hm_size m < HM_ROOM"
  shows "\<exists>m'. map_put nd0 k v m = Some m' \<and> hm_inv m' \<and> hm_lookup m' = (hm_lookup m)(k \<mapsto> v) \<and>
    hm_size m' = (if hm_lookup m k = None then hm_size m + 1 else hm_size m)"
proof -
  from assms obtain C F where rel: "hm_rel m C F" and cov: "hm_cover m C F" by (auto simp: hm_inv_def)
  show ?thesis
  proof (cases "hm_lookup m k")
    case None
    then have f: "hm_find m k = Some None" using find_lookup [OF rel] by simp
    obtain m1 p where m1: "hm_add nd0 m k = Some (m1, p)" "hm_inv m1" "hm_find m1 k = Some (Some p)"
        "\<forall>k'. k' \<noteq> k \<longrightarrow> hm_lookup m1 k' = hm_lookup m k'" "nval m1 = nval m + 1"
      using hm_add_rel [OF assms(1) None assms(2) [unfolded hm_size_def]] by blast
    obtain C1 F1 where r1: "hm_rel m1 C1 F1" "hm_cover m1 C1 F1" using m1(2) by (auto simp: hm_inv_def)
    from ref_set_rel [OF r1(1) m1(3), of v] r1(2) obtain m2 where
      m2: "hm_ref_set m1 p v = Some m2" "hm_inv m2" "hm_lookup m2 = (hm_lookup m1)(k \<mapsto> v)" "nval m2 = nval m1"
      by (auto simp: hm_inv_def)
    moreover have "hm_lookup m2 = (hm_lookup m)(k \<mapsto> v)" using m1(4) m2(3) by fastforce
    ultimately show ?thesis using f m1(1,5) None by (auto simp: map_put_def hm_size_def)
  next
    case (Some w)
    then obtain p where "hm_find m k = Some (Some p)"
      using find_lookup [OF rel, of k] hm_find_rel [OF rel, of k] by (cases "hm_find m k") fastforce+
    then show ?thesis using ref_set_rel [OF rel, of k p v] cov Some by (auto simp: map_put_def hm_inv_def hm_size_def)
  qed
qed

lemma map_remove_ok:
  assumes "hm_inv m"
  shows "\<exists>m'. map_remove k m = Some m' \<and> hm_inv m' \<and> hm_lookup m' = (hm_lookup m)(k := None) \<and>
    hm_size m' = (if hm_lookup m k = None then hm_size m else hm_size m - 1)"
proof -
  from assms obtain C F where rel: "hm_rel m C F" and cov: "hm_cover m C F" by (auto simp: hm_inv_def)
  show ?thesis
  proof (cases "hm_lookup m k")
    case None
    moreover have "(hm_lookup m)(k := None) = hm_lookup m" using None by auto
    ultimately show ?thesis using find_lookup [OF rel, of k] assms by (simp add: map_remove_def)
  next
    case (Some w)
    then obtain p where "hm_find m k = Some (Some p)"
      using find_lookup [OF rel, of k] hm_find_rel [OF rel, of k] by (cases "hm_find m k") fastforce+
    then show ?thesis using hm_del_rel [OF rel cov, of k p] Some by (auto simp: map_remove_def hm_size_def)
  qed
qed

lemma map_get_ok: "hm_inv m \<Longrightarrow> map_get m k = Some (hm_lookup m k)"
  by (auto simp: hm_inv_def map_get_rel hm_lookup_rel)

interpretation hmap: finite_map hm_inv hm_lookup map_get "map_put nd0" map_remove hm_size HM_ROOM
  by unfold_locales (simp_all add: map_get_ok map_put_ok map_remove_ok)

lemma hash_map_new_inv: "0 < hsize \<Longrightarrow> hm_rel (hash_map_new nd0 hsize h) (\<lambda>_. []) []"
  by (rule hm_relI) (auto simp: hash_map_new_def)

lemma hm_clear_inv: "hm_inv m \<Longrightarrow> hm_rel (hm_clear m) (\<lambda>_. []) []"
  by (rule hm_relI) (auto simp: hm_clear_def hm_inv_def hm_rel_def)

lemma empty_cover:
  "hm_cover (hash_map_new nd0 hsize h) (\<lambda>_. []) []" "hm_cover (hm_clear m) (\<lambda>_. []) []"
  by (auto simp: hm_cover_def hash_map_new_def hm_clear_def)

lemma hash_map_new_hm_inv: "0 < hsize \<Longrightarrow> hm_inv (hash_map_new nd0 hsize h)"
  using hash_map_new_inv empty_cover unfolding hm_inv_def by blast

lemma empty_lookup: "hm_rel m (\<lambda>_. []) F \<Longrightarrow> hm_lookup m = (\<lambda>_. None)"
  by (auto simp: hm_lookup_rel)

section \<open>Properties\<close>

text \<open>
  (C3) Starting from a new map or a cleared one, any sequence of at most 2^32 - 2
  assignments (\<open>find\<close>, \<open>add\<close> when absent, write through \<open>ref\<close>) and deletions (\<open>find\<close>, \<open>del\<close> when present)
  succeeds without leaving the node vector and without looping, and afterwards \<open>find\<close> and \<open>obj\<close> give for
  every key exactly what the same updates of a mathematical map give.  No node is lost or shared: the
  chains of the buckets and the free list together have every index of the vector above 0 exactly once
  (the lists are disjoint and without repetition by \<open>hm_rel\<close>), and the size is the number of keys.  The
  bound is the width of an index.
\<close>

theorem hash_map_sequence:
  assumes "0 < hsize" "m0 = hash_map_new nd0 hsize h \<or> (\<exists>m. hm_inv m \<and> m0 = hm_clear m)"
    and "length us \<le> 2 ^ 32 - 2"
  shows "\<exists>m C F. updates (map_put nd0) map_remove us m0 = Some m \<and>
    hm_rel m C F \<and> {1..<length (nvec m)} = set F \<union> (\<Union>i < length (htab m). set (C i)) \<and>
    length (nvec m) = 1 + hm_size m + length F \<and>
    (\<forall>k. map_get m k = Some (foldl (\<lambda>f (k, v). f(k := v)) (\<lambda>_. None) us k))"
proof -
  have rel: "hm_rel m0 (\<lambda>_. []) []" using assms hash_map_new_inv hm_clear_inv by auto
  have "hm_cover m0 (\<lambda>_. []) []" using assms(2) empty_cover by auto
  then have "hm_inv m0" using rel unfolding hm_inv_def by blast
  moreover have "hm_size m0 + length us \<le> HM_ROOM"
    using assms(3) hm_relD(5) [OF rel] by (simp add: hm_size_def HM_ROOM_def)
  ultimately obtain m where m: "updates (map_put nd0) map_remove us m0 = Some m" "hm_inv m"
      "hm_lookup m = foldl (\<lambda>f (k, v). f(k := v)) (hm_lookup m0) us"
    using hmap.updates_ok by blast
  obtain C F where "hm_rel m C F" "hm_cover m C F" using m(2) by (auto simp: hm_inv_def)
  with hm_nodes [OF this] m show ?thesis
    by (intro exI [of _ m] exI [of _ C] exI [of _ F]) (simp add: map_get_ok empty_lookup [OF rel] hm_size_def)
qed

theorem hash_map_sequence_witness:
  "\<exists>m. updates (map_put \<lparr>hn_nxt = 0, hn_key = 0, hn_val = 0\<rparr>) map_remove [(3 :: nat, Some 7), (19, Some (8 :: nat)), (3, None), (35, Some 9)]
     (hash_map_new \<lparr>hn_nxt = 0, hn_key = 0, hn_val = 0\<rparr> 16 (\<lambda>k. k)) = Some m \<and>
     map_get m 19 = Some (Some 8) \<and> map_get m 3 = Some None"
  using hash_map_sequence [of 16 "hash_map_new \<lparr>hn_nxt = 0, hn_key = 0, hn_val = 0\<rparr> 16 (\<lambda>k. k)"
      "\<lparr>hn_nxt = 0, hn_key = 0, hn_val = 0\<rparr>" "\<lambda>k. k" "[(3 :: nat, Some 7), (19, Some (8 :: nat)), (3, None), (35, Some 9)]"]
  by fastforce

end
