(* ===== verification/Dbl_List.thy ===== *)
theory Dbl_List
  imports Pyth_Prelude
begin

text \<open>
  The intrusive doubly linked list of the client, \<open>pc/dbl_list.hpp\<close>.  The nodes are objects of a
  heap, addressed by numbers; a null pointer is \<open>None\<close>.  A list object holds the head and tail
  pointers, the links live in the nodes.  The locale \<open>intrusive_list\<close> states what the owners of such
  lists (the connection lists of the servers) rely on, and is interpreted on the heap model.
\<close>

section \<open>Model\<close>

type_synonym addr = nat

record prev_next =
  prev_ptr :: "addr option"
  next_ptr :: "addr option"

type_synonym heap = "addr \<Rightarrow> prev_next"

record dbl_list =
  hd_ptr :: "addr option"
  tl_ptr :: "addr option"

definition set_next :: "addr \<Rightarrow> addr option \<Rightarrow> heap \<Rightarrow> heap" where
  "set_next a n h = h(a := (h a)\<lparr>next_ptr := n\<rparr>)"

definition set_prev :: "addr \<Rightarrow> addr option \<Rightarrow> heap \<Rightarrow> heap" where
  "set_prev a p h = h(a := (h a)\<lparr>prev_ptr := p\<rparr>)"

definition get_next :: "heap \<Rightarrow> addr \<Rightarrow> addr option" where
  "get_next h a = next_ptr (h a)"

definition get_prev :: "heap \<Rightarrow> addr \<Rightarrow> addr option" where
  "get_prev h a = prev_ptr (h a)"

definition dl_new :: dbl_list where
  "dl_new = \<lparr>hd_ptr = None, tl_ptr = None\<rparr>"

definition dl_clear :: "dbl_list \<Rightarrow> dbl_list" where
  "dl_clear l = l\<lparr>hd_ptr := None, tl_ptr := None\<rparr>"

definition dl_empty :: "dbl_list \<Rightarrow> bool" where
  "dl_empty l \<longleftrightarrow> hd_ptr l = None"

definition dl_first :: "dbl_list \<Rightarrow> addr option" where
  "dl_first l = hd_ptr l"

definition dl_last :: "dbl_list \<Rightarrow> addr option" where
  "dl_last l = tl_ptr l"

definition dl_add :: "addr \<Rightarrow> heap \<times> dbl_list \<Rightarrow> heap \<times> dbl_list" where
  "dl_add n = (\<lambda>(h, l).
     let h = set_prev n (tl_ptr l) h;
         h = set_next n None h;
         (h, l) = (case tl_ptr l of Some t \<Rightarrow> (set_next t (Some n) h, l) | None \<Rightarrow> (h, l\<lparr>hd_ptr := Some n\<rparr>))
     in (h, l\<lparr>tl_ptr := Some n\<rparr>))"

definition dl_del :: "addr \<Rightarrow> heap \<times> dbl_list \<Rightarrow> heap \<times> dbl_list" where
  "dl_del t = (\<lambda>(h, l).
     let p = get_prev h t;
         n = get_next h t;
         (h, l) = (case p of Some a \<Rightarrow> (set_next a n h, l) | None \<Rightarrow> (h, l\<lparr>hd_ptr := n\<rparr>));
         (h, l) = (case n of Some b \<Rightarrow> (set_prev b p h, l) | None \<Rightarrow> (h, l\<lparr>tl_ptr := p\<rparr>))
     in (h, l))"

section \<open>List segments\<close>

text \<open>\<open>seg h p xs n\<close>: the nodes \<open>xs\<close> are linked in both directions; \<open>p\<close> is what the first one has as
  predecessor, \<open>n\<close> what the last one has as successor.\<close>

definition first_or :: "addr list \<Rightarrow> addr option \<Rightarrow> addr option" where
  "first_or xs n = (case xs of [] \<Rightarrow> n | x # _ \<Rightarrow> Some x)"

definition last_or :: "addr option \<Rightarrow> addr list \<Rightarrow> addr option" where
  "last_or p xs = (if xs = [] then p else Some (last xs))"

lemma first_or_simps [simp]:
  "first_or [] n = n" "first_or (x # xs) n = Some x" "first_or (xs @ ys) n = first_or xs (first_or ys n)"
  by (simp_all add: first_or_def split: list.split)

lemma last_or_simps [simp]:
  "last_or p [] = p" "last_or p (x # xs) = last_or (Some x) xs" "last_or p (xs @ [x]) = Some x"
  by (simp_all add: last_or_def)

fun seg :: "heap \<Rightarrow> addr option \<Rightarrow> addr list \<Rightarrow> addr option \<Rightarrow> bool" where
  "seg h p [] n \<longleftrightarrow> True"
| "seg h p (x # xs) n \<longleftrightarrow> prev_ptr (h x) = p \<and> next_ptr (h x) = first_or xs n \<and> seg h (Some x) xs n"

lemma seg_append:
  "seg h p (xs @ ys) n \<longleftrightarrow> seg h p xs (first_or ys n) \<and> seg h (last_or p xs) ys n"
  by (induction xs arbitrary: p) auto

lemma seg_frame: "seg h p xs n \<Longrightarrow> (\<And>x. x \<in> set xs \<Longrightarrow> h' x = h x) \<Longrightarrow> seg h' p xs n"
  by (induction xs arbitrary: p) auto

lemma seg_set_next:
  assumes "seg h p (xs @ [x]) n" "distinct (xs @ [x])"
  shows "seg (set_next x m h) p (xs @ [x]) m"
proof -
  have f: "seg h p xs (Some x)" "prev_ptr (h x) = last_or p xs"
    using assms(1) by (simp_all add: seg_append)
  have "seg (set_next x m h) p xs (Some x)"
    using f(1) by (rule seg_frame) (use assms(2) in \<open>auto simp: set_next_def\<close>)
  moreover have "prev_ptr (set_next x m h x) = last_or p xs" "next_ptr (set_next x m h x) = m"
    using f(2) by (simp_all add: set_next_def)
  ultimately show ?thesis by (simp add: seg_append)
qed

lemma seg_set_prev:
  assumes "seg h p (x # xs) n" "distinct (x # xs)"
  shows "seg (set_prev x q h) q (x # xs) n"
proof -
  have "seg h (Some x) xs n" using assms(1) by simp
  then have "seg (set_prev x q h) (Some x) xs n"
    by (rule seg_frame) (use assms(2) in \<open>auto simp: set_prev_def\<close>)
  moreover have "prev_ptr (set_prev x q h x) = q" "next_ptr (set_prev x q h x) = first_or xs n"
    using assms(1) by (simp_all add: set_prev_def)
  ultimately show ?thesis by simp
qed

lemma seg_other:
  "seg h p xs n \<Longrightarrow> a \<notin> set xs \<Longrightarrow> seg (set_next a m h) p xs n"
  "seg h p xs n \<Longrightarrow> a \<notin> set xs \<Longrightarrow> seg (set_prev a m h) p xs n"
  by (erule seg_frame, auto simp: set_next_def set_prev_def)+

text \<open>The list object together with its nodes represents the sequence \<open>xs\<close>.\<close>

definition dll :: "heap \<times> dbl_list \<Rightarrow> addr list \<Rightarrow> bool" where
  "dll s xs \<longleftrightarrow> distinct xs \<and> seg (fst s) None xs None \<and>
     hd_ptr (snd s) = first_or xs None \<and> tl_ptr (snd s) = last_or None xs"

section \<open>Adding and deleting\<close>

lemma dll_add:
  assumes "dll (h, l) xs" "n \<notin> set xs"
  shows "dll (dl_add n (h, l)) (xs @ [n])"
proof (cases xs rule: rev_cases)
  case Nil
  then show ?thesis using assms
    by (simp add: dll_def dl_add_def set_prev_def set_next_def Let_def)
next
  case (snoc ys t)
  let ?h1 = "set_next n None (set_prev n (Some t) h)"
  have t: "tl_ptr l = Some t" using assms(1) snoc by (simp add: dll_def)
  have s1: "seg ?h1 None (ys @ [t]) None"
    using assms snoc by (intro seg_other) (auto simp: dll_def)
  have s2: "seg (set_next t (Some n) ?h1) None (ys @ [t]) (Some n)"
    using s1 by (rule seg_set_next) (use assms(1) snoc in \<open>auto simp: dll_def\<close>)
  have "seg (set_next t (Some n) ?h1) (Some t) [n] None"
    using assms(2) snoc by (simp add: set_next_def set_prev_def)
  then have "seg (set_next t (Some n) ?h1) None (ys @ [t, n]) None"
    using s2 by (simp add: seg_append)
  moreover have "hd_ptr l = first_or (ys @ [t, n]) None"
    using assms(1) snoc by (cases ys) (auto simp: dll_def)
  ultimately show ?thesis using assms snoc t
    by (simp add: dll_def dl_add_def Let_def last_or_def)
qed

text \<open>Deletion repairs the left neighbour's forward link and the right neighbour's backward link;
  each is a lemma on one side of the list.\<close>

lemma seg_relink_left:
  assumes "seg h None a (Some t)" "distinct a"
  shows "seg (case last_or None a of Some x \<Rightarrow> set_next x n h | None \<Rightarrow> h) None a n"
proof (cases a rule: rev_cases)
  case (snoc ys x)
  then show ?thesis using seg_set_next [of h None ys x "Some t" n] assms by simp
qed simp

lemma seg_relink_right:
  assumes "seg h (Some t) b None" "distinct b"
  shows "seg (case first_or b None of Some x \<Rightarrow> set_prev x p h | None \<Rightarrow> h) p b None"
proof (cases b)
  case (Cons x ys)
  then show ?thesis using seg_set_prev [of h "Some t" x ys None p] assms by simp
qed simp

lemma dll_del:
  assumes "dll (h, l) (a @ t # b)"
  shows "dll (dl_del t (h, l)) (a @ b)"
proof -
  let ?p = "last_or None a" and ?n = "first_or b None"
  have d: "distinct a" "distinct b" "t \<notin> set a" "t \<notin> set b" "set a \<inter> set b = {}"
    using assms by (auto simp: dll_def)
  have s: "seg h None a (Some t)" "prev_ptr (h t) = ?p" "next_ptr (h t) = ?n" "seg h (Some t) b None"
    using assms by (auto simp: dll_def seg_append)
  let ?h1 = "case ?p of Some x \<Rightarrow> set_next x ?n h | None \<Rightarrow> h"
  let ?h2 = "case ?n of Some x \<Rightarrow> set_prev x ?p ?h1 | None \<Rightarrow> ?h1"
  have 1: "seg ?h1 None a ?n" using s(1) d(1) by (rule seg_relink_left)
  have 2: "seg ?h1 (Some t) b None"
    using s(4) d(5) by (cases a rule: rev_cases) (auto intro: seg_other)
  have 3: "seg ?h2 ?p b None" using 2 d(2) by (rule seg_relink_right)
  have 4: "seg ?h2 None a ?n" using 1 d(5) by (cases b) (auto intro: seg_other)
  have "dl_del t (h, l) = (?h2, \<lparr>hd_ptr = (if a = [] then ?n else hd_ptr l),
      tl_ptr = (if b = [] then ?p else tl_ptr l)\<rparr>)"
    using s(2,3) by (cases a rule: rev_cases; cases b)
      (simp_all add: dl_del_def get_prev_def get_next_def Let_def)
  moreover have "hd_ptr l = first_or (a @ [t]) None" "tl_ptr l = last_or None (t # b)"
    using assms by (auto simp: dll_def last_or_def)
  ultimately show ?thesis using 3 4 d
    by (cases a; cases b) (auto simp: dll_def seg_append last_or_def)
qed

text \<open>What the two operations write: the node itself and the last one, and the two neighbours.\<close>

lemma dl_add_frame: "dll (h, l) xs \<Longrightarrow> a \<notin> set xs \<Longrightarrow> a \<noteq> n \<Longrightarrow> fst (dl_add n (h, l)) a = h a"
  by (cases xs rule: rev_cases) (auto simp: dll_def dl_add_def set_prev_def set_next_def Let_def)

lemma dl_del_frame:
  assumes "dll (h, l) (xs @ t # ys)" "a \<notin> set (xs @ ys)"
  shows "fst (dl_del t (h, l)) a = h a"
proof -
  have "prev_ptr (h t) = last_or None xs" "next_ptr (h t) = first_or ys None"
    using assms(1) by (auto simp: dll_def seg_append)
  then show ?thesis using assms(2)
    by (cases xs rule: rev_cases; cases ys)
      (auto simp: dl_del_def get_prev_def get_next_def set_prev_def set_next_def Let_def)
qed

section \<open>The interface\<close>

locale intrusive_list =
  fixes rep :: "'s \<Rightarrow> 'a list \<Rightarrow> bool" and add :: "'a \<Rightarrow> 's \<Rightarrow> 's" and del :: "'a \<Rightarrow> 's \<Rightarrow> 's"
    and first :: "'s \<Rightarrow> 'a option" and is_empty :: "'s \<Rightarrow> bool" and link :: "'s \<Rightarrow> 'a \<Rightarrow> 'n"
  assumes rep_distinct: "rep s xs \<Longrightarrow> distinct xs"
    and add_rep: "rep s xs \<Longrightarrow> n \<notin> set xs \<Longrightarrow> rep (add n s) (xs @ [n])"
    and del_rep: "rep s xs \<Longrightarrow> t \<in> set xs \<Longrightarrow> rep (del t s) (remove1 t xs)"
    and first_rep: "rep s xs \<Longrightarrow> first s = (case xs of [] \<Rightarrow> None | x # _ \<Rightarrow> Some x)"
    and empty_rep: "rep s xs \<Longrightarrow> is_empty s \<longleftrightarrow> xs = []"
    and add_frame: "rep s xs \<Longrightarrow> a \<notin> set xs \<Longrightarrow> a \<noteq> n \<Longrightarrow> link (add n s) a = link s a"
    and del_frame: "rep s xs \<Longrightarrow> t \<in> set xs \<Longrightarrow> a \<notin> set (remove1 t xs) \<Longrightarrow> link (del t s) a = link s a"
begin

text \<open>Adding a batch and deleting some of its members, as the servers do with their connections.\<close>

lemma add_all_rep:
  "rep s xs \<Longrightarrow> distinct (xs @ ns) \<Longrightarrow> rep (fold add ns s) (xs @ ns)"
proof (induction ns arbitrary: s xs)
  case (Cons n ns)
  then have "rep (add n s) (xs @ [n])" by (intro add_rep) auto
  then show ?case using Cons.IH [of "add n s" "xs @ [n]"] Cons.prems(2) by simp
qed simp

lemma del_all_rep:
  "rep s xs \<Longrightarrow> distinct ts \<Longrightarrow> set ts \<subseteq> set xs \<Longrightarrow> rep (fold del ts s) (filter (\<lambda>x. x \<notin> set ts) xs)"
proof (induction ts arbitrary: s xs)
  case (Cons t ts)
  have rm: "remove1 t xs = filter (\<lambda>x. x \<noteq> t) xs"
    using rep_distinct [OF Cons.prems(1)] by (simp add: distinct_remove1_removeAll removeAll_filter_not_eq)
      (rule filter_cong, auto)
  have r: "rep (del t s) (filter (\<lambda>x. x \<noteq> t) xs)"
    using del_rep [OF Cons.prems(1), of t] Cons.prems(3) by (simp add: rm)
  have "rep (fold del ts (del t s)) (filter (\<lambda>x. x \<notin> set ts) (filter (\<lambda>x. x \<noteq> t) xs))"
    using Cons.prems(2,3) by (intro Cons.IH [OF r]) auto
  moreover have "filter (\<lambda>x. x \<notin> set ts) (filter (\<lambda>x. x \<noteq> t) xs) = filter (\<lambda>x. x \<notin> set (t # ts)) xs"
    by (auto intro: filter_cong)
  ultimately show ?case by simp
qed simp

text \<open>Neither touches the links of a node outside the list.\<close>

lemma add_all_frame:
  "rep s xs \<Longrightarrow> distinct (xs @ ns) \<Longrightarrow> a \<notin> set (xs @ ns) \<Longrightarrow> link (fold add ns s) a = link s a"
proof (induction ns arbitrary: s xs)
  case (Cons n ns)
  then have "rep (add n s) (xs @ [n])" by (intro add_rep) auto
  moreover have "link (add n s) a = link s a" using Cons.prems by (intro add_frame) auto
  ultimately show ?case using Cons.IH [of "add n s" "xs @ [n]"] Cons.prems(2,3) by simp
qed simp

lemma del_all_frame:
  "rep s xs \<Longrightarrow> distinct ts \<Longrightarrow> set ts \<subseteq> set xs \<Longrightarrow> a \<notin> set xs \<Longrightarrow> link (fold del ts s) a = link s a"
proof (induction ts arbitrary: s xs)
  case (Cons t ts)
  have d: "set (remove1 t xs) = set xs - {t}" using rep_distinct [OF Cons.prems(1)] by simp
  have "rep (del t s) (remove1 t xs)" using Cons.prems by (intro del_rep) auto
  moreover have "link (del t s) a = link s a" using Cons.prems d by (intro del_frame) auto
  ultimately show ?case using Cons.IH [of "del t s" "remove1 t xs"] Cons.prems(2-4) d by auto
qed simp

end

interpretation dl: intrusive_list dll dl_add dl_del "\<lambda>s. dl_first (snd s)" "\<lambda>s. dl_empty (snd s)" "\<lambda>s. fst s"
proof
  fix s :: "heap \<times> dbl_list" and xs n t a
  show "dll s xs \<Longrightarrow> a \<notin> set xs \<Longrightarrow> a \<noteq> n \<Longrightarrow> fst (dl_add n s) a = fst s a"
    by (cases s) (simp add: dl_add_frame)
  show "fst (dl_del t s) a = fst s a" if r: "dll s xs" "t \<in> set xs" "a \<notin> set (remove1 t xs)"
  proof -
    obtain b c where xs: "xs = b @ t # c" "t \<notin> set b" using r(2) by (metis split_list_first)
    then have "remove1 t xs = b @ c" by (simp add: remove1_append)
    then show ?thesis using r xs dl_del_frame [of "fst s" "snd s" b t c a] by simp
  qed
  show "dll s xs \<Longrightarrow> distinct xs" by (simp add: dll_def)
  show "dll s xs \<Longrightarrow> n \<notin> set xs \<Longrightarrow> dll (dl_add n s) (xs @ [n])" by (cases s) (simp add: dll_add)
  show "dll s xs \<Longrightarrow> t \<in> set xs \<Longrightarrow> dll (dl_del t s) (remove1 t xs)"
  proof -
    assume r: "dll s xs" and "t \<in> set xs"
    then obtain a b where xs: "xs = a @ t # b" "t \<notin> set a" by (metis split_list_first)
    then have "remove1 t xs = a @ b" by (simp add: remove1_append)
    then show ?thesis using r xs dll_del by (cases s) simp
  qed
  show "dll s xs \<Longrightarrow> dl_first (snd s) = (case xs of [] \<Rightarrow> None | x # _ \<Rightarrow> Some x)"
    by (simp add: dll_def dl_first_def first_or_def)
  show "dll s xs \<Longrightarrow> dl_empty (snd s) \<longleftrightarrow> xs = []"
    by (simp add: dll_def dl_empty_def first_or_def split: list.split)
qed

lemma dll_new: "dll (h, dl_new) []" "dll (h, dl_clear l) []"
  by (simp_all add: dll_def dl_new_def dl_clear_def)

section \<open>Properties\<close>

text \<open>
  (C8) Adding distinct nodes to a new or cleared list and then deleting any of them in
  any order leaves exactly the others, in the order they were added, correctly linked in both
  directions, with \<open>first\<close>, \<open>last\<close> and \<open>empty\<close> agreeing with that sequence, whatever the link fields
  of the nodes held before.  The links of every node that was not added keep their values, so any other
  list is untouched.
\<close>

theorem dbl_list_refines:
  assumes "distinct ns" "distinct ts" "set ts \<subseteq> set ns" "l = dl_new \<or> l = dl_clear l0"
  shows "\<exists>h' l'. fold dl_del ts (fold dl_add ns (h, l)) = (h', l') \<and>
    (let xs = filter (\<lambda>x. x \<notin> set ts) ns in
     seg h' None xs None \<and> dl_first l' = (if xs = [] then None else Some (hd xs)) \<and>
     dl_last l' = (if xs = [] then None else Some (last xs)) \<and> (dl_empty l' \<longleftrightarrow> xs = [])) \<and>
    (\<forall>a. a \<notin> set ns \<longrightarrow> h' a = h a)"
proof -
  have new: "dll (h, l) []" using assms(4) dll_new by auto
  then have all: "dll (fold dl_add ns (h, l)) ns"
    using dl.add_all_rep [of "(h, l)" "[]" ns] assms(1) by auto
  then have rest: "dll (fold dl_del ts (fold dl_add ns (h, l))) (filter (\<lambda>x. x \<notin> set ts) ns)"
    using assms(2,3) by (rule dl.del_all_rep)
  have "fst (fold dl_del ts (fold dl_add ns (h, l))) a = h a" if "a \<notin> set ns" for a
    using dl.del_all_frame [OF all assms(2,3) that] dl.add_all_frame [OF new, of ns a] assms(1) that by simp
  then show ?thesis using rest
    by (cases "fold dl_del ts (fold dl_add ns (h, l))")
      (auto simp: dll_def dl_first_def dl_last_def dl_empty_def first_or_def last_or_def Let_def
        neq_Nil_conv split: list.splits)
qed

theorem dbl_list_refines_witness:
  "\<exists>h' l'. fold dl_del [4, 2] (fold dl_add [4, 7, 2, 9] ((\<lambda>_. \<lparr>prev_ptr = Some 5, next_ptr = None\<rparr>), dl_new)) = (h', l') \<and>
     dl_first l' = Some 7 \<and> dl_last l' = Some 9 \<and> h' 5 = \<lparr>prev_ptr = Some 5, next_ptr = None\<rparr>"
  using dbl_list_refines [of "[4, 7, 2, 9]" "[4, 2]" dl_new dl_new "\<lambda>_. \<lparr>prev_ptr = Some 5, next_ptr = None\<rparr>"]
  by (auto simp: Let_def)

end
