(* ===== verification/Jtree.thy ===== *)
theory Jtree
  imports Sort_Stable Text_Codec
begin

text \<open>
  The JSON parse tree of the client, \<open>pc/jtree.cpp\<close>: a character-level state machine that appends
  nodes to a vector and links them by index, index 0 meaning absent.  The nodes of an object or
  array form a list through \<open>next_\<close>; a key/value node refers to its key and value; a value node is a
  slice of the parsed text.  Vector accesses out of range and popping an empty stack are \<open>None\<close>.
\<close>

section \<open>Model\<close>

datatype jtype = e_obj | e_arr | e_keyval | e_val

text \<open>The union of the C++ node has three readings of the same two words: head and tail (\<open>jn_h\<close>,
  \<open>jn_t\<close>), key and value, position and size.\<close>

record jnode =
  jn_type :: jtype
  jn_next :: nat
  jn_h :: nat
  jn_t :: nat

record jtree =
  jt_nv :: "jnode list"
  jt_st :: "nat list"
  jt_key :: nat
  jt_buf :: string

definition jnode0 :: jnode where
  "jnode0 = \<lparr>jn_type = e_obj, jn_next = 0, jn_h = 0, jn_t = 0\<rparr>"

text \<open>\<open>jt_st\<close> is the stack of open containers, the innermost first.\<close>

definition jtree_start :: "string \<Rightarrow> jtree" where
  "jtree_start buf = \<lparr>jt_nv = [jnode0], jt_st = [], jt_key = 0, jt_buf = buf\<rparr>"

definition jt_new_node :: "jtype \<Rightarrow> nat \<Rightarrow> nat \<Rightarrow> jtree \<Rightarrow> jtree \<times> nat" where
  "jt_new_node ty i j jt =
     (jt\<lparr>jt_nv := jt_nv jt @ [\<lparr>jn_type = ty, jn_next = 0, jn_h = i, jn_t = j\<rparr>]\<rparr>, length (jt_nv jt))"

definition jt_upd_node :: "nat \<Rightarrow> (jnode \<Rightarrow> jnode) \<Rightarrow> jtree \<Rightarrow> jtree option" where
  "jt_upd_node i f jt = do { n \<leftarrow> rd (jt_nv jt) i; nv \<leftarrow> wr (jt_nv jt) i (f n); Some (jt\<lparr>jt_nv := nv\<rparr>) }"

text \<open>The field \<open>next_\<close> has 24 bits.\<close>

definition jt_add_arr :: "nat \<Rightarrow> jtree \<Rightarrow> jtree option" where
  "jt_add_arr v jt =
     (case jt_st jt of
        [] \<Rightarrow> None
      | b # _ \<Rightarrow>
          do { obj \<leftarrow> rd (jt_nv jt) b;
               if jn_t obj \<noteq> 0 then
                 do { jt \<leftarrow> jt_upd_node (jn_t obj) (\<lambda>n. n\<lparr>jn_next := v mod 2 ^ 24\<rparr>) jt;
                      jt_upd_node b (\<lambda>n. n\<lparr>jn_t := v\<rparr>) jt }
               else jt_upd_node b (\<lambda>n. n\<lparr>jn_h := v, jn_t := v\<rparr>) jt })"

lemma jt_add_arr_code [code]:
  "jt_add_arr v jt =
     (case jt_st jt of
        [] \<Rightarrow> None
      | b # _ \<Rightarrow>
          do { obj \<leftarrow> rd (jt_nv jt) b;
               if jn_t obj \<noteq> 0 then
                 do { jt \<leftarrow> jt_upd_node (jn_t obj) (\<lambda>n. n\<lparr>jn_next := nat (int v mod 16777216)\<rparr>) jt;
                      jt_upd_node b (\<lambda>n. n\<lparr>jn_t := v\<rparr>) jt }
               else jt_upd_node b (\<lambda>n. n\<lparr>jn_h := v, jn_t := v\<rparr>) jt })"
proof -
  have "v mod 2 ^ 24 = nat (int v mod 16777216)" by (simp add: nat_mod_distrib)
  then show ?thesis by (simp only: jt_add_arr_def)
qed

definition jt_add_obj :: "nat \<Rightarrow> jtree \<Rightarrow> jtree option" where
  "jt_add_obj v jt = (let (jt, kvidx) = jt_new_node e_keyval (jt_key jt) v jt in jt_add_arr kvidx jt)"

definition jt_add :: "nat \<Rightarrow> jtree \<Rightarrow> jtree option" where
  "jt_add v jt =
     (if jt_st jt \<noteq> [] then
        (if jt_key jt \<noteq> 0 then do { jt \<leftarrow> jt_add_obj v jt; Some (jt\<lparr>jt_key := 0\<rparr>) } else jt_add_arr v jt)
      else Some jt)"

definition jt_parse_start :: "jtype \<Rightarrow> jtree \<Rightarrow> jtree option" where
  "jt_parse_start ty jt =
     (let (jt, idx) = jt_new_node ty 0 0 jt in do { jt \<leftarrow> jt_add idx jt; Some (jt\<lparr>jt_st := idx # jt_st jt\<rparr>) })"

definition jt_parse_start_object :: "jtree \<Rightarrow> jtree option" where
  "jt_parse_start_object = jt_parse_start e_obj"

definition jt_parse_start_array :: "jtree \<Rightarrow> jtree option" where
  "jt_parse_start_array = jt_parse_start e_arr"

definition jt_parse_end :: "jtree \<Rightarrow> jtree option" where
  "jt_parse_end jt = (case jt_st jt of [] \<Rightarrow> None | _ # st \<Rightarrow> Some (jt\<lparr>jt_st := st\<rparr>))"

definition jt_parse_key :: "nat \<Rightarrow> nat \<Rightarrow> jtree \<Rightarrow> jtree" where
  "jt_parse_key txt end jt = (let (jt, k) = jt_new_node e_val txt (end - txt) jt in jt\<lparr>jt_key := k\<rparr>)"

definition jt_parse_string :: "nat \<Rightarrow> nat \<Rightarrow> jtree \<Rightarrow> jtree option" where
  "jt_parse_string txt end jt = (let (jt, v) = jt_new_node e_val txt (end - txt) jt in jt_add v jt)"

text \<open>The scanner.  \<open>PPeek\<close> is the inner loop after a closing quote, which looks for a colon.\<close>

datatype pstate = PStart | PString nat | PPeek nat nat | PNumber nat | PKeyword nat

definition number_char :: "char \<Rightarrow> bool" where
  "number_char c \<longleftrightarrow> is_digit c \<or> c \<in> {CHR ''.'', CHR ''-'', CHR ''e'', CHR ''+''}"

definition is_alpha :: "char \<Rightarrow> bool" where
  "is_alpha c \<longleftrightarrow> in_range CHR ''a'' CHR ''z'' c \<or> in_range CHR ''A'' CHR ''Z'' c"

function jt_parse_loop :: "string \<Rightarrow> nat \<Rightarrow> pstate \<Rightarrow> jtree \<Rightarrow> jtree option" where
  "jt_parse_loop [] pos st jt = Some jt"
| "jt_parse_loop (c # cs) pos PStart jt =
     (if c = CHR ''{'' then do { jt \<leftarrow> jt_parse_start_object jt; jt_parse_loop cs (pos + 1) PStart jt }
      else if c = CHR ''['' then do { jt \<leftarrow> jt_parse_start_array jt; jt_parse_loop cs (pos + 1) PStart jt }
      else if c = CHR ''}'' then do { jt \<leftarrow> jt_parse_end jt; jt_parse_loop cs (pos + 1) PStart jt }
      else if c = CHR '']'' then do { jt \<leftarrow> jt_parse_end jt; jt_parse_loop cs (pos + 1) PStart jt }
      else if c = CHR 0x22 then jt_parse_loop cs (pos + 1) (PString (pos + 1)) jt
      else if c = CHR ''-'' \<or> c = CHR ''.'' \<or> is_digit c then jt_parse_loop cs (pos + 1) (PNumber pos) jt
      else if c = CHR ''t'' \<or> c = CHR ''f'' \<or> c = CHR ''n'' then jt_parse_loop cs (pos + 1) (PKeyword pos) jt
      else jt_parse_loop cs (pos + 1) PStart jt)"
| "jt_parse_loop (c # cs) pos (PString txt) jt =
     (if c = CHR 0x22 then jt_parse_loop cs (pos + 1) (PPeek txt pos) jt
      else jt_parse_loop cs (pos + 1) (PString txt) jt)"
| "jt_parse_loop (c # cs) pos (PPeek txt etxt) jt =
     (if c = CHR '':'' then jt_parse_loop (c # cs) pos PStart (jt_parse_key txt etxt jt)
      else if \<not> is_space c then do { jt \<leftarrow> jt_parse_string txt etxt jt; jt_parse_loop (c # cs) pos PStart jt }
      else jt_parse_loop cs (pos + 1) (PPeek txt etxt) jt)"
| "jt_parse_loop (c # cs) pos (PNumber txt) jt =
     (if \<not> number_char c then do { jt \<leftarrow> jt_parse_string txt pos jt; jt_parse_loop (c # cs) pos PStart jt }
      else jt_parse_loop cs (pos + 1) (PNumber txt) jt)"
| "jt_parse_loop (c # cs) pos (PKeyword txt) jt =
     (if \<not> is_alpha c then do { jt \<leftarrow> jt_parse_string txt pos jt; jt_parse_loop (c # cs) pos PStart jt }
      else jt_parse_loop cs (pos + 1) (PKeyword txt) jt)"
  by pat_completeness auto
termination
  by (relation "measure (\<lambda>(cs, pos, st, jt). 2 * length cs + (if st = PStart then 0 else 1))") auto

definition jt_parse :: "string \<Rightarrow> jtree option" where
  "jt_parse s = jt_parse_loop s 0 PStart (jtree_start s)"

definition jt_is_valid :: "jtree \<Rightarrow> bool" where
  "jt_is_valid jt \<longleftrightarrow> length (jt_nv jt) > 1 \<and> jt_st jt = []"

definition jt_get_type :: "jtree \<Rightarrow> nat \<Rightarrow> jtype option" where
  "jt_get_type jt i = map_option jn_type (rd (jt_nv jt) i)"

definition jt_get_next :: "jtree \<Rightarrow> nat \<Rightarrow> nat option" where
  "jt_get_next jt i = map_option jn_next (rd (jt_nv jt) i)"

definition jt_get_first :: "jtree \<Rightarrow> nat \<Rightarrow> nat option" where
  "jt_get_first jt i = map_option jn_h (rd (jt_nv jt) i)"

definition jt_get_last :: "jtree \<Rightarrow> nat \<Rightarrow> nat option" where
  "jt_get_last jt i = map_option jn_t (rd (jt_nv jt) i)"

definition jt_get_key :: "jtree \<Rightarrow> nat \<Rightarrow> nat option" where
  "jt_get_key jt i = map_option jn_h (rd (jt_nv jt) i)"

definition jt_get_val :: "jtree \<Rightarrow> nat \<Rightarrow> nat option" where
  "jt_get_val jt i = map_option jn_t (rd (jt_nv jt) i)"

text \<open>A slice that is not inside the text is an access outside the caller's buffer.\<close>

definition jt_get_str :: "jtree \<Rightarrow> nat \<Rightarrow> string option" where
  "jt_get_str jt i =
     do { n \<leftarrow> rd (jt_nv jt) i;
          if jn_h n + jn_t n \<le> length (jt_buf jt) then Some (take (jn_t n) (drop (jn_h n) (jt_buf jt))) else None }"

definition jt_get_uint :: "jtree \<Rightarrow> nat \<Rightarrow> u64 option" where
  "jt_get_uint jt i = do { s \<leftarrow> jt_get_str jt i; Some (str_to_uint s) }"

definition jt_get_int :: "jtree \<Rightarrow> nat \<Rightarrow> int option" where
  "jt_get_int jt i = do { s \<leftarrow> jt_get_str jt i; str_to_int s }"

definition jt_get_bool :: "jtree \<Rightarrow> nat \<Rightarrow> bool option" where
  "jt_get_bool jt i = do { n \<leftarrow> rd (jt_nv jt) i; c \<leftarrow> rd (jt_buf jt) (jn_h n); Some (c = CHR ''t'') }"

partial_function (option) jt_find_loop :: "jtree \<Rightarrow> string \<Rightarrow> nat \<Rightarrow> nat option" where
  [code]: "jt_find_loop jt k it =
     (if it = 0 then Some 0
      else do { ty \<leftarrow> jt_get_type jt it;
                if ty = e_keyval then
                  do { kn \<leftarrow> jt_get_key jt it; s \<leftarrow> jt_get_str jt kn;
                       if k = s then jt_get_val jt it
                       else do { it \<leftarrow> jt_get_next jt it; jt_find_loop jt k it } }
                else Some 0 })"

definition jt_find_val :: "jtree \<Rightarrow> nat \<Rightarrow> string \<Rightarrow> nat option" where
  "jt_find_val jt obj k = do { it \<leftarrow> jt_get_first jt obj; jt_find_loop jt k it }"

section \<open>Invariant\<close>

text \<open>Every link points forward and into the vector, containers are linked to their elements,
  key/value nodes to nodes, value nodes to slices of the text.\<close>

definition container :: "jnode \<Rightarrow> bool" where
  "container n \<longleftrightarrow> jn_type n = e_obj \<or> jn_type n = e_arr"

definition node_ok :: "nat \<Rightarrow> jnode list \<Rightarrow> nat \<Rightarrow> jnode \<Rightarrow> bool" where
  "node_ok len nv i n \<longleftrightarrow>
     (jn_next n = 0 \<or> i < jn_next n \<and> jn_next n < length nv) \<and>
     (jn_type n = e_val \<longrightarrow> jn_h n + jn_t n \<le> len) \<and>
     (jn_type n = e_keyval \<longrightarrow> jn_h n < i \<and> jn_type (nv ! jn_h n) = e_val \<and> jn_t n < i \<and>
        jn_type (nv ! jn_t n) \<noteq> e_keyval) \<and>
     (container n \<longrightarrow> (jn_h n = 0 \<longleftrightarrow> jn_t n = 0) \<and>
        (jn_h n = 0 \<or> i < jn_h n \<and> jn_h n < length nv \<and> i < jn_t n \<and> jn_t n < length nv))"

definition jt_inv :: "jtree \<Rightarrow> bool" where
  "jt_inv jt \<longleftrightarrow> jt_nv jt \<noteq> [] \<and>
     (\<forall>i < length (jt_nv jt). node_ok (length (jt_buf jt)) (jt_nv jt) i (jt_nv jt ! i)) \<and>
     (\<forall>i \<in> set (jt_st jt). 0 < i \<and> i < length (jt_nv jt) \<and> container (jt_nv jt ! i)) \<and>
     jt_key jt < length (jt_nv jt) \<and> (jt_key jt \<noteq> 0 \<longrightarrow> jn_type (jt_nv jt ! jt_key jt) = e_val)"

lemma jt_inv_start: "jt_inv (jtree_start s)"
  by (simp add: jt_inv_def jtree_start_def jnode0_def node_ok_def container_def)

text \<open>A node is good with respect to any vector that keeps the types of the nodes.\<close>

lemma node_ok_mono:
  assumes "node_ok len nv i n" "length nv \<le> length nv'" "i < length nv"
    and "\<And>j. j < length nv \<Longrightarrow> jn_type (nv' ! j) = jn_type (nv ! j)"
  shows "node_ok len nv' i n"
proof -
  have "jn_type (nv' ! j) = jn_type (nv ! j)" if "j < i" for j
    using assms(3,4) that by simp
  then show ?thesis
    using assms(1,2) by (auto simp: node_ok_def)
qed

lemma container_type: "jn_type m = jn_type n \<Longrightarrow> container m = container n"
  by (simp add: container_def)

text \<open>The node that a call appends, and the tree after appending it.\<close>

definition push_node :: "jnode \<Rightarrow> jtree \<Rightarrow> jtree" where
  "push_node n jt = jt\<lparr>jt_nv := jt_nv jt @ [n]\<rparr>"

lemma push_node_simps [simp]:
  "jt_nv (push_node n jt) = jt_nv jt @ [n]" "jt_st (push_node n jt) = jt_st jt"
  "jt_key (push_node n jt) = jt_key jt" "jt_buf (push_node n jt) = jt_buf jt"
  by (simp_all add: push_node_def)

lemma new_node_push:
  "jt_new_node ty i j jt = (push_node \<lparr>jn_type = ty, jn_next = 0, jn_h = i, jn_t = j\<rparr> jt, length (jt_nv jt))"
  by (simp add: jt_new_node_def push_node_def)

lemma jt_inv_push:
  assumes "jt_inv jt" "node_ok (length (jt_buf jt)) (jt_nv jt @ [n]) (length (jt_nv jt)) n"
  shows "jt_inv (push_node n jt)"
proof -
  have "node_ok (length (jt_buf jt)) (jt_nv jt @ [n]) i (jt_nv jt ! i)" if "i < length (jt_nv jt)" for i
    by (rule node_ok_mono [of _ "jt_nv jt"]) (use assms that in \<open>auto simp: jt_inv_def nth_append\<close>)
  then show ?thesis
    using assms by (auto simp: jt_inv_def nth_append less_Suc_eq)
qed

text \<open>Replacing nodes by good nodes of the same type keeps the invariant.\<close>

lemma jt_inv_update:
  assumes "jt_inv jt" "i < length (jt_nv jt)" "jn_type n = jn_type (jt_nv jt ! i)"
    and "node_ok (length (jt_buf jt)) (jt_nv jt) i n"
  shows "jt_inv (jt\<lparr>jt_nv := (jt_nv jt)[i := n]\<rparr>)"
proof -
  have ty: "jn_type ((jt_nv jt)[i := n] ! j) = jn_type (jt_nv jt ! j)" for j
    using assms(2,3) by (cases "j = i") simp_all
  have "node_ok (length (jt_buf jt)) ((jt_nv jt)[i := n]) j ((jt_nv jt)[i := n] ! j)"
    if "j < length (jt_nv jt)" for j
    by (rule node_ok_mono [of _ "jt_nv jt"])
      (use assms that ty in \<open>auto simp: jt_inv_def nth_list_update\<close>)
  then show ?thesis
    using assms(1) ty container_type [OF ty] by (auto simp: jt_inv_def)
qed

lemma jt_upd_node_Some:
  "i < length (jt_nv jt) \<Longrightarrow> jt_upd_node i f jt = Some (jt\<lparr>jt_nv := (jt_nv jt)[i := f (jt_nv jt ! i)]\<rparr>)"
  by (simp add: jt_upd_node_def rd_def wr_def)

lemma node_ok_set_next: "node_ok len nv i n \<Longrightarrow> i < v \<Longrightarrow> v < length nv \<Longrightarrow> node_ok len nv i (n\<lparr>jn_next := v\<rparr>)"
  by (auto simp: node_ok_def container_def)

lemma node_ok_set_both:
  "node_ok len nv i n \<Longrightarrow> container n \<Longrightarrow> i < v \<Longrightarrow> v < length nv \<Longrightarrow>
    node_ok len nv i (n\<lparr>jn_h := v, jn_t := v\<rparr>)"
  by (auto simp: node_ok_def container_def)

lemma node_ok_set_tail:
  "node_ok len nv i n \<Longrightarrow> container n \<Longrightarrow> jn_t n \<noteq> 0 \<Longrightarrow> i < v \<Longrightarrow> v < length nv \<Longrightarrow>
    node_ok len nv i (n\<lparr>jn_t := v\<rparr>)"
  by (auto simp: node_ok_def container_def)

text \<open>Linking the last node into the innermost container; \<open>next_\<close> holds its index because the vector
  has at most \<open>2 ^ 24\<close> nodes.\<close>

lemma jt_add_arr_inv:
  assumes inv: "jt_inv jt" and n: "node_ok (length (jt_buf jt)) (jt_nv jt @ [n]) (length (jt_nv jt)) n"
    and st: "jt_st jt \<noteq> []" and len: "length (jt_nv jt) < 2 ^ 24"
  obtains jt' where "jt_add_arr (length (jt_nv jt)) (push_node n jt) = Some jt'" "jt_inv jt'"
    "length (jt_nv jt') = Suc (length (jt_nv jt))" "jt_st jt' = jt_st jt" "jt_key jt' = jt_key jt"
    "jt_buf jt' = jt_buf jt" "\<And>j. jn_type (jt_nv jt' ! j) = jn_type ((jt_nv jt @ [n]) ! j)"
proof -
  obtain b bs where b: "jt_st jt = b # bs" using st by (cases "jt_st jt") auto
  define v where "v = length (jt_nv jt)"
  define p where "p = push_node n jt"
  have p: "jt_inv p" unfolding p_def by (rule jt_inv_push [OF inv n])
  have nv: "jt_nv p = jt_nv jt @ [n]" "jt_buf p = jt_buf jt" "jt_st p = b # bs" "jt_key p = jt_key jt"
    using b by (simp_all add: p_def)
  have bl: "0 < b" "b < v" "container (jt_nv jt ! b)"
    using inv b by (auto simp: jt_inv_def v_def)
  define obj where "obj = jt_nv jt ! b"
  have obj: "jt_nv p ! b = obj" using bl by (simp add: nv obj_def nth_append v_def)
  have okb: "node_ok (length (jt_buf jt)) (jt_nv jt) b obj" "container obj"
    using inv bl by (auto simp: jt_inv_def v_def obj_def)
  have len_p: "length (jt_nv p) = Suc v" by (simp add: nv v_def)
  have vm: "v mod 2 ^ 24 = v" using len by (simp add: v_def)
  have okp: "node_ok (length (jt_buf p)) (jt_nv p) i (jt_nv p ! i)" if "i < Suc v" for i
    using p that by (auto simp: jt_inv_def nv v_def)
  show thesis
  proof (cases "jn_t obj = 0")
    case True
    define q where "q = p\<lparr>jt_nv := (jt_nv p)[b := obj\<lparr>jn_h := v, jn_t := v\<rparr>]\<rparr>"
    have "jt_inv q" unfolding q_def
      by (rule jt_inv_update [OF p])
        (use bl obj okp [of b] okb len_p in \<open>simp_all add: node_ok_set_both\<close>)
    moreover have "jt_add_arr v p = Some q"
      using True bl by (simp add: jt_add_arr_def nv(3) rd_def obj jt_upd_node_Some len_p q_def)
    moreover have "jn_type (jt_nv q ! j) = jn_type ((jt_nv jt @ [n]) ! j)" for j
      using obj bl by (cases "j = b") (auto simp: q_def nv v_def)
    moreover have "length (jt_nv q) = Suc v" "jt_st q = jt_st jt" "jt_key q = jt_key jt" "jt_buf q = jt_buf jt"
      using b by (simp_all add: q_def nv v_def)
    ultimately show thesis
      unfolding v_def p_def by - (rule that [of q])
  next
    case False
    define t where "t = jn_t obj"
    have t: "b < t" "t < v" using okb False by (auto simp: node_ok_def t_def v_def)
    define q1 where "q1 = p\<lparr>jt_nv := (jt_nv p)[t := (jt_nv p ! t)\<lparr>jn_next := v\<rparr>]\<rparr>"
    have q1: "jt_inv q1" unfolding q1_def
      by (rule jt_inv_update [OF p])
        (use t okp [of t] len_p in \<open>simp_all add: node_ok_set_next\<close>)
    define q where "q = q1\<lparr>jt_nv := (jt_nv q1)[b := obj\<lparr>jn_t := v\<rparr>]\<rparr>"
    have q1b: "jt_nv q1 ! b = obj" "length (jt_nv q1) = Suc v"
      using t obj by (simp_all add: q1_def nv v_def)
    have okq: "node_ok (length (jt_buf q1)) (jt_nv q1) b obj"
      using q1 q1b bl by (auto simp: jt_inv_def)
    have "jt_inv q" unfolding q_def
      by (rule jt_inv_update [OF q1])
        (use bl q1b okq okb False in \<open>simp_all add: node_ok_set_tail\<close>)
    moreover have "jt_upd_node t (\<lambda>n. n\<lparr>jn_next := v mod 2 ^ 24\<rparr>) p = Some q1"
      using t by (simp only: vm) (simp add: jt_upd_node_Some len_p q1_def)
    then have "jt_add_arr v p = jt_upd_node b (\<lambda>n. n\<lparr>jn_t := v\<rparr>) q1"
      using False bl by (simp add: jt_add_arr_def nv(3) rd_def obj len_p t_def)
    then have "jt_add_arr v p = Some q"
      using bl q1b by (simp add: jt_upd_node_Some q_def)
    moreover have "jn_type (jt_nv q ! j) = jn_type ((jt_nv jt @ [n]) ! j)" for j
      using obj bl t by (cases "j = b"; cases "j = t") (auto simp: q_def q1_def nv v_def)
    moreover have "length (jt_nv q) = Suc v" "jt_st q = jt_st jt" "jt_key q = jt_key jt" "jt_buf q = jt_buf jt"
      using b by (simp_all add: q_def q1_def nv v_def)
    ultimately show thesis
      unfolding v_def p_def by - (rule that [of q])
  qed
qed

text \<open>\<open>jt_add\<close> of a node just appended.  It appends at most one more, a key/value node.\<close>

lemma jt_add_inv:
  assumes inv: "jt_inv jt" and n: "jn_next n = 0" "jn_type n \<noteq> e_keyval"
    "jn_type n = e_val \<Longrightarrow> jn_h n + jn_t n \<le> length (jt_buf jt)" "container n \<Longrightarrow> jn_h n = 0 \<and> jn_t n = 0"
    and len: "length (jt_nv jt) + 1 < 2 ^ 24"
  obtains jt' where "jt_add (length (jt_nv jt)) (push_node n jt) = Some jt'" "jt_inv jt'"
    "length (jt_nv jt) < length (jt_nv jt')" "length (jt_nv jt') \<le> length (jt_nv jt) + 2" "jt_st jt' = jt_st jt"
    "jt_buf jt' = jt_buf jt" "jn_type (jt_nv jt' ! length (jt_nv jt)) = jn_type n"
proof -
  have ok: "node_ok (length (jt_buf jt)) (jt_nv jt @ [n]) (length (jt_nv jt)) n"
    using n by (cases "jn_type n") (auto simp: node_ok_def container_def)
  have p: "jt_inv (push_node n jt)" by (rule jt_inv_push [OF inv ok])
  consider "jt_st jt = []" | "jt_st jt \<noteq> []" "jt_key jt = 0" | "jt_st jt \<noteq> []" "jt_key jt \<noteq> 0" by blast
  then show thesis
  proof cases
    case 1
    then show thesis
      by (intro that [of "push_node n jt"]) (simp_all add: jt_add_def p)
  next
    case 2
    obtain jt' where "jt_add_arr (length (jt_nv jt)) (push_node n jt) = Some jt'" "jt_inv jt'"
      "length (jt_nv jt') = Suc (length (jt_nv jt))" "jt_st jt' = jt_st jt" "jt_buf jt' = jt_buf jt"
      "\<And>j. jn_type (jt_nv jt' ! j) = jn_type ((jt_nv jt @ [n]) ! j)"
      using len by (auto intro: jt_add_arr_inv [OF inv ok 2(1)])
    then show thesis
      using 2 by (intro that [of jt']) (simp_all add: jt_add_def)
  next
    case 3
    define kv where "kv = \<lparr>jn_type = e_keyval, jn_next = 0, jn_h = jt_key jt, jn_t = length (jt_nv jt)\<rparr>"
    have "jt_key jt < length (jt_nv jt)" "jn_type (jt_nv jt ! jt_key jt) = e_val"
      using inv 3 by (auto simp: jt_inv_def)
    then have kv: "node_ok (length (jt_buf (push_node n jt))) (jt_nv (push_node n jt) @ [kv])
        (length (jt_nv (push_node n jt))) kv"
      using n(2) by (auto simp: node_ok_def kv_def container_def nth_append)
    obtain jt' where jt': "jt_add_arr (Suc (length (jt_nv jt))) (push_node kv (push_node n jt)) = Some jt'"
      "jt_inv jt'" "length (jt_nv jt') = length (jt_nv jt) + 2" "jt_st jt' = jt_st jt" "jt_buf jt' = jt_buf jt"
      "\<And>j. jn_type (jt_nv jt' ! j) = jn_type ((jt_nv jt @ [n, kv]) ! j)"
      using len 3 by (auto intro: jt_add_arr_inv [OF p kv])
    have "jt_add_obj (length (jt_nv jt)) (push_node n jt) = Some jt'"
      using jt'(1) by (simp add: jt_add_obj_def new_node_push kv_def)
    then have "jt_add (length (jt_nv jt)) (push_node n jt) = Some (jt'\<lparr>jt_key := 0\<rparr>)"
      using 3 by (simp add: jt_add_def)
    moreover have "jt_inv (jt'\<lparr>jt_key := 0\<rparr>)"
      using jt'(2) by (simp add: jt_inv_def)
    ultimately show thesis
      using jt' by (intro that [of "jt'\<lparr>jt_key := 0\<rparr>"]) (simp_all add: nth_append)
  qed
qed

text \<open>The three token actions, with the number of nodes they append.\<close>

lemma jt_parse_start_inv:
  assumes "jt_inv jt" "ty = e_obj \<or> ty = e_arr" "length (jt_nv jt) + 1 < 2 ^ 24"
  obtains jt' where "jt_parse_start ty jt = Some jt'" "jt_inv jt'" "length (jt_nv jt') \<le> length (jt_nv jt) + 2"
    "length (jt_nv jt) < length (jt_nv jt')" "length (jt_st jt') = Suc (length (jt_st jt))" "jt_buf jt' = jt_buf jt"
proof -
  define n where "n = \<lparr>jn_type = ty, jn_next = 0, jn_h = 0, jn_t = 0\<rparr>"
  have ty: "jn_type n = ty" by (simp add: n_def)
  obtain jt' where jt': "jt_add (length (jt_nv jt)) (push_node n jt) = Some jt'" "jt_inv jt'"
    "length (jt_nv jt) < length (jt_nv jt')" "length (jt_nv jt') \<le> length (jt_nv jt) + 2" "jt_st jt' = jt_st jt"
    "jt_buf jt' = jt_buf jt" "jn_type (jt_nv jt' ! length (jt_nv jt)) = jn_type n"
    by (rule jt_add_inv [of jt n]) (use assms in \<open>auto simp: n_def\<close>)
  have "jt_parse_start ty jt = Some (jt'\<lparr>jt_st := length (jt_nv jt) # jt_st jt'\<rparr>)"
    using jt'(1) by (simp add: jt_parse_start_def new_node_push n_def)
  moreover have "jt_inv (jt'\<lparr>jt_st := length (jt_nv jt) # jt_st jt'\<rparr>)"
    using jt' assms(1,2) ty by (auto simp: jt_inv_def container_def)
  ultimately show thesis
    using jt' by (intro that [of "jt'\<lparr>jt_st := length (jt_nv jt) # jt_st jt'\<rparr>"]) simp_all
qed

lemma jt_parse_string_inv:
  assumes "jt_inv jt" "txt \<le> e" "e \<le> length (jt_buf jt)" "length (jt_nv jt) + 1 < 2 ^ 24"
  obtains jt' where "jt_parse_string txt e jt = Some jt'" "jt_inv jt'" "length (jt_nv jt') \<le> length (jt_nv jt) + 2"
    "jt_st jt' = jt_st jt" "jt_buf jt' = jt_buf jt"
proof -
  define n where "n = \<lparr>jn_type = e_val, jn_next = 0, jn_h = txt, jn_t = e - txt\<rparr>"
  obtain jt' where "jt_add (length (jt_nv jt)) (push_node n jt) = Some jt'" "jt_inv jt'"
    "length (jt_nv jt') \<le> length (jt_nv jt) + 2" "jt_st jt' = jt_st jt" "jt_buf jt' = jt_buf jt"
    by (rule jt_add_inv [of jt n]) (use assms in \<open>auto simp: n_def container_def\<close>)
  then show thesis
    by (intro that [of jt']) (simp_all add: jt_parse_string_def new_node_push n_def)
qed

lemma jt_parse_key_inv:
  assumes "jt_inv jt" "txt \<le> e" "e \<le> length (jt_buf jt)"
  shows "jt_inv (jt_parse_key txt e jt)" "length (jt_nv (jt_parse_key txt e jt)) = length (jt_nv jt) + 1"
    "jt_st (jt_parse_key txt e jt) = jt_st jt" "jt_buf (jt_parse_key txt e jt) = jt_buf jt"
proof -
  define n where "n = \<lparr>jn_type = e_val, jn_next = 0, jn_h = txt, jn_t = e - txt\<rparr>"
  have "jt_inv (push_node n jt)"
    by (rule jt_inv_push) (use assms in \<open>auto simp: n_def node_ok_def container_def\<close>)
  then show "jt_inv (jt_parse_key txt e jt)"
    by (simp add: jt_parse_key_def new_node_push jt_inv_def n_def)
qed (simp_all add: jt_parse_key_def new_node_push)

section \<open>Bracket depth\<close>

text \<open>A reference scanner that only counts the open brackets: \<open>None\<close> when a bracket is closed that was
  never opened.  A token ends at the first character that does not belong to it, and that character is
  read again outside of the token.\<close>

datatype lex = LStart | LString | LPeek | LNumber | LKeyword

fun token_ends :: "lex \<Rightarrow> char \<Rightarrow> bool" where
  "token_ends LStart c = True"
| "token_ends LString c = False"
| "token_ends LPeek c = (\<not> is_space c)"
| "token_ends LNumber c = (\<not> number_char c)"
| "token_ends LKeyword c = (\<not> is_alpha c)"

definition token_start :: "char \<Rightarrow> lex" where
  "token_start c =
     (if c = CHR 0x22 then LString else if c = CHR ''-'' \<or> c = CHR ''.'' \<or> is_digit c then LNumber
      else if c = CHR ''t'' \<or> c = CHR ''f'' \<or> c = CHR ''n'' then LKeyword else LStart)"

fun jdepth :: "lex \<Rightarrow> nat \<Rightarrow> string \<Rightarrow> nat option" where
  "jdepth st d [] = Some d"
| "jdepth st d (c # cs) =
     (if token_ends st c then
        (if c = CHR ''{'' \<or> c = CHR ''['' then jdepth LStart (d + 1) cs
         else if c = CHR ''}'' \<or> c = CHR '']'' then (if d = 0 then None else jdepth LStart (d - 1) cs)
         else jdepth (token_start c) d cs)
      else jdepth (if st = LString \<and> c = CHR 0x22 then LPeek else st) d cs)"

fun lex_of :: "pstate \<Rightarrow> lex" where
  "lex_of PStart = LStart"
| "lex_of (PString _) = LString"
| "lex_of (PPeek _ _) = LPeek"
| "lex_of (PNumber _) = LNumber"
| "lex_of (PKeyword _) = LKeyword"

fun pos_ok :: "nat \<Rightarrow> pstate \<Rightarrow> bool" where
  "pos_ok pos PStart = True"
| "pos_ok pos (PString t) = (t \<le> pos)"
| "pos_ok pos (PPeek t e) = (t \<le> e \<and> e \<le> pos)"
| "pos_ok pos (PNumber t) = (t \<le> pos)"
| "pos_ok pos (PKeyword t) = (t \<le> pos)"

definition loop_inv :: "string \<Rightarrow> string \<Rightarrow> nat \<Rightarrow> pstate \<Rightarrow> jtree \<Rightarrow> bool" where
  "loop_inv s cs pos st jt \<longleftrightarrow> jt_inv jt \<and> jt_buf jt = s \<and> pos + length cs = length s \<and> pos_ok pos st \<and>
     length (jt_nv jt) + (if st = PStart then 0 else 2) \<le> 1 + 2 * pos"

definition parsed_ok :: "string \<Rightarrow> nat option \<Rightarrow> jtree option \<Rightarrow> bool" where
  "parsed_ok s d r = (case d of None \<Rightarrow> r = None
     | Some d \<Rightarrow> (\<exists>jt. r = Some jt \<and> jt_inv jt \<and> jt_buf jt = s \<and> length (jt_st jt) = d))"

lemma loop_inv_next:
  "loop_inv s (c # cs) pos st jt \<Longrightarrow> pos_ok (pos + 1) st' \<Longrightarrow> loop_inv s cs (pos + 1) st' jt"
  by (auto simp: loop_inv_def split: if_splits)

lemma jdepth_token_end: "token_ends st c \<Longrightarrow> jdepth st d (c # cs) = jdepth LStart d (c # cs)"
  by simp

lemma token_end_string:
  assumes inv: "loop_inv s (c # cs) pos st jt" "st \<noteq> PStart" and len: "length s < 2 ^ 22"
    and tok: "txt \<le> e" "e \<le> pos"
  obtains jt' where "jt_parse_string txt e jt = Some jt'" "loop_inv s (c # cs) pos PStart jt'" "jt_st jt' = jt_st jt"
proof -
  have *: "jt_inv jt" "e \<le> length (jt_buf jt)" "length (jt_nv jt) + 1 < 2 ^ 24"
    using inv len tok by (auto simp: loop_inv_def)
  obtain jt' where "jt_parse_string txt e jt = Some jt'" "jt_inv jt'" "length (jt_nv jt') \<le> length (jt_nv jt) + 2"
    "jt_st jt' = jt_st jt" "jt_buf jt' = jt_buf jt"
    by (rule jt_parse_string_inv [OF *(1) tok(1) *(2,3)])
  then show thesis
    using inv by (intro that [of jt']) (auto simp: loop_inv_def)
qed

lemma open_bracket:
  assumes inv: "loop_inv s (c # cs) pos PStart jt" and len: "length s < 2 ^ 22" and ty: "ty = e_obj \<or> ty = e_arr"
  obtains jt' where "jt_parse_start ty jt = Some jt'" "loop_inv s cs (pos + 1) PStart jt'"
    "length (jt_st jt') = Suc (length (jt_st jt))"
proof -
  have *: "jt_inv jt" "length (jt_nv jt) + 1 < 2 ^ 24"
    using inv len by (auto simp: loop_inv_def)
  obtain jt' where "jt_parse_start ty jt = Some jt'" "jt_inv jt'" "length (jt_nv jt') \<le> length (jt_nv jt) + 2"
    "length (jt_st jt') = Suc (length (jt_st jt))" "jt_buf jt' = jt_buf jt"
    by (rule jt_parse_start_inv [OF *(1) ty *(2)])
  then show thesis
    using inv by (intro that [of jt']) (auto simp: loop_inv_def)
qed

lemma close_bracket:
  "loop_inv s (c # cs) pos PStart jt \<Longrightarrow> jt_st jt = x # xs \<Longrightarrow>
    loop_inv s cs (pos + 1) PStart (jt\<lparr>jt_st := xs\<rparr>)"
  by (auto simp: loop_inv_def jt_inv_def)

lemma jt_parse_loop_ok:
  "loop_inv s cs pos st jt \<Longrightarrow> length s < 2 ^ 22 \<Longrightarrow>
    parsed_ok s (jdepth (lex_of st) (length (jt_st jt)) cs) (jt_parse_loop cs pos st jt)"
proof (induction cs pos st jt rule: jt_parse_loop.induct)
  case (1 pos st jt)
  then show ?case by (simp add: parsed_ok_def loop_inv_def)
next
  case (2 c cs pos jt)
  note next_inv = loop_inv_next [OF 2(9)]
  have close: "\<exists>jt'. jt_parse_end jt = Some jt' \<and> loop_inv s cs (pos + 1) PStart jt' \<and> length (jt_st jt') = d"
    if "length (jt_st jt) = Suc d" for d
    using that close_bracket [OF 2(9)] by (cases "jt_st jt") (simp_all add: jt_parse_end_def)
  consider "c = CHR ''{''" | "c = CHR ''[''" | "c = CHR ''}''" | "c = CHR '']''"
    | "c \<notin> {CHR ''{'', CHR ''['', CHR ''}'', CHR '']''}" by blast
  then show ?case
  proof cases
    case 1
    obtain jt' where "jt_parse_start e_obj jt = Some jt'" "loop_inv s cs (pos + 1) PStart jt'"
      "length (jt_st jt') = Suc (length (jt_st jt))"
      by (rule open_bracket [OF 2(9,10), of e_obj]) simp_all
    with 1 2(1) [of jt'] 2(10) show ?thesis by (simp add: jt_parse_start_object_def)
  next
    case c: 2
    obtain jt' where "jt_parse_start e_arr jt = Some jt'" "loop_inv s cs (pos + 1) PStart jt'"
      "length (jt_st jt') = Suc (length (jt_st jt))"
      by (rule open_bracket [OF 2(9,10), of e_arr]) simp_all
    with c 2(2) [of jt'] 2(10) show ?thesis by (simp add: jt_parse_start_array_def)
  next
    case 3
    show ?thesis
    proof (cases "length (jt_st jt)")
      case 0
      with \<open>c = _\<close> show ?thesis by (simp add: jt_parse_end_def parsed_ok_def)
    next
      case (Suc d)
      then obtain jt' where "jt_parse_end jt = Some jt'" "loop_inv s cs (pos + 1) PStart jt'" "length (jt_st jt') = d"
        using close by blast
      with \<open>c = _\<close> Suc 2(3) [of jt'] 2(10) show ?thesis by simp
    qed
  next
    case 4
    show ?thesis
    proof (cases "length (jt_st jt)")
      case 0
      with \<open>c = _\<close> show ?thesis by (simp add: jt_parse_end_def parsed_ok_def)
    next
      case (Suc d)
      then obtain jt' where "jt_parse_end jt = Some jt'" "loop_inv s cs (pos + 1) PStart jt'" "length (jt_st jt') = d"
        using close by blast
      with \<open>c = _\<close> Suc 2(4) [of jt'] 2(10) show ?thesis by simp
    qed
  next
    case 5
    then have d: "jdepth LStart n (c # cs) = jdepth (token_start c) n cs" for n by simp
    consider "c = CHR 0x22" | "c \<noteq> CHR 0x22" "c = CHR ''-'' \<or> c = CHR ''.'' \<or> is_digit c"
      | "c \<noteq> CHR 0x22" "\<not> (c = CHR ''-'' \<or> c = CHR ''.'' \<or> is_digit c)" "c = CHR ''t'' \<or> c = CHR ''f'' \<or> c = CHR ''n''"
      | "c \<noteq> CHR 0x22" "\<not> (c = CHR ''-'' \<or> c = CHR ''.'' \<or> is_digit c)" "\<not> (c = CHR ''t'' \<or> c = CHR ''f'' \<or> c = CHR ''n'')"
      by blast
    then show ?thesis
    proof cases
      case 1
      with 5 2(5,10) next_inv [of "PString (pos + 1)"] d show ?thesis
        by (simp add: token_start_def del: jdepth.simps)
    next
      case tok: 2
      with 5 2(6,10) next_inv [of "PNumber pos"] d show ?thesis
        by (simp add: token_start_def del: jdepth.simps)
    next
      case 3
      with 5 2(7,10) next_inv [of "PKeyword pos"] d show ?thesis
        by (simp add: token_start_def del: jdepth.simps)
    next
      case 4
      with 5 2(8,10) next_inv [of PStart] d show ?thesis
        by (simp add: token_start_def del: jdepth.simps)
    qed
  qed
next
  case (3 c cs pos t jt)
  have tok: "t \<le> pos" using 3(3) by (auto simp: loop_inv_def)
  then show ?case
    using 3(1,2,4) loop_inv_next [OF 3(3), of "PPeek t pos"] loop_inv_next [OF 3(3), of "PString t"]
    by (cases "c = CHR 0x22") simp_all
next
  case (4 c cs pos t e jt)
  have tok: "t \<le> e" "e \<le> pos" using 4(4) by (auto simp: loop_inv_def)
  consider "c = CHR '':''" | "c \<noteq> CHR '':''" "\<not> is_space c" | "c \<noteq> CHR '':''" "is_space c" by blast
  then show ?case
  proof cases
    case 1
    have el: "jt_inv jt" "e \<le> length (jt_buf jt)" using 4(4) tok by (auto simp: loop_inv_def)
    note k = jt_parse_key_inv [OF el(1) tok(1) el(2)]
    have "loop_inv s (c # cs) pos PStart (jt_parse_key t e jt)"
      using 4(4) k by (auto simp: loop_inv_def)
    moreover have "token_ends LPeek c" using 1 by (simp add: is_space_def)
    ultimately show ?thesis
      using 4(1) 4(5) 1 k(3) by (simp add: jdepth_token_end [of LPeek] del: jdepth.simps)
  next
    case 2
    obtain jt' where "jt_parse_string t e jt = Some jt'" "loop_inv s (c # cs) pos PStart jt'"
      "jt_st jt' = jt_st jt"
      by (rule token_end_string [OF 4(4) _ 4(5) tok]) simp
    then show ?thesis
      using 4(2) [of jt'] 4(5) 2 jdepth_token_end [of LPeek c] by (simp del: jdepth.simps)
  next
    case 3
    then show ?thesis
      using 4(3) 4(5) loop_inv_next [OF 4(4)] tok by simp
  qed
next
  case (5 c cs pos t jt)
  have tok: "t \<le> pos" using 5(3) by (auto simp: loop_inv_def)
  show ?case
  proof (cases "number_char c")
    case True
    then show ?thesis using 5(2,4) loop_inv_next [OF 5(3)] tok by simp
  next
    case False
    obtain jt' where "jt_parse_string t pos jt = Some jt'" "loop_inv s (c # cs) pos PStart jt'"
      "jt_st jt' = jt_st jt"
      by (rule token_end_string [OF 5(3) _ 5(4) tok]) simp_all
    then show ?thesis
      using 5(1) [of jt'] 5(4) False jdepth_token_end [of LNumber c] by (simp del: jdepth.simps)
  qed
next
  case (6 c cs pos t jt)
  have tok: "t \<le> pos" using 6(3) by (auto simp: loop_inv_def)
  show ?case
  proof (cases "is_alpha c")
    case True
    then show ?thesis using 6(2,4) loop_inv_next [OF 6(3)] tok by simp
  next
    case False
    obtain jt' where "jt_parse_string t pos jt = Some jt'" "loop_inv s (c # cs) pos PStart jt'"
      "jt_st jt' = jt_st jt"
      by (rule token_end_string [OF 6(3) _ 6(4) tok]) simp_all
    then show ?thesis
      using 6(1) [of jt'] 6(4) False jdepth_token_end [of LKeyword c] by (simp del: jdepth.simps)
  qed
qed

section \<open>Lookup\<close>

lemma jt_find_loop_ok:
  assumes "jt_inv jt" "it < length (jt_nv jt)"
  shows "\<exists>v < length (jt_nv jt). jt_find_loop jt k it = Some v \<and> (v \<noteq> 0 \<longrightarrow> jn_type (jt_nv jt ! v) \<noteq> e_keyval)"
  using assms(2)
proof (induction "length (jt_nv jt) - it" arbitrary: it rule: less_induct)
  case less
  define n where "n = jt_nv jt ! it"
  have ne: "0 < length (jt_nv jt)" using less.prems by linarith
  have ok: "node_ok (length (jt_buf jt)) (jt_nv jt) it n"
    using assms(1) less.prems by (simp add: jt_inv_def n_def)
  show ?case
  proof (cases "it \<noteq> 0 \<and> jn_type n = e_keyval")
    case True
    then have kv: "jn_h n < it" "jn_type (jt_nv jt ! jn_h n) = e_val" "jn_t n < it"
      "jn_type (jt_nv jt ! jn_t n) \<noteq> e_keyval" using ok by (auto simp: node_ok_def)
    then have "jn_h (jt_nv jt ! jn_h n) + jn_t (jt_nv jt ! jn_h n) \<le> length (jt_buf jt)"
      using assms(1) less.prems by (auto simp: jt_inv_def node_ok_def)
    then obtain str where str: "jt_get_str jt (jn_h n) = Some str"
      using kv less.prems by (simp add: jt_get_str_def rd_def)
    have step: "jt_find_loop jt k it = (if k = str then Some (jn_t n) else jt_find_loop jt k (jn_next n))"
      using True less.prems str
      by (subst jt_find_loop.simps)
        (simp add: jt_get_type_def jt_get_key_def jt_get_val_def jt_get_next_def rd_def n_def)
    show ?thesis
    proof (cases "k = str \<or> jn_next n = 0")
      case True
      have "jt_find_loop jt k 0 = Some 0" by (subst jt_find_loop.simps) simp
      then show ?thesis using True step kv less.prems ne by (cases "k = str") auto
    next
      case False
      then have "it < jn_next n" "jn_next n < length (jt_nv jt)" using ok by (auto simp: node_ok_def)
      then show ?thesis using less.hyps [of "jn_next n"] False step by simp
    qed
  next
    case False
    then have "jt_find_loop jt k it = Some 0"
      using less.prems by (subst jt_find_loop.simps) (auto simp: jt_get_type_def rd_def n_def)
    then show ?thesis using ne by auto
  qed
qed

lemma jt_parse_ok: "length s < 2 ^ 22 \<Longrightarrow> parsed_ok s (jdepth LStart 0 s) (jt_parse s)"
  using jt_parse_loop_ok [of s s 0 PStart "jtree_start s"]
  by (simp add: jt_parse_def loop_inv_def jt_inv_start) (simp add: jtree_start_def)

section \<open>Results\<close>

text \<open>(C15) For every text of less than four megabytes: the parser pops its stack
  when it is empty, which is undefined behaviour, exactly if the text closes a bracket that it did not
  open; otherwise it returns a tree over the text in which every link points forward inside the node
  vector, every value node is a slice of the text, and the number of open containers is the bracket
  depth, so that \<open>is_valid\<close> holds exactly if all brackets are closed and there is a node.\<close>

theorem jtree_parse_invariant:
  assumes "length s < 2 ^ 22"
  shows "case jdepth LStart 0 s of
      None \<Rightarrow> jt_parse s = None
    | Some d \<Rightarrow> \<exists>jt. jt_parse s = Some jt \<and> jt_inv jt \<and> jt_buf jt = s \<and>
        (jt_is_valid jt \<longleftrightarrow> d = 0 \<and> length (jt_nv jt) > 1)"
  using jt_parse_ok [OF assms] by (auto simp: parsed_ok_def jt_is_valid_def split: option.splits)

theorem jtree_parse_invariant_witness:
  "jt_parse ''{}}'' = None \<and> jdepth LStart 0 ''{}}'' = None \<and>
   (\<exists>jt. jt_parse ''[1]'' = Some jt \<and> jt_inv jt \<and> jt_buf jt = ''[1]'' \<and>
     (jt_is_valid jt \<longleftrightarrow> length (jt_nv jt) > 1))"
proof -
  have d: "jdepth LStart 0 ''{}}'' = None" "jdepth LStart 0 ''[1]'' = Some 0" by code_simp+
  show ?thesis
    using jtree_parse_invariant [of "''{}}''"] jtree_parse_invariant [of "''[1]''"] d by simp
qed

text \<open>(C16) Looking up a key in an object or array of a parsed text ends, without
  an access outside the nodes or the text, and returns the index of a node that is not a key/value
  pair, or 0.\<close>

theorem jtree_find_terminates:
  assumes "length s < 2 ^ 22" "jt_parse s = Some jt" "i < length (jt_nv jt)" "container (jt_nv jt ! i)"
  shows "\<exists>v < length (jt_nv jt). jt_find_val jt i k = Some v \<and> (v \<noteq> 0 \<longrightarrow> jt_get_type jt v \<noteq> Some e_keyval)"
proof -
  have inv: "jt_inv jt"
    using jt_parse_ok [OF assms(1)] assms(2) by (auto simp: parsed_ok_def split: option.splits)
  then have "jn_h (jt_nv jt ! i) < length (jt_nv jt)"
    using assms(3,4) by (auto simp: jt_inv_def node_ok_def)
  from jt_find_loop_ok [OF inv this, of k] assms(3) show ?thesis
    by (auto simp: jt_find_val_def jt_get_first_def jt_get_type_def rd_def)
qed

theorem jtree_find_terminates_witness:
  "\<exists>jt v. jt_parse ''{\"id\":7,\"m\":8}'' = Some jt \<and> jt_find_val jt 1 ''id'' = Some v \<and>
     jt_get_str jt v = Some ''7'' \<and> v < length (jt_nv jt)"
proof -
  define s where "s = ''{\"id\":7,\"m\":8}''"
  define jt where "jt = the (jt_parse s)"
  have jt: "jt_parse s = Some jt" "length (jt_nv jt) = 8" "container (jt_nv jt ! 1)"
    "jt_get_str jt 3 = Some ''7''" "jt_find_val jt 1 ''id'' = Some 3"
    unfolding jt_def s_def by code_simp+
  have "length s < 2 ^ 22" by (simp add: s_def)
  from jtree_find_terminates [OF this jt(1), of 1 "''id''"] jt show ?thesis
    by (auto simp: s_def)
qed

end
