(* ===== verification/Net_Wtr.thy ===== *)
theory Net_Wtr
  imports Text_Codec
begin

text \<open>
  The network message writer of the client, \<open>net_wtr\<close> in \<open>pc/net_socket.cpp\<close>, and the HTTP message
  builders on top of it.  A writer owns a chain of fixed-size buffers; text is appended to the last
  one and a new buffer is chained when it is full.  A chain has exactly one owner at any time
  (\<open>detach\<close> hands it over), so it is modelled as the list of the contents of its buffers; the cache of
  free buffers behind \<open>net_buf::alloc\<close> is not modelled.  Writing through the null pointer of a
  detached writer, or outside a buffer, is \<open>None\<close>.
\<close>

named_theorems nw_defs "definitions of the writer operations"

section \<open>Writer\<close>

definition NET_BUF_LEN :: nat where
  "NET_BUF_LEN = 1270"

text \<open>\<open>wt_hd\<close> are the buffers before the last, \<open>wt_tl\<close> is the last one, \<open>None\<close> after \<open>detach\<close>.\<close>

record net_wtr =
  wt_hd :: "string list"
  wt_tl :: "string option"
  wt_sz :: nat

definition nw_reset :: "'a net_wtr_scheme \<Rightarrow> 'a net_wtr_scheme" where [nw_defs]:
  "nw_reset w = w\<lparr>wt_hd := [], wt_tl := Some [], wt_sz := 0\<rparr>"

definition nw_new :: net_wtr where [nw_defs]:
  "nw_new = \<lparr>wt_hd = [], wt_tl = Some [], wt_sz = 0\<rparr>"

text \<open>\<open>detach\<close> returns the chain.\<close>

definition nw_detach :: "'a net_wtr_scheme \<Rightarrow> (string list \<times> 'a net_wtr_scheme) option" where [nw_defs]:
  "nw_detach w =
     (case wt_tl w of None \<Rightarrow> None
      | Some t \<Rightarrow> Some (wt_hd w @ [t], w\<lparr>wt_hd := [], wt_tl := None, wt_sz := 0\<rparr>))"

definition nw_alloc :: "'a net_wtr_scheme \<Rightarrow> 'a net_wtr_scheme option" where [nw_defs]:
  "nw_alloc w =
     (case wt_tl w of None \<Rightarrow> None
      | Some t \<Rightarrow> Some (w\<lparr>wt_hd := wt_hd w @ [t], wt_tl := Some [], wt_sz := wt_sz w + length t\<rparr>))"

text \<open>Copying behind the text of the last buffer and advancing its size.\<close>

definition nw_put :: "string \<Rightarrow> 'a net_wtr_scheme \<Rightarrow> 'a net_wtr_scheme option" where [nw_defs]:
  "nw_put s w =
     (case wt_tl w of None \<Rightarrow> None
      | Some t \<Rightarrow> if length t + length s \<le> NET_BUF_LEN then Some (w\<lparr>wt_tl := Some (t @ s)\<rparr>) else None)"

definition tail_size :: "'a net_wtr_scheme \<Rightarrow> nat option" where [nw_defs]:
  "tail_size w = map_option length (wt_tl w)"

function nw_add_alloc :: "string \<Rightarrow> 'a net_wtr_scheme \<Rightarrow> 'a net_wtr_scheme option" where
  "nw_add_alloc s w =
     (if s = [] then Some w
      else do { n \<leftarrow> tail_size w;
                w \<leftarrow> (if n = NET_BUF_LEN then nw_alloc w else Some w);
                n \<leftarrow> tail_size w;
                let mlen = min (NET_BUF_LEN - n) (length s);
                if mlen = 0 then None
                else do { w \<leftarrow> nw_put (take mlen s) w; nw_add_alloc (drop mlen s) w } })"
  by pat_completeness auto
termination by (relation "measure (\<lambda>(s, w). length s)") auto

declare nw_add_alloc.simps [simp del]

definition nw_add_str :: "string \<Rightarrow> 'a net_wtr_scheme \<Rightarrow> 'a net_wtr_scheme option" where [nw_defs]:
  "nw_add_str s w =
     do { n \<leftarrow> tail_size w;
          if n + length s \<le> NET_BUF_LEN then nw_put s w else nw_add_alloc s w }"

definition nw_add_char :: "char \<Rightarrow> 'a net_wtr_scheme \<Rightarrow> 'a net_wtr_scheme option" where [nw_defs]:
  "nw_add_char c w =
     do { n \<leftarrow> tail_size w; w \<leftarrow> (if n = NET_BUF_LEN then nw_alloc w else Some w); nw_put [c] w }"

definition nw_size :: "'a net_wtr_scheme \<Rightarrow> nat option" where [nw_defs]:
  "nw_size w = do { n \<leftarrow> tail_size w; Some (wt_sz w + n) }"

text \<open>Appending another writer: its first buffer is merged into the last one if it fits, otherwise the
  chain is linked.\<close>

definition nw_add_wtr :: "'b net_wtr_scheme \<Rightarrow> 'a net_wtr_scheme \<Rightarrow> ('a net_wtr_scheme \<times> 'b net_wtr_scheme) option" where
  [nw_defs]: "nw_add_wtr buf w =
     do { n \<leftarrow> tail_size w;
          bsz \<leftarrow> nw_size buf;
          let sz = wt_sz w + (n + bsz);
          (bufs, buf) \<leftarrow> nw_detach buf;
          t \<leftarrow> wt_tl w;
          let b = hd bufs;
          let e = last bufs;
          let w = (if n + length b \<le> NET_BUF_LEN then
                     (if length bufs = 1 then w\<lparr>wt_tl := Some (t @ b)\<rparr>
                      else w\<lparr>wt_hd := wt_hd w @ (t @ b) # butlast (tl bufs), wt_tl := Some e\<rparr>)
                   else w\<lparr>wt_hd := wt_hd w @ t # butlast bufs, wt_tl := Some e\<rparr>);
          Some (w\<lparr>wt_sz := sz - length e\<rparr>, buf) }"

text \<open>\<open>reserve\<close> returns a null pointer for more than a buffer; what the callers write there is then
  undefined.  \<open>nw_fill len s\<close> is the pattern of all callers: reserve \<open>len\<close> bytes, write \<open>s\<close>, advance.\<close>

definition nw_reserve :: "nat \<Rightarrow> 'a net_wtr_scheme \<Rightarrow> 'a net_wtr_scheme option" where [nw_defs]:
  "nw_reserve len w =
     (if len > NET_BUF_LEN then None
      else do { n \<leftarrow> tail_size w; if n + len > NET_BUF_LEN then nw_alloc w else Some w })"

definition nw_fill :: "nat \<Rightarrow> string \<Rightarrow> 'a net_wtr_scheme \<Rightarrow> 'a net_wtr_scheme option" where [nw_defs]:
  "nw_fill len s w = do { w \<leftarrow> nw_reserve len w; if length s \<le> len then nw_put s w else None }"

section \<open>HTTP messages\<close>

definition crlf :: string where
  "crlf = [CHR 13, CHR 10]"

definition http_request_init :: "string \<Rightarrow> string \<Rightarrow> 'a net_wtr_scheme \<Rightarrow> 'a net_wtr_scheme option" where
  "http_request_init m endpoint w =
     do { w \<leftarrow> nw_add_str m w; w \<leftarrow> nw_add_char CHR '' '' w; w \<leftarrow> nw_add_str endpoint w;
          nw_add_str ('' HTTP/1.1'' @ crlf) w }"

definition add_hdr :: "string \<Rightarrow> string \<Rightarrow> 'a net_wtr_scheme \<Rightarrow> 'a net_wtr_scheme option" where
  "add_hdr hdr val w =
     do { w \<leftarrow> nw_add_str hdr w; w \<leftarrow> nw_add_char CHR '':'' w; w \<leftarrow> nw_add_char CHR '' '' w;
          w \<leftarrow> nw_add_str val w; w \<leftarrow> nw_add_char (CHR 13) w; nw_add_char (CHR 10) w }"

definition add_hdr_uint :: "string \<Rightarrow> u64 \<Rightarrow> 'a net_wtr_scheme \<Rightarrow> 'a net_wtr_scheme option" where
  "add_hdr_uint hdr val w =
     do { w \<leftarrow> nw_add_str hdr w; w \<leftarrow> nw_add_char CHR '':'' w; w \<leftarrow> nw_add_char CHR '' '' w;
          w \<leftarrow> nw_fill 32 (uint_to_str val) w; w \<leftarrow> nw_add_char (CHR 13) w; nw_add_char (CHR 10) w }"

definition http_commit_wtr :: "'b net_wtr_scheme \<Rightarrow> 'a net_wtr_scheme \<Rightarrow> ('a net_wtr_scheme \<times> 'b net_wtr_scheme) option" where
  "http_commit_wtr buf w =
     do { n \<leftarrow> nw_size buf; w \<leftarrow> add_hdr_uint ''Content-Length'' (of_nat n) w;
          w \<leftarrow> nw_add_char (CHR 13) w; w \<leftarrow> nw_add_char (CHR 10) w; nw_add_wtr buf w }"

definition http_commit :: "'a net_wtr_scheme \<Rightarrow> 'a net_wtr_scheme option" where
  "http_commit w =
     do { w \<leftarrow> add_hdr ''Content-Length'' ''0'' w; w \<leftarrow> nw_add_char (CHR 13) w; nw_add_char (CHR 10) w }"

definition http_response_init :: "string \<Rightarrow> string \<Rightarrow> 'a net_wtr_scheme \<Rightarrow> 'a net_wtr_scheme option" where
  "http_response_init code m w =
     do { w \<leftarrow> nw_add_str ''HTTP/1.1 '' w; w \<leftarrow> nw_add_str code w; w \<leftarrow> nw_add_char CHR '' '' w;
          w \<leftarrow> nw_add_str m w; w \<leftarrow> nw_add_char (CHR 13) w; nw_add_char (CHR 10) w }"

section \<open>Contents and invariant\<close>

definition nw_text :: "'a net_wtr_scheme \<Rightarrow> string" where
  "nw_text w = concat (wt_hd w) @ (case wt_tl w of None \<Rightarrow> [] | Some t \<Rightarrow> t)"

text \<open>Buffers are within their size.  \<open>nw_inv\<close> asks that \<open>sz_\<close> counts the buffers before the last.\<close>

definition nw_bufs :: "'a net_wtr_scheme \<Rightarrow> bool" where
  "nw_bufs w \<longleftrightarrow> (\<exists>t. wt_tl w = Some t \<and> length t \<le> NET_BUF_LEN) \<and> (\<forall>b \<in> set (wt_hd w). length b \<le> NET_BUF_LEN)"

definition nw_inv :: "'a net_wtr_scheme \<Rightarrow> bool" where
  "nw_inv w \<longleftrightarrow> nw_bufs w \<and> wt_sz w = length (concat (wt_hd w))"

text \<open>\<open>appends f s\<close>: the operation \<open>f\<close> succeeds on every writer and appends \<open>s\<close>, keeping the size right
  where it was, and nothing but the writer part changes.\<close>

definition appends :: "('a net_wtr_scheme \<Rightarrow> 'a net_wtr_scheme option) \<Rightarrow> string \<Rightarrow> bool" where
  "appends f s \<longleftrightarrow> (\<forall>w. nw_bufs w \<longrightarrow>
     (\<exists>w'. f w = Some w' \<and> nw_bufs w' \<and> nw_text w' = nw_text w @ s \<and> (nw_inv w \<longrightarrow> nw_inv w') \<and>
       net_wtr.more w' = net_wtr.more w))"

lemma appendsD:
  assumes "appends f s" "nw_bufs w"
  obtains w' where "f w = Some w'" "nw_bufs w'" "nw_text w' = nw_text w @ s" "nw_inv w \<Longrightarrow> nw_inv w'"
    "net_wtr.more w' = net_wtr.more w"
  using assms unfolding appends_def by blast

lemma appendsE:
  assumes "appends f s" "nw_bufs w"
  obtains w' where "f w = Some w'" "nw_bufs w'" "nw_text w' = nw_text w @ s" "net_wtr.more w' = net_wtr.more w"
  using appendsD [OF assms] by blast

lemma appends_id: "appends Some []"
  by (simp add: appends_def)

lemma appends_bind:
  assumes "appends f s" "appends g t"
  shows "appends (\<lambda>w. f w \<bind> g) (s @ t)"
  unfolding appends_def
proof (intro allI impI)
  fix w :: "'a net_wtr_scheme"
  assume w: "nw_bufs w"
  show "\<exists>w'. f w \<bind> g = Some w' \<and> nw_bufs w' \<and> nw_text w' = nw_text w @ s @ t \<and> (nw_inv w \<longrightarrow> nw_inv w') \<and>
       net_wtr.more w' = net_wtr.more w"
    by (rule appendsD [OF assms(1) w], rule appendsD [OF assms(2)]) auto
qed

lemma nw_put_ok:
  assumes "nw_bufs w" "wt_tl w = Some t" "length t + length s \<le> NET_BUF_LEN"
  obtains w' where "nw_put s w = Some w'" "nw_bufs w'" "nw_text w' = nw_text w @ s" "nw_inv w \<Longrightarrow> nw_inv w'"
    "net_wtr.more w' = net_wtr.more w" "wt_tl w' = Some (t @ s)"
  using assms by (intro that [of "w\<lparr>wt_tl := Some (t @ s)\<rparr>"])
    (auto simp: nw_put_def nw_bufs_def nw_text_def nw_inv_def)

lemma nw_alloc_ok:
  assumes "nw_bufs w"
  obtains w' where "nw_alloc w = Some w'" "nw_bufs w'" "nw_text w' = nw_text w" "nw_inv w \<Longrightarrow> nw_inv w'"
    "net_wtr.more w' = net_wtr.more w" "wt_tl w' = Some []"
proof -
  obtain t where t: "wt_tl w = Some t" using assms by (auto simp: nw_bufs_def)
  show thesis
    by (rule that [of "w\<lparr>wt_hd := wt_hd w @ [t], wt_tl := Some [], wt_sz := wt_sz w + length t\<rparr>"])
      (use assms t in \<open>auto simp: nw_alloc_def nw_bufs_def nw_text_def nw_inv_def\<close>)
qed

lemma nw_bufs_tail:
  assumes "nw_bufs w"
  obtains t where "wt_tl w = Some t" "length t \<le> NET_BUF_LEN" "tail_size w = Some (length t)"
  using assms by (auto simp: nw_bufs_def tail_size_def)

lemma nw_room:
  assumes "nw_bufs w"
  obtains w' t where "(do { n \<leftarrow> tail_size w; if n = NET_BUF_LEN then nw_alloc w else Some w }) = Some w'"
    "nw_bufs w'" "nw_text w' = nw_text w" "nw_inv w \<Longrightarrow> nw_inv w'" "net_wtr.more w' = net_wtr.more w"
    "wt_tl w' = Some t" "length t < NET_BUF_LEN"
proof -
  obtain t where t: "wt_tl w = Some t" "length t \<le> NET_BUF_LEN" "tail_size w = Some (length t)"
    using nw_bufs_tail [OF assms] by blast
  show thesis
  proof (cases "length t = NET_BUF_LEN")
    case True
    then show thesis
      by (rule_tac nw_alloc_ok [OF assms]) (rule that, use t in \<open>auto simp: NET_BUF_LEN_def\<close>)
  next
    case False
    then show thesis using that [of w t] assms t by auto
  qed
qed

lemma appends_char: "appends (nw_add_char c) [c]"
  unfolding appends_def
proof (intro allI impI)
  fix w :: "'a net_wtr_scheme"
  assume "nw_bufs w"
  then obtain w1 t where w1: "(do { n \<leftarrow> tail_size w; if n = NET_BUF_LEN then nw_alloc w else Some w }) = Some w1"
    "nw_bufs w1" "nw_text w1 = nw_text w" "nw_inv w \<Longrightarrow> nw_inv w1" "net_wtr.more w1 = net_wtr.more w"
    "wt_tl w1 = Some t" "length t < NET_BUF_LEN"
    using nw_room by metis
  obtain w2 where w2: "nw_put [c] w1 = Some w2" "nw_bufs w2" "nw_text w2 = nw_text w1 @ [c]" "nw_inv w1 \<Longrightarrow> nw_inv w2"
    "net_wtr.more w2 = net_wtr.more w1"
    using w1(7) by (auto intro: nw_put_ok [OF w1(2,6), of "[c]"])
  have "nw_add_char c w = Some w2"
    using w1(1) w2(1) by (auto simp: nw_add_char_def bind_eq_Some_conv)
  then show "\<exists>w'. nw_add_char c w = Some w' \<and> nw_bufs w' \<and> nw_text w' = nw_text w @ [c] \<and>
      (nw_inv w \<longrightarrow> nw_inv w') \<and> net_wtr.more w' = net_wtr.more w"
    using w1 w2 by auto
qed

lemma appends_add_alloc: "appends (nw_add_alloc s) s"
proof (induction s rule: length_induct)
  case (1 s)
  show ?case
  proof (cases "s = []")
    case True
    have "nw_add_alloc [] = (Some :: 'a net_wtr_scheme \<Rightarrow> _)" by (rule ext) (simp add: nw_add_alloc.simps)
    then show ?thesis using True by (simp add: appends_id)
  next
    case False
    show ?thesis unfolding appends_def
    proof (intro allI impI)
      fix w :: "'a net_wtr_scheme"
      assume "nw_bufs w"
      then obtain w1 t where w1: "(do { n \<leftarrow> tail_size w; if n = NET_BUF_LEN then nw_alloc w else Some w }) = Some w1"
        "nw_bufs w1" "nw_text w1 = nw_text w" "nw_inv w \<Longrightarrow> nw_inv w1" "net_wtr.more w1 = net_wtr.more w"
        "wt_tl w1 = Some t" "length t < NET_BUF_LEN"
        using nw_room by metis
      define m where "m = min (NET_BUF_LEN - length t) (length s)"
      have m: "0 < m" "m \<le> length s" "length t + length (take m s) \<le> NET_BUF_LEN"
        using w1(7) False by (auto simp: m_def)
      obtain w2 where w2: "nw_put (take m s) w1 = Some w2" "nw_bufs w2" "nw_text w2 = nw_text w1 @ take m s"
        "nw_inv w1 \<Longrightarrow> nw_inv w2" "net_wtr.more w2 = net_wtr.more w1"
        using nw_put_ok [OF w1(2,6) m(3)] by metis
      have "length (drop m s) < length s" using m by simp
      then have "appends (nw_add_alloc (drop m s) :: 'a net_wtr_scheme \<Rightarrow> _) (drop m s)" using 1 by blast
      from appendsD [OF this w2(2)] obtain w3 where w3: "nw_add_alloc (drop m s) w2 = Some w3" "nw_bufs w3"
        "nw_text w3 = nw_text w2 @ drop m s" "nw_inv w2 \<Longrightarrow> nw_inv w3" "net_wtr.more w3 = net_wtr.more w2"
        by metis
      have "nw_add_alloc s w =
          (do { n \<leftarrow> tail_size w; if n = NET_BUF_LEN then nw_alloc w else Some w }) \<bind>
          (\<lambda>w. do { n \<leftarrow> tail_size w;
                let mlen = min (NET_BUF_LEN - n) (length s);
                if mlen = 0 then None
                else do { w \<leftarrow> nw_put (take mlen s) w; nw_add_alloc (drop mlen s) w } })"
        using False by (subst nw_add_alloc.simps) simp
      also have "\<dots> = Some w3"
        unfolding w1(1) using w1(6) w2(1) w3(1) m(1)
        by (simp add: tail_size_def m_def [symmetric])
      finally have "nw_add_alloc s w = Some w3" .
      then show "\<exists>w'. nw_add_alloc s w = Some w' \<and> nw_bufs w' \<and> nw_text w' = nw_text w @ s \<and>
          (nw_inv w \<longrightarrow> nw_inv w') \<and> net_wtr.more w' = net_wtr.more w"
        using w1 w2 w3 by auto
    qed
  qed
qed

text \<open>The collection \<open>appends\<close> composes the appending operations.\<close>

named_theorems appends "operations that append a text"

declare appends_char [appends] appends_add_alloc [appends]

lemma appends_eq: "appends f s \<Longrightarrow> s = t \<Longrightarrow> appends f t"
  by simp

lemma appends_str [appends]: "appends (nw_add_str s) s"
  unfolding appends_def
proof (intro allI impI)
  fix w :: "'a net_wtr_scheme"
  assume w: "nw_bufs w"
  obtain t where t: "wt_tl w = Some t" "length t \<le> NET_BUF_LEN" "tail_size w = Some (length t)"
    using nw_bufs_tail [OF w] by blast
  show "\<exists>w'. nw_add_str s w = Some w' \<and> nw_bufs w' \<and> nw_text w' = nw_text w @ s \<and> (nw_inv w \<longrightarrow> nw_inv w') \<and>
      net_wtr.more w' = net_wtr.more w"
  proof (cases "length t + length s \<le> NET_BUF_LEN")
    case True
    then show ?thesis
      using nw_put_ok [OF w t(1) True] t(3) by (simp add: nw_add_str_def) metis
  next
    case False
    then show ?thesis
      using appendsD [OF appends_add_alloc [of s] w] t(3) by (simp add: nw_add_str_def) metis
  qed
qed

lemma appends_fill [appends]:
  assumes "length s \<le> len" "len \<le> NET_BUF_LEN"
  shows "appends (nw_fill len s) s"
  unfolding appends_def
proof (intro allI impI)
  fix w :: "'a net_wtr_scheme"
  assume w: "nw_bufs w"
  obtain t where t: "wt_tl w = Some t" "length t \<le> NET_BUF_LEN" "tail_size w = Some (length t)"
    using nw_bufs_tail [OF w] by blast
  show "\<exists>w'. nw_fill len s w = Some w' \<and> nw_bufs w' \<and> nw_text w' = nw_text w @ s \<and> (nw_inv w \<longrightarrow> nw_inv w') \<and>
      net_wtr.more w' = net_wtr.more w"
  proof (cases "length t + len \<le> NET_BUF_LEN")
    case True
    then have "length t + length s \<le> NET_BUF_LEN" using assms by simp
    from nw_put_ok [OF w t(1) this] show ?thesis
      using t(3) True assms by (simp add: nw_fill_def nw_reserve_def) metis
  next
    case False
    obtain w1 where w1: "nw_alloc w = Some w1" "nw_bufs w1" "nw_text w1 = nw_text w" "nw_inv w \<Longrightarrow> nw_inv w1"
      "net_wtr.more w1 = net_wtr.more w" "wt_tl w1 = Some []"
      using nw_alloc_ok [OF w] by metis
    obtain w2 where "nw_put s w1 = Some w2" "nw_bufs w2" "nw_text w2 = nw_text w1 @ s" "nw_inv w1 \<Longrightarrow> nw_inv w2"
      "net_wtr.more w2 = net_wtr.more w1"
      using nw_put_ok [OF w1(2,6), of s] assms by auto
    then show ?thesis
      using w1 t(3) False assms by (auto simp: nw_fill_def nw_reserve_def)
  qed
qed

lemma put_digits_bound: "0 < d \<Longrightarrow> n < 10 ^ d \<Longrightarrow> length (put_digits n s) \<le> d + length s"
proof (induction d arbitrary: n s rule: nat_induct_non_zero)
  case 1
  then show ?case by (subst put_digits.simps) (simp add: put_digits.simps [of 0])
next
  case (Suc d)
  have "n div 10 < 10 ^ d" using Suc.prems by (simp add: less_mult_imp_div_less)
  then have "length (put_digits (n div 10) (digit (n mod 10) # s)) \<le> d + (1 + length s)"
    using Suc.IH [of "n div 10" "digit (n mod 10) # s"] by simp
  then show ?case by (subst put_digits.simps) simp
qed

lemma uint_to_str_bound: "length (uint_to_str v) \<le> 20"
proof -
  have "unat v < 10 ^ 20" by (rule less_trans [OF unsigned_less]) simp
  then show ?thesis using put_digits_bound [of 20 "unat v" "[]"] by (simp add: uint_to_str_def)
qed

lemma appends_add_hdr [appends]: "appends (add_hdr h v) (h @ '': '' @ v @ crlf)"
  unfolding add_hdr_def crlf_def
  by (rule appends_eq, (rule appends_bind appends)+) simp

lemma appends_add_hdr_uint [appends]: "appends (add_hdr_uint h v) (h @ '': '' @ uint_to_str v @ crlf)"
proof -
  have *: "length (uint_to_str v) \<le> 32" "32 \<le> NET_BUF_LEN"
    using uint_to_str_bound [of v] by (simp_all add: NET_BUF_LEN_def)
  show ?thesis
    unfolding add_hdr_uint_def crlf_def
    by (rule appends_eq, (rule appends_bind appends_fill [OF *] appends)+) simp
qed

lemma appends_http_request_init [appends]:
  "appends (http_request_init m e) (m @ '' '' @ e @ '' HTTP/1.1'' @ crlf)"
  unfolding http_request_init_def
  by (rule appends_eq, (rule appends_bind appends)+) simp

lemma appends_http_response_init [appends]:
  "appends (http_response_init c m) (''HTTP/1.1 '' @ c @ '' '' @ m @ crlf)"
  unfolding http_response_init_def crlf_def
  by (rule appends_eq, (rule appends_bind appends)+) simp

lemma appends_http_commit [appends]: "appends http_commit (''Content-Length: 0'' @ crlf @ crlf)"
  unfolding http_commit_def
  by (rule appends_eq, (rule appends_bind appends)+) (simp add: crlf_def)

lemma nw_new_ok [simp]: "nw_bufs nw_new" "nw_inv nw_new" "nw_text nw_new = []"
  by (simp_all add: nw_new_def nw_bufs_def nw_inv_def nw_text_def)

lemma nw_size_text: "nw_inv w \<Longrightarrow> nw_size w = Some (length (nw_text w))"
  by (auto simp: nw_inv_def nw_bufs_def nw_size_def tail_size_def nw_text_def)

text \<open>Appending a writer.  The size of the result counts the last buffer of the writer twice when the
  appended writer consists of a single buffer that is merged.\<close>

definition merges :: "'b net_wtr_scheme \<Rightarrow> 'a net_wtr_scheme \<Rightarrow> bool" where
  "merges buf w \<longleftrightarrow> wt_hd buf = [] \<and> length (the (wt_tl w)) + length (the (wt_tl buf)) \<le> NET_BUF_LEN"

lemma nw_add_wtr_ok:
  assumes w: "nw_bufs w" and buf: "nw_inv buf"
  obtains w' buf' where "nw_add_wtr buf w = Some (w', buf')" "nw_bufs w'" "nw_text w' = nw_text w @ nw_text buf"
    "net_wtr.more w' = net_wtr.more w" "wt_tl buf' = None" "nw_text buf' = []"
    "wt_sz w' + length (concat (wt_hd w)) =
       wt_sz w + length (concat (wt_hd w')) + (if merges buf w then length (the (wt_tl w)) else 0)"
proof -
  obtain t where t: "wt_tl w = Some t" "length t \<le> NET_BUF_LEN" using w by (auto simp: nw_bufs_def)
  obtain u where u: "wt_tl buf = Some u" "length u \<le> NET_BUF_LEN" using buf by (auto simp: nw_inv_def nw_bufs_def)
  have bufs: "\<forall>b \<in> set (wt_hd w). length b \<le> NET_BUF_LEN" "\<forall>b \<in> set (wt_hd buf). length b \<le> NET_BUF_LEN"
    "wt_sz buf = length (concat (wt_hd buf))"
    using w buf by (auto simp: nw_inv_def nw_bufs_def)
  define buf' where "buf' = buf\<lparr>wt_hd := [], wt_tl := None, wt_sz := 0\<rparr>"
  have b: "wt_tl buf' = None" "nw_text buf' = []" by (simp_all add: buf'_def nw_text_def)
  have sz: "nw_size buf = Some (length (concat (wt_hd buf)) + length u)"
    using u bufs by (simp add: nw_size_def tail_size_def)
  have dt: "nw_detach buf = Some (wt_hd buf @ [u], buf')"
    using u by (simp add: nw_detach_def buf'_def)
  show thesis
  proof (cases "wt_hd buf")
    case Nil
    show thesis
    proof (cases "length t + length u \<le> NET_BUF_LEN")
      case True
      then show thesis
        using b sz dt t u bufs Nil w
        by (intro that [of "w\<lparr>wt_tl := Some (t @ u), wt_sz := wt_sz w + length t\<rparr>" buf'])
          (auto simp: nw_add_wtr_def tail_size_def merges_def nw_bufs_def nw_text_def)
    next
      case False
      then show thesis
        using b sz dt t u bufs Nil w
        by (intro that [of "w\<lparr>wt_hd := wt_hd w @ [t], wt_tl := Some u, wt_sz := wt_sz w + length t\<rparr>" buf'])
          (auto simp: nw_add_wtr_def tail_size_def merges_def nw_bufs_def nw_text_def)
    qed
  next
    case (Cons c cs)
    show thesis
    proof (cases "length t + length c \<le> NET_BUF_LEN")
      case True
      then show thesis
        using b sz dt t u bufs Cons w
        by (intro that [of "w\<lparr>wt_hd := wt_hd w @ (t @ c) # cs, wt_tl := Some u,
              wt_sz := wt_sz w + length t + length (concat (wt_hd buf))\<rparr>" buf'])
          (auto simp: nw_add_wtr_def tail_size_def merges_def nw_bufs_def nw_text_def)
    next
      case False
      then show thesis
        using b sz dt t u bufs Cons w
        by (intro that [of "w\<lparr>wt_hd := wt_hd w @ t # c # cs, wt_tl := Some u,
              wt_sz := wt_sz w + length t + length (concat (wt_hd buf))\<rparr>" buf'])
          (auto simp: nw_add_wtr_def tail_size_def merges_def nw_bufs_def nw_text_def)
    qed
  qed
qed

lemma http_commit_wtr_ok:
  assumes w: "nw_bufs w" and buf: "nw_inv buf"
  obtains w' buf' where "http_commit_wtr buf w = Some (w', buf')" "nw_bufs w'"
    "nw_text w' = nw_text w @ ''Content-Length: '' @ uint_to_str (of_nat (length (nw_text buf))) @ crlf @ crlf @ nw_text buf"
    "net_wtr.more w' = net_wtr.more w"
proof -
  define n where "n = (of_nat (length (nw_text buf)) :: u64)"
  have "appends (\<lambda>w. do { w \<leftarrow> add_hdr_uint ''Content-Length'' n w; w \<leftarrow> nw_add_char (CHR 13) w; nw_add_char (CHR 10) w })
      (''Content-Length: '' @ uint_to_str n @ crlf @ crlf)"
    by (rule appends_eq, (rule appends_bind appends)+) (simp add: crlf_def)
  then obtain w1 where w1:
    "(do { w \<leftarrow> add_hdr_uint ''Content-Length'' n w; w \<leftarrow> nw_add_char (CHR 13) w; nw_add_char (CHR 10) w }) = Some w1"
    "nw_bufs w1" "nw_text w1 = nw_text w @ ''Content-Length: '' @ uint_to_str n @ crlf @ crlf"
    "net_wtr.more w1 = net_wtr.more w"
    using w by (rule appendsE)
  obtain w2 buf' where w2: "nw_add_wtr buf w1 = Some (w2, buf')" "nw_bufs w2" "nw_text w2 = nw_text w1 @ nw_text buf"
    "net_wtr.more w2 = net_wtr.more w1"
    using nw_add_wtr_ok [OF w1(2) buf] by metis
  have "http_commit_wtr buf w = (do { w \<leftarrow> add_hdr_uint ''Content-Length'' n w; w \<leftarrow> nw_add_char (CHR 13) w; nw_add_char (CHR 10) w })
      \<bind> nw_add_wtr buf"
    by (simp add: http_commit_wtr_def nw_size_text [OF buf] n_def)
  also have "\<dots> = Some (w2, buf')" unfolding w1(1) using w2(1) by simp
  finally show thesis
    using w1(2-) w2(2-) by (intro that [of w2 buf']) (simp_all add: n_def)
qed

section \<open>Results\<close>

text \<open>A sequence of operations on a writer.\<close>

datatype wop = Add_Char char | Add_Str string | Add_Uint u64

fun run_wop :: "wop \<Rightarrow> net_wtr \<Rightarrow> net_wtr option" where
  "run_wop (Add_Char c) = nw_add_char c"
| "run_wop (Add_Str s) = nw_add_str s"
| "run_wop (Add_Uint v) = nw_fill 32 (uint_to_str v)"

fun run_wops :: "wop list \<Rightarrow> net_wtr \<Rightarrow> net_wtr option" where
  "run_wops [] w = Some w"
| "run_wops (x # xs) w = run_wop x w \<bind> run_wops xs"

fun wop_text :: "wop \<Rightarrow> string" where
  "wop_text (Add_Char c) = [c]"
| "wop_text (Add_Str s) = s"
| "wop_text (Add_Uint v) = uint_to_str v"

lemma appends_run_wop: "appends (run_wop x) (wop_text x)"
proof (cases x)
  case (Add_Uint v)
  have "length (uint_to_str v) \<le> 32" using uint_to_str_bound [of v] by linarith
  then show ?thesis using Add_Uint by (simp add: appends_fill NET_BUF_LEN_def)
qed (simp_all add: appends)

lemma appends_run_wops: "appends (run_wops xs) (concat (map wop_text xs))"
proof (induction xs)
  case Nil
  have "run_wops [] = Some" by (rule ext) simp
  then show ?case by (simp add: appends_id)
next
  case (Cons x xs)
  have "run_wops (x # xs) = (\<lambda>w. run_wop x w \<bind> run_wops xs)" by (rule ext) simp
  then show ?case using appends_bind [OF appends_run_wop Cons.IH] by simp
qed

text \<open> Any sequence of texts, characters and numbers added to a new writer is kept
  in order across its buffers, no buffer is filled beyond its size, and \<open>size()\<close> is the length of the
  text.\<close>

theorem net_wtr_sequence:
  "\<exists>w. run_wops xs nw_new = Some w \<and> nw_text w = concat (map wop_text xs) \<and> nw_bufs w \<and>
     nw_size w = Some (length (concat (map wop_text xs)))"
proof -
  obtain w where "run_wops xs nw_new = Some w" "nw_bufs w" "nw_text w = concat (map wop_text xs)" "nw_inv w"
    using appendsD [OF appends_run_wops [of xs] nw_new_ok(1)] by auto
  then show ?thesis using nw_size_text [of w] by auto
qed

text \<open> Appending one writer to another moves all of its text behind the text of
  the other, in order and within the buffers, and leaves it detached.  The size, however, is too large by
  the length of the last buffer when the appended writer is a single buffer that is merged.\<close>

theorem net_wtr_add_content:
  assumes "nw_inv w" "nw_inv buf"
  shows "\<exists>w' buf'. nw_add_wtr buf w = Some (w', buf') \<and> nw_bufs w' \<and> wt_tl buf' = None \<and>
    nw_text w' = nw_text w @ nw_text buf \<and>
    nw_size w' = Some (length (nw_text w') + (if merges buf w then length (the (wt_tl w)) else 0))"
proof -
  have w: "nw_bufs w" using assms(1) by (simp add: nw_inv_def)
  obtain w' buf' where w': "nw_add_wtr buf w = Some (w', buf')" "nw_bufs w'"
    "nw_text w' = nw_text w @ nw_text buf" "wt_tl buf' = None" "nw_text buf' = []"
    "wt_sz w' + length (concat (wt_hd w)) =
       wt_sz w + length (concat (wt_hd w')) + (if merges buf w then length (the (wt_tl w)) else 0)"
    using nw_add_wtr_ok [OF w assms(2)] by metis
  obtain t' where t': "wt_tl w' = Some t'" using w'(2) by (auto simp: nw_bufs_def)
  have "nw_size w' = Some (length (nw_text w') + (if merges buf w then length (the (wt_tl w)) else 0))"
    using w'(6) assms(1) t' by (simp add: nw_size_def tail_size_def nw_text_def nw_inv_def)
  then show ?thesis using w' by blast
qed

theorem net_wtr_add_content_witness:
  "\<exists>w' buf'. nw_add_wtr \<lparr>wt_hd = [], wt_tl = Some ''cd'', wt_sz = 0\<rparr> \<lparr>wt_hd = [], wt_tl = Some ''abc'', wt_sz = 0\<rparr>
     = Some (w', buf') \<and> nw_text w' = ''abccd'' \<and> nw_size w' = Some 8"
proof -
  have "nw_inv \<lparr>wt_hd = [], wt_tl = Some ''cd'', wt_sz = 0\<rparr>" "nw_inv \<lparr>wt_hd = [], wt_tl = Some ''abc'', wt_sz = 0\<rparr>"
    by (simp_all add: nw_inv_def nw_bufs_def NET_BUF_LEN_def)
  from net_wtr_add_content [OF this(2,1)] show ?thesis
    by (fastforce simp: nw_text_def merges_def NET_BUF_LEN_def)
qed

text \<open> A POST request: request line, headers, the length of the body, and the body,
  unchanged.\<close>

definition http_post :: "string \<Rightarrow> 'a net_wtr_scheme \<Rightarrow> net_wtr option" where
  "http_post host body =
     do { msg \<leftarrow> http_request_init ''POST'' ''/'' nw_new;
          msg \<leftarrow> add_hdr ''Host'' host msg;
          msg \<leftarrow> add_hdr ''Content-Type'' ''application/json'' msg;
          (msg, body) \<leftarrow> http_commit_wtr body msg;
          Some msg }"

theorem http_post_text:
  assumes "nw_inv body"
  shows "\<exists>msg. http_post host body = Some msg \<and> nw_bufs msg \<and>
    nw_text msg = ''POST / HTTP/1.1'' @ crlf @ ''Host: '' @ host @ crlf @ ''Content-Type: application/json'' @ crlf @
      ''Content-Length: '' @ uint_to_str (of_nat (length (nw_text body))) @ crlf @ crlf @ nw_text body"
proof -
  have "appends (\<lambda>msg. do { msg \<leftarrow> http_request_init ''POST'' ''/'' msg; msg \<leftarrow> add_hdr ''Host'' host msg;
          add_hdr ''Content-Type'' ''application/json'' msg })
      (''POST / HTTP/1.1'' @ crlf @ ''Host: '' @ host @ crlf @ ''Content-Type: application/json'' @ crlf)"
    by (rule appends_eq, (rule appends_bind appends)+) simp
  then obtain w1 where w1:
    "(do { msg \<leftarrow> http_request_init ''POST'' ''/'' nw_new; msg \<leftarrow> add_hdr ''Host'' host msg;
          add_hdr ''Content-Type'' ''application/json'' msg }) = Some w1" "nw_bufs w1"
    "nw_text w1 = nw_text nw_new @ ''POST / HTTP/1.1'' @ crlf @ ''Host: '' @ host @ crlf @ ''Content-Type: application/json'' @ crlf"
    "net_wtr.more w1 = net_wtr.more nw_new"
    using nw_new_ok(1) by (rule appendsE)
  obtain w2 buf' where w2: "http_commit_wtr body w1 = Some (w2, buf')" "nw_bufs w2"
    "nw_text w2 = nw_text w1 @ ''Content-Length: '' @ uint_to_str (of_nat (length (nw_text body))) @ crlf @ crlf @ nw_text body"
    using http_commit_wtr_ok [OF w1(2) assms] by metis
  have "http_post host body =
      (do { msg \<leftarrow> http_request_init ''POST'' ''/'' nw_new; msg \<leftarrow> add_hdr ''Host'' host msg;
          add_hdr ''Content-Type'' ''application/json'' msg }) \<bind>
      (\<lambda>msg. do { (msg, body) \<leftarrow> http_commit_wtr body msg; Some msg })"
    by (simp add: http_post_def)
  then have "http_post host body = Some w2" using w1(1) w2(1) by simp
  then show ?thesis using w2 w1(3) by auto
qed

theorem http_post_text_witness:
  "\<exists>msg. http_post ''h'' \<lparr>wt_hd = [], wt_tl = Some ''{}'', wt_sz = 0\<rparr> = Some msg \<and>
     nw_text msg = ''POST / HTTP/1.1'' @ crlf @ ''Host: h'' @ crlf @ ''Content-Type: application/json'' @ crlf @
       ''Content-Length: '' @ uint_to_str 2 @ crlf @ crlf @ ''{}''"
  using http_post_text [of "\<lparr>wt_hd = [], wt_tl = Some ''{}'', wt_sz = 0\<rparr>" "''h''"]
  by (auto simp: nw_inv_def nw_bufs_def NET_BUF_LEN_def nw_text_def)

end
