(* ===== verification/Json_Wtr.thy ===== *)
theory Json_Wtr
  imports Net_Wtr
begin

text \<open>
  The JSON writer of the client, class \<open>json_wtr\<close> in \<open>pc/net_socket.cpp\<close>: it extends the message writer
  by a flag that says whether a comma is due and by the stack of open containers.  A reference printer
  for JSON values says what a bracketed sequence of its calls writes.
\<close>

named_theorems jw_defs "definitions of the JSON writer operations"

section \<open>Writer\<close>

datatype jw_type = jw_obj | jw_arr

text \<open>\<open>jw_st\<close> has the innermost container first.\<close>

record json_wtr = net_wtr +
  jw_first :: bool
  jw_st :: "jw_type list"

definition jw_new :: json_wtr where
  "jw_new = \<lparr>wt_hd = [], wt_tl = Some [], wt_sz = 0, jw_first = True, jw_st = []\<rparr>"

definition jw_reset :: "json_wtr \<Rightarrow> json_wtr" where
  "jw_reset w = (nw_reset w)\<lparr>jw_first := True, jw_st := []\<rparr>"

definition jw_add_obj :: "json_wtr \<Rightarrow> json_wtr option" where [jw_defs]:
  "jw_add_obj w = do { w \<leftarrow> nw_add_char CHR ''{'' w; Some (w\<lparr>jw_first := True, jw_st := jw_obj # jw_st w\<rparr>) }"

definition jw_add_arr :: "json_wtr \<Rightarrow> json_wtr option" where [jw_defs]:
  "jw_add_arr w = do { w \<leftarrow> nw_add_char CHR ''['' w; Some (w\<lparr>jw_first := True, jw_st := jw_arr # jw_st w\<rparr>) }"

definition jw_pop :: "json_wtr \<Rightarrow> json_wtr option" where [jw_defs]:
  "jw_pop w =
     (case jw_st w of [] \<Rightarrow> None
      | t # st \<Rightarrow> do { w \<leftarrow> nw_add_char (if t = jw_obj then CHR ''}'' else CHR '']'') w;
                       Some (w\<lparr>jw_st := st, jw_first := False\<rparr>) })"

definition jw_add_first :: "json_wtr \<Rightarrow> json_wtr option" where [jw_defs]:
  "jw_add_first w =
     do { w \<leftarrow> (if \<not> jw_first w then nw_add_char CHR '','' w else Some w); Some (w\<lparr>jw_first := False\<rparr>) }"

definition jw_add_text :: "string \<Rightarrow> json_wtr \<Rightarrow> json_wtr option" where [jw_defs]:
  "jw_add_text s w =
     do { w \<leftarrow> nw_add_char (CHR 0x22) w; w \<leftarrow> nw_add_str s w; nw_add_char (CHR 0x22) w }"

definition jw_add_uint :: "u64 \<Rightarrow> json_wtr \<Rightarrow> json_wtr option" where [jw_defs]:
  "jw_add_uint v = nw_fill 32 (uint_to_str v)"

definition jw_add_int :: "int \<Rightarrow> json_wtr \<Rightarrow> json_wtr option" where [jw_defs]:
  "jw_add_int v w = do { s \<leftarrow> int_to_str v; nw_fill 32 s w }"

text \<open>The encoders write behind the reserved pointer; base 58 writes nothing when its text does not fit
  into twice the length of the value.\<close>

definition b58_text :: "string \<Rightarrow> string" where
  "b58_text s = (case enc_base58 s (length s + length s) of None \<Rightarrow> [] | Some t \<Rightarrow> t)"

definition jw_add_enc_base58 :: "string \<Rightarrow> json_wtr \<Rightarrow> json_wtr option" where [jw_defs]:
  "jw_add_enc_base58 s w =
     do { w \<leftarrow> nw_add_char (CHR 0x22) w; w \<leftarrow> nw_fill (length s + length s) (b58_text s) w;
          nw_add_char (CHR 0x22) w }"

definition jw_add_enc_base64 :: "string \<Rightarrow> json_wtr \<Rightarrow> json_wtr option" where [jw_defs]:
  "jw_add_enc_base64 s w =
     do { w \<leftarrow> nw_add_char (CHR 0x22) w; w \<leftarrow> nw_fill (enc_base64_len (length s)) (enc_base64 s) w;
          nw_add_char (CHR 0x22) w }"

definition jw_add_key_only :: "string \<Rightarrow> json_wtr \<Rightarrow> json_wtr option" where [jw_defs]:
  "jw_add_key_only k w = do { w \<leftarrow> jw_add_first w; w \<leftarrow> jw_add_text k w; nw_add_char CHR '':'' w }"

definition jw_key :: "string \<Rightarrow> string \<Rightarrow> json_wtr \<Rightarrow> json_wtr option" where [jw_defs]:
  "jw_key k v w = do { w \<leftarrow> jw_add_key_only k w; jw_add_text v w }"

definition jw_key_int :: "string \<Rightarrow> int \<Rightarrow> json_wtr \<Rightarrow> json_wtr option" where [jw_defs]:
  "jw_key_int k v w = do { w \<leftarrow> jw_add_key_only k w; jw_add_int v w }"

definition jw_key_uint :: "string \<Rightarrow> u64 \<Rightarrow> json_wtr \<Rightarrow> json_wtr option" where [jw_defs]:
  "jw_key_uint k v w = do { w \<leftarrow> jw_add_key_only k w; jw_add_uint v w }"

definition jw_key_null :: "string \<Rightarrow> json_wtr \<Rightarrow> json_wtr option" where [jw_defs]:
  "jw_key_null k w = do { w \<leftarrow> jw_add_key_only k w; nw_add_str ''null'' w }"

definition jw_key_true :: "string \<Rightarrow> json_wtr \<Rightarrow> json_wtr option" where [jw_defs]:
  "jw_key_true k w = do { w \<leftarrow> jw_add_key_only k w; nw_add_str ''true'' w }"

definition jw_key_false :: "string \<Rightarrow> json_wtr \<Rightarrow> json_wtr option" where [jw_defs]:
  "jw_key_false k w = do { w \<leftarrow> jw_add_key_only k w; nw_add_str ''false'' w }"

definition jw_key_verbatim :: "string \<Rightarrow> string \<Rightarrow> json_wtr \<Rightarrow> json_wtr option" where [jw_defs]:
  "jw_key_verbatim k v w = do { w \<leftarrow> jw_add_key_only k w; nw_add_str v w }"

definition jw_key_enc_base58 :: "string \<Rightarrow> string \<Rightarrow> json_wtr \<Rightarrow> json_wtr option" where [jw_defs]:
  "jw_key_enc_base58 k v w = do { w \<leftarrow> jw_add_key_only k w; jw_add_enc_base58 v w }"

definition jw_key_type :: "string \<Rightarrow> jw_type \<Rightarrow> json_wtr \<Rightarrow> json_wtr option" where [jw_defs]:
  "jw_key_type k t w = do { w \<leftarrow> jw_add_key_only k w; if t = jw_obj then jw_add_obj w else jw_add_arr w }"

definition jw_key_hash :: "string \<Rightarrow> string \<Rightarrow> json_wtr \<Rightarrow> json_wtr option" where [jw_defs]:
  "jw_key_hash k pk w = do { w \<leftarrow> jw_add_key_only k w; jw_add_enc_base58 pk w }"

definition jw_val :: "string \<Rightarrow> json_wtr \<Rightarrow> json_wtr option" where [jw_defs]:
  "jw_val v w = do { w \<leftarrow> jw_add_first w; jw_add_text v w }"

definition jw_val_uint :: "u64 \<Rightarrow> json_wtr \<Rightarrow> json_wtr option" where [jw_defs]:
  "jw_val_uint v w = do { w \<leftarrow> jw_add_first w; jw_add_uint v w }"

definition jw_val_int :: "int \<Rightarrow> json_wtr \<Rightarrow> json_wtr option" where [jw_defs]:
  "jw_val_int v w = do { w \<leftarrow> jw_add_first w; jw_add_int v w }"

definition jw_val_type :: "jw_type \<Rightarrow> json_wtr \<Rightarrow> json_wtr option" where [jw_defs]:
  "jw_val_type t w = do { w \<leftarrow> jw_add_first w; if t = jw_obj then jw_add_obj w else jw_add_arr w }"

definition jw_val_enc_base58 :: "string \<Rightarrow> json_wtr \<Rightarrow> json_wtr option" where [jw_defs]:
  "jw_val_enc_base58 v w = do { w \<leftarrow> jw_add_first w; jw_add_enc_base58 v w }"

definition jw_val_enc_base64 :: "string \<Rightarrow> json_wtr \<Rightarrow> json_wtr option" where [jw_defs]:
  "jw_val_enc_base64 v w = do { w \<leftarrow> jw_add_first w; jw_add_enc_base64 v w }"

definition jw_val_hash :: "string \<Rightarrow> json_wtr \<Rightarrow> json_wtr option" where
  "jw_val_hash = jw_val_enc_base58"

definition jw_val_signature :: "string \<Rightarrow> json_wtr \<Rightarrow> json_wtr option" where
  "jw_val_signature = jw_val_enc_base58"

fun jw_val_bytes :: "string \<Rightarrow> json_wtr \<Rightarrow> json_wtr option" where
  "jw_val_bytes [] w = Some w"
| "jw_val_bytes (c # cs) w = do { w \<leftarrow> jw_val_uint (of_nat (byte c)) w; jw_val_bytes cs w }"

text \<open>A key pair is written as the array of its bytes.\<close>

definition jw_val_key_pair :: "string \<Rightarrow> json_wtr \<Rightarrow> json_wtr option" where
  "jw_val_key_pair kp w = do { w \<leftarrow> jw_val_type jw_arr w; w \<leftarrow> jw_val_bytes kp w; jw_pop w }"

section \<open>Reference printer\<close>

datatype jv = JText string | JUint u64 | JInt int | JRaw string | JB58 string | JB64 string
  | JObj "(string \<times> jv) list" | JArr "jv list"

definition quoted :: "string \<Rightarrow> string" where
  "quoted s = CHR 0x22 # s @ [CHR 0x22]"

fun sep_by :: "string list \<Rightarrow> string" where
  "sep_by [] = []"
| "sep_by [s] = s"
| "sep_by (s # t # ts) = s @ CHR '','' # sep_by (t # ts)"

fun render :: "jv \<Rightarrow> string" where
  "render (JText s) = quoted s"
| "render (JUint v) = uint_to_str v"
| "render (JInt v) = the (int_to_str v)"
| "render (JRaw s) = s"
| "render (JB58 s) = quoted (b58_text s)"
| "render (JB64 s) = quoted (enc_base64 s)"
| "render (JObj kvs) = CHR ''{'' # sep_by (map (\<lambda>(k, v). quoted k @ CHR '':'' # render v) kvs) @ ''}''"
| "render (JArr vs) = CHR ''['' # sep_by (map render vs) @ '']''"

text \<open>A value is printable when the buffers and the integer conversion admit it.\<close>

fun printable :: "jv \<Rightarrow> bool" where
  "printable (JInt v) \<longleftrightarrow> - (2 ^ 63) < v \<and> v < 2 ^ 63"
| "printable (JB58 s) \<longleftrightarrow> 2 * length s \<le> NET_BUF_LEN"
| "printable (JB64 s) \<longleftrightarrow> enc_base64_len (length s) \<le> NET_BUF_LEN"
| "printable (JObj kvs) \<longleftrightarrow> (\<forall>(k, v) \<in> set kvs. printable v)"
| "printable (JArr vs) \<longleftrightarrow> (\<forall>v \<in> set vs. printable v)"
| "printable _ \<longleftrightarrow> True"

text \<open>The calls that write a value after its key or its separator, and the members of a container.\<close>

fun emit :: "jv \<Rightarrow> json_wtr \<Rightarrow> json_wtr option"
  and emit_members :: "(string \<times> jv) list \<Rightarrow> json_wtr \<Rightarrow> json_wtr option"
  and emit_elems :: "jv list \<Rightarrow> json_wtr \<Rightarrow> json_wtr option" where
  "emit (JText s) w = jw_add_text s w"
| "emit (JUint v) w = jw_add_uint v w"
| "emit (JInt v) w = jw_add_int v w"
| "emit (JRaw s) w = nw_add_str s w"
| "emit (JB58 s) w = jw_add_enc_base58 s w"
| "emit (JB64 s) w = jw_add_enc_base64 s w"
| "emit (JObj kvs) w = do { w \<leftarrow> jw_add_obj w; w \<leftarrow> emit_members kvs w; jw_pop w }"
| "emit (JArr vs) w = do { w \<leftarrow> jw_add_arr w; w \<leftarrow> emit_elems vs w; jw_pop w }"
| "emit_members [] w = Some w"
| "emit_members ((k, v) # kvs) w = do { w \<leftarrow> jw_add_key_only k w; w \<leftarrow> emit v w; emit_members kvs w }"
| "emit_elems [] w = Some w"
| "emit_elems (v # vs) w = do { w \<leftarrow> jw_add_first w; w \<leftarrow> emit v w; emit_elems vs w }"

section \<open>The calls as emitters\<close>

lemma emit_Nil: "emit_members [] = Some" "emit_elems [] = Some"
  by (rule ext, simp)+

lemma jw_calls_emit:
  "jw_key k s w = emit_members [(k, JText s)] w"
  "jw_key_int k i w = emit_members [(k, JInt i)] w"
  "jw_key_uint k u w = emit_members [(k, JUint u)] w"
  "jw_key_null k w = emit_members [(k, JRaw ''null'')] w"
  "jw_key_true k w = emit_members [(k, JRaw ''true'')] w"
  "jw_key_false k w = emit_members [(k, JRaw ''false'')] w"
  "jw_key_verbatim k s w = emit_members [(k, JRaw s)] w"
  "jw_key_enc_base58 k s w = emit_members [(k, JB58 s)] w"
  "jw_key_hash k s w = emit_members [(k, JB58 s)] w"
  "jw_val s w = emit_elems [JText s] w"
  "jw_val_uint u w = emit_elems [JUint u] w"
  "jw_val_int i w = emit_elems [JInt i] w"
  "jw_val_enc_base58 s w = emit_elems [JB58 s] w"
  "jw_val_enc_base64 s w = emit_elems [JB64 s] w"
  "jw_val_hash s w = emit_elems [JB58 s] w"
  by (simp_all add: emit_Nil jw_key_def jw_key_int_def jw_key_uint_def jw_key_null_def jw_key_true_def
    jw_key_false_def jw_key_verbatim_def jw_key_enc_base58_def jw_key_hash_def jw_val_def jw_val_uint_def
    jw_val_int_def jw_val_enc_base58_def jw_val_enc_base64_def jw_val_hash_def)

text \<open>Consecutive calls write consecutive members.\<close>

lemma emit_members_append: "emit_members (xs @ ys) w = emit_members xs w \<bind> emit_members ys"
  by (induction xs arbitrary: w) (auto intro!: Option.bind_cong)

lemma emit_elems_append: "emit_elems (xs @ ys) w = emit_elems xs w \<bind> emit_elems ys"
  by (induction xs arbitrary: w) (auto intro!: Option.bind_cong)

text \<open>Opening a container, writing its contents and closing it is one member or element.\<close>

lemma jw_container_emit:
  "(do { w \<leftarrow> jw_key_type k jw_obj w; w \<leftarrow> emit_members kvs w; jw_pop w }) = emit_members [(k, JObj kvs)] w"
  "(do { w \<leftarrow> jw_key_type k jw_arr w; w \<leftarrow> emit_elems vs w; jw_pop w }) = emit_members [(k, JArr vs)] w"
  "(do { w \<leftarrow> jw_val_type jw_obj w; w \<leftarrow> emit_members kvs w; jw_pop w }) = emit_elems [JObj kvs] w"
  "(do { w \<leftarrow> jw_val_type jw_arr w; w \<leftarrow> emit_elems vs w; jw_pop w }) = emit_elems [JArr vs] w"
  by (simp_all add: emit_Nil jw_key_type_def jw_val_type_def)

lemma jw_val_bytes_emit: "jw_val_bytes s w = emit_elems (map (\<lambda>c. JUint (of_nat (byte c))) s) w"
  by (induction s arbitrary: w) (auto simp: jw_val_uint_def intro!: Option.bind_cong)

section \<open>Correctness of the comma logic\<close>

definition jw_post :: "json_wtr \<Rightarrow> string \<Rightarrow> bool \<Rightarrow> json_wtr \<Rightarrow> bool" where
  "jw_post w s f w' \<longleftrightarrow> nw_bufs w' \<and> nw_text w' = nw_text w @ s \<and> (nw_inv w \<longrightarrow> nw_inv w') \<and>
     jw_st w' = jw_st w \<and> jw_first w' = f"

lemma jw_post_trans: "jw_post w s f w1 \<Longrightarrow> jw_post w1 t g w2 \<Longrightarrow> jw_post w (s @ t) g w2"
  by (auto simp: jw_post_def)

lemma jw_more: "net_wtr.more w' = net_wtr.more w \<Longrightarrow> jw_st w' = jw_st w \<and> jw_first w' = jw_first (w :: json_wtr)"
  by (cases w; cases w') simp

lemma appends_post:
  assumes "appends f s" "nw_bufs w"
  obtains w' where "f w = Some w'" "jw_post w s (jw_first w) w'"
proof -
  obtain w' where "f w = Some w'" "nw_bufs w'" "nw_text w' = nw_text w @ s" "nw_inv w \<Longrightarrow> nw_inv w'"
    "net_wtr.more w' = net_wtr.more w"
    using appendsD [OF assms] by metis
  then show thesis using that jw_more by (metis jw_post_def)
qed

text \<open>Fields that do not belong to the writer part.\<close>

lemma nw_upd [simp]:
  "nw_bufs (w\<lparr>jw_first := b\<rparr>) = nw_bufs w" "nw_bufs (w\<lparr>jw_st := st\<rparr>) = nw_bufs w"
  "nw_text (w\<lparr>jw_first := b\<rparr>) = nw_text w" "nw_text (w\<lparr>jw_st := st\<rparr>) = nw_text w"
  "nw_inv (w\<lparr>jw_first := b\<rparr>) = nw_inv w" "nw_inv (w\<lparr>jw_st := st\<rparr>) = nw_inv w"
  by (simp_all add: nw_bufs_def nw_text_def nw_inv_def)

lemma jw_add_first_ok:
  assumes "nw_bufs w"
  obtains w' where "jw_add_first w = Some w'" "jw_post w (if jw_first w then [] else '','') False w'"
proof (cases "jw_first w")
  case True
  then show thesis using assms by (intro that [of "w\<lparr>jw_first := False\<rparr>"]) (simp_all add: jw_add_first_def jw_post_def)
next
  case False
  obtain w' where "nw_add_char CHR '','' w = Some w'" "jw_post w '','' (jw_first w) w'"
    using appends_post [OF appends_char assms] by metis
  then show thesis using False by (intro that [of "w'\<lparr>jw_first := False\<rparr>"]) (simp_all add: jw_add_first_def jw_post_def)
qed

lemma appends_jw_text [appends]: "appends (jw_add_text s) (quoted s)"
  unfolding jw_add_text_def quoted_def
  by (rule appends_eq, (rule appends_bind appends)+) simp

lemma b58_text_bound: "length (b58_text s) \<le> length s + length s"
proof (cases "enc_base58 s (length s + length s)")
  case (Some t)
  then show ?thesis
    by (auto simp: b58_text_def enc_base58_def Let_def split: if_splits option.splits prod.splits)
qed (simp add: b58_text_def)

lemma appends_jw_base58:
  "2 * length s \<le> NET_BUF_LEN \<Longrightarrow> appends (jw_add_enc_base58 s) (quoted (b58_text s))"
  unfolding jw_add_enc_base58_def quoted_def
  by (rule appends_eq, (rule appends_bind appends)+) (simp_all add: b58_text_bound appends_char)

lemma appends_jw_base64:
  "enc_base64_len (length s) \<le> NET_BUF_LEN \<Longrightarrow> appends (jw_add_enc_base64 s) (quoted (enc_base64 s))"
  unfolding jw_add_enc_base64_def quoted_def
  by (rule appends_eq, (rule appends_bind appends)+) (simp_all add: enc64_len appends_char)

lemma int_to_str_bound:
  assumes "- (2 ^ 63) < v" "v < 2 ^ 63"
  obtains s where "int_to_str v = Some s" "length s \<le> 32"
proof -
  have "nat \<bar>v\<bar> < 10 ^ 20" using assms by auto
  from put_digits_bound [OF _ this, of "[]"] have l: "length (put_digits (nat \<bar>v\<bar>) []) \<le> 20" by simp
  show thesis
  proof (cases "v < 0")
    case True
    have "in_s64 (- v)" using assms by (simp add: in_s64_def)
    then show thesis
      using that [of "CHR ''-'' # put_digits (nat \<bar>v\<bar>) []"] True l by (simp add: int_to_str_def)
  next
    case False
    then show thesis
      using that [of "if v = 0 then ''0'' else put_digits (nat \<bar>v\<bar>) []"] l by (simp add: int_to_str_def)
  qed
qed

lemma appends_jw_int:
  assumes "- (2 ^ 63) < v" "v < 2 ^ 63"
  shows "appends (jw_add_int v) (the (int_to_str v))"
proof -
  obtain s where s: "int_to_str v = Some s" "length s \<le> 32" using int_to_str_bound [OF assms] by metis
  have "jw_add_int v = nw_fill 32 s" by (rule ext) (simp add: jw_add_int_def s(1))
  then show ?thesis using appends_fill [OF s(2)] s(1) by (simp add: NET_BUF_LEN_def)
qed

lemma appends_jw_uint: "appends (jw_add_uint v) (uint_to_str v)"
  using uint_to_str_bound [of v] by (simp add: jw_add_uint_def NET_BUF_LEN_def appends_fill)

fun scalar :: "jv \<Rightarrow> bool" where
  "scalar (JObj _) = False"
| "scalar (JArr _) = False"
| "scalar _ = True"

lemma appends_scalar: "scalar v \<Longrightarrow> printable v \<Longrightarrow> appends (emit v) (render v)"
proof -
  have "emit (JText s) = jw_add_text s" "emit (JUint u) = jw_add_uint u" "emit (JInt i) = jw_add_int i"
    "emit (JRaw s) = nw_add_str s" "emit (JB58 s) = jw_add_enc_base58 s" "emit (JB64 s) = jw_add_enc_base64 s" for s u i
    by (rule ext, simp)+
  then show "scalar v \<Longrightarrow> printable v \<Longrightarrow> appends (emit v) (render v)"
    by (cases v) (simp_all add: appends appends_jw_base58 appends_jw_base64 appends_jw_int appends_jw_uint)
qed

lemma emit_scalar_ok:
  assumes "scalar v" "printable v" "nw_bufs w" "\<not> jw_first w"
  shows "\<exists>w'. emit v w = Some w' \<and> jw_post w (render v) False w'"
  using appends_post [OF appends_scalar [OF assms(1,2)] assms(3)] assms(4) by (metis (full_types))

definition comma_sep :: "bool \<Rightarrow> string list \<Rightarrow> string" where
  "comma_sep f ss = (if ss = [] \<or> f then [] else '','') @ sep_by ss"

lemma comma_sep_Cons: "comma_sep f (s # ss) = (if f then [] else '','') @ s @ comma_sep False ss"
  by (cases ss) (simp_all add: comma_sep_def)

lemma emit_ok:
  "nw_bufs w \<Longrightarrow> \<not> jw_first w \<Longrightarrow> printable v \<Longrightarrow> \<exists>w'. emit v w = Some w' \<and> jw_post w (render v) False w'"
  "nw_bufs w \<Longrightarrow> printable (JObj kvs) \<Longrightarrow>
     \<exists>w'. emit_members kvs w = Some w' \<and>
       jw_post w (comma_sep (jw_first w) (map (\<lambda>(k, v). quoted k @ CHR '':'' # render v) kvs)) (jw_first w \<and> kvs = []) w'"
  "nw_bufs w \<Longrightarrow> printable (JArr vs) \<Longrightarrow>
     \<exists>w'. emit_elems vs w = Some w' \<and> jw_post w (comma_sep (jw_first w) (map render vs)) (jw_first w \<and> vs = []) w'"
proof (induction v w and kvs w and vs w rule: emit_emit_members_emit_elems.induct)
  case (7 kvs w)
  obtain w1 where w1: "nw_add_char CHR ''{'' w = Some w1" "jw_post w ''{'' (jw_first w) w1"
    using appends_post [OF appends_char 7(2)] by metis
  define w2 where "w2 = w1\<lparr>jw_first := True, jw_st := jw_obj # jw_st w1\<rparr>"
  have w2: "jw_add_obj w = Some w2" "nw_bufs w2" "jw_first w2"
    using w1 by (simp_all add: jw_add_obj_def w2_def jw_post_def)
  obtain w3 where w3: "emit_members kvs w2 = Some w3"
    "jw_post w2 (sep_by (map (\<lambda>(k, v). quoted k @ CHR '':'' # render v) kvs)) (kvs = []) w3"
    using 7(1) [OF w2(1,2) 7(4)] w2(3) by (auto simp: comma_sep_def)
  have st: "jw_st w3 = jw_obj # jw_st w" "nw_bufs w3" using w1 w3 by (simp_all add: jw_post_def w2_def)
  obtain w4 where w4: "nw_add_char CHR ''}'' w3 = Some w4" "jw_post w3 ''}'' (jw_first w3) w4"
    using appends_post [OF appends_char st(2)] by metis
  have "emit (JObj kvs) w = Some (w4\<lparr>jw_st := jw_st w, jw_first := False\<rparr>)"
    using w2 w3 w4 st by (simp add: jw_pop_def)
  moreover have "jw_post w (render (JObj kvs)) False (w4\<lparr>jw_st := jw_st w, jw_first := False\<rparr>)"
    using w1 w3 w4 by (auto simp: jw_post_def w2_def)
  ultimately show ?case by blast
next
  case (8 vs w)
  obtain w1 where w1: "nw_add_char CHR ''['' w = Some w1" "jw_post w ''['' (jw_first w) w1"
    using appends_post [OF appends_char 8(2)] by metis
  define w2 where "w2 = w1\<lparr>jw_first := True, jw_st := jw_arr # jw_st w1\<rparr>"
  have w2: "jw_add_arr w = Some w2" "nw_bufs w2" "jw_first w2"
    using w1 by (simp_all add: jw_add_arr_def w2_def jw_post_def)
  obtain w3 where w3: "emit_elems vs w2 = Some w3" "jw_post w2 (sep_by (map render vs)) (vs = []) w3"
    using 8(1) [OF w2(1,2) 8(4)] w2(3) by (auto simp: comma_sep_def)
  have st: "jw_st w3 = jw_arr # jw_st w" "nw_bufs w3" using w1 w3 by (simp_all add: jw_post_def w2_def)
  obtain w4 where w4: "nw_add_char CHR '']'' w3 = Some w4" "jw_post w3 '']'' (jw_first w3) w4"
    using appends_post [OF appends_char st(2)] by metis
  have "emit (JArr vs) w = Some (w4\<lparr>jw_st := jw_st w, jw_first := False\<rparr>)"
    using w2 w3 w4 st by (simp add: jw_pop_def)
  moreover have "jw_post w (render (JArr vs)) False (w4\<lparr>jw_st := jw_st w, jw_first := False\<rparr>)"
    using w1 w3 w4 by (auto simp: jw_post_def w2_def)
  ultimately show ?case by blast
next
  case (10 k v kvs w)
  obtain w1 where w1: "jw_add_first w = Some w1" "jw_post w (if jw_first w then [] else '','') False w1"
    using jw_add_first_ok [OF 10(3)] by metis
  have "nw_bufs w1" using w1 by (simp add: jw_post_def)
  have "appends (\<lambda>w. do { w \<leftarrow> jw_add_text k w; nw_add_char CHR '':'' w }) (quoted k @ '':'')"
    by (rule appends_eq, (rule appends_bind appends)+) simp
  then obtain w2 where w2: "(do { w \<leftarrow> jw_add_text k w1; nw_add_char CHR '':'' w }) = Some w2"
    "jw_post w1 (quoted k @ '':'') (jw_first w1) w2"
    using \<open>nw_bufs w1\<close> by (rule appends_post)
  have k: "jw_add_key_only k w = Some w2" using w1 w2 by (simp add: jw_add_key_only_def)
  have b2: "nw_bufs w2" "\<not> jw_first w2" "printable v" "printable (JObj kvs)"
    using w1 w2 10(4) by (simp_all add: jw_post_def)
  obtain w3 where w3: "emit v w2 = Some w3" "jw_post w2 (render v) False w3"
    using 10(1) [OF k b2(1-3)] by blast
  then have "nw_bufs w3" "\<not> jw_first w3" by (simp_all add: jw_post_def)
  then obtain w4 where w4: "emit_members kvs w3 = Some w4"
    "jw_post w3 (comma_sep False (map (\<lambda>(k, v). quoted k @ CHR '':'' # render v) kvs)) False w4"
    using 10(2) [OF k w3(1) _ b2(4)] by auto
  have "emit_members ((k, v) # kvs) w = Some w4" using k w3 w4 by simp
  moreover have "jw_post w ((if jw_first w then [] else '','') @ (quoted k @ '':'') @ render v @
      comma_sep False (map (\<lambda>(k, v). quoted k @ CHR '':'' # render v) kvs)) False w4"
    by (rule jw_post_trans [OF w1(2) jw_post_trans [OF w2(2) jw_post_trans [OF w3(2) w4(2)]]])
  ultimately show ?case by (simp add: comma_sep_Cons)
next
  case (12 v vs w)
  obtain w1 where w1: "jw_add_first w = Some w1" "jw_post w (if jw_first w then [] else '','') False w1"
    using jw_add_first_ok [OF 12(3)] by metis
  have b1: "nw_bufs w1" "\<not> jw_first w1" "printable v" "printable (JArr vs)"
    using w1 12(4) by (simp_all add: jw_post_def)
  obtain w3 where w3: "emit v w1 = Some w3" "jw_post w1 (render v) False w3"
    using 12(1) [OF w1(1) b1(1-3)] by blast
  then have "nw_bufs w3" "\<not> jw_first w3" by (simp_all add: jw_post_def)
  then obtain w4 where w4: "emit_elems vs w3 = Some w4" "jw_post w3 (comma_sep False (map render vs)) False w4"
    using 12(2) [OF w1(1) w3(1) _ b1(4)] by auto
  have "emit_elems (v # vs) w = Some w4" using w1 w3 w4 by simp
  moreover have "jw_post w ((if jw_first w then [] else '','') @ render v @ comma_sep False (map render vs)) False w4"
    by (rule jw_post_trans [OF w1(2) jw_post_trans [OF w3(2) w4(2)]])
  ultimately show ?case by (simp add: comma_sep_Cons)
next
  case (1 s w)
  then show ?case by (intro emit_scalar_ok) simp_all
next
  case (2 u w)
  then show ?case by (intro emit_scalar_ok) simp_all
next
  case (3 i w)
  then show ?case by (intro emit_scalar_ok) simp_all
next
  case (4 s w)
  then show ?case by (intro emit_scalar_ok) simp_all
next
  case (5 s w)
  then show ?case by (intro emit_scalar_ok) simp_all
next
  case (6 s w)
  then show ?case by (intro emit_scalar_ok) simp_all
next
  case (9 w)
  then show ?case by (simp add: jw_post_def comma_sep_def)
next
  case (11 w)
  then show ?case by (simp add: jw_post_def comma_sep_def)
qed

section \<open>Results\<close>

lemma jw_new_ok [simp]: "nw_bufs jw_new" "nw_inv jw_new" "nw_text jw_new = []" "jw_first jw_new" "jw_st jw_new = []"
  by (simp_all add: jw_new_def nw_bufs_def nw_inv_def nw_text_def)

text \<open>(C10) Writing any printable JSON value through the writer's calls, from a new writer,
  succeeds and produces exactly the text of the reference printer (commas between the members of every
  container and nowhere else, brackets matched), leaves no container open, and the size is the length
  of the text.\<close>

theorem json_wtr_value:
  assumes "printable v"
  shows "\<exists>w. emit_elems [v] jw_new = Some w \<and> nw_text w = render v \<and> jw_st w = [] \<and>
    nw_size w = Some (length (render v))"
proof -
  have "printable (JArr [v])" using assms by simp
  from emit_ok(3) [OF jw_new_ok(1) this] obtain w where w: "emit_elems [v] jw_new = Some w"
    "jw_post jw_new (comma_sep True (map render [v])) False w" by auto
  then have "nw_text w = render v" "jw_st w = []" "nw_inv w" by (simp_all add: jw_post_def comma_sep_def)
  then show ?thesis using w nw_size_text [of w] by auto
qed

theorem json_wtr_value_witness:
  "\<exists>w. emit_elems [JObj [(''a'', JArr [JUint 5, JText ''x'']), (''b'', JRaw ''null'')]] jw_new = Some w \<and>
     nw_text w = ''{\"a\":[5,\"x\"],\"b\":null}''"
proof -
  have "render (JObj [(''a'', JArr [JUint 5, JText ''x'']), (''b'', JRaw ''null'')]) = ''{\"a\":[5,\"x\"],\"b\":null}''"
    by code_simp
  then show ?thesis
    using json_wtr_value [of "JObj [(''a'', JArr [JUint 5, JText ''x'']), (''b'', JRaw ''null'')]"] by auto
qed

end
