(* ===== verification/Net_Stream.thy ===== *)
theory Net_Stream
  imports Net_Wtr
begin

text \<open>
  Receiving from a stream, \<open>net_connect::poll_recv\<close> in \<open>pc/net_socket.cpp\<close>: bytes are read in pieces
  of at most \<open>buf_len\<close> into a buffer, and a parser is called on the buffered bytes until it asks for
  more.  The locale \<open>stream_parser\<close> is the contract between the connection and its parser; under
  it the messages do not depend on how the stream was cut into pieces.
\<close>

section \<open>Parser results\<close>

text \<open>What \<open>net_parser::parse\<close> does on the bytes in front of it: ask for more (returning false), consume a
  number of bytes, or access memory outside the buffer.  The parser's state, which records its callbacks,
  may change in both regular cases.\<close>

datatype 's presult = Incomplete 's | Done nat 's | Fault

section \<open>The parse loop\<close>

text \<open>The inner loop.  Consuming nothing would repeat the same call for ever, and consuming more than there is
  would wrap the size; both are \<open>None\<close>.  \<open>is_err\<close> is the error flag of the connection, which a
  callback can set.\<close>

function parse_loop :: "('s \<Rightarrow> bool) \<Rightarrow> ('s \<Rightarrow> string \<Rightarrow> 's presult) \<Rightarrow> 's \<Rightarrow> string \<Rightarrow> ('s \<times> string) option" where
  "parse_loop is_err p st buf =
     (if is_err st \<or> buf = [] then Some (st, buf)
      else case p st buf of
             Incomplete st \<Rightarrow> Some (st, buf)
           | Done n st \<Rightarrow> if n = 0 \<or> n > length buf then None else parse_loop is_err p st (drop n buf)
           | Fault \<Rightarrow> None)"
  by pat_completeness auto
termination by (relation "measure (\<lambda>(e, p, st, buf). length buf)") auto

declare parse_loop.simps [simp del]

definition RECV_LEN :: nat where
  "RECV_LEN = 2048"

text \<open>The connection: the unconsumed bytes (the first \<open>rsz_\<close> of \<open>rdr_\<close>), the size of \<open>rdr_\<close>, the state of
  the parser, and the error flag.\<close>

record 's conn =
  nc_rdr :: string
  nc_cap :: nat
  nc_st :: 's
  nc_err :: bool

datatype recv = Bytes string | Again | Closed

text \<open>One round of the outer loop, for each result of \<open>recv\<close>.  After an error the bytes that are left are
  not moved to the front.\<close>

definition recv_step :: "('s \<Rightarrow> bool) \<Rightarrow> ('s \<Rightarrow> string \<Rightarrow> 's presult) \<Rightarrow> recv \<Rightarrow> 's conn \<Rightarrow> 's conn option" where
  "recv_step is_err p r c =
     (let c = (if nc_cap c - length (nc_rdr c) < RECV_LEN then c\<lparr>nc_cap := nc_cap c + RECV_LEN\<rparr> else c)
      in case r of
           Bytes s \<Rightarrow>
             if s = [] \<or> RECV_LEN < length s \<or> nc_cap c < length (nc_rdr c) + length s then None
             else do { let buf = nc_rdr c @ s;
                       (st, rest) \<leftarrow> parse_loop is_err p (nc_st c) buf;
                       Some (c\<lparr>nc_st := st, nc_err := is_err st,
                               nc_rdr := if is_err st then take (length rest) buf else rest\<rparr>) }
         | Again \<Rightarrow> Some c
         | Closed \<Rightarrow> Some (c\<lparr>nc_err := True\<rparr>))"

fun poll_recv :: "('s \<Rightarrow> bool) \<Rightarrow> ('s \<Rightarrow> string \<Rightarrow> 's presult) \<Rightarrow> recv list \<Rightarrow> 's conn \<Rightarrow> 's conn option" where
  "poll_recv is_err p [] c = Some c"
| "poll_recv is_err p (r # rs) c =
     (if nc_err c then Some c
      else do { c \<leftarrow> recv_step is_err p r c;
                (case r of Bytes _ \<Rightarrow> poll_recv is_err p rs c | _ \<Rightarrow> Some c) })"

definition conn_new :: "'s \<Rightarrow> 's conn" where
  "conn_new st = \<lparr>nc_rdr = [], nc_cap = 0, nc_st = st, nc_err = False\<rparr>"

definition conn_teardown :: "'s conn \<Rightarrow> 's conn" where
  "conn_teardown c = c\<lparr>nc_rdr := [], nc_cap := 0\<rparr>"

section \<open>The send queue\<close>

text \<open>\<open>add_send\<close> appends the chain of a message to the queue; \<open>poll_send\<close> writes from the current position
  of the first buffer.  Each result of \<open>send\<close> is the number of bytes taken, or an error.\<close>

record sender =
  sq_bufs :: "string list"
  sq_wsz :: nat
  sq_err :: bool

definition add_send :: "'a net_wtr_scheme \<Rightarrow> sender \<Rightarrow> (sender \<times> 'a net_wtr_scheme) option" where
  "add_send msg q = do { (bufs, msg) \<leftarrow> nw_detach msg; Some (q\<lparr>sq_bufs := sq_bufs q @ bufs\<rparr>, msg) }"

datatype sent = Taken nat | Would_Block | Failed

text \<open>The result also lists the bytes that went out, in order.\<close>

fun poll_send :: "sent list \<Rightarrow> sender \<Rightarrow> string \<Rightarrow> (sender \<times> string) option" where
  "poll_send [] q out = Some (q, out)"
| "poll_send (r # rs) q out =
     (if sq_bufs q = [] \<or> sq_err q then Some (q, out)
      else let b = hd (sq_bufs q); avail = drop (sq_wsz q) b in
        case r of
          Taken n \<Rightarrow>
            if n = 0 then Some (q\<lparr>sq_err := True\<rparr>, out)
            else if n > length avail then None
            else (let q = q\<lparr>sq_wsz := sq_wsz q + n\<rparr>; out = out @ take n avail in
                  if sq_wsz q = length b then
                    (let q = q\<lparr>sq_wsz := 0, sq_bufs := tl (sq_bufs q)\<rparr> in
                     if sq_bufs q = [] then Some (q, out) else poll_send rs q out)
                  else poll_send rs q out)
        | Would_Block \<Rightarrow> Some (q, out)
        | Failed \<Rightarrow> Some (q\<lparr>sq_err := True\<rparr>, out))"

definition sender_text :: "sender \<Rightarrow> string" where
  "sender_text q = drop (sq_wsz q) (concat (sq_bufs q))"

definition sender_inv :: "sender \<Rightarrow> bool" where
  "sender_inv q \<longleftrightarrow> (case sq_bufs q of [] \<Rightarrow> sq_wsz q = 0 | b # bs \<Rightarrow> sq_wsz q \<le> length b)"

lemma poll_send_spec:
  "poll_send rs q out = Some (q', out') \<Longrightarrow> sender_inv q \<Longrightarrow>
     sender_inv q' \<and> out' @ sender_text q' = out @ sender_text q"
proof (induction rs arbitrary: q out)
  case Nil
  then show ?case by simp
next
  case (Cons r rs)
  show ?case
  proof (cases "sq_bufs q = [] \<or> sq_err q")
    case True
    then show ?thesis using Cons.prems by simp
  next
    case False
    then obtain b bs where b: "sq_bufs q = b # bs" "sq_wsz q \<le> length b"
      using Cons.prems(2) by (cases "sq_bufs q") (auto simp: sender_inv_def)
    show ?thesis
    proof (cases r)
      case (Taken n)
      have n: "n \<noteq> 0 \<Longrightarrow> n \<le> length b - sq_wsz q" using Cons.prems(1) False Taken b
        by (auto simp: Let_def split: if_splits)
      define q1 where "q1 = (if sq_wsz q + n = length b then q\<lparr>sq_wsz := 0, sq_bufs := bs\<rparr> else q\<lparr>sq_wsz := sq_wsz q + n\<rparr>)"
      define out1 where "out1 = out @ take n (drop (sq_wsz q) b)"
      show ?thesis
      proof (cases "n = 0")
        case True
        then show ?thesis using Cons.prems False Taken b by (auto simp: Let_def sender_inv_def sender_text_def)
      next
        case nz: False
        have tx: "sender_text q = drop (sq_wsz q) b @ concat bs" using b by (simp add: sender_text_def)
        have "take n (drop (sq_wsz q) b) @ drop (sq_wsz q + n) b = drop (sq_wsz q) b"
          by (metis append_take_drop_id drop_drop add.commute)
        moreover have "sender_text q1 = drop (sq_wsz q + n) b @ concat bs"
          using n [OF nz] b by (auto simp: q1_def sender_text_def)
        ultimately have q1: "out1 @ sender_text q1 = out @ sender_text q" using tx by (simp add: out1_def)
        have inv1: "sender_inv q1" using n [OF nz] b by (cases bs) (auto simp: q1_def sender_inv_def)
        consider "poll_send (r # rs) q out = Some (q1, out1)" | "poll_send (r # rs) q out = poll_send rs q1 out1"
          using False Taken b nz n [OF nz] by (cases "sq_wsz q + n = length b"; cases "bs = []") (simp_all add: q1_def out1_def)
        then show ?thesis
        proof cases
          case 1
          then show ?thesis using Cons.prems(1) q1 inv1 by simp
        next
          case 2
          then show ?thesis using Cons.IH [of q1 out1] Cons.prems(1) q1 inv1 by simp
        qed
      qed
    next
      case Would_Block
      then show ?thesis using Cons.prems False by (simp add: Let_def)
    next
      case Failed
      then show ?thesis using Cons.prems False b by (auto simp: Let_def sender_inv_def sender_text_def)
    qed
  qed
qed

text \<open>(C29) Whatever part of the queue each system call takes, the bytes sent followed by
  the bytes still queued are the queued text: nothing is lost, repeated or reordered.\<close>

theorem poll_send_in_order:
  assumes "sender_inv q" "poll_send rs q [] = Some (q', out)"
  shows "out @ sender_text q' = sender_text q \<and> sender_inv q'"
  using poll_send_spec [OF assms(2,1)] by simp

theorem poll_send_in_order_witness:
  "\<exists>q' out. poll_send [Taken 2, Taken 1, Taken 1] \<lparr>sq_bufs = [''abc'', ''de''], sq_wsz = 0, sq_err = False\<rparr> [] = Some (q', out) \<and>
     out = ''abcd'' \<and> sender_text q' = ''e''"
proof -
  define q where "q = \<lparr>sq_bufs = [''abc'', ''de''], sq_wsz = 0, sq_err = False\<rparr>"
  have "sender_inv q" "poll_send [Taken 2, Taken 1, Taken 1] q [] =
      Some (\<lparr>sq_bufs = [''de''], sq_wsz = 1, sq_err = False\<rparr>, ''abcd'')"
    by (simp_all add: q_def sender_inv_def)
  with poll_send_in_order [OF this] show ?thesis by (simp add: q_def sender_text_def)
qed

text \<open>(C30) If every call takes at least one byte and no more than was offered, and no
  buffer is empty, then as many calls as there are bytes send the whole queue.\<close>

fun takes :: "sent list \<Rightarrow> sender \<Rightarrow> bool" where
  "takes [] q \<longleftrightarrow> True"
| "takes (r # rs) q \<longleftrightarrow> sq_bufs q = [] \<or>
     (\<exists>n. r = Taken n \<and> 0 < n \<and> n \<le> length (hd (sq_bufs q)) - sq_wsz q \<and>
        takes rs (if sq_wsz q + n = length (hd (sq_bufs q)) then q\<lparr>sq_wsz := 0, sq_bufs := tl (sq_bufs q)\<rparr>
                  else q\<lparr>sq_wsz := sq_wsz q + n\<rparr>))"

lemma poll_send_all:
  "takes rs q \<Longrightarrow> sender_inv q \<Longrightarrow> \<not> sq_err q \<Longrightarrow> \<forall>b \<in> set (sq_bufs q). b \<noteq> [] \<Longrightarrow>
     (sq_bufs q \<noteq> [] \<longrightarrow> sq_wsz q < length (hd (sq_bufs q))) \<Longrightarrow> length (sender_text q) \<le> length rs \<Longrightarrow>
     \<exists>q'. poll_send rs q out = Some (q', out @ sender_text q) \<and> sq_bufs q' = []"
proof (induction rs arbitrary: q out)
  case Nil
  then show ?case by (cases "sq_bufs q") (auto simp: sender_text_def)
next
  case (Cons r rs)
  show ?case
  proof (cases "sq_bufs q")
    case Nil
    then show ?thesis by (simp add: sender_text_def)
  next
    case (Cons b bs)
    obtain n where n: "r = Taken n" "0 < n" "n \<le> length b - sq_wsz q"
      "takes rs (if sq_wsz q + n = length b then q\<lparr>sq_wsz := 0, sq_bufs := bs\<rparr> else q\<lparr>sq_wsz := sq_wsz q + n\<rparr>)"
      using Cons.prems(1) Cons by (auto cong: if_cong)
    have b: "sq_wsz q < length b" "\<forall>c \<in> set bs. c \<noteq> []" using Cons.prems(4,5) Cons by auto
    have tx: "sender_text q = drop (sq_wsz q) b @ concat bs" using Cons b by (simp add: sender_text_def)
    have split: "take n (drop (sq_wsz q) b) @ drop (sq_wsz q + n) b = drop (sq_wsz q) b"
      by (metis append_take_drop_id drop_drop add.commute)
    define q1 where "q1 = (if sq_wsz q + n = length b then q\<lparr>sq_wsz := 0, sq_bufs := bs\<rparr> else q\<lparr>sq_wsz := sq_wsz q + n\<rparr>)"
    define out1 where "out1 = out @ take n (drop (sq_wsz q) b)"
    have t1: "sender_text q1 = drop (sq_wsz q + n) b @ concat bs"
      using n Cons by (auto simp: q1_def sender_text_def)
    have eq: "out1 @ sender_text q1 = out @ sender_text q" using split t1 tx by (simp add: out1_def)
    show ?thesis
    proof (cases "sq_wsz q + n = length b \<and> bs = []")
      case True
      then show ?thesis using Cons.prems(3) Cons n t1 eq by (simp add: Let_def out1_def q1_def tx)
    next
      case False
      then have "poll_send (r # rs) q out = poll_send rs q1 out1"
        using Cons.prems(3) Cons n by (auto simp: Let_def q1_def out1_def)
      moreover have "takes rs q1" using n(4) by (simp add: q1_def)
      moreover have "sender_inv q1" "\<not> sq_err q1" "\<forall>c \<in> set (sq_bufs q1). c \<noteq> []"
        "sq_bufs q1 \<noteq> [] \<longrightarrow> sq_wsz q1 < length (hd (sq_bufs q1))"
        using Cons.prems(3,4) Cons n b by (auto simp: q1_def sender_inv_def split: list.splits)
      moreover have "length (sender_text q1) \<le> length rs"
        using Cons.prems(6) n t1 tx b by simp
      ultimately show ?thesis using Cons.IH [of q1 out1] eq by simp
    qed
  qed
qed

theorem poll_send_drains:
  assumes "sq_err q = False" "sq_wsz q = 0" "\<forall>b \<in> set (sq_bufs q). b \<noteq> []"
    and "takes rs q" "length (concat (sq_bufs q)) \<le> length rs"
  shows "\<exists>q'. poll_send rs q [] = Some (q', concat (sq_bufs q)) \<and> sq_bufs q' = []"
proof -
  have "sender_inv q" using assms(2) by (simp add: sender_inv_def split: list.splits)
  moreover have "sq_bufs q \<noteq> [] \<longrightarrow> sq_wsz q < length (hd (sq_bufs q))" using assms(2,3) by (cases "sq_bufs q") auto
  ultimately show ?thesis
    using poll_send_all [of rs q "[]"] assms by (simp add: sender_text_def)
qed

theorem poll_send_drains_witness:
  "\<exists>q'. poll_send [Taken 2, Taken 1, Taken 1] \<lparr>sq_bufs = [''ab'', ''c''], sq_wsz = 0, sq_err = False\<rparr> [] = Some (q', ''abc'') \<and>
     sq_bufs q' = []"
  using poll_send_drains [of "\<lparr>sq_bufs = [''ab'', ''c''], sq_wsz = 0, sq_err = False\<rparr>" "[Taken 2, Taken 1, Taken 1]"]
  by simp

section \<open>The contract of a parser\<close>

text \<open>\<open>ok\<close> describes the streams on which the parser meets the contract: it makes progress, stays inside the
  buffer, changes its state only when it consumes, and decides on a prefix only what it decides on every
  continuation.\<close>

locale stream_parser =
  fixes is_err :: "'s \<Rightarrow> bool"
    and p :: "'s \<Rightarrow> string \<Rightarrow> 's presult"
    and ok :: "'s \<Rightarrow> string \<Rightarrow> bool"
  assumes no_fault: "ok st buf \<Longrightarrow> p st buf \<noteq> Fault"
    and incomplete_same: "ok st buf \<Longrightarrow> p st buf = Incomplete st' \<Longrightarrow> st' = st"
    and progress: "ok st buf \<Longrightarrow> p st buf = Done n st' \<Longrightarrow> 0 < n \<and> n \<le> length buf"
    and stable: "ok st (buf @ ext) \<Longrightarrow> p st buf = Done n st' \<Longrightarrow> p st (buf @ ext) = Done n st'"
    and ok_prefix: "ok st (buf @ ext) \<Longrightarrow> ok st buf"
    and ok_rest: "ok st buf \<Longrightarrow> p st buf = Done n st' \<Longrightarrow> ok st' (drop n buf)"
    and no_err: "\<not> is_err st"
begin

lemma parse_loop_total:
  "ok st buf \<Longrightarrow> \<exists>st' rest. parse_loop is_err p st buf = Some (st', rest) \<and> ok st' rest \<and>
     (rest = [] \<or> p st' rest = Incomplete st') \<and> (\<exists>k. rest = drop k buf)"
proof (induction "length buf" arbitrary: st buf rule: less_induct)
  case less
  show ?case
  proof (cases "buf = []")
    case True
    then show ?thesis using less.prems by (subst parse_loop.simps) auto
  next
    case False
    show ?thesis
    proof (cases "p st buf")
      case (Incomplete st')
      then show ?thesis
        using False incomplete_same [OF less.prems Incomplete] less.prems
        by (subst parse_loop.simps) (auto intro!: exI [of _ 0] simp: no_err)
    next
      case (Done n st')
      then have n: "0 < n" "n \<le> length buf" "ok st' (drop n buf)"
        using progress [OF less.prems] ok_rest [OF less.prems] by auto
      then have "length (drop n buf) < length buf" by simp
      from less.hyps [OF this n(3)] obtain st2 rest k where r:
        "parse_loop is_err p st' (drop n buf) = Some (st2, rest)" "ok st2 rest"
        "rest = [] \<or> p st2 rest = Incomplete st2" "rest = drop k (drop n buf)" by blast
      have "parse_loop is_err p st buf = parse_loop is_err p st' (drop n buf)"
        using False Done n by (subst parse_loop.simps) (simp add: no_err)
      then show ?thesis using r by auto
    next
      case Fault
      then show ?thesis using no_fault [OF less.prems] by simp
    qed
  qed
qed

text \<open>Parsing what arrived, then what was left together with the next piece, is parsing everything at
  once.\<close>

lemma parse_loop_append:
  "ok st (buf @ ext) \<Longrightarrow> parse_loop is_err p st buf = Some (st', rest) \<Longrightarrow>
     parse_loop is_err p st (buf @ ext) = parse_loop is_err p st' (rest @ ext)"
proof (induction "length buf" arbitrary: st buf rule: less_induct)
  case less
  have ok: "ok st buf" by (rule ok_prefix [OF less.prems(1)])
  show ?case
  proof (cases "buf = []")
    case True
    then show ?thesis using less.prems(2) by (simp add: parse_loop.simps [of _ _ _ "[]"])
  next
    case False
    show ?thesis
    proof (cases "p st buf")
      case (Incomplete st1)
      then show ?thesis
        using False less.prems(2) incomplete_same [OF ok Incomplete]
        by (simp add: parse_loop.simps [of _ _ _ buf] no_err)
    next
      case (Done n st1)
      note n = progress [OF ok Done]
      have d: "p st (buf @ ext) = Done n st1" by (rule stable [OF less.prems(1) Done])
      have "parse_loop is_err p st1 (drop n buf) = Some (st', rest)"
        using False Done n less.prems(2) by (simp add: parse_loop.simps [of _ _ _ buf] no_err)
      moreover have "ok st1 (drop n buf @ ext)" using ok_rest [OF less.prems(1) d] n by simp
      ultimately have "parse_loop is_err p st1 (drop n buf @ ext) = parse_loop is_err p st' (rest @ ext)"
        using less.hyps [of "drop n buf" st1] n by auto
      then show ?thesis
        using d n False by (subst parse_loop.simps) (simp add: no_err)
    next
      case Fault
      then show ?thesis using no_fault [OF ok] by simp
    qed
  qed
qed

lemma parse_loop_ok_append:
  "ok st (buf @ ext) \<Longrightarrow> parse_loop is_err p st buf = Some (st', rest) \<Longrightarrow> ok st' (rest @ ext)"
proof (induction "length buf" arbitrary: st buf rule: less_induct)
  case less
  have ok: "ok st buf" by (rule ok_prefix [OF less.prems(1)])
  show ?case
  proof (cases "buf \<noteq> [] \<and> (\<exists>n st1. p st buf = Done n st1)")
    case True
    then obtain n st1 where d: "p st buf = Done n st1" by blast
    note n = progress [OF ok d]
    have "parse_loop is_err p st1 (drop n buf) = Some (st', rest)"
      using True d n less.prems(2) by (simp add: parse_loop.simps [of _ _ _ buf] no_err)
    moreover have "ok st1 (drop n buf @ ext)" using ok_rest [OF less.prems(1) stable [OF less.prems(1) d]] n by simp
    ultimately show ?thesis using less.hyps [of "drop n buf" st1] n True by auto
  next
    case False
    then show ?thesis
      using less.prems incomplete_same [OF ok] no_fault [OF ok]
      by (cases "p st buf"; cases "buf = []")
        (auto simp: parse_loop.simps [of _ _ _ buf] parse_loop.simps [of _ _ _ "[]"] no_err split: if_splits)
  qed
qed

lemma recv_step_bytes:
  assumes "ok (nc_st c) (nc_rdr c @ s)" "s \<noteq> []" "length s \<le> RECV_LEN" "length (nc_rdr c) \<le> nc_cap c"
  obtains c' where "recv_step is_err p (Bytes s) c = Some c'" "\<not> nc_err c'"
    "parse_loop is_err p (nc_st c) (nc_rdr c @ s) = Some (nc_st c', nc_rdr c')" "ok (nc_st c') (nc_rdr c')"
    "length (nc_rdr c') \<le> nc_cap c'"
proof -
  obtain st' rest k where r: "parse_loop is_err p (nc_st c) (nc_rdr c @ s) = Some (st', rest)" "ok st' rest"
    "rest = drop k (nc_rdr c @ s)"
    using parse_loop_total [OF assms(1)] by blast
  define c1 where "c1 = (if nc_cap c - length (nc_rdr c) < RECV_LEN then c\<lparr>nc_cap := nc_cap c + RECV_LEN\<rparr> else c)"
  have c1: "nc_rdr c1 = nc_rdr c" "nc_st c1 = nc_st c" "length (nc_rdr c) + length s \<le> nc_cap c1"
    using assms(3,4) by (auto simp: c1_def)
  have "recv_step is_err p (Bytes s) c = Some (c1\<lparr>nc_st := st', nc_err := False, nc_rdr := rest\<rparr>)"
    unfolding recv_step_def Let_def c1_def [symmetric]
    using assms(2,3) c1 r(1) by (simp add: no_err)
  moreover have "length rest \<le> nc_cap c1" using r(3) c1 by simp
  ultimately show thesis
    using r(1,2) by (intro that [of "c1\<lparr>nc_st := st', nc_err := False, nc_rdr := rest\<rparr>"]) simp_all
qed

text \<open>A whole sequence of pieces.\<close>

lemma poll_recv_pieces:
  assumes "ok (nc_st c) (nc_rdr c @ concat ss)" "\<forall>s \<in> set ss. s \<noteq> [] \<and> length s \<le> RECV_LEN"
    "length (nc_rdr c) \<le> nc_cap c" "\<not> nc_err c"
    "nc_rdr c = [] \<or> p (nc_st c) (nc_rdr c) = Incomplete (nc_st c)"
  shows "\<exists>c'. poll_recv is_err p (map Bytes ss) c = Some c' \<and> \<not> nc_err c' \<and>
     parse_loop is_err p (nc_st c) (nc_rdr c @ concat ss) = Some (nc_st c', nc_rdr c')"
  using assms
proof (induction ss arbitrary: c)
  case Nil
  then show ?case
    by (auto simp: parse_loop.simps [of _ _ _ "nc_rdr c"] no_err)
next
  case (Cons s ss)
  have ok1: "ok (nc_st c) ((nc_rdr c @ s) @ concat ss)" using Cons.prems(1) by simp
  have s: "s \<noteq> []" "length s \<le> RECV_LEN" using Cons.prems(2) by auto
  obtain c' where c': "recv_step is_err p (Bytes s) c = Some c'" "\<not> nc_err c'"
    "parse_loop is_err p (nc_st c) (nc_rdr c @ s) = Some (nc_st c', nc_rdr c')" "ok (nc_st c') (nc_rdr c')"
    "length (nc_rdr c') \<le> nc_cap c'"
    using recv_step_bytes [OF ok_prefix [OF ok1] s Cons.prems(3)] by metis
  have all: "parse_loop is_err p (nc_st c) (nc_rdr c @ s @ concat ss) =
      parse_loop is_err p (nc_st c') (nc_rdr c' @ concat ss)"
    using parse_loop_append [OF ok1 c'(3)] by simp
  have "nc_rdr c' = [] \<or> p (nc_st c') (nc_rdr c') = Incomplete (nc_st c')"
    using parse_loop_total [OF ok_prefix [OF ok1]] c'(3) by auto
  moreover have "ok (nc_st c') (nc_rdr c' @ concat ss)"
    using parse_loop_ok_append [OF ok1 c'(3)] .
  ultimately show ?case
    using Cons.IH [of c'] c' Cons.prems(2,4) all by auto
qed

end

end
