(* ===== verification/Byte_Order.thy ===== *)
theory Byte_Order
  imports Text_Codec
begin

text \<open>
  The bytes of integers in memory: least significant byte first, as the code's casts of buffer pointers
  store them on its platforms, and most significant first after \<open>__builtin_bswap\<close>.
\<close>

fun le_bytes :: "nat \<Rightarrow> nat \<Rightarrow> string" where
  "le_bytes 0 v = []"
| "le_bytes (Suc n) v = to_byte (v mod 256) # le_bytes n (v div 256)"

fun le_val :: "string \<Rightarrow> nat" where
  "le_val [] = 0"
| "le_val (c # cs) = byte c + 256 * le_val cs"

definition be_bytes :: "nat \<Rightarrow> nat \<Rightarrow> string" where
  "be_bytes n v = rev (le_bytes n v)"

definition be_val :: "string \<Rightarrow> nat" where
  "be_val s = le_val (rev s)"

lemma byte_to_byte: "byte (to_byte v) = v mod 256"
  by simp

lemma length_le_bytes [simp]: "length (le_bytes n v) = n"
  by (induction n arbitrary: v) simp_all

lemma length_be_bytes [simp]: "length (be_bytes n v) = n"
  by (simp add: be_bytes_def)

lemma le_val_bytes: "le_val (le_bytes n v) = v mod 256 ^ n"
proof (induction n arbitrary: v)
  case (Suc n)
  have "v mod (256 * 256 ^ n) = 256 * (v div 256 mod 256 ^ n) + v mod 256"
    by (rule mod_mult2_eq)
  then show ?case using Suc by simp
qed simp

lemma be_val_bytes: "be_val (be_bytes n v) = v mod 256 ^ n"
  by (simp add: be_val_def be_bytes_def le_val_bytes)

lemma le_val_less: "le_val s < 256 ^ length s"
proof (induction s)
  case (Cons c cs)
  have *: "b < 256 \<Longrightarrow> v < p \<Longrightarrow> b + 256 * v < 256 * p" for b v p :: nat by linarith
  show ?case using * [of "byte c"] Cons by simp
qed simp

lemma le_bytes_val: "le_bytes (length s) (le_val s) = s"
  by (induction s) simp_all

lemma le_bytes_inj: "le_bytes n v = le_bytes n w \<Longrightarrow> v mod 256 ^ n = w mod 256 ^ n"
  by (metis le_val_bytes)

text \<open>Exclusive or of bytes.\<close>

definition xor_char :: "char \<Rightarrow> char \<Rightarrow> char" where
  "xor_char c k = to_byte (byte c XOR byte k)"

lemma byte_xor: "byte (xor_char c k) = byte c XOR byte k"
proof -
  have t: "take_bit 8 (byte d) = byte d" for d by (simp add: take_bit_eq_mod)
  have "take_bit 8 (byte c XOR byte k) = byte c XOR byte k"
    by (simp only: take_bit_xor t)
  then show ?thesis by (simp add: xor_char_def take_bit_eq_mod)
qed

lemma xor_char_twice [simp]: "xor_char (xor_char c k) k = c"
  by (simp only: xor_char_def [of "xor_char c k"] byte_xor) (simp add: xor.assoc)

end
