(* ===== verification/Ws_Frame.thy ===== *)
theory Ws_Frame
  imports Net_Stream Byte_Order
begin

text \<open>
  The WebSocket framing of the client, \<open>ws_wtr::commit\<close> and \<open>ws_parser::parse\<close> in
  \<open>pc/net_socket.cpp\<close>.  Sizes are \<open>size_t\<close>, so sums wrap at 64 bits where the code does not exclude it.
\<close>

section \<open>Writing a frame\<close>

definition ws_cont :: nat where "ws_cont = 0x0"
definition ws_text :: nat where "ws_text = 0x1"
definition ws_binary :: nat where "ws_binary = 0x2"
definition ws_close :: nat where "ws_close = 0x8"
definition ws_ping :: nat where "ws_ping = 0x9"
definition ws_pong :: nat where "ws_pong = 0xa"

lemmas ws_ops = ws_cont_def ws_text_def ws_binary_def ws_close_def ws_ping_def ws_pong_def

text \<open>The two bytes of \<open>ws_hdr1\<close> (bit fields from the least significant bit) and the extended length in
  network byte order.\<close>

definition ws_hdr :: "nat \<Rightarrow> nat \<Rightarrow> bool \<Rightarrow> string" where
  "ws_hdr op_code pay_len msk =
     (let b0 = to_byte (op_code mod 16 + 128);
          m = (if msk then 128 else 0)
      in if pay_len < 126 then [b0, to_byte (pay_len + m)]
         else if pay_len \<le> 0xffff then [b0, to_byte (126 + m)] @ be_bytes 2 pay_len
         else [b0, to_byte (127 + m)] @ be_bytes 8 pay_len)"

text \<open>The masking loop over all buffers of the writer; the first one is skipped up to the end of the
  header.\<close>

fun xor_from :: "string \<Rightarrow> nat \<Rightarrow> string \<Rightarrow> string" where
  "xor_from key i [] = []"
| "xor_from key i (c # cs) = xor_char c (key ! (i mod 4)) # xor_from key (i + 1) cs"

fun mask_bufs :: "string \<Rightarrow> nat \<Rightarrow> nat \<Rightarrow> string list \<Rightarrow> string list option" where
  "mask_bufs key hdsz i [] = Some []"
| "mask_bufs key hdsz i (b # bs) =
     (if length b < hdsz then None
      else do { bs \<leftarrow> mask_bufs key 0 (i + (length b - hdsz)) bs;
                Some ((take hdsz b @ xor_from key i (drop hdsz b)) # bs) })"

text \<open>\<open>rnd\<close> is the result of \<open>random()\<close>.\<close>

definition ws_commit :: "nat \<Rightarrow> 'b net_wtr_scheme \<Rightarrow> bool \<Rightarrow> u32 \<Rightarrow> net_wtr \<Rightarrow> (net_wtr \<times> 'b net_wtr_scheme) option" where
  "ws_commit op_code buf msk rnd w =
     do { pay_len \<leftarrow> nw_size buf;
          let hdr = ws_hdr op_code pay_len msk;
          if msk then
            do { let key = le_bytes 4 (unat rnd);
                 w \<leftarrow> nw_fill 14 (hdr @ key) w;
                 (w, buf) \<leftarrow> nw_add_wtr buf w;
                 t \<leftarrow> wt_tl w;
                 bufs \<leftarrow> mask_bufs key (length hdr + 4) 0 (wt_hd w @ [t]);
                 Some (w\<lparr>wt_hd := butlast bufs, wt_tl := Some (last bufs)\<rparr>, buf) }
          else do { w \<leftarrow> nw_fill 14 hdr w; nw_add_wtr buf w } }"

section \<open>Parsing\<close>

text \<open>The state of the parser is the message under assembly and the list of what it did, latest last: the
  messages it delivered, the control frames it answered (operation code, payload, masked), errors.\<close>

datatype ws_event = Msg string | Reply nat string bool | Unknown_Op nat

record ws_parser =
  wp_msg :: string
  wp_out :: "ws_event list"

definition ws_emit :: "ws_event \<Rightarrow> ws_parser \<Rightarrow> ws_parser" where
  "ws_emit e st = st\<lparr>wp_out := wp_out st @ [e]\<rparr>"

definition ws_dispatch :: "nat \<Rightarrow> bool \<Rightarrow> bool \<Rightarrow> string \<Rightarrow> ws_parser \<Rightarrow> ws_parser" where
  "ws_dispatch op_code fin masked payload st =
     (if op_code = ws_text \<or> op_code = ws_binary then
        (if fin then ws_emit (Msg payload) st else st\<lparr>wp_msg := wp_msg st @ payload\<rparr>)
      else if op_code = ws_cont then
        (let m = wp_msg st @ payload in
         if fin then (ws_emit (Msg m) st)\<lparr>wp_msg := []\<rparr> else st\<lparr>wp_msg := m\<rparr>)
      else if op_code = ws_ping then ws_emit (Reply ws_pong payload (\<not> masked)) st
      else if op_code = ws_pong then st
      else if op_code = ws_close then ws_emit (Reply ws_close [] (\<not> masked)) st
      else ws_emit (Unknown_Op op_code) st)"

text \<open>The length checks: \<open>None\<close> asks for more, otherwise the size of the header without mask and the
  payload length.  Only the first two sums cannot wrap.\<close>

definition ws_lens :: "string \<Rightarrow> (nat \<times> nat) option" where
  "ws_lens buf =
     (let len = length buf; l1 = byte (buf ! 1) mod 128; msk_len = (if 128 \<le> byte (buf ! 1) then 4 else 0)
      in if len < 2 then None
         else if l1 < 126 then (if len < 2 + l1 + msk_len then None else Some (2, l1))
         else if l1 = 126 then
           (if len < 4 then None
            else let pay_len = be_val (take 2 (drop 2 buf))
                 in if len < 4 + pay_len + msk_len then None else Some (4, pay_len))
         else
           (if len < 10 then None
            else let pay_len = be_val (take 8 (drop 2 buf))
                 in if len < (10 + pay_len + msk_len) mod 2 ^ 64 then None else Some (10, pay_len)))"

text \<open>The loop that removes the mask.  Its counter has 32 bits and is compared with the 64-bit length, so
  that it never ends for a payload of 2^32 bytes or more; \<open>None\<close> is no result, because of an access
  outside the buffer or because the loop does not end.\<close>

partial_function (option) unmask :: "u32 \<Rightarrow> nat \<Rightarrow> string \<Rightarrow> string \<Rightarrow> string option" where
  [code]: "unmask i pay_len key p =
     (if unat i = pay_len then Some p
      else if unat i < length p then
        unmask (i + 1) pay_len key (p[unat i := xor_char (p ! unat i) (key ! (unat i mod 4))])
      else None)"

text \<open>Unmasking writes to the payload, and all but pong, close and unknown frames read it; both are a
  fault when the payload is not in the buffer, and so is an unmasking that never returns.\<close>

definition ws_parse :: "ws_parser \<Rightarrow> string \<Rightarrow> ws_parser presult" where
  "ws_parse st buf =
     (case ws_lens buf of
        None \<Rightarrow> Incomplete st
      | Some (hd_len, pay_len) \<Rightarrow>
          let op_code = byte (buf ! 0) mod 16;
              fin = (128 \<le> byte (buf ! 0));
              masked = (128 \<le> byte (buf ! 1));
              skip = hd_len + (if masked then 4 else 0);
              payload = drop skip buf
          in (case (if masked then unmask 0 pay_len (take 4 (drop hd_len buf)) payload else Some payload) of
               None \<Rightarrow> Fault
             | Some payload \<Rightarrow>
                 if op_code \<in> {ws_text, ws_binary, ws_cont, ws_ping} \<and> length payload < pay_len then Fault
                 else Done ((pay_len + skip) mod 2 ^ 64) (ws_dispatch op_code fin masked (take pay_len payload) st)))"

section \<open>Masking\<close>

lemma length_xor_from [simp]: "length (xor_from key i s) = length s"
  by (induction s arbitrary: i) simp_all

lemma xor_from_append: "xor_from key i (s @ t) = xor_from key i s @ xor_from key (i + length s) t"
  by (induction s arbitrary: i) simp_all

lemma xor_from_twice [simp]: "xor_from key i (xor_from key i s) = s"
  by (induction s arbitrary: i) simp_all

text \<open>The unmasking loop: below 2^32 bytes it does what it means to do, from there on it has no result.\<close>

lemma unmask_from:
  "unat i \<le> n \<Longrightarrow> n < 2 ^ 32 \<Longrightarrow> n \<le> length p \<Longrightarrow>
   unmask i n key p = Some (take (unat i) p @ xor_from key (unat i) (drop (unat i) (take n p)) @ drop n p)"
proof (induction "n - unat i" arbitrary: i p)
  case 0
  then show ?case by (subst unmask.simps) (simp add: append_take_drop_id)
next
  case (Suc d)
  let ?k = "unat i"
  have k: "?k < n" "?k < length p" using Suc by simp_all
  have i1: "unat (i + 1) = ?k + 1"
    using k(1) Suc.prems(2) by (simp add: unat_word_ariths)
  let ?p = "p[?k := xor_char (p ! ?k) (key ! (?k mod 4))]"
  have step: "unmask i n key p = unmask (i + 1) n key ?p"
    using k by (subst unmask.simps) simp
  have ih: "unmask (i + 1) n key ?p = Some (take (?k + 1) ?p @ xor_from key (?k + 1) (drop (?k + 1) (take n ?p)) @ drop n ?p)"
    using Suc.hyps(1) [of "i + 1" ?p] Suc.hyps(2) Suc.prems k i1 by simp
  have parts: "take (?k + 1) ?p = take ?k p @ [xor_char (p ! ?k) (key ! (?k mod 4))]"
    "drop (?k + 1) (take n ?p) = drop (?k + 1) (take n p)" "drop n ?p = drop n p"
    using k by (simp_all add: take_Suc_conv_app_nth drop_take)
  have "drop ?k (take n p) = p ! ?k # drop (?k + 1) (take n p)"
    using k by (subst Cons_nth_drop_Suc [symmetric]) simp_all
  then show ?case by (simp only: step ih parts xor_from.simps append_assoc append.simps)
qed

lemma unmask_0:
  assumes "n < 2 ^ 32" "n \<le> length p"
  shows "unmask 0 n key p = Some (xor_from key 0 (take n p) @ drop n p)"
  using unmask_from [of 0 n p key] assms by simp

lemma unmask_endless:
  assumes "2 ^ 32 \<le> n"
  shows "unmask i n key p = None"
proof -
  have "n < 2 ^ 32" if "unmask i n key p = Some q" for q
  proof (rule unmask.raw_induct [where P = "\<lambda>i n key p q. n < 2 ^ 32", OF _ that])
    fix unmask i pay_len key p q
    assume ih: "\<And>i pay_len key p q. unmask i pay_len key p = Some q \<Longrightarrow> pay_len < (2 :: nat) ^ 32"
      and q: "(if unat (i :: u32) = pay_len then Some p
        else if unat i < length p then
          unmask (i + 1) pay_len key (p[unat i := xor_char (p ! unat i) (key ! (unat i mod 4))])
        else None) = Some q"
    show "pay_len < (2 :: nat) ^ 32"
    proof (cases "unat i = pay_len")
      case True
      then show ?thesis using unsigned_less [of i, where ?'a = nat] by simp
    next
      case False
      then show ?thesis using q ih by (simp split: if_splits)
    qed
  qed
  then show ?thesis using assms by (cases "unmask i n key p") (auto simp: not_less)
qed

lemma mask_bufs_tail:
  "\<exists>bs'. mask_bufs key 0 i bs = Some bs' \<and> concat bs' = xor_from key i (concat bs) \<and> length bs' = length bs"
proof (induction bs arbitrary: i)
  case (Cons b bs)
  obtain bs' where "mask_bufs key 0 (i + length b) bs = Some bs'" "concat bs' = xor_from key (i + length b) (concat bs)"
    "length bs' = length bs" using Cons by blast
  then show ?case by (simp add: xor_from_append)
qed simp

lemma mask_bufs_concat:
  assumes "bs \<noteq> []" "concat bs = hdr @ s" "length hdr \<le> length (hd bs)"
  obtains bs' where "mask_bufs key (length hdr) 0 bs = Some bs'" "concat bs' = hdr @ xor_from key 0 s" "bs' \<noteq> []"
proof -
  obtain b cs where b: "bs = b # cs" using assms(1) by (cases bs) auto
  define m where "m = drop (length hdr) b"
  have bm: "b = hdr @ m" using assms(2,3) b
    by (metis append_eq_append_conv_if append_take_drop_id concat.simps(2) list.sel(1) m_def)
  then have s: "s = m @ concat cs" using assms(2) b by simp
  obtain cs' where "mask_bufs key 0 (length m) cs = Some cs'" "concat cs' = xor_from key (length m) (concat cs)"
    using mask_bufs_tail by blast
  then show thesis
    by (intro that [of "(hdr @ xor_from key 0 m) # cs'"]) (simp_all add: b bm s xor_from_append)
qed

section \<open>Round trip\<close>

lemma ws_hdr_length: "length (ws_hdr op n m) = (if n < 126 then 2 else if n \<le> 0xffff then 4 else 10)"
  by (simp add: ws_hdr_def Let_def)

lemma ws_hdr_bound: "length (ws_hdr op n m) \<le> 10"
  by (simp add: ws_hdr_length)

lemma ws_hdr_first: "length (ws_hdr op n m) \<ge> 2 \<and> ws_hdr op n m ! 0 = to_byte (op mod 16 + 128) \<and>
    byte (ws_hdr op n m ! 1) = (if n < 126 then n else if n \<le> 0xffff then 126 else 127) + (if m then 128 else 0)"
  by (auto simp: ws_hdr_def Let_def)

lemma ws_lens_frame:
  assumes "n < 2 ^ 64 - 14" "length rest \<ge> n + (if m then 4 else 0)"
  shows "ws_lens (ws_hdr op n m @ rest) = Some (length (ws_hdr op n m), n)"
proof -
  define buf where "buf = ws_hdr op n m @ rest"
  have b1: "byte (buf ! 1) = (if n < 126 then n else if n \<le> 0xffff then 126 else 127) + (if m then 128 else 0)"
    using ws_hdr_first [of op n m] by (simp add: buf_def nth_append)
  have m: "128 \<le> byte (buf ! 1) \<longleftrightarrow> m" unfolding b1 by auto
  have len: "length buf = length (ws_hdr op n m) + length rest" by (simp add: buf_def)
  consider "n < 126" | "126 \<le> n" "n \<le> 0xffff" | "0xffff < n" by linarith
  then show ?thesis
  proof cases
    case 1
    then have "byte (buf ! 1) mod 128 = n" unfolding b1 by auto
    then show ?thesis
      using 1 assms(2) len m by (simp add: buf_def [symmetric] ws_lens_def Let_def ws_hdr_length)
  next
    case 2
    then have "byte (buf ! 1) mod 128 = 126" unfolding b1 by auto
    moreover have "take 2 (drop 2 buf) = be_bytes 2 n"
      using 2 by (simp add: buf_def ws_hdr_def Let_def)
    ultimately show ?thesis
      using 2 assms(2) len m by (simp add: buf_def [symmetric] ws_lens_def Let_def ws_hdr_length be_val_bytes)
  next
    case 3
    then have "byte (buf ! 1) mod 128 = 127" unfolding b1 by auto
    moreover have "take 8 (drop 2 buf) = be_bytes 8 n"
      using 3 by (simp add: buf_def ws_hdr_def Let_def)
    moreover have "n mod 256 ^ 8 = n" using assms(1) by simp
    ultimately show ?thesis
      using 3 assms len m by (simp add: buf_def [symmetric] ws_lens_def Let_def ws_hdr_length be_val_bytes)
  qed
qed

lemma ws_parse_frame:
  assumes n: "n < (if m then 2 ^ 32 else 2 ^ 64 - 14)" "length body = n" and key: "length key = 4" and op: "op < 16"
  shows "ws_parse st (ws_hdr op n m @ (if m then key else []) @ (if m then xor_from key 0 body else body) @ rest) =
    Done (length (ws_hdr op n m) + (if m then 4 else 0) + n) (ws_dispatch op True m body st)"
proof -
  define h where "h = ws_hdr op n m"
  define tail where "tail = (if m then key else []) @ (if m then xor_from key 0 body else body) @ rest"
  have n': "n < 2 ^ 64 - 14" using n(1) by (simp split: if_splits)
  have lens: "ws_lens (h @ tail) = Some (length h, n)"
    unfolding h_def by (rule ws_lens_frame) (use n n' key in \<open>auto simp: tail_def\<close>)
  have b0: "(h @ tail) ! 0 = to_byte (op mod 16 + 128)"
    and b1: "128 \<le> byte ((h @ tail) ! 1) \<longleftrightarrow> m"
    using ws_hdr_first [of op n m] by (auto simp: h_def nth_append)
  have op2: "byte ((h @ tail) ! 0) mod 16 = op" "128 \<le> byte ((h @ tail) ! 0)"
    unfolding b0 using op by (auto, presburger)
  have body: "drop (length h + (if m then 4 else 0)) (h @ tail) = (if m then xor_from key 0 body else body) @ rest"
    "take 4 (drop (length h) (h @ tail)) = (if m then key else take 4 tail)"
    using key by (auto simp: tail_def)
  have un: "m \<Longrightarrow> unmask 0 n key (xor_from key 0 body @ rest) = Some (body @ rest)"
    using n by (subst unmask_0) simp_all
  have "length h \<le> 10" by (simp add: h_def ws_hdr_bound)
  then have "(n + (length h + (if m then 4 else 0))) mod 2 ^ 64 = length h + (if m then 4 else 0) + n"
    using n' by simp
  then have "ws_parse st (h @ tail) = Done (length h + (if m then 4 else 0) + n) (ws_dispatch op True m body st)"
    unfolding ws_parse_def lens option.case prod.case Let_def op2(1) b1 using op2(2) body un n(2) by (cases m) simp_all
  then show ?thesis by (simp add: h_def tail_def)
qed

lemma ws_commit_text:
  assumes buf: "nw_inv buf"
  obtains w' buf' where "ws_commit op buf m rnd nw_new = Some (w', buf')"
    "nw_text w' = ws_hdr op (length (nw_text buf)) m @ (if m then le_bytes 4 (unat rnd) else []) @
       (if m then xor_from (le_bytes 4 (unat rnd)) 0 (nw_text buf) else nw_text buf)"
proof -
  define h where "h = ws_hdr op (length (nw_text buf)) m @ (if m then le_bytes 4 (unat rnd) else [])"
  have h: "length h \<le> 14" using ws_hdr_bound [of op "length (nw_text buf)" m] by (cases m) (simp_all add: h_def)
  define w1 where "w1 = nw_new\<lparr>wt_tl := Some h\<rparr>"
  have w1: "nw_fill 14 h nw_new = Some w1"
    using h by (simp add: nw_defs w1_def NET_BUF_LEN_def)
  have b1: "nw_bufs w1" "nw_text w1 = h" "wt_hd w1 = []" "wt_tl w1 = Some h"
    using h by (simp_all add: w1_def nw_bufs_def nw_text_def nw_new_def NET_BUF_LEN_def)
  obtain w2 buf' where w2: "nw_add_wtr buf w1 = Some (w2, buf')" "nw_bufs w2" "nw_text w2 = h @ nw_text buf"
    using nw_add_wtr_ok [OF b1(1) buf] b1(2) by metis
  show thesis
  proof (cases m)
    case False
    then show thesis
      using that [of w2 buf'] w1 w2 by (simp add: ws_commit_def nw_size_text [OF buf] h_def)
  next
    case True
    obtain t where t: "wt_tl w2 = Some t" using w2(2) by (auto simp: nw_bufs_def)
    have cc: "concat (wt_hd w2 @ [t]) = h @ nw_text buf" using w2(3) t by (simp add: nw_text_def)
    have hd: "length h \<le> length (hd (wt_hd w2 @ [t]))"
      using w2(1) b1(3,4) t by (auto simp: nw_add_wtr_def nw_detach_def Let_def bind_eq_Some_conv
        split: option.splits if_splits)
    obtain bs where bs: "mask_bufs (le_bytes 4 (unat rnd)) (length h) 0 (wt_hd w2 @ [t]) = Some bs"
      "concat bs = h @ xor_from (le_bytes 4 (unat rnd)) 0 (nw_text buf)" "bs \<noteq> []"
      by (rule mask_bufs_concat [OF _ cc hd]) auto
    have "length h = length (ws_hdr op (length (nw_text buf)) m) + 4" using True by (simp add: h_def)
    then have "ws_commit op buf m rnd nw_new = Some (w2\<lparr>wt_hd := butlast bs, wt_tl := Some (last bs)\<rparr>, buf')"
      using True w1 w2(1) t bs(1) by (simp add: ws_commit_def nw_size_text [OF buf] h_def)
    moreover have "concat (butlast bs) @ last bs = concat bs"
      using bs(3) by (metis append_butlast_last_id concat.simps concat_append append_Nil2)
    ultimately show thesis
      using that bs(2) True by (simp add: nw_text_def h_def)
  qed
qed

section \<open>The parser meets the stream contract\<close>

text \<open>A stream is well-formed for the parser when no frame announces a payload of nearly \<open>2 ^ 64\<close> bytes, or
  a masked one of \<open>2 ^ 32\<close> bytes or more.\<close>

definition hdr_sane :: "string \<Rightarrow> bool" where
  "hdr_sane buf \<longleftrightarrow> (10 \<le> length buf \<and> byte (buf ! 1) mod 128 = 127 \<longrightarrow> 
     be_val (take 8 (drop 2 buf)) < (if 128 \<le> byte (buf ! 1) then 2 ^ 32 else 2 ^ 64 - 14))"

text \<open>The frame size, when the whole frame is there.\<close>

definition frame_len :: "string \<Rightarrow> nat option" where
  "frame_len buf = (case ws_lens buf of None \<Rightarrow> None
     | Some (h, n) \<Rightarrow> Some (h + (if 128 \<le> byte (buf ! 1) then 4 else 0) + n))"

function ws_sane :: "string \<Rightarrow> bool" where
  "ws_sane buf \<longleftrightarrow> hdr_sane buf \<and>
     (case frame_len buf of None \<Rightarrow> True | Some k \<Rightarrow> if 0 < k \<and> k \<le> length buf then ws_sane (drop k buf) else True)"
  by pat_completeness auto
termination by (relation "measure length") auto

declare ws_sane.simps [simp del]

lemma ws_lens_sane:
  assumes "ws_lens buf = Some (h, n)" "hdr_sane buf"
  shows "2 \<le> h" "h + (if 128 \<le> byte (buf ! 1) then 4 else 0) + n \<le> length buf" "n < 2 ^ 64 - 14" "h \<le> 10"
    "128 \<le> byte (buf ! 1) \<Longrightarrow> n < 2 ^ 32"
proof -
  have "length buf < 2 \<or> byte (buf ! 1) mod 128 < 126 \<or> byte (buf ! 1) mod 128 = 126 \<or> byte (buf ! 1) mod 128 = 127"
    using pos_mod_bound [of 128 "int (byte (buf ! 1))"] by auto
  moreover have "be_val (take 2 (drop 2 buf)) < 256 ^ 2"
  proof -
    have "256 ^ length (rev (take 2 (drop 2 buf))) \<le> (256 :: nat) ^ 2" by (intro power_increasing) auto
    then show ?thesis
      using le_val_less [of "rev (take 2 (drop 2 buf))"] by (simp only: be_val_def)
  qed
  ultimately show "2 \<le> h" "h + (if 128 \<le> byte (buf ! 1) then 4 else 0) + n \<le> length buf" "n < 2 ^ 64 - 14" "h \<le> 10"
    "128 \<le> byte (buf ! 1) \<Longrightarrow> n < 2 ^ 32"
    using assms by (auto simp: ws_lens_def Let_def hdr_sane_def split: if_splits)
qed

lemma ws_lens_ext:
  assumes "ws_lens buf = Some (h, n)" "hdr_sane buf"
  shows "ws_lens (buf @ ext) = Some (h, n)"
proof -
  have len: "2 \<le> length buf" using assms(1) by (auto simp: ws_lens_def Let_def split: if_splits)
  have b1: "(buf @ ext) ! 1 = buf ! 1" using len by (simp add: nth_append)
  define l1 where "l1 = byte (buf ! 1) mod 128"
  note sane = ws_lens_sane [OF assms]
  consider "l1 < 126" | "l1 = 126" | "126 < l1" by linarith
  then show ?thesis
  proof cases
    case 1
    then show ?thesis
      using assms(1) len by (simp add: ws_lens_def Let_def b1 l1_def [symmetric] del: One_nat_def split: if_splits)
  next
    case 2
    then show ?thesis
      using assms(1) len by (simp add: ws_lens_def Let_def b1 l1_def [symmetric] del: One_nat_def split: if_splits)
  next
    case 3
    then have "h = 10" "n = be_val (take 8 (drop 2 buf))" "10 \<le> length buf"
      using assms(1) len by (simp_all add: ws_lens_def Let_def l1_def [symmetric] del: One_nat_def split: if_splits)
    then show ?thesis
      using 3 sane len by (simp add: ws_lens_def Let_def b1 l1_def [symmetric] del: One_nat_def)
  qed
qed

lemma hdr_sane_prefix: "hdr_sane (buf @ ext) \<Longrightarrow> hdr_sane buf"
  by (auto simp: hdr_sane_def nth_append)

lemma frame_len_ext: "frame_len buf = Some k \<Longrightarrow> hdr_sane buf \<Longrightarrow> frame_len (buf @ ext) = Some k"
  using ws_lens_ext [of buf _ _ ext]
  by (auto simp: frame_len_def nth_append ws_lens_def [of "[]"] split: option.splits if_splits)
    (auto simp: ws_lens_def Let_def split: if_splits)

lemma frame_len_bounds: "frame_len buf = Some k \<Longrightarrow> hdr_sane buf \<Longrightarrow> 0 < k \<and> k \<le> length buf"
  using ws_lens_sane [of buf] by (auto simp: frame_len_def split: option.splits)

lemma ws_sane_prefix: "ws_sane (buf @ ext) \<Longrightarrow> ws_sane buf"
proof (induction "length buf" arbitrary: buf rule: less_induct)
  case less
  have h: "hdr_sane buf" using less.prems by (subst (asm) ws_sane.simps) (auto intro: hdr_sane_prefix)
  show ?case
  proof (cases "frame_len buf")
    case None
    then show ?thesis using h by (subst ws_sane.simps) simp
  next
    case (Some k)
    note k = frame_len_bounds [OF Some h]
    have "ws_sane (drop k buf @ ext)"
      using less.prems frame_len_ext [OF Some h, of ext] k by (subst (asm) ws_sane.simps) simp
    moreover have "length (drop k buf) < length buf" using k by auto
    ultimately have "ws_sane (drop k buf)" using less.hyps by blast
    then show ?thesis using Some h by (subst ws_sane.simps) simp
  qed
qed

text \<open>On such streams the parser's verdict is that of \<open>ws_lens\<close>.\<close>

lemma ws_parse_value:
  assumes "ws_lens buf = Some (h, n)" "hdr_sane buf"
  defines "msk \<equiv> 128 \<le> byte (buf ! 1)"
  shows "ws_parse st buf = Done (h + (if msk then 4 else 0) + n)
    (ws_dispatch (byte (buf ! 0) mod 16) (128 \<le> byte (buf ! 0)) msk
      (if msk then xor_from (take 4 (drop h buf)) 0 (take n (drop (h + 4) buf)) else take n (drop h buf)) st)"
proof -
  note b = ws_lens_sane [OF assms(1,2)]
  have len: "(n + (h + (if msk then 4 else 0))) mod 2 ^ 64 = h + (if msk then 4 else 0) + n"
    using b by (auto simp: msk_def add.commute)
  show ?thesis
  proof (cases msk)
    case True
    then have m: "128 \<le> byte (buf ! 1)" by (simp add: msk_def)
    have bn: "n < 2 ^ 32" "n \<le> length (drop (h + 4) buf)" using b(2,5) m by simp_all
    show ?thesis
      using unmask_0 [OF bn, of "take 4 (drop h buf)"] m len True bn(2)
      by (simp only: ws_parse_def assms(1) option.case prod.case Let_def if_True) simp
  next
    case False
    then have m: "\<not> 128 \<le> byte (buf ! 1)" by (simp add: msk_def)
    have bn: "n \<le> length (drop h buf)" using b(2) m by simp
    show ?thesis
      using m len False bn by (simp only: ws_parse_def assms(1) option.case prod.case Let_def if_False) simp
  qed
qed

lemma ws_parse_sane:
  assumes "ws_sane buf"
  shows "ws_parse st buf = Incomplete st \<and> frame_len buf = None \<or>
    (\<exists>k st'. ws_parse st buf = Done k st' \<and> frame_len buf = Some k)"
proof (cases "ws_lens buf")
  case None
  then show ?thesis by (simp add: ws_parse_def frame_len_def)
next
  case (Some hn)
  obtain h n where hn: "ws_lens buf = Some (h, n)" using Some by (cases hn) simp
  have "hdr_sane buf" using assms by (simp add: ws_sane.simps)
  show ?thesis using ws_parse_value [OF hn \<open>hdr_sane buf\<close>] hn by (simp add: frame_len_def)
qed

lemma ws_parse_ext:
  assumes "ws_sane (buf @ ext)" "ws_parse st buf = Done k st'"
  shows "ws_parse st (buf @ ext) = Done k st'"
proof -
  have s: "hdr_sane buf" using ws_sane_prefix [OF assms(1)] by (simp add: ws_sane.simps)
  obtain h n where hn: "ws_lens buf = Some (h, n)" using assms(2) by (auto simp: ws_parse_def split: option.splits)
  note b = ws_lens_sane [OF hn s]
  have nth: "(buf @ ext) ! 0 = buf ! 0" "(buf @ ext) ! 1 = buf ! 1" using b by (auto simp: nth_append)
  have "hdr_sane (buf @ ext)" using assms(1) by (simp add: ws_sane.simps)
  note v = ws_parse_value [OF hn s, of st] ws_parse_value [OF ws_lens_ext [OF hn s, of ext] this, of st]
  show ?thesis
  proof (cases "128 \<le> byte (buf ! 1)")
    case True
    have "take 4 (drop h (buf @ ext)) = take 4 (drop h buf)" "take n (drop (h + 4) (buf @ ext)) = take n (drop (h + 4) buf)"
      using b(2) True by simp_all
    then show ?thesis using assms(2) v True unfolding nth by (simp del: drop_append take_append)
  next
    case False
    have "take n (drop h (buf @ ext)) = take n (drop h buf)" using b(2) False by simp
    then show ?thesis using assms(2) v False unfolding nth by (simp del: drop_append take_append)
  qed
qed

interpretation ws: stream_parser "\<lambda>_. False" ws_parse "\<lambda>st buf. ws_sane buf"
proof unfold_locales
  fix st :: ws_parser and st' buf ext n
  show "ws_sane buf \<Longrightarrow> ws_parse st buf \<noteq> Fault"
    using ws_parse_sane [of buf st] by auto
  show "ws_sane buf \<Longrightarrow> ws_parse st buf = Incomplete st' \<Longrightarrow> st' = st"
    using ws_parse_sane [of buf st] by auto
  show "ws_sane buf \<Longrightarrow> ws_parse st buf = Done n st' \<Longrightarrow> 0 < n \<and> n \<le> length buf"
    using ws_parse_sane [of buf st] frame_len_bounds [of buf] by (auto simp: ws_sane.simps [of buf])
  show "ws_sane (buf @ ext) \<Longrightarrow> ws_parse st buf = Done n st' \<Longrightarrow> ws_parse st (buf @ ext) = Done n st'"
    by (rule ws_parse_ext)
  show "ws_sane (buf @ ext) \<Longrightarrow> ws_sane buf"
    by (rule ws_sane_prefix)
  show "ws_sane buf \<Longrightarrow> ws_parse st buf = Done n st' \<Longrightarrow> ws_sane (drop n buf)"
    using ws_parse_sane [of buf st] frame_len_bounds [of buf] by (auto simp: ws_sane.simps [of buf])
  show "\<not> False" by simp
qed

section \<open>Results\<close>

text \<open>A committed frame through the parser.\<close>

lemma ws_frame_delivers:
  assumes "nw_inv buf" "length (nw_text buf) < (if m then 2 ^ 32 else 2 ^ 64 - 14)" "op = ws_text \<or> op = ws_binary"
  shows "\<exists>w buf'. ws_commit op buf m rnd nw_new = Some (w, buf') \<and>
    ws_parse st (nw_text w @ rest) = Done (length (nw_text w)) (ws_emit (Msg (nw_text buf)) st)"
proof -
  obtain w buf' where w: "ws_commit op buf m rnd nw_new = Some (w, buf')"
    "nw_text w = ws_hdr op (length (nw_text buf)) m @ (if m then le_bytes 4 (unat rnd) else []) @
       (if m then xor_from (le_bytes 4 (unat rnd)) 0 (nw_text buf) else nw_text buf)"
    by (rule ws_commit_text [OF assms(1)])
  have op: "op < 16" using assms(3) by (auto simp: ws_ops)
  have "ws_parse st (nw_text w @ rest) = Done (length (nw_text w)) (ws_dispatch op True m (nw_text buf) st)"
    using ws_parse_frame [of _ m, OF assms(2) refl _ op, of "le_bytes 4 (unat rnd)" st rest] w(2) by (cases m) simp_all
  moreover have "ws_dispatch op True m (nw_text buf) st = ws_emit (Msg (nw_text buf)) st"
    using assms(3) by (simp add: ws_dispatch_def)
  ultimately show ?thesis using w(1) by auto
qed

text \<open>(C5) A message framed by \<open>ws_wtr\<close>, of any length below \<open>2 ^ 64 - 14\<close> when it is not
  masked and below \<open>2 ^ 32\<close> when it is, is parsed back by \<open>ws_parser\<close>: it consumes exactly the frame,
  whatever follows, and delivers exactly the message.  The bound of the masked case is that of the
  parser's 32-bit counter, whose loop has no result from there on (\<open>unmask_endless\<close>).\<close>

theorem ws_frame_roundtrip:
  assumes "nw_inv buf" "length (nw_text buf) < (if m then 2 ^ 32 else 2 ^ 64 - 14)" "op = ws_text \<or> op = ws_binary"
  shows "\<exists>w buf'. ws_commit op buf m rnd nw_new = Some (w, buf') \<and>
    ws_parse st (nw_text w @ rest) = Done (length (nw_text w)) (ws_emit (Msg (nw_text buf)) st)"
  by (rule ws_frame_delivers [OF assms])

theorem ws_frame_roundtrip_witness:
  "\<exists>w buf'. ws_commit ws_text \<lparr>wt_hd = [], wt_tl = Some ''hi'', wt_sz = 0\<rparr> True 77 nw_new = Some (w, buf') \<and>
     ws_parse \<lparr>wp_msg = [], wp_out = []\<rparr> (nw_text w @ ''more'') =
       Done (length (nw_text w)) \<lparr>wp_msg = [], wp_out = [Msg ''hi'']\<rparr>"
  using ws_frame_roundtrip [of "\<lparr>wt_hd = [], wt_tl = Some ''hi'', wt_sz = 0\<rparr>" True ws_text 77
      "\<lparr>wp_msg = [], wp_out = []\<rparr>" "''more''"]
  by (simp add: nw_inv_def nw_bufs_def nw_text_def NET_BUF_LEN_def ws_emit_def)

text \<open>(C31) Take a stream in which no frame announces a masked payload of \<open>2 ^ 32\<close> bytes or
  more or an unmasked one of \<open>2 ^ 64 - 14\<close> or more (\<open>ws_sane\<close>; beyond, the parser's counters wrap).
  However the network cuts it into pieces of at most a read's size, the connection delivers the same
  messages and keeps the same unfinished frame as if the whole stream had arrived in one buffer.\<close>

theorem ws_stream_pieces:
  assumes "ws_sane (concat ss)" "\<forall>s \<in> set ss. s \<noteq> [] \<and> length s \<le> RECV_LEN"
  shows "\<exists>c. poll_recv (\<lambda>_. False) ws_parse (map Bytes ss) (conn_new st) = Some c \<and>
    parse_loop (\<lambda>_. False) ws_parse st (concat ss) = Some (nc_st c, nc_rdr c)"
  using ws.poll_recv_pieces [of "conn_new st" ss] assms by (auto simp: conn_new_def)

theorem ws_stream_pieces_witness:
  "\<exists>c. poll_recv (\<lambda>_. False) ws_parse [Bytes [CHR 0x81], Bytes [CHR 0x02, CHR ''h''], Bytes ''i'']
      (conn_new \<lparr>wp_msg = [], wp_out = []\<rparr>) = Some c \<and> wp_out (nc_st c) = [Msg ''hi'']"
proof -
  define ss where "ss = [[CHR 0x81], [CHR 0x02, CHR ''h''], ''i'']"
  have sane: "ws_sane (concat ss)"
    by (simp add: ss_def ws_sane.simps hdr_sane_def frame_len_def ws_lens_def)
  have "\<forall>s \<in> set ss. s \<noteq> [] \<and> length s \<le> RECV_LEN" by (simp add: ss_def RECV_LEN_def)
  from ws_stream_pieces [OF sane this, of "\<lparr>wp_msg = [], wp_out = []\<rparr>"] obtain c where
    c: "poll_recv (\<lambda>_. False) ws_parse (map Bytes ss) (conn_new \<lparr>wp_msg = [], wp_out = []\<rparr>) = Some c"
    "parse_loop (\<lambda>_. False) ws_parse \<lparr>wp_msg = [], wp_out = []\<rparr> (concat ss) = Some (nc_st c, nc_rdr c)" by blast
  moreover have "parse_loop (\<lambda>_. False) ws_parse \<lparr>wp_msg = [], wp_out = []\<rparr> (concat ss) =
      Some (\<lparr>wp_msg = [], wp_out = [Msg ''hi'']\<rparr>, [])"
    by (simp add: ss_def parse_loop.simps ws_parse_def ws_lens_def ws_dispatch_def ws_ops ws_emit_def)
  ultimately show ?thesis by (auto simp: ss_def)
qed

text \<open>(C32) The sum of the third length check wraps: a masked frame of 14 bytes that announces
  \<open>2 ^ 64 - 14\<close> bytes passes the check and the parser unmasks memory outside of the buffer; and an
  unmasked pong that announces \<open>2 ^ 64 - 10\<close> bytes is consumed with length zero, so that the receive
  loop never ends.\<close>

lemma ws_lens_long:
  assumes "length rest + 10 \<ge> (10 + n + (if 128 \<le> byte b then 4 else 0)) mod 2 ^ 64" "n < 2 ^ 64" "byte b mod 128 = 127"
  shows "ws_lens (a # b # be_bytes 8 n @ rest) = Some (10, n)"
proof -
  have "be_val (take 8 (drop 2 (a # b # be_bytes 8 n @ rest))) = n" using assms(2) by (simp add: be_val_bytes)
  then show ?thesis using assms(1,3) by (simp add: ws_lens_def Let_def)
qed

theorem ws_length_wraps:
  "ws_parse st (CHR 0x82 # CHR 0xff # be_bytes 8 (2 ^ 64 - 14) @ [k0, k1, k2, k3]) = Fault \<and>
   ws_parse st (CHR 0x8a # CHR 0x7f # be_bytes 8 (2 ^ 64 - 10) @ []) = Done 0 st \<and>
   parse_loop (\<lambda>_. False) ws_parse st (CHR 0x8a # CHR 0x7f # be_bytes 8 (2 ^ 64 - 10) @ []) = None"
proof (intro conjI)
  have "ws_lens (CHR 0x82 # CHR 0xff # be_bytes 8 (2 ^ 64 - 14) @ [k0, k1, k2, k3]) = Some (10, 2 ^ 64 - 14)"
    by (rule ws_lens_long) simp_all
  moreover have "unmask 0 (2 ^ 64 - 14) key [] = None" for key
    by (subst unmask.simps) simp
  ultimately show "ws_parse st (CHR 0x82 # CHR 0xff # be_bytes 8 (2 ^ 64 - 14) @ [k0, k1, k2, k3]) = Fault"
    by (simp add: ws_parse_def Let_def)
  have "ws_lens (CHR 0x8a # CHR 0x7f # be_bytes 8 (2 ^ 64 - 10) @ []) = Some (10, 2 ^ 64 - 10)"
    by (rule ws_lens_long) simp_all
  then show *: "ws_parse st (CHR 0x8a # CHR 0x7f # be_bytes 8 (2 ^ 64 - 10) @ []) = Done 0 st"
    by (simp add: ws_parse_def ws_dispatch_def ws_ops Let_def)
  show "parse_loop (\<lambda>_. False) ws_parse st (CHR 0x8a # CHR 0x7f # be_bytes 8 (2 ^ 64 - 10) @ []) = None"
    by (subst parse_loop.simps) (simp only: * presult.case, simp)
qed

end
