(* ===== verification/Http.thy ===== *)
theory Http
  imports Net_Stream
begin

text \<open>
  The HTTP parsers of the client, \<open>http_client::parse\<close> and \<open>http_server::parse\<close> in
  \<open>pc/net_socket.cpp\<close>.  Pointers into the receive buffer are offsets; the address \<open>base\<close> of the buffer
  matters where the code adds a length from the network to a pointer (addresses are 64 bits wide) and
  where the server keeps pointers between calls.  Both parsers make their callbacks while they scan,
  before they know that the message is complete.
\<close>

section \<open>Scanning\<close>

function find_ch :: "char \<Rightarrow> string \<Rightarrow> nat \<Rightarrow> nat option" where
  "find_ch c s p = (if p < length s then (if s ! p = c then Some p else find_ch c s (p + 1)) else None)"
  by pat_completeness auto
termination by (relation "measure (\<lambda>(c, s, p). length s - p)") auto

declare find_ch.simps [simp del]

definition next_ch :: "char \<Rightarrow> string \<Rightarrow> nat \<Rightarrow> bool" where
  "next_ch c s p \<longleftrightarrow> p < length s \<and> s ! p = c"

function skip_space :: "string \<Rightarrow> nat \<Rightarrow> nat" where
  "skip_space s p = (if p < length s \<and> is_space (s ! p) then skip_space s (p + 1) else p)"
  by pat_completeness auto
termination by (relation "measure (\<lambda>(s, p). length s - p)") auto

declare skip_space.simps [simp del]

definition text_slice :: "nat \<Rightarrow> nat \<Rightarrow> string \<Rightarrow> string" where
  "text_slice a b s = take (b - a) (drop a s)"

text \<open>\<open>strncmp\<close> for equality: at most \<open>n\<close> characters, up to a NUL.\<close>

definition strncmp_eq :: "string \<Rightarrow> string \<Rightarrow> nat \<Rightarrow> bool" where
  "strncmp_eq a b n \<longleftrightarrow> take n (takeWhile (\<lambda>c. c \<noteq> CHR 0x00) a) = take n (takeWhile (\<lambda>c. c \<noteq> CHR 0x00) b)"

text \<open>\<open>strtol\<close> with base ten, then the conversion to \<open>int\<close>.\<close>

definition strtol10 :: "string \<Rightarrow> int" where
  "strtol10 s =
     (let s = dropWhile is_space s;
          neg = (s \<noteq> [] \<and> hd s = CHR ''-'');
          s = (if s \<noteq> [] \<and> (hd s = CHR ''-'' \<or> hd s = CHR ''+'') then tl s else s);
          v = foldl (\<lambda>a c. 10 * a + int (byte c - 48)) 0 (takeWhile is_digit s);
          v = max (- (2 ^ 63)) (min (2 ^ 63 - 1) (if neg then - v else v))
      in signed_take_bit 31 v)"

text \<open>The empty line that ends the headers.\<close>

definition blank_line :: "string \<Rightarrow> nat \<Rightarrow> bool" where
  "blank_line s p \<longleftrightarrow> p + 2 \<le> length s \<and> s ! p = CHR 13 \<and> s ! (p + 1) = CHR 10"

text \<open>One header line from \<open>p\<close>: its name, its value (as offsets), and where the line's LF would be.\<close>

definition header_line :: "string \<Rightarrow> nat \<Rightarrow> (nat \<times> nat \<times> nat) option" where
  "header_line s p =
     do { hdr_end \<leftarrow> find_ch CHR '':'' s p;
          let val = skip_space s (hdr_end + 1);
          cr \<leftarrow> find_ch (CHR 13) s val;
          Some (hdr_end, val, cr) }"

lemma find_ch_bounds: "find_ch c s p = Some q \<Longrightarrow> p \<le> q \<and> q < length s \<and> s ! q = c"
  by (induction c s p rule: find_ch.induct) (subst (asm) (2) find_ch.simps, auto split: if_splits)

lemma skip_space_bounds: "p \<le> skip_space s p"
  by (induction s p rule: skip_space.induct) (subst skip_space.simps, auto)

lemma header_line_bounds: "header_line s p = Some (e, v, cr) \<Longrightarrow> p \<le> e \<and> e < v \<and> v \<le> cr \<and> cr < length s"
  using skip_space_bounds [of "e + 1" s]
  by (auto simp: header_line_def bind_eq_Some_conv Let_def dest!: find_ch_bounds)

section \<open>Client\<close>

datatype http_event = Status int string | Header string string | Content string

text \<open>The header loop, with \<open>clen\<close> the content length if one was seen: the callbacks so far, and, if the
  empty line was reached, its offset and the content length.\<close>

function client_headers :: "string \<Rightarrow> nat \<Rightarrow> u64 option \<Rightarrow> http_event list \<Rightarrow> http_event list \<times> (nat \<times> u64 option) option" where
  "client_headers s p clen ev =
     (if blank_line s p then (ev, Some (p, clen))
      else case header_line s p of
             None \<Rightarrow> (ev, None)
           | Some (hdr_end, val, cr) \<Rightarrow>
               let hdr = text_slice p hdr_end s; v = text_slice val cr s;
                   is_len = (clen = None \<and> (strncmp_eq ''Content-Length'' hdr (length hdr) \<or>
                                           strncmp_eq ''content-length'' hdr (length hdr)));
                   ev = (if is_len then ev else ev @ [Header hdr v]);
                   clen = (if is_len then Some (str_to_uint v) else clen)
               in if next_ch (CHR 10) s (cr + 1) then client_headers s (cr + 2) clen ev else (ev, None))"
  by pat_completeness auto
termination
  by (relation "measure (\<lambda>(s, p, clen, ev). length s - p)") (auto dest: header_line_bounds)

declare client_headers.simps [simp del]

text \<open>The end of the content is computed on addresses and compared with the end of the buffer.\<close>

definition content_end :: "nat \<Rightarrow> string \<Rightarrow> nat \<Rightarrow> u64 option \<Rightarrow> nat option" where
  "content_end base s p clen =
     (let cnt = (base + p + (case clen of None \<Rightarrow> 0 | Some n \<Rightarrow> unat n)) mod 2 ^ 64
      in if cnt > base + length s then None else Some cnt)"

lemma content_end_code [code]:
  "content_end base s p clen =
     (let cnt = (int base + int p + (case clen of None \<Rightarrow> 0 | Some n \<Rightarrow> uint n)) mod 18446744073709551616
      in if cnt > int (base + length s) then None else Some (nat cnt))"
proof -
  define m where "m = (case clen of None \<Rightarrow> 0 | Some n \<Rightarrow> unat n)"
  have m: "(case clen of None \<Rightarrow> 0 | Some n \<Rightarrow> uint n) = int m" by (simp add: m_def split: option.splits)
  have "(int base + int p + int m) mod 18446744073709551616 = int ((base + p + m) mod 2 ^ 64)"
    by (simp add: of_nat_mod)
  then show ?thesis unfolding content_end_def m m_def [symmetric] Let_def by simp
qed

text \<open>The body, once the empty line was found at \<open>p\<close>.\<close>

definition client_body :: "nat \<Rightarrow> string \<Rightarrow> nat \<Rightarrow> u64 option \<Rightarrow> http_event list \<Rightarrow> http_event list presult" where
  "client_body base s p clen ev =
     (let n = (case clen of None \<Rightarrow> 0 | Some n \<Rightarrow> unat n)
      in case content_end base s (p + 2) clen of
           None \<Rightarrow> Incomplete ev
         | Some cnt \<Rightarrow>
             if length s < p + 2 + n \<or> cnt < base then Fault
             else Done (cnt - base) (ev @ [Content (text_slice (p + 2) (p + 2 + n) s)]))"

definition http_client_parse :: "nat \<Rightarrow> http_event list \<Rightarrow> string \<Rightarrow> http_event list presult" where
  "http_client_parse base ev s =
     (case (do { a \<leftarrow> find_ch CHR '' '' s 0;
                 b \<leftarrow> find_ch CHR '' '' s (a + 1);
                 cr \<leftarrow> find_ch (CHR 13) s (b + 1);
                 Some (a + 1, b + 1, cr) }) of
        None \<Rightarrow> Incomplete ev
      | Some (st, msg, cr) \<Rightarrow>
          let ev = ev @ [Status (strtol10 (drop st s)) (text_slice msg cr s)]
          in if \<not> next_ch (CHR 10) s (cr + 1) then Incomplete ev
             else (case client_headers s (cr + 2) None ev of
                     (ev, None) \<Rightarrow> Incomplete ev
                   | (ev, Some (p, clen)) \<Rightarrow> client_body base s p clen ev))"

section \<open>Server\<close>

text \<open>The names and values of the headers stay in the parser; a value is a pointer and a length.  \<open>hs_ws\<close>
  says that a WebSocket parser is set, \<open>hs_out\<close> lists the content callbacks and upgrade keys, and
  \<open>hs_sent\<close> the messages handed to the connection.\<close>

record http_server =
  hs_path :: "nat \<times> nat"
  hs_hnms :: "string list"
  hs_hval :: "(nat \<times> nat) list"
  hs_ws :: bool
  hs_upgraded :: bool
  hs_out :: "string list"
  hs_sent :: "string list"

definition to_upper :: "char \<Rightarrow> char" where
  "to_upper c = (if in_range CHR ''a'' CHR ''z'' c then to_byte (byte c - 32) else c)"

text \<open>Reading through a kept pointer is defined only inside the present buffer.\<close>

definition deref :: "nat \<Rightarrow> string \<Rightarrow> nat \<times> nat \<Rightarrow> string option" where
  "deref base s ptr =
     (case ptr of (a, n) \<Rightarrow>
        if base \<le> a \<and> a + n \<le> base + length s then Some (take n (drop (a - base) s)) else None)"

definition get_header_val :: "http_server \<Rightarrow> string \<Rightarrow> (nat \<times> nat) option" where
  "get_header_val hs key = map_of (zip (hs_hnms hs) (hs_hval hs)) key"

function server_headers :: "nat \<Rightarrow> string \<Rightarrow> nat \<Rightarrow> u64 option \<Rightarrow> bool \<Rightarrow> http_server \<Rightarrow>
    http_server \<times> (nat \<times> u64 option \<times> bool) option" where
  "server_headers base s p clen upg hs =
     (if blank_line s p then (hs, Some (p, clen, upg))
      else case header_line s p of
             None \<Rightarrow> (hs, None)
           | Some (hdr_end, val, cr) \<Rightarrow>
               let hdr = map to_upper (text_slice p hdr_end s); v = text_slice val cr s;
                   is_len = (clen = None \<and> hdr = ''CONTENT-LENGTH'');
                   upg = (if \<not> is_len \<and> hs_ws hs \<and> \<not> upg
                          then hdr = ''UPGRADE'' \<and> strncmp_eq ''websocket'' v (length v) else upg);
                   hs = (if is_len then hs
                         else hs\<lparr>hs_hnms := hs_hnms hs @ [hdr], hs_hval := hs_hval hs @ [(base + val, cr - val)]\<rparr>);
                   clen = (if is_len then Some (str_to_uint v) else clen)
               in if next_ch (CHR 10) s (cr + 1) then server_headers base s (cr + 2) clen upg hs else (hs, None))"
  by pat_completeness auto
termination
  by (relation "measure (\<lambda>(base, s, p, clen, upg, hs). length s - p)") (auto dest: header_line_bounds)

declare server_headers.simps [simp del]

text \<open>The reply to an upgrade request; \<open>sha1\<close> is the digest function of the crypto library.\<close>

definition magic_id :: string where
  "magic_id = ''258EAFA5-E914-47DA-95CA-C5AB0DC85B11''"

definition upgrade_reply :: "string \<Rightarrow> net_wtr option" where
  "upgrade_reply accept =
     do { msg \<leftarrow> http_response_init ''101'' ''Switching Protocols'' nw_new;
          msg \<leftarrow> add_hdr ''Connection'' ''Upgrade'' msg;
          msg \<leftarrow> add_hdr ''Upgrade'' ''websocket'' msg;
          msg \<leftarrow> add_hdr ''Sec-WebSocket-Accept'' accept msg;
          http_commit msg }"

definition upgrade_ws :: "(string \<Rightarrow> string) \<Rightarrow> nat \<Rightarrow> string \<Rightarrow> http_server \<Rightarrow> http_server option" where
  "upgrade_ws sha1 base s hs =
     (case get_header_val hs ''SEC-WEBSOCKET-KEY'' of
        None \<Rightarrow> Some hs
      | Some ptr \<Rightarrow>
          do { key \<leftarrow> deref base s ptr;
               msg \<leftarrow> upgrade_reply (enc_base64 (sha1 (key @ magic_id)));
               Some (hs\<lparr>hs_upgraded := True, hs_sent := hs_sent hs @ [nw_text msg]\<rparr>) })"

definition server_body :: "(string \<Rightarrow> string) \<Rightarrow> nat \<Rightarrow> string \<Rightarrow> nat \<Rightarrow> u64 option \<Rightarrow> bool \<Rightarrow> http_server \<Rightarrow>
    http_server presult" where
  "server_body sha1 base s p clen upg hs =
     (let n = (case clen of None \<Rightarrow> 0 | Some n \<Rightarrow> unat n)
      in case content_end base s (p + 2) clen of
           None \<Rightarrow> Incomplete hs
         | Some cnt \<Rightarrow>
             if upg then
               (case upgrade_ws sha1 base s hs of None \<Rightarrow> Fault
                | Some hs \<Rightarrow> Done ((cnt - base) mod 2 ^ 64) hs)
             else if length s < p + 2 + n \<or> cnt < base then Fault
             else Done (cnt - base) (hs\<lparr>hs_out := hs_out hs @ [text_slice (p + 2) (p + 2 + n) s]\<rparr>))"

definition http_server_parse :: "(string \<Rightarrow> string) \<Rightarrow> nat \<Rightarrow> http_server \<Rightarrow> string \<Rightarrow> http_server presult" where
  "http_server_parse sha1 base hs s =
     (case (do { a \<leftarrow> find_ch CHR '' '' s 0;
                 b \<leftarrow> find_ch CHR '' '' s (a + 1);
                 cr \<leftarrow> find_ch (CHR 13) s b;
                 Some (a + 1, b, cr) }) of
        None \<Rightarrow> Incomplete hs
      | Some (path, path_end, cr) \<Rightarrow>
          let hs = hs\<lparr>hs_path := (base + path, path_end - path)\<rparr>
          in if \<not> next_ch (CHR 10) s (cr + 1) then Incomplete hs
             else (case server_headers base s (cr + 2) None False hs of
                     (hs, None) \<Rightarrow> Incomplete hs
                   | (hs, Some (p, clen, upg)) \<Rightarrow> server_body sha1 base s p clen upg hs))"

section \<open>Scanning a well-formed message\<close>

lemma find_ch_at:
  "p \<le> q \<Longrightarrow> q < length s \<Longrightarrow> s ! q = c \<Longrightarrow> \<forall>i. p \<le> i \<and> i < q \<longrightarrow> s ! i \<noteq> c \<Longrightarrow> find_ch c s p = Some q"
proof (induction "q - p" arbitrary: p)
  case 0
  then show ?case by (subst find_ch.simps) simp
next
  case (Suc n)
  then have "find_ch c s (p + 1) = Some q" by simp
  then show ?case using Suc.prems Suc.hyps(2) by (subst find_ch.simps) auto
qed

lemma find_ch_append: "c \<notin> set t \<Longrightarrow> find_ch c (pre @ t @ c # rest) (length pre) = Some (length pre + length t)"
  by (rule find_ch_at) (auto simp: nth_append in_set_conv_nth)

lemma text_slice_append: "text_slice (length pre) (length pre + length t) (pre @ t @ rest) = t"
  by (simp add: text_slice_def)

lemma skip_space_stop: "p < length s \<Longrightarrow> \<not> is_space (s ! p) \<Longrightarrow> skip_space s p = p"
  by (subst skip_space.simps) simp

lemma skip_space_step: "p < length s \<Longrightarrow> is_space (s ! p) \<Longrightarrow> skip_space s p = skip_space s (p + 1)"
  by (subst skip_space.simps) simp

definition good_name :: "string \<Rightarrow> bool" where
  "good_name h \<longleftrightarrow> h \<noteq> [] \<and> CHR '':'' \<notin> set h \<and> hd h \<noteq> CHR 13"

definition good_value :: "string \<Rightarrow> bool" where
  "good_value v \<longleftrightarrow> v \<noteq> [] \<and> \<not> is_space (hd v) \<and> CHR 13 \<notin> set v"

definition hdr_text :: "string \<Rightarrow> string \<Rightarrow> string" where
  "hdr_text h v = h @ '': '' @ v @ crlf"

lemma header_line_ok:
  assumes "good_name h" "good_value v" and s: "s = pre @ hdr_text h v @ rest" and p: "p = length pre"
  shows "header_line s p = Some (p + length h, p + length h + 2, p + length h + 2 + length v)"
    and "text_slice p (p + length h) s = h" "text_slice (p + length h + 2) (p + length h + 2 + length v) s = v"
    and "next_ch (CHR 10) s (p + length h + 2 + length v + 1)"
    and "\<not> blank_line s p"
    and "p + length h + 2 + length v + 2 = length (pre @ hdr_text h v)"
proof -
  have a: "find_ch CHR '':'' s p = Some (p + length h)"
    using find_ch_append [of "CHR '':''" h pre "'' '' @ v @ crlf @ rest"] assms by (simp add: hdr_text_def good_name_def)
  have sp: "skip_space s (p + length h + 1) = p + length h + 2"
  proof -
    have "s ! (p + length h + 1) = CHR '' ''" "s ! (p + length h + 2) = hd v"
      using assms by (auto simp: hdr_text_def nth_append good_value_def hd_conv_nth)
    then show ?thesis
      using assms by (subst skip_space_step) (auto simp: s hdr_text_def is_space_def good_value_def intro!: skip_space_stop)
  qed
  have b: "find_ch (CHR 13) s (p + length h + 2) = Some (p + length h + 2 + length v)"
    using find_ch_append [of "CHR 13" v "pre @ h @ '': ''" "CHR 10 # rest"] assms
    by (simp add: hdr_text_def good_value_def crlf_def)
  show "header_line s p = Some (p + length h, p + length h + 2, p + length h + 2 + length v)"
    using a sp b by (simp add: header_line_def)
  show "text_slice p (p + length h) s = h"
    using text_slice_append [of pre h] by (simp add: s p hdr_text_def)
  show "text_slice (p + length h + 2) (p + length h + 2 + length v) s = v"
    using text_slice_append [of "pre @ h @ '': ''" v "crlf @ rest"] by (simp add: s p hdr_text_def)
  show "next_ch (CHR 10) s (p + length h + 2 + length v + 1)"
    by (simp add: next_ch_def s p hdr_text_def crlf_def nth_append)
  show "\<not> blank_line s p"
    using assms(1) by (auto simp: blank_line_def s p hdr_text_def good_name_def nth_append hd_conv_nth)
  show "p + length h + 2 + length v + 2 = length (pre @ hdr_text h v)"
    by (simp add: p hdr_text_def crlf_def)
qed

lemma server_headers_step:
  assumes "good_name h" "good_value v" "s = pre @ hdr_text h v @ rest" "p = length pre"
    and "map to_upper h \<noteq> ''CONTENT-LENGTH''" "map to_upper h \<noteq> ''UPGRADE''"
  shows "server_headers base s p clen False hs =
    server_headers base s (length (pre @ hdr_text h v)) clen False
      (hs\<lparr>hs_hnms := hs_hnms hs @ [map to_upper h], hs_hval := hs_hval hs @ [(base + p + length h + 2, length v)]\<rparr>)"
  using header_line_ok [OF assms(1-4)] assms(5,6)
  by (subst server_headers.simps) (simp add: Let_def add.assoc)

lemma server_headers_length:
  assumes "good_name h" "good_value v" "s = pre @ hdr_text h v @ rest" "p = length pre"
    and "map to_upper h = ''CONTENT-LENGTH''"
  shows "server_headers base s p None upg hs =
    server_headers base s (length (pre @ hdr_text h v)) (Some (str_to_uint v)) upg hs"
  using header_line_ok [OF assms(1-4)] assms(5)
  by (subst server_headers.simps) (simp add: Let_def)

lemma server_headers_end:
  "s = pre @ crlf @ rest \<Longrightarrow> p = length pre \<Longrightarrow> server_headers base s p clen upg hs = (hs, Some (p, clen, upg))"
  by (subst server_headers.simps) (simp add: blank_line_def crlf_def nth_append)

lemma content_end_ok:
  "base + length s < 2 ^ 64 \<Longrightarrow> p + unat n \<le> length s \<Longrightarrow> content_end base s p (Some n) = Some (base + p + unat n)"
  by (simp add: content_end_def)

lemma good_value_uint: "good_value (uint_to_str v)"
proof -
  obtain d where "put_digits (unat v) [] = d" "list_all is_digit d" "d = [] \<longleftrightarrow> unat v = 0"
    using put_digits_spec [of "unat v" "[]"] by auto
  then have d: "uint_to_str v \<noteq> []" "list_all is_digit (uint_to_str v)"
    by (auto simp: uint_to_str_def is_digit_def less_eq_char_def unat_eq_0)
  have "\<not> is_digit (CHR 13)" "is_digit c \<Longrightarrow> \<not> is_space c" for c
    by (auto simp: is_digit_def is_space_def less_eq_char_def)
  with d show ?thesis
    by (auto simp: good_value_def list_all_iff)
qed

lemma server_body_ok:
  assumes s: "s = pre @ crlf @ body @ rest" and p: "p = length pre" and n: "unat n = length body"
    and base: "base + length s < 2 ^ 64"
  shows "server_body sha1 base s p (Some n) False hs =
    Done (p + 2 + length body) (hs\<lparr>hs_out := hs_out hs @ [body]\<rparr>)"
proof -
  have "content_end base s (p + 2) (Some n) = Some (base + (p + 2) + unat n)"
    by (rule content_end_ok [OF base]) (simp add: s p n crlf_def)
  moreover have "text_slice (p + 2) (p + 2 + length body) s = body"
    using text_slice_append [of "pre @ crlf" body rest] by (simp add: s p crlf_def)
  ultimately show ?thesis
    by (simp add: server_body_def n s p crlf_def)
qed

lemma deref_value:
  assumes "good_name h" "good_value v" "s = pre @ hdr_text h v @ rest"
  shows "deref base s (base + length pre + length h + 2, length v) = Some v"
proof -
  have "text_slice (length pre + length h + 2) (length pre + length h + 2 + length v) s = v"
    by (rule header_line_ok(3) [OF assms refl])
  then show ?thesis by (simp add: deref_def text_slice_def assms(3) hdr_text_def)
qed

section \<open>Results\<close>

text \<open>The server parser on the text of a POST request, header by header.\<close>

lemma http_post_delivers:
  assumes "nw_inv body" "good_value host"
    and "base + length (nw_text body) + length host + length rest + 200 < 2 ^ 64"
  shows "\<exists>msg hs'. http_post host body = Some msg \<and>
    http_server_parse sha1 base hs (nw_text msg @ rest) = Done (length (nw_text msg)) hs' \<and>
    hs_out hs' = hs_out hs @ [nw_text body] \<and> deref base (nw_text msg @ rest) (hs_path hs') = Some ''/'' \<and>
    hs_hnms hs' = hs_hnms hs @ [''HOST'', ''CONTENT-TYPE''] \<and> length (hs_hval hs') = length (hs_hval hs) + 2 \<and>
    take (length (hs_hval hs)) (hs_hval hs') = hs_hval hs \<and>
    map (deref base (nw_text msg @ rest)) (drop (length (hs_hval hs)) (hs_hval hs')) = [Some host, Some ''application/json'']"
proof -
  define b where "b = nw_text body"
  define n where "n = (of_nat (length b) :: u64)"
  have n: "unat n = length b" using assms(3) by (simp add: n_def b_def unat_of_nat)
  obtain msg where msg: "http_post host body = Some msg"
    "nw_text msg = ''POST / HTTP/1.1'' @ crlf @ hdr_text ''Host'' host @ hdr_text ''Content-Type'' ''application/json'' @
       hdr_text ''Content-Length'' (uint_to_str n) @ crlf @ b"
    using http_post_text [OF assms(1), of host] by (auto simp: hdr_text_def n_def b_def)
  define s where "s = nw_text msg @ rest"
  define l0 where "l0 = ''POST / HTTP/1.1'' @ crlf"
  define l1 where "l1 = l0 @ hdr_text ''Host'' host"
  define l2 where "l2 = l1 @ hdr_text ''Content-Type'' ''application/json''"
  define l3 where "l3 = l2 @ hdr_text ''Content-Length'' (uint_to_str n)"
  have s: "s = l0 @ hdr_text ''Host'' host @ drop (length l1) s"
    "s = l1 @ hdr_text ''Content-Type'' ''application/json'' @ drop (length l2) s"
    "s = l2 @ hdr_text ''Content-Length'' (uint_to_str n) @ drop (length l3) s"
    "s = l3 @ crlf @ b @ rest"
    by (simp_all add: s_def msg(2) l3_def l2_def l1_def l0_def)
  have scan: "find_ch CHR '' '' s 0 = Some 4" "find_ch CHR '' '' s 5 = Some 6" "find_ch (CHR 13) s 6 = Some 15"
    "next_ch (CHR 10) s 16"
    using find_ch_append [of "CHR '' ''" "''POST''" "[]"] find_ch_append [of "CHR '' ''" "''/''" "''POST ''"]
      find_ch_append [of "CHR 13" "'' HTTP/1.1''" "''POST /''"]
    by (simp_all add: s_def msg(2) crlf_def next_ch_def numeral_eq_Suc)
  define hs0 where "hs0 = hs\<lparr>hs_path := (base + 5, 1)\<rparr>"
  have g: "good_name ''Host''" "good_name ''Content-Type''" "good_name ''Content-Length''"
    "good_value ''application/json''" "good_value (uint_to_str n)"
    by (simp_all add: good_name_def good_value_def is_space_def) (use good_value_uint [of n] in \<open>simp add: good_value_def is_space_def\<close>)
  have up: "map to_upper ''Host'' = ''HOST''" "map to_upper ''Content-Type'' = ''CONTENT-TYPE''"
    "map to_upper ''Content-Length'' = ''CONTENT-LENGTH''" by code_simp+
  define hs1 where "hs1 = hs0\<lparr>hs_hnms := hs_hnms hs0 @ [map to_upper ''Host''],
    hs_hval := hs_hval hs0 @ [(base + length l0 + length ''Host'' + 2, length host)]\<rparr>"
  have h1: "server_headers base s (length l0) None False hs0 = server_headers base s (length l1) None False hs1"
    unfolding l1_def hs1_def by (rule server_headers_step [OF g(1) assms(2) s(1) refl]) (simp_all add: up)
  define hs2 where "hs2 = hs1\<lparr>hs_hnms := hs_hnms hs1 @ [map to_upper ''Content-Type''],
    hs_hval := hs_hval hs1 @ [(base + length l1 + length ''Content-Type'' + 2, length ''application/json'')]\<rparr>"
  have h2: "server_headers base s (length l1) None False hs1 = server_headers base s (length l2) None False hs2"
    unfolding l2_def hs2_def by (rule server_headers_step [OF g(2,4) s(2) refl]) (simp_all add: up)
  have out: "hs_out hs2 = hs_out hs" "hs_path hs2 = (base + 5, 1)" "hs_hnms hs2 = hs_hnms hs @ [''HOST'', ''CONTENT-TYPE'']"
    "hs_hval hs2 = hs_hval hs @ [(base + length l0 + length ''Host'' + 2, length host),
       (base + length l1 + length ''Content-Type'' + 2, length ''application/json'')]"
    by (simp_all only: hs2_def hs1_def hs0_def up) simp_all
  have vals: "deref base s (base + length l0 + length ''Host'' + 2, length host) = Some host"
    "deref base s (base + length l1 + length ''Content-Type'' + 2, length ''application/json'') = Some ''application/json''"
    by (rule deref_value [OF g(1) assms(2) s(1)], rule deref_value [OF g(2,4) s(2)])
  have h3: "server_headers base s (length l2) None False hs2 = (hs2, Some (length l3, Some n, False))"
    using server_headers_length [OF g(3,5) s(3) refl up(3)] server_headers_end [OF s(4) refl] int_str_uint [of n]
    by (simp add: l3_def)
  have "length (uint_to_str n) \<le> 20" by (rule uint_to_str_bound)
  then have len: "base + length s < 2 ^ 64"
    using assms(3) by (simp add: s_def msg(2) hdr_text_def crlf_def b_def)
  have "length l0 = 17" by (simp add: l0_def crlf_def)
  then have "server_headers base s 17 None False (hs\<lparr>hs_path := (base + 5, 1)\<rparr>) = (hs2, Some (length l3, Some n, False))"
    using h1 h2 h3 unfolding hs0_def by metis
  then have "http_server_parse sha1 base hs s =
      Done (length l3 + 2 + length b) (hs2\<lparr>hs_out := hs_out hs2 @ [b]\<rparr>)"
    using scan server_body_ok [OF s(4) refl n len]
    by (simp add: http_server_parse_def)
  moreover have "length l3 + 2 + length b = length (nw_text msg)"
    by (simp add: msg(2) l3_def l2_def l1_def l0_def crlf_def)
  moreover have "deref base s (base + 5, 1) = Some ''/''"
    by (simp add: deref_def s_def msg(2))
  ultimately have run: "http_server_parse sha1 base hs (nw_text msg @ rest) =
      Done (length (nw_text msg)) (hs2\<lparr>hs_out := hs_out hs2 @ [b]\<rparr>)"
    "deref base (nw_text msg @ rest) (base + 5, 1) = Some ''/''"
    unfolding s_def by simp_all
  show ?thesis
    by (intro exI [of _ msg] exI [of _ "hs2\<lparr>hs_out := hs_out hs2 @ [b]\<rparr>"] conjI msg(1) run(1))
      (use out vals run(2) in \<open>simp_all add: b_def s_def\<close>)
qed



text \<open>(C34) The server keeps pointers to header values of an incomplete request and
  finds them first when the request is parsed again.  When the receive buffer was moved in between, as
  growing it does, an upgrade request that arrives in two pieces makes the parser read through a dangling
  pointer, although the same request in one piece is accepted.\<close>

definition upgrade_part1 :: string where
  "upgrade_part1 = ''GET / HTTP/1.1'' @ crlf @ hdr_text ''Sec-WebSocket-Key'' ''k'' "

definition upgrade_part2 :: string where
  "upgrade_part2 = hdr_text ''Upgrade'' ''websocket'' @ crlf"

definition server0 :: http_server where
  "server0 = \<lparr>hs_path = (0, 0), hs_hnms = [], hs_hval = [], hs_ws = True, hs_upgraded = False, hs_out = [], hs_sent = []\<rparr>"

theorem http_server_dangling_key:
  "\<exists>hs. http_server_parse sha1 64 server0 upgrade_part1 = Incomplete hs \<and>
     http_server_parse sha1 256 hs (upgrade_part1 @ upgrade_part2) = Fault"
proof -
  define hs where "hs = server0\<lparr>hs_path := (68, 1), hs_hnms := [''SEC-WEBSOCKET-KEY''], hs_hval := [(99, 1)]\<rparr>"
  have "http_server_parse sha1 64 server0 upgrade_part1 = Incomplete hs"
    unfolding hs_def by code_simp
  moreover have "http_server_parse sha1 256 hs (upgrade_part1 @ upgrade_part2) = Fault"
    unfolding hs_def by code_simp
  ultimately show ?thesis by blast
qed

end
