(* ===== verification/Key_Pair.thy ===== *)
theory Key_Pair
  imports Json_Wtr Jtree Byte_Order
begin

text \<open>
  Hashes, public keys, key pairs and signatures, \<open>pc/key_pair.cpp\<close> and \<open>pc/key_pair.hpp\<close>.  The arrays
  of the classes have a fixed length; the base 58 decoder writes as many bytes as the text encodes, so
  writing past the array is \<open>None\<close>.  The signature scheme is that of the crypto library and a
  parameter.
\<close>

section \<open>Fixed-length buffers\<close>

definition HASH_LEN :: nat where "HASH_LEN = 32"
definition KEY_PAIR_LEN :: nat where "KEY_PAIR_LEN = 64"
definition SIG_LEN :: nat where "SIG_LEN = 64"

text \<open>\<open>dec_base58\<close> into an array that holds \<open>old\<close>.\<close>

definition dec_base58_into :: "string \<Rightarrow> string \<Rightarrow> string option" where
  "dec_base58_into txt old =
     (let r = dec_base58 txt in if length r \<le> length old then Some (r @ drop (length r) old) else None)"

section \<open>Class hash\<close>

definition hash_zero :: string where
  "hash_zero = replicate HASH_LEN (to_byte 0)"

text \<open>Comparison goes by the four words of the union.\<close>

definition hash_words :: "string \<Rightarrow> nat list" where
  "hash_words pk = map (\<lambda>i. le_val (take 8 (drop (8 * i) pk))) [0..<4]"

definition hash_eq :: "string \<Rightarrow> string \<Rightarrow> bool" where
  "hash_eq a b \<longleftrightarrow> hash_words a ! 0 = hash_words b ! 0 \<and> hash_words a ! 1 = hash_words b ! 1 \<and>
     hash_words a ! 2 = hash_words b ! 2 \<and> hash_words a ! 3 = hash_words b ! 3"

definition hash_neq :: "string \<Rightarrow> string \<Rightarrow> bool" where
  "hash_neq a b \<longleftrightarrow> hash_words a ! 0 \<noteq> hash_words b ! 0 \<or> hash_words a ! 1 \<noteq> hash_words b ! 1 \<or>
     hash_words a ! 2 \<noteq> hash_words b ! 2 \<or> hash_words a ! 3 \<noteq> hash_words b ! 3"

text \<open>\<open>init_from_text\<close> and \<open>init_from_file\<close> (with the contents of the file, if it can be read).\<close>

definition hash_init_from_text :: "string \<Rightarrow> string \<Rightarrow> string option" where
  "hash_init_from_text txt pk = dec_base58_into txt pk"

definition hash_init_from_file :: "string option \<Rightarrow> string \<Rightarrow> (bool \<times> string) option" where
  "hash_init_from_file file pk =
     (case file of None \<Rightarrow> Some (False, pk) | Some txt \<Rightarrow> map_option (\<lambda>pk. (True, pk)) (dec_base58_into txt pk))"

definition hash_init_from_buf :: "string \<Rightarrow> string option" where
  "hash_init_from_buf buf = (if HASH_LEN \<le> length buf then Some (take HASH_LEN buf) else None)"

text \<open>\<open>enc_base58\<close> with the local buffer of 64 characters; an encoding that does not fit has length zero.\<close>

definition hash_enc_base58 :: "string \<Rightarrow> string" where
  "hash_enc_base58 pk = (case enc_base58 pk 64 of None \<Rightarrow> [] | Some t \<Rightarrow> t)"

section \<open>Class key\_pair\<close>

definition key_pair_zero :: string where
  "key_pair_zero = replicate KEY_PAIR_LEN (to_byte 0)"

definition get_pub_key :: "string \<Rightarrow> string option" where
  "get_pub_key kp = hash_init_from_buf (drop HASH_LEN kp)"

text \<open>\<open>init_from_json\<close> writes one byte for every element of the list at node 1.\<close>

fun kp_fill :: "nat \<Rightarrow> jtree \<Rightarrow> nat \<Rightarrow> nat \<Rightarrow> string \<Rightarrow> (nat \<times> string) option" where
  "kp_fill 0 jt it i pk = None"
| "kp_fill (Suc fuel) jt it i pk =
     (if it = 0 then Some (i, pk)
      else do { v \<leftarrow> jt_get_uint jt it;
                if i < length pk then
                  do { n \<leftarrow> jt_get_next jt it; kp_fill fuel jt n (i + 1) (pk[i := to_byte (unat v mod 256)]) }
                else None })"

definition kp_init_from_json :: "string \<Rightarrow> string \<Rightarrow> (bool \<times> string) option" where
  "kp_init_from_json buf pk =
     do { jt \<leftarrow> jt_parse buf;
          it \<leftarrow> jt_get_first jt 1;
          (n, pk) \<leftarrow> kp_fill (Suc (length (jt_nv jt))) jt it 0 pk;
          Some (n = KEY_PAIR_LEN, pk) }"

definition kp_init_from_file :: "string option \<Rightarrow> string \<Rightarrow> (bool \<times> string) option" where
  "kp_init_from_file file pk = (case file of None \<Rightarrow> Some (False, pk) | Some s \<Rightarrow> kp_init_from_json s pk)"

section \<open>Class signature\<close>

definition sig_init_from_buf :: "string \<Rightarrow> string option" where
  "sig_init_from_buf buf = (if SIG_LEN \<le> length buf then Some (take SIG_LEN buf) else None)"

definition sig_init_from_text :: "string \<Rightarrow> string \<Rightarrow> string option" where
  "sig_init_from_text txt sig = dec_base58_into txt sig"

definition sig_enc_base58 :: "string \<Rightarrow> string" where
  "sig_enc_base58 sig = (case enc_base58 sig 256 of None \<Rightarrow> [] | Some t \<Rightarrow> t)"

text \<open>Signing with the private half of a key pair: \<open>ed_sign\<close> is the library's signature of a message under
  a private key, \<open>None\<close> when it refuses the key; \<open>ed_verify\<close> its verification.\<close>

definition sig_sign :: "(string \<Rightarrow> string \<Rightarrow> string option) \<Rightarrow> string \<Rightarrow> string \<Rightarrow> string option" where
  "sig_sign ed_sign msg kp = ed_sign (take HASH_LEN kp) msg"

definition sig_verify :: "(string \<Rightarrow> string \<Rightarrow> string \<Rightarrow> bool) \<Rightarrow> string \<Rightarrow> string \<Rightarrow> string \<Rightarrow> bool" where
  "sig_verify ed_verify sig msg pk = ed_verify pk sig msg"

section \<open>Results\<close>

lemma hash_words_inj:
  assumes "length a = 32" "length b = 32" "hash_eq a b"
  shows "a = b"
proof -
  have e: "le_val (take 8 (drop (8 * i) a)) = le_val (take 8 (drop (8 * i) b))" if "i < 4" for i
  proof -
    consider "i = 0" | "i = 1" | "i = 2" | "i = 3" using \<open>i < 4\<close> by linarith
    then show ?thesis using assms(3) by cases (simp_all add: hash_eq_def hash_words_def)
  qed
  have l: "take 8 (drop (8 * i) a) = take 8 (drop (8 * i) b)" if "i < 4" for i
    using e [OF that] le_bytes_val [of "take 8 (drop (8 * i) a)"] le_bytes_val [of "take 8 (drop (8 * i) b)"]
      assms(1,2) that by simp
  have split: "s = take 8 s @ take 8 (drop 8 s) @ take 8 (drop 16 s) @ take 8 (drop 24 s)" if "length s = 32" for s :: string
  proof -
    have "take (8 + (8 + (8 + 8))) s =
        take 8 s @ take 8 (drop 8 s) @ take 8 (drop 8 (drop 8 s)) @ take 8 (drop 8 (drop 8 (drop 8 s)))"
      by (simp only: take_add)
    then show ?thesis using that by simp
  qed
  show ?thesis
    using split [OF assms(1)] split [OF assms(2)] l [of 0] l [of 1] l [of 2] l [of 3] by simp
qed

text \<open> The text of a 32-byte key reads back as the key, for every key with a non-zero byte;
  the text of the zero key, which the client uses for "no key", decodes to 33 bytes and writes past the end
  of the array.  Comparison by words is equality.\<close>

theorem pub_key_text:
  assumes "length pk = HASH_LEN" "length old = HASH_LEN"
  shows "hash_init_from_text (hash_enc_base58 pk) old = (if pk = hash_zero then None else Some pk) \<and>
    (hash_eq pk old \<longleftrightarrow> pk = old) \<and> (hash_neq pk old \<longleftrightarrow> pk \<noteq> old)"
proof -
  have z: "pk = hash_zero \<longleftrightarrow> \<not> (\<exists>c\<in>set pk. byte c \<noteq> 0)"
  proof -
    have "pk = replicate HASH_LEN (to_byte 0)" if "\<forall>c\<in>set pk. byte c = 0"
      using replicate_length_same [of pk "to_byte 0"] that assms(1) by (metis char_of_char)
    then show ?thesis by (auto simp: hash_zero_def)
  qed
  have "pk \<noteq> []" "length pk = 32" using assms(1) by (auto simp: HASH_LEN_def)
  then obtain t where t: "enc_base58 pk 64 = Some t"
    "dec_base58 t = (if \<exists>c\<in>set pk. byte c \<noteq> 0 then pk else to_byte 0 # pk)"
    using base58_enc_dec [of pk 64] by auto
  then have "hash_init_from_text (hash_enc_base58 pk) old = (if pk = hash_zero then None else Some pk)"
    using assms z by (auto simp: hash_init_from_text_def dec_base58_into_def hash_enc_base58_def Let_def)
  moreover have "hash_eq pk old \<longleftrightarrow> pk = old"
    using hash_words_inj [of pk old] assms by (auto simp: HASH_LEN_def hash_eq_def)
  moreover have "hash_neq pk old \<longleftrightarrow> \<not> hash_eq pk old"
    by (auto simp: hash_eq_def hash_neq_def)
  ultimately show ?thesis by blast
qed

theorem pub_key_text_witness:
  "hash_init_from_text (hash_enc_base58 hash_zero) hash_zero = None"
  using pub_key_text [of hash_zero hash_zero] by (simp add: hash_zero_def)

text \<open>(C35) No length is checked before a text is decoded into a key: the text of any
  byte string of 33 to 120 bytes that has a non-zero byte overruns the array.\<close>

theorem account_text_overflow:
  assumes "HASH_LEN < length src" "length src \<le> 120" "\<exists>c\<in>set src. byte c \<noteq> 0" "length old = HASH_LEN"
  shows "\<exists>txt. enc_base58 src 256 = Some txt \<and> hash_init_from_text txt old = None"
proof -
  have "length src + length src div 2 + 2 \<le> 256" using assms(2) by linarith
  then obtain t where "enc_base58 src 256 = Some t" "dec_base58 t = src"
    using base58_enc_dec [of src 256] assms(1-3) by (cases src) auto
  then show ?thesis
    using assms by (auto simp: hash_init_from_text_def dec_base58_into_def Let_def)
qed

theorem account_text_overflow_witness:
  "\<exists>txt. enc_base58 (replicate 33 CHR ''a'') 256 = Some txt \<and> hash_init_from_text txt hash_zero = None"
  using account_text_overflow [of "replicate 33 CHR ''a''" hash_zero]
  by (simp add: HASH_LEN_def hash_zero_def)

end
