(* ===== verification/Bincode.thy ===== *)
theory Bincode
  imports Key_Pair
begin

text \<open>
  Binary serialisation, \<open>pc/bincode.hpp\<close>, and the wire format of the transactions that the client builds
  with it.  The buffer is an array of fixed size (a \<open>net_buf\<close>) that the class does not know the size
  of; a write past its end is \<open>None\<close>.  The reference encoder and decoder of transactions follow the
  format of the chain: signatures, message header, account keys, recent block hash, instructions, with
  lengths of one or two bytes.
\<close>

section \<open>The serialiser\<close>

record bincode =
  bc_mem :: string
  bc_idx :: nat

definition bc_attach :: "string \<Rightarrow> bincode" where
  "bc_attach buf = \<lparr>bc_mem = buf, bc_idx = 0\<rparr>"

definition bc_size :: "bincode \<Rightarrow> nat" where
  "bc_size b = bc_idx b"

definition bc_set_pos :: "nat \<Rightarrow> bincode \<Rightarrow> bincode" where
  "bc_set_pos pos b = b\<lparr>bc_idx := pos\<rparr>"

definition bc_reset_pos :: "bincode \<Rightarrow> bincode" where
  "bc_reset_pos b = b\<lparr>bc_idx := 0\<rparr>"

definition mem_write :: "nat \<Rightarrow> string \<Rightarrow> string \<Rightarrow> string option" where
  "mem_write i s mem =
     (if i + length s \<le> length mem then Some (take i mem @ s @ drop (i + length s) mem) else None)"

definition bc_write :: "string \<Rightarrow> bincode \<Rightarrow> bincode option" where
  "bc_write s b =
     do { mem \<leftarrow> mem_write (bc_idx b) s (bc_mem b); Some (b\<lparr>bc_mem := mem, bc_idx := bc_idx b + length s\<rparr>) }"

definition bc_u8 :: "nat \<Rightarrow> bincode \<Rightarrow> bincode option" where
  "bc_u8 v = bc_write (le_bytes 1 v)"

definition bc_u16 :: "nat \<Rightarrow> bincode \<Rightarrow> bincode option" where
  "bc_u16 v = bc_write (le_bytes 2 v)"

definition bc_u32 :: "nat \<Rightarrow> bincode \<Rightarrow> bincode option" where
  "bc_u32 v = bc_write (le_bytes 4 v)"

definition bc_u64 :: "u64 \<Rightarrow> bincode \<Rightarrow> bincode option" where
  "bc_u64 v = bc_write (le_bytes 8 (unat v))"

text \<open>Signed values in two's complement.\<close>

definition i32_bytes :: "int \<Rightarrow> string" where
  "i32_bytes v = le_bytes 4 (nat (v mod 2 ^ 32))"

definition i64_bytes :: "int \<Rightarrow> string" where
  "i64_bytes v = le_bytes 8 (nat (v mod 2 ^ 64))"

definition bc_i32 :: "int \<Rightarrow> bincode \<Rightarrow> bincode option" where
  "bc_i32 v = bc_write (i32_bytes v)"

definition bc_i64 :: "int \<Rightarrow> bincode \<Rightarrow> bincode option" where
  "bc_i64 v = bc_write (i64_bytes v)"

text \<open>A key is its bytes; the empty string stands for a null pointer.\<close>

definition bc_hash :: "string \<Rightarrow> bincode \<Rightarrow> bincode option" where
  "bc_hash pk b = (if length pk = HASH_LEN then bc_write pk b else None)"

text \<open>A key pair is converted to the public key in its second half.\<close>

definition bc_key_pair :: "string \<Rightarrow> bincode \<Rightarrow> bincode option" where
  "bc_key_pair kp b = do { pk \<leftarrow> get_pub_key kp; bc_hash pk b }"

definition bc_buf :: "string \<Rightarrow> bincode \<Rightarrow> bincode option" where
  "bc_buf s = bc_write s"

definition len_bytes :: "nat \<Rightarrow> string" where
  "len_bytes n =
     (if n < 0x80 then [to_byte (n mod 128)] else [to_byte (128 + n mod 128), to_byte (n div 128 mod 128)])"

definition bc_add_len :: "nat \<Rightarrow> bincode \<Rightarrow> bincode option" where
  "bc_add_len n = bc_write (len_bytes n)"

text \<open>Reserving room for a signature leaves the bytes of the buffer as they are.\<close>

definition bc_reserve_sign :: "bincode \<Rightarrow> bincode \<times> nat" where
  "bc_reserve_sign b = (b\<lparr>bc_idx := bc_idx b + SIG_LEN\<rparr>, bc_idx b)"

text \<open>A signature that the library refuses leaves its slot unwritten, and the failure is ignored.\<close>

definition bc_sign :: "(string \<Rightarrow> string \<Rightarrow> string option) \<Rightarrow> nat \<Rightarrow> nat \<Rightarrow> string \<Rightarrow> bincode \<Rightarrow> bincode option" where
  "bc_sign ed_sign sig m kp b =
     (if bc_idx b < m \<or> length (bc_mem b) < bc_idx b then None
      else case sig_sign ed_sign (take (bc_idx b - m) (drop m (bc_mem b))) kp of
             None \<Rightarrow> Some b
           | Some s \<Rightarrow> do { mem \<leftarrow> mem_write sig s (bc_mem b); Some (b\<lparr>bc_mem := mem\<rparr>) })"

definition bc_text :: "bincode \<Rightarrow> string" where
  "bc_text b = take (bc_idx b) (bc_mem b)"

section \<open>Writing in sequence\<close>

text \<open>\<open>bwrites f s\<close>: when there is room, \<open>f\<close> writes \<open>s\<close> at the current position; otherwise it overruns the
  buffer.\<close>

named_theorems bwrites "operations that write at the current position"

definition bwrites :: "(bincode \<Rightarrow> bincode option) \<Rightarrow> string \<Rightarrow> bool" where
  "bwrites f s \<longleftrightarrow> (\<forall>b. f b = (if bc_idx b + length s \<le> length (bc_mem b)
     then Some (b\<lparr>bc_mem := take (bc_idx b) (bc_mem b) @ s @ drop (bc_idx b + length s) (bc_mem b),
                  bc_idx := bc_idx b + length s\<rparr>)
     else None) \<or> bc_idx b > length (bc_mem b))"

lemma bwritesD:
  "bwrites f s \<Longrightarrow> bc_idx b \<le> length (bc_mem b) \<Longrightarrow>
   f b = (if bc_idx b + length s \<le> length (bc_mem b)
     then Some (b\<lparr>bc_mem := take (bc_idx b) (bc_mem b) @ s @ drop (bc_idx b + length s) (bc_mem b),
                  bc_idx := bc_idx b + length s\<rparr>)
     else None)"
  unfolding bwrites_def using not_less by blast

lemma bwrites_write [bwrites]: "bwrites (bc_write s) s"
  by (auto simp: bwrites_def bc_write_def mem_write_def)

lemma bwrites_bind:
  assumes "bwrites f s" "bwrites g t"
  shows "bwrites (\<lambda>b. f b \<bind> g) (s @ t)"
  unfolding bwrites_def
proof (rule allI)
  fix b :: bincode
  show "f b \<bind> g = (if bc_idx b + length (s @ t) \<le> length (bc_mem b)
     then Some (b\<lparr>bc_mem := take (bc_idx b) (bc_mem b) @ (s @ t) @ drop (bc_idx b + length (s @ t)) (bc_mem b),
                  bc_idx := bc_idx b + length (s @ t)\<rparr>)
     else None) \<or> bc_idx b > length (bc_mem b)"
  proof (cases "bc_idx b > length (bc_mem b)")
    case False
    then have "bc_idx b \<le> length (bc_mem b)" by simp
    note f = bwritesD [OF assms(1) this]
    show ?thesis
    proof (cases "bc_idx b + length s \<le> length (bc_mem b)")
      case True
      define b1 where "b1 = b\<lparr>bc_mem := take (bc_idx b) (bc_mem b) @ s @ drop (bc_idx b + length s) (bc_mem b),
                  bc_idx := bc_idx b + length s\<rparr>"
      have b1: "bc_idx b1 \<le> length (bc_mem b1)" "length (bc_mem b1) = length (bc_mem b)" using True by (simp_all add: b1_def)
      show ?thesis
        using f True bwritesD [OF assms(2) b1(1)] b1(2) by (simp add: b1_def ac_simps)
    qed (use f in simp)
  qed simp
qed

lemma bwrites_eq: "bwrites f s \<Longrightarrow> s = t \<Longrightarrow> bwrites f t"
  by simp

lemma bwrites_ints [bwrites]:
  "bwrites (bc_u8 v) (le_bytes 1 v)" "bwrites (bc_u16 v) (le_bytes 2 v)" "bwrites (bc_u32 v) (le_bytes 4 v)"
  "bwrites (bc_u64 w) (le_bytes 8 (unat w))" "bwrites (bc_i32 i) (i32_bytes i)" "bwrites (bc_i64 i) (i64_bytes i)"
  "bwrites (bc_add_len n) (len_bytes n)" "bwrites (bc_buf s) s"
  by (simp_all add: bc_u8_def bc_u16_def bc_u32_def bc_u64_def bc_i32_def bc_i64_def bc_add_len_def bc_buf_def bwrites_write)

lemma bwrites_hash [bwrites]: "length pk = HASH_LEN \<Longrightarrow> bwrites (bc_hash pk) pk"
  using bwrites_write [of pk] by (simp add: bc_hash_def [abs_def])

definition pub_of :: "string \<Rightarrow> string" where
  "pub_of kp = drop HASH_LEN kp"

lemma bwrites_key_pair [bwrites]: "length kp = KEY_PAIR_LEN \<Longrightarrow> bwrites (bc_key_pair kp) (pub_of kp)"
proof -
  assume "length kp = KEY_PAIR_LEN"
  then have *: "length (pub_of kp) = HASH_LEN" "get_pub_key kp = Some (pub_of kp)"
    by (simp_all add: pub_of_def KEY_PAIR_LEN_def HASH_LEN_def get_pub_key_def hash_init_from_buf_def)
  have "bc_key_pair kp = bc_hash (pub_of kp)" by (rule ext) (simp add: bc_key_pair_def *(2))
  then show ?thesis using bwrites_hash [OF *(1)] by simp
qed

section \<open>Transactions\<close>

text \<open>An instruction is the index of its program, the indices of its accounts, and its data.\<close>

record sol_ix =
  ix_prog :: nat
  ix_accs :: "nat list"
  ix_data :: string

record sol_msg =
  sm_signers :: nat
  sm_ro_signed :: nat
  sm_ro_unsigned :: nat
  sm_keys :: "string list"
  sm_bhash :: string
  sm_ixs :: "sol_ix list"

definition enc_list :: "('a \<Rightarrow> string) \<Rightarrow> 'a list \<Rightarrow> string" where
  "enc_list f xs = len_bytes (length xs) @ concat (map f xs)"

definition enc_ix :: "sol_ix \<Rightarrow> string" where
  "enc_ix ix = le_bytes 1 (ix_prog ix) @ enc_list (le_bytes 1) (ix_accs ix) @ enc_list (\<lambda>c. [c]) (ix_data ix)"

definition enc_msg :: "sol_msg \<Rightarrow> string" where
  "enc_msg m = le_bytes 1 (sm_signers m) @ le_bytes 1 (sm_ro_signed m) @ le_bytes 1 (sm_ro_unsigned m) @
     enc_list id (sm_keys m) @ sm_bhash m @ enc_list enc_ix (sm_ixs m)"

definition enc_tx :: "string list \<Rightarrow> sol_msg \<Rightarrow> string" where
  "enc_tx sigs m = enc_list id sigs @ enc_msg m"

text \<open>The decoder.\<close>

definition dec_bytes :: "nat \<Rightarrow> string \<Rightarrow> (string \<times> string) option" where
  "dec_bytes n s = (if n \<le> length s then Some (take n s, drop n s) else None)"

definition dec_u8 :: "string \<Rightarrow> (nat \<times> string) option" where
  "dec_u8 s = (case s of [] \<Rightarrow> None | c # cs \<Rightarrow> Some (byte c, cs))"

definition dec_len :: "string \<Rightarrow> (nat \<times> string) option" where
  "dec_len s =
     do { (c, s) \<leftarrow> dec_u8 s;
          if c < 128 then Some (c, s) else do { (d, s) \<leftarrow> dec_u8 s; Some (c - 128 + 128 * d, s) } }"

fun dec_many :: "nat \<Rightarrow> (string \<Rightarrow> ('a \<times> string) option) \<Rightarrow> string \<Rightarrow> ('a list \<times> string) option" where
  "dec_many 0 f s = Some ([], s)"
| "dec_many (Suc n) f s = do { (x, s) \<leftarrow> f s; (xs, s) \<leftarrow> dec_many n f s; Some (x # xs, s) }"

definition dec_list :: "(string \<Rightarrow> ('a \<times> string) option) \<Rightarrow> string \<Rightarrow> ('a list \<times> string) option" where
  "dec_list f s = do { (n, s) \<leftarrow> dec_len s; dec_many n f s }"

definition dec_ix :: "string \<Rightarrow> (sol_ix \<times> string) option" where
  "dec_ix s =
     do { (p, s) \<leftarrow> dec_u8 s; (a, s) \<leftarrow> dec_list dec_u8 s;
          (d, s) \<leftarrow> dec_list (\<lambda>s. case s of [] \<Rightarrow> None | c # cs \<Rightarrow> Some (c, cs)) s;
          Some (\<lparr>ix_prog = p, ix_accs = a, ix_data = d\<rparr>, s) }"

definition dec_msg :: "string \<Rightarrow> (sol_msg \<times> string) option" where
  "dec_msg s =
     do { (a, s) \<leftarrow> dec_u8 s; (b, s) \<leftarrow> dec_u8 s; (c, s) \<leftarrow> dec_u8 s;
          (ks, s) \<leftarrow> dec_list (dec_bytes HASH_LEN) s; (h, s) \<leftarrow> dec_bytes HASH_LEN s;
          (ixs, s) \<leftarrow> dec_list dec_ix s;
          Some (\<lparr>sm_signers = a, sm_ro_signed = b, sm_ro_unsigned = c, sm_keys = ks, sm_bhash = h, sm_ixs = ixs\<rparr>, s) }"

definition dec_tx :: "string \<Rightarrow> ((string list \<times> sol_msg) \<times> string) option" where
  "dec_tx s = do { (sigs, s) \<leftarrow> dec_list (dec_bytes SIG_LEN) s; (m, s) \<leftarrow> dec_msg s; Some ((sigs, m), s) }"

definition wf_ix :: "sol_ix \<Rightarrow> bool" where
  "wf_ix ix \<longleftrightarrow> ix_prog ix < 256 \<and> (\<forall>a \<in> set (ix_accs ix). a < 256) \<and> length (ix_accs ix) < 2 ^ 14 \<and>
     length (ix_data ix) < 2 ^ 14"

definition wf_msg :: "sol_msg \<Rightarrow> bool" where
  "wf_msg m \<longleftrightarrow> sm_signers m < 256 \<and> sm_ro_signed m < 256 \<and> sm_ro_unsigned m < 256 \<and>
     (\<forall>k \<in> set (sm_keys m). length k = HASH_LEN) \<and> length (sm_keys m) < 2 ^ 14 \<and> length (sm_bhash m) = HASH_LEN \<and>
     (\<forall>ix \<in> set (sm_ixs m). wf_ix ix) \<and> length (sm_ixs m) < 2 ^ 14"

lemma dec_len_bytes: "n < 2 ^ 14 \<Longrightarrow> dec_len (len_bytes n @ r) = Some (n, r)"
proof -
  assume n: "n < 2 ^ 14"
  show ?thesis
  proof (cases "n < 128")
    case False
    have "(128 + n mod 128) mod 256 = 128 + n mod 128" by simp
    moreover have "n div 128 mod 128 mod 256 = n div 128" using n by simp
    ultimately show ?thesis using False by (simp add: dec_len_def len_bytes_def dec_u8_def)
  qed (simp add: dec_len_def len_bytes_def dec_u8_def)
qed

lemma dec_many_enc:
  "(\<And>x r. x \<in> set xs \<Longrightarrow> f (enc x @ r) = Some (x, r)) \<Longrightarrow>
    dec_many (length xs) f (concat (map enc xs) @ r) = Some (xs, r)"
  by (induction xs arbitrary: r) auto

lemma dec_list_enc:
  "(\<And>x r. x \<in> set xs \<Longrightarrow> f (enc x @ r) = Some (x, r)) \<Longrightarrow> length xs < 2 ^ 14 \<Longrightarrow>
    dec_list f (enc_list enc xs @ r) = Some (xs, r)"
  using dec_many_enc [of xs f enc r] by (simp add: dec_list_def enc_list_def dec_len_bytes)

lemma dec_u8_enc: "v < 256 \<Longrightarrow> dec_u8 (le_bytes 1 v @ r) = Some (v, r)"
  by (simp add: dec_u8_def)

lemma dec_bytes_enc: "length s = n \<Longrightarrow> dec_bytes n (id s @ r) = Some (s, r)"
  by (simp add: dec_bytes_def)

lemma dec_ix_enc:
  assumes "wf_ix ix"
  shows "dec_ix (enc_ix ix @ r) = Some (ix, r)"
proof -
  have "dec_list dec_u8 (enc_list (le_bytes 1) (ix_accs ix) @ r) = Some (ix_accs ix, r)" for r
    by (rule dec_list_enc) (use assms in \<open>auto simp: wf_ix_def dec_u8_def\<close>)
  moreover have "dec_list (\<lambda>s. case s of [] \<Rightarrow> None | c # cs \<Rightarrow> Some (c, cs)) (enc_list (\<lambda>c. [c]) (ix_data ix) @ r) =
      Some (ix_data ix, r)" for r
    by (rule dec_list_enc) (use assms in \<open>auto simp: wf_ix_def\<close>)
  moreover have "ix_prog ix < 256" using assms by (simp add: wf_ix_def)
  ultimately show ?thesis by (simp add: dec_ix_def enc_ix_def dec_u8_def)
qed

lemma dec_tx_enc:
  assumes "wf_msg m" "\<forall>s \<in> set sigs. length s = SIG_LEN" "length sigs < 2 ^ 14"
  shows "dec_tx (enc_tx sigs m @ r) = Some ((sigs, m), r)"
proof -
  have "dec_list (dec_bytes SIG_LEN) (enc_list id sigs @ r) = Some (sigs, r)" for r
    by (rule dec_list_enc) (use assms in \<open>auto simp: dec_bytes_def\<close>)
  moreover have "dec_list (dec_bytes HASH_LEN) (enc_list id (sm_keys m) @ r) = Some (sm_keys m, r)" for r
    by (rule dec_list_enc) (use assms in \<open>auto simp: dec_bytes_def wf_msg_def\<close>)
  moreover have "dec_list dec_ix (enc_list enc_ix (sm_ixs m) @ r) = Some (sm_ixs m, r)" for r
    by (rule dec_list_enc) (use assms in \<open>auto simp: wf_msg_def dec_ix_enc\<close>)
  moreover have "dec_bytes HASH_LEN (sm_bhash m @ r) = Some (sm_bhash m, r)" for r
    using assms(1) by (simp add: dec_bytes_def wf_msg_def)
  moreover have "sm_signers m < 256" "sm_ro_signed m < 256" "sm_ro_unsigned m < 256"
    using assms(1) by (simp_all add: wf_msg_def)
  ultimately show ?thesis by (simp add: dec_tx_def enc_tx_def dec_msg_def enc_msg_def dec_u8_def)
qed

section \<open>Building and signing\<close>

text \<open>Every builder writes the number of signatures, reserves their slots, writes the message and signs it.
  \<open>tx_slots n slots m b\<close> is the state after the message \<open>m\<close>, from the offset \<open>base\<close> on.\<close>

definition tx_slots :: "string \<Rightarrow> string list \<Rightarrow> string \<Rightarrow> bincode \<Rightarrow> bool" where
  "tx_slots pre slots m b \<longleftrightarrow> bc_idx b \<le> length (bc_mem b) \<and> length slots < 128 \<and>
     (\<forall>s \<in> set slots. length s = SIG_LEN) \<and> bc_text b = pre @ len_bytes (length slots) @ concat slots @ m"

lemma length_len_bytes: "length (len_bytes n) = (if n < 128 then 1 else 2)"
  by (simp add: len_bytes_def)

lemma length_concat_slots: "\<forall>s \<in> set slots. length s = n \<Longrightarrow> length (concat slots) = length slots * n"
  by (induction slots) auto

lemma concat_slot_update:
  assumes "\<forall>s \<in> set slots. length s = n" "i < length slots" "length x = n"
  shows "take (i * n) (concat slots) @ x @ drop (i * n + n) (concat slots) = concat (slots[i := x])"
  using assms
proof (induction slots arbitrary: i)
  case (Cons s slots)
  then show ?case
  proof (cases i)
    case (Suc j)
    have s: "length s = n" "\<forall>s \<in> set slots. length s = n" using Cons.prems by auto
    have "take (i * n) (concat (s # slots)) = s @ take (j * n) (concat slots)"
      "drop (i * n + n) (concat (s # slots)) = drop (j * n + n) (concat slots)"
      using s Suc by (simp_all add: add.commute [of n])
    then show ?thesis using Cons.IH [of j] Cons.prems s Suc by simp
  qed simp
qed simp

lemma bc_sign_slot:
  assumes st: "tx_slots pre slots m b" and i: "i < length slots"
    and sign: "ed_sign (take HASH_LEN kp) m = Some sg" "length sg = SIG_LEN"
    and pos: "sig = length pre + 1 + i * SIG_LEN" "mp = length pre + 1 + length slots * SIG_LEN"
  obtains b' where "bc_sign ed_sign sig mp kp b = Some b'" "tx_slots pre (slots[i := sg]) m b'"
    "bc_idx b' = bc_idx b" "length (bc_mem b') = length (bc_mem b)"
proof -
  define k where "k = concat slots"
  have lk: "length k = length slots * SIG_LEN"
    using st by (auto simp: k_def tx_slots_def intro!: length_concat_slots)
  have l1: "length (len_bytes (length slots)) = 1" using st by (simp add: tx_slots_def length_len_bytes)
  have tx: "take (bc_idx b) (bc_mem b) = (pre @ len_bytes (length slots)) @ k @ m" and idx: "bc_idx b \<le> length (bc_mem b)"
    using st by (simp_all add: tx_slots_def bc_text_def k_def)
  define rest where "rest = drop (bc_idx b) (bc_mem b)"
  have mem: "bc_mem b = ((pre @ len_bytes (length slots)) @ k @ m) @ rest"
    unfolding rest_def tx [symmetric] by simp
  have len: "bc_idx b = length pre + 1 + length k + length m"
    using tx idx l1 by (metis add.assoc length_append length_take min.absorb2)
  have msg: "take (bc_idx b - mp) (drop mp (bc_mem b)) = m"
    unfolding mem using len l1 lk pos by simp
  have isz: "i * SIG_LEN + SIG_LEN \<le> length k"
    using i unfolding lk by (metis Suc_leI add.commute mult_Suc mult_le_mono1)
  define k' where "k' = take (i * SIG_LEN) k @ sg @ drop (i * SIG_LEN + SIG_LEN) k"
  have lk': "length k' = length k" using isz sign(2) by (simp add: k'_def)
  have "k' = concat (slots[i := sg])"
    unfolding k'_def k_def by (rule concat_slot_update [OF _ i sign(2)]) (use st in \<open>simp add: tx_slots_def\<close>)
  note k' = this lk'
  define b' where "b' = b\<lparr>bc_mem := ((pre @ len_bytes (length slots)) @ k' @ m) @ rest\<rparr>"
  have "mem_write sig sg (bc_mem b) = Some (((pre @ len_bytes (length slots)) @ k' @ m) @ rest)"
    unfolding mem_write_def mem using isz l1 pos sign(2) by (simp add: k'_def)
  moreover have "\<not> (bc_idx b < mp \<or> length (bc_mem b) < bc_idx b)" using len lk pos idx by simp
  ultimately have "bc_sign ed_sign sig mp kp b = Some b'"
    using msg sign(1) by (simp add: bc_sign_def sig_sign_def b'_def)
  moreover have "tx_slots pre (slots[i := sg]) m b'"
    using st k' len idx l1 i mem set_update_subset_insert [of slots i sg] sign(2)
    by (auto simp: tx_slots_def bc_text_def b'_def)
  moreover have "length (bc_mem b') = length (bc_mem b)" using k'(2) by (simp add: b'_def mem)
  ultimately show thesis using that by (simp add: b'_def)
qed

text \<open>The state before the message: \<open>n\<close> slots reserved.\<close>

fun bc_reserves :: "nat \<Rightarrow> bincode \<Rightarrow> bincode \<times> nat list" where
  "bc_reserves 0 b = (b, [])"
| "bc_reserves (Suc n) b = (let (b, i) = bc_reserve_sign b; (b, is) = bc_reserves n b in (b, i # is))"

lemma bc_reserves_eq:
  "bc_reserves n b = (b\<lparr>bc_idx := bc_idx b + n * SIG_LEN\<rparr>, map (\<lambda>i. bc_idx b + i * SIG_LEN) [0..<n])"
proof (induction n arbitrary: b)
  case (Suc n)
  have "map (\<lambda>i. bc_idx b + i * SIG_LEN) [0..<Suc n] =
      bc_idx b # map (\<lambda>i. bc_idx b + SIG_LEN + i * SIG_LEN) [0..<n]"
    by (simp add: upt_conv_Cons map_Suc_upt [symmetric] add.assoc del: upt_Suc)
  then show ?case by (simp add: Suc bc_reserve_sign_def Let_def add.assoc del: upt_Suc)
qed simp

lemma split_slots: "length s = k * n \<Longrightarrow> \<exists>slots. length slots = k \<and> (\<forall>x \<in> set slots. length x = n) \<and> concat slots = s"
proof (induction k arbitrary: s)
  case (Suc k)
  then have "length (drop n s) = k * n" by simp
  then obtain slots where "length slots = k" "\<forall>x \<in> set slots. length x = n" "concat slots = drop n s"
    using Suc.IH by blast
  then show ?case using Suc.prems by (intro exI [of _ "take n s # slots"]) auto
qed simp

lemma bwrites_slots:
  assumes b: "bc_idx b \<le> length (bc_mem b)" "n < 128" and body: "bwrites body m"
    and room: "bc_idx b + 1 + n * SIG_LEN + length m \<le> length (bc_mem b)"
  obtains b1 b2 slots where "bc_add_len n b = Some b1"
    "bc_reserves n b1 = (b1\<lparr>bc_idx := bc_idx b + 1 + n * SIG_LEN\<rparr>, map (\<lambda>i. bc_idx b + 1 + i * SIG_LEN) [0..<n])"
    "body (b1\<lparr>bc_idx := bc_idx b + 1 + n * SIG_LEN\<rparr>) = Some b2" "tx_slots (bc_text b) slots m b2" "length slots = n"
    "length (bc_mem b2) = length (bc_mem b)"
proof -
  have l1: "length (len_bytes n) = 1" using b(2) by (simp add: length_len_bytes)
  define b1 where "b1 = b\<lparr>bc_mem := take (bc_idx b) (bc_mem b) @ len_bytes n @ drop (bc_idx b + 1) (bc_mem b),
    bc_idx := bc_idx b + 1\<rparr>"
  have 1: "bc_add_len n b = Some b1"
    using bwritesD [OF bwrites_ints(7) b(1), of n] room l1 by (simp add: b1_def)
  define i2 where "i2 = bc_idx b + 1 + n * SIG_LEN"
  define mem2 where "mem2 = take i2 (bc_mem b1) @ m @ drop (i2 + length m) (bc_mem b1)"
  have lm: "length (bc_mem b1) = length (bc_mem b)" using b(1) room l1 by (simp add: b1_def)
  have 3: "body (b1\<lparr>bc_idx := i2\<rparr>) = Some (b1\<lparr>bc_mem := mem2, bc_idx := i2 + length m\<rparr>)"
    using bwritesD [OF body, of "b1\<lparr>bc_idx := i2\<rparr>"] room lm by (simp add: i2_def mem2_def)
  define s where "s = take (n * SIG_LEN) (drop (bc_idx b + 1) (bc_mem b))"
  have ls: "length s = n * SIG_LEN" using room by (simp add: s_def)
  then obtain slots where sl: "length slots = n" "\<forall>x \<in> set slots. length x = SIG_LEN" "concat slots = s"
    using split_slots by blast
  have "take i2 (bc_mem b1) = take (bc_idx b) (bc_mem b) @ len_bytes n @ s"
    using b(1) room l1 by (simp add: b1_def i2_def s_def)
  then have "take (i2 + length m) mem2 = bc_text b @ len_bytes n @ concat slots @ m"
    using room lm l1 ls b(1) by (simp add: mem2_def bc_text_def sl(3) i2_def)
  moreover have "i2 + length m \<le> length mem2" using room lm by (simp add: mem2_def i2_def)
  ultimately have "tx_slots (bc_text b) slots m (b1\<lparr>bc_mem := mem2, bc_idx := i2 + length m\<rparr>)"
    using sl b(2) by (simp add: tx_slots_def bc_text_def)
  then show thesis
    using 1 3 sl(1) room lm bc_reserves_eq [of n b1]
    by (intro that [of b1 "b1\<lparr>bc_mem := mem2, bc_idx := i2 + length m\<rparr>" slots])
      (simp_all add: i2_def b1_def mem2_def)
qed

text \<open>Signing a list of slots, each with its own key.\<close>

fun bc_signs :: "(string \<Rightarrow> string \<Rightarrow> string option) \<Rightarrow> nat \<Rightarrow> (nat \<times> string) list \<Rightarrow> bincode \<Rightarrow> bincode option" where
  "bc_signs ed_sign m [] b = Some b"
| "bc_signs ed_sign m ((i, kp) # is) b = do { b \<leftarrow> bc_sign ed_sign i m kp b; bc_signs ed_sign m is b }"

lemma bc_signs_slots:
  assumes "tx_slots pre slots m b" "mp = length pre + 1 + length slots * SIG_LEN"
    "k + length kps \<le> length slots"
    "\<forall>kp \<in> set kps. ed_sign (take HASH_LEN kp) m = Some (sg kp) \<and> length (sg kp) = SIG_LEN"
  shows "\<exists>b'. bc_signs ed_sign mp (zip (map (\<lambda>i. length pre + 1 + i * SIG_LEN) [k..<k + length kps]) kps) b = Some b' \<and>
     tx_slots pre (take k slots @ map sg kps @ drop (k + length kps) slots) m b' \<and> bc_idx b' = bc_idx b \<and>
     length (bc_mem b') = length (bc_mem b)"
  using assms
proof (induction kps arbitrary: k slots b)
  case Nil
  then show ?case by simp
next
  case (Cons kp kps)
  have k: "k < length slots" using Cons.prems(3) by simp
  obtain b1 where b1: "bc_sign ed_sign (length pre + 1 + k * SIG_LEN) mp kp b = Some b1"
    "tx_slots pre (slots[k := sg kp]) m b1" "bc_idx b1 = bc_idx b" "length (bc_mem b1) = length (bc_mem b)"
    using bc_sign_slot [OF Cons.prems(1) k _ _ refl Cons.prems(2), where kp = kp and sg = "sg kp" and ed_sign = ed_sign] Cons.prems(4)
    by auto
  obtain b2 where b2: "bc_signs ed_sign mp (zip (map (\<lambda>i. length pre + 1 + i * SIG_LEN) [Suc k..<Suc k + length kps]) kps) b1 = Some b2"
    "tx_slots pre (take (Suc k) (slots[k := sg kp]) @ map sg kps @ drop (Suc k + length kps) (slots[k := sg kp])) m b2"
    "bc_idx b2 = bc_idx b1" "length (bc_mem b2) = length (bc_mem b1)"
    using Cons.IH [OF b1(2), of "Suc k"] Cons.prems by auto
  have eq: "take (Suc k) (slots[k := sg kp]) @ map sg kps @ drop (Suc k + length kps) (slots[k := sg kp]) =
      take k slots @ map sg (kp # kps) @ drop (k + length (kp # kps)) slots"
    using k by (simp add: take_Suc_conv_app_nth)
  have "[k..<k + length (kp # kps)] = k # [Suc k..<Suc k + length kps]"
    by (simp add: upt_conv_Cons del: upt_Suc)
  then show ?case using b1 b2 unfolding eq by (simp del: upt_Suc)
qed

text \<open>An operation is strict when it fails on a position behind the end of the buffer.\<close>

definition bstrict :: "(bincode \<Rightarrow> bincode option) \<Rightarrow> bool" where
  "bstrict f \<longleftrightarrow> (\<forall>b. length (bc_mem b) < bc_idx b \<longrightarrow> f b = None)"

lemma bstrict_write [bwrites]: "bstrict (bc_write s)"
  by (simp add: bstrict_def bc_write_def mem_write_def)

lemma bstrict_u8 [bwrites]: "bstrict (bc_u8 v)"
  by (simp add: bc_u8_def bstrict_write)

lemma bstrict_bind: "bstrict f \<Longrightarrow> bstrict (\<lambda>b. f b \<bind> g)"
  by (simp add: bstrict_def)

lemma bwrites_strict:
  "bwrites f s \<Longrightarrow> bstrict f \<Longrightarrow> bc_idx b + length s > length (bc_mem b) \<Longrightarrow> f b = None"
  by (cases "bc_idx b \<le> length (bc_mem b)") (auto simp: bstrict_def bwritesD)

text \<open>The common shape of the transaction builders: the number of signatures, their slots, the message, and
  the signatures of the keys \<open>kps\<close>; the first signature is kept.\<close>

definition bc_sign_all :: "(string \<Rightarrow> string \<Rightarrow> string option) \<Rightarrow> nat \<Rightarrow> nat list \<Rightarrow> string list \<Rightarrow> bincode \<Rightarrow> (bincode \<times> string) option" where
  "bc_sign_all ed_sign m is kps b =
     do { b \<leftarrow> bc_sign ed_sign (hd is) m (hd kps) b;
          sig \<leftarrow> sig_init_from_buf (drop (hd is) (bc_mem b));
          b \<leftarrow> bc_signs ed_sign m (zip (tl is) (tl kps)) b;
          Some (b, sig) }"

definition bc_tx :: "(string \<Rightarrow> string \<Rightarrow> string option) \<Rightarrow> string list \<Rightarrow> (bincode \<Rightarrow> bincode option) \<Rightarrow> bincode \<Rightarrow> (bincode \<times> string) option" where
  "bc_tx ed_sign kps body b =
     do { b \<leftarrow> bc_add_len (length kps) b;
          let (b, is) = bc_reserves (length kps) b;
          let m = bc_size b;
          b \<leftarrow> body b;
          bc_sign_all ed_sign m is kps b }"

lemma bc_text_slice:
  assumes "bc_text b = x @ s @ y" "length s = SIG_LEN" "n = length x"
  shows "sig_init_from_buf (drop n (bc_mem b)) = Some s"
proof -
  have "bc_mem b = (x @ s @ y) @ drop (bc_idx b) (bc_mem b)"
    unfolding assms(1) [symmetric] by (simp add: bc_text_def)
  then have "drop n (bc_mem b) = s @ y @ drop (bc_idx b) (bc_mem b)" using assms(3) by (metis append_assoc append_eq_conv_conj)
  then show ?thesis using assms(2) by (simp add: sig_init_from_buf_def)
qed

lemma bc_sign_all_slots:
  assumes st: "tx_slots pre slots m b" and m: "mp = length pre + 1 + length slots * SIG_LEN"
    and kps: "length slots = length kps" "kps \<noteq> []" and is_eq: "is = map (\<lambda>i. length pre + 1 + i * SIG_LEN) [0..<length kps]"
    and sg: "\<forall>kp \<in> set kps. ed_sign (take HASH_LEN kp) m = Some (sg kp) \<and> length (sg kp) = SIG_LEN"
  shows "\<exists>b'. bc_sign_all ed_sign mp is kps b = Some (b', sg (hd kps)) \<and>
     tx_slots pre (map sg kps) m b' \<and> bc_idx b' = bc_idx b \<and> length (bc_mem b') = length (bc_mem b)"
proof -
  obtain kp ks where k: "kps = kp # ks" using kps(2) by (cases kps) auto
  have upt: "[0..<length kps] = 0 # [1..<1 + length ks]" by (simp add: k upt_conv_Cons del: upt_Suc)
  have sg1: "ed_sign (take HASH_LEN kp) m = Some (sg kp)" "length (sg kp) = SIG_LEN" using sg k by auto
  have "0 < length slots" using kps k by simp
  then obtain b1 where b1: "bc_sign ed_sign (length pre + 1 + 0 * SIG_LEN) mp kp b = Some b1"
    "tx_slots pre (slots[0 := sg kp]) m b1" "bc_idx b1 = bc_idx b" "length (bc_mem b1) = length (bc_mem b)"
    using bc_sign_slot [where ed_sign = ed_sign, OF st _ sg1 refl m] by blast
  have sl: "slots[0 := sg kp] = sg kp # tl slots" using kps k by (cases slots) auto
  have "bc_text b1 = (pre @ len_bytes (length slots)) @ sg kp @ concat (tl slots) @ m"
    using b1(2) unfolding sl using kps k by (simp add: tx_slots_def)
  moreover have "length (pre @ len_bytes (length slots)) = length pre + 1"
    using st by (simp add: tx_slots_def length_len_bytes)
  ultimately have sig: "sig_init_from_buf (drop (length pre + 1 + 0 * SIG_LEN) (bc_mem b1)) = Some (sg kp)"
    using bc_text_slice [of b1 "pre @ len_bytes (length slots)" "sg kp" _ "length pre + 1 + 0 * SIG_LEN"] sg1(2) by simp
  have "1 + length ks \<le> length (slots[0 := sg kp])" using kps k by simp
  then obtain b2 where b2: "bc_signs ed_sign mp (zip (map (\<lambda>i. length pre + 1 + i * SIG_LEN) [1..<1 + length ks]) ks) b1 = Some b2"
    "tx_slots pre (take 1 (slots[0 := sg kp]) @ map sg ks @ drop (1 + length ks) (slots[0 := sg kp])) m b2"
    "bc_idx b2 = bc_idx b1" "length (bc_mem b2) = length (bc_mem b1)"
    using bc_signs_slots [OF b1(2), of mp 1 ks ed_sign sg] m sg k by auto
  have "take 1 (slots[0 := sg kp]) @ map sg ks @ drop (1 + length ks) (slots[0 := sg kp]) = map sg kps"
    using kps k unfolding sl by simp
  then show ?thesis
    using b1 b2 sig unfolding bc_sign_all_def is_eq upt unfolding k
    by (intro exI [of _ b2]) (simp del: upt_Suc)
qed

lemma bc_tx_enc:
  assumes b: "bc_idx b \<le> length (bc_mem b)" "length kps < 128" "kps \<noteq> []" and body: "bwrites body m"
    and room: "bc_idx b + 1 + length kps * SIG_LEN + length m \<le> length (bc_mem b)"
    and sg: "\<forall>kp \<in> set kps. ed_sign (take HASH_LEN kp) m = Some (sg kp) \<and> length (sg kp) = SIG_LEN"
  shows "\<exists>b'. bc_tx ed_sign kps body b = Some (b', sg (hd kps)) \<and> bc_text b' = bc_text b @ enc_list id (map sg kps) @ m \<and>
    length (bc_mem b') = length (bc_mem b) \<and> bc_idx b' = bc_idx b + 1 + length kps * SIG_LEN + length m"
proof -
  define n where "n = length kps"
  have n: "n < 128" "bc_idx b + 1 + n * SIG_LEN + length m \<le> length (bc_mem b)" using b(2) room by (simp_all add: n_def)
  obtain b1 b2 slots where 1: "bc_add_len n b = Some b1"
    "bc_reserves n b1 = (b1\<lparr>bc_idx := bc_idx b + 1 + n * SIG_LEN\<rparr>, map (\<lambda>i. bc_idx b + 1 + i * SIG_LEN) [0..<n])"
    "body (b1\<lparr>bc_idx := bc_idx b + 1 + n * SIG_LEN\<rparr>) = Some b2" "tx_slots (bc_text b) slots m b2" "length slots = n"
    "length (bc_mem b2) = length (bc_mem b)"
    using bwrites_slots [OF b(1) n(1) body n(2)] by blast
  have l: "length (bc_text b) = bc_idx b" using b(1) by (simp add: bc_text_def)
  have "bc_idx b + 1 + n * SIG_LEN = length (bc_text b) + 1 + length slots * SIG_LEN" "length slots = length kps"
    "map (\<lambda>i. bc_idx b + 1 + i * SIG_LEN) [0..<n] = map (\<lambda>i. length (bc_text b) + 1 + i * SIG_LEN) [0..<length kps]"
    by (simp_all add: l 1(5) n_def)
  from bc_sign_all_slots [OF 1(4) this(1,2) b(3) this(3), of ed_sign sg, OF sg]
  obtain b3 where b3: "bc_sign_all ed_sign (bc_idx b + 1 + n * SIG_LEN) (map (\<lambda>i. bc_idx b + 1 + i * SIG_LEN) [0..<n]) kps b2 =
      Some (b3, sg (hd kps))"
     "tx_slots (bc_text b) (map sg kps) m b3" "bc_idx b3 = bc_idx b2" "length (bc_mem b3) = length (bc_mem b2)" by blast
  have "bc_tx ed_sign kps body b = Some (b3, sg (hd kps))"
    using 1 b3(1) by (simp add: bc_tx_def n_def [symmetric] bc_size_def)
  moreover have t: "bc_text b3 = bc_text b @ enc_list id (map sg kps) @ m"
    using b3(2) by (simp add: tx_slots_def enc_list_def)
  moreover have "bc_idx b3 = bc_idx b + 1 + length kps * SIG_LEN + length m"
  proof -
    have "bc_idx b3 \<le> length (bc_mem b3)" using b3(2) by (simp add: tx_slots_def)
    then have "bc_idx b3 = length (bc_text b3)" by (simp add: bc_text_def)
    moreover have "length (concat (map sg kps)) = length kps * SIG_LEN"
      using length_concat_slots [of "map sg kps" SIG_LEN] sg by auto
    moreover have "length (enc_list id (map sg kps)) = 1 + length (concat (map sg kps))"
      using b(2) by (simp add: enc_list_def length_len_bytes)
    ultimately show ?thesis using l t by simp
  qed
  ultimately show ?thesis using b3(4) 1(6) by (intro exI [of _ b3] conjI) simp_all
qed

lemma bc_tx_overrun:
  assumes "bwrites body m" "bstrict body" "length kps < 128"
    and room: "bc_idx b + 1 + length kps * SIG_LEN + length m > length (bc_mem b)"
  shows "bc_tx ed_sign kps body b = None"
proof (cases "bc_add_len (length kps) b")
  case (Some b1)
  have w: "bc_add_len (length kps) b = bc_write (len_bytes (length kps)) b" by (simp add: bc_add_len_def)
  have "length (len_bytes (length kps)) = 1" using assms(3) by (simp add: length_len_bytes)
  then have "bc_idx b1 = bc_idx b + 1" "length (bc_mem b1) = length (bc_mem b)"
    using Some unfolding w by (auto simp: bc_write_def mem_write_def bind_eq_Some_conv split: if_splits)
  then have "body (b1\<lparr>bc_idx := bc_idx b1 + length kps * SIG_LEN\<rparr>) = None"
    by (intro bwrites_strict [OF assms(1,2)]) (use room in simp)
  then show ?thesis using Some by (simp add: bc_tx_def bc_reserves_eq)
qed (simp add: bc_tx_def)

section \<open>Roles of the accounts\<close>

text \<open>In the wire format the signing keys come first, and the read-only ones are the last of the signing and
  the last of the other keys.\<close>

definition sm_is_signer :: "sol_msg \<Rightarrow> nat \<Rightarrow> bool" where
  "sm_is_signer m i \<longleftrightarrow> i < sm_signers m"

definition sm_is_writable :: "sol_msg \<Rightarrow> nat \<Rightarrow> bool" where
  "sm_is_writable m i \<longleftrightarrow>
     (if i < sm_signers m then i < sm_signers m - sm_ro_signed m
      else i < length (sm_keys m) - sm_ro_unsigned m)"

text \<open>Writing once per element.\<close>

fun bc_each :: "('a \<Rightarrow> bincode \<Rightarrow> bincode option) \<Rightarrow> 'a list \<Rightarrow> bincode \<Rightarrow> bincode option" where
  "bc_each f [] b = Some b"
| "bc_each f (x # xs) b = do { b \<leftarrow> f x b; bc_each f xs b }"

lemma bwrites_skip [bwrites]: "bwrites Some []"
  by (auto simp: bwrites_def)

lemma bwrites_each:
  "(\<And>x. x \<in> set xs \<Longrightarrow> bwrites (f x) (enc x)) \<Longrightarrow> bwrites (bc_each f xs) (concat (map enc xs))"
proof (induction xs)
  case Nil
  have "bc_each f [] = Some" by (rule ext) simp
  then show ?case by (simp add: bwrites_skip)
next
  case (Cons x xs)
  have "bc_each f (x # xs) = (\<lambda>b. f x b \<bind> bc_each f xs)" by (rule ext) simp
  then show ?case using bwrites_bind [of "f x" "enc x" "bc_each f xs"] Cons by simp
qed

lemma bwrites_if: "(c \<Longrightarrow> bwrites f s) \<Longrightarrow> (\<not> c \<Longrightarrow> bwrites g t) \<Longrightarrow> bwrites (\<lambda>b. if c then f b else g b) (if c then s else t)"
  by simp

end
