(* ===== verification/Attr_Id.thy ===== *)
theory Attr_Id
  imports Hash_Map Json_Wtr Jtree Byte_Order
begin

text \<open>
  Product attributes, \<open>pc/attr_id.cpp\<close>: the set of attribute names with their numbers, and dictionaries of
  values by number, with their formats on chain and in JSON.  A \<open>str\<close> is modelled by the text it points
  to (the names live in buffers that are never freed or moved).  \<open>None\<close> is an access outside the memory
  concerned.
\<close>

section \<open>Attribute names\<close>

text \<open>\<open>trait\_str::hash\_t\<close>: the first bytes as an integer, truncated to 32 bits; a \<open>char\<close> is signed.\<close>

definition attr_hash :: "string \<Rightarrow> nat" where
  "attr_hash s =
     (if 4 \<le> length s then le_val (take 4 s)
      else if 2 \<le> length s then le_val (take 2 s)
      else case s of [] \<Rightarrow> 0 | c # _ \<Rightarrow> if byte c < 128 then byte c else 2 ^ 32 - 256 + byte c)"

record attr_id_set =
  as_map :: "(string, nat) hash_map"
  as_vec :: "string list"
  as_buf :: net_wtr
  as_aid :: nat

definition attr_node0 :: "(string, nat) node" where
  "attr_node0 = \<lparr>hn_nxt = 0, hn_key = [], hn_val = 0\<rparr>"

definition attr_set_new :: attr_id_set where
  "attr_set_new = \<lparr>as_map = hash_map_new attr_node0 307 attr_hash, as_vec = [], as_buf = nw_new, as_aid = 0\<rparr>"

definition add_attr :: "string \<Rightarrow> net_wtr \<Rightarrow> net_wtr option" where
  "add_attr v = nw_fill (length v) v"

definition vec_resize :: "nat \<Rightarrow> 'a \<Rightarrow> 'a list \<Rightarrow> 'a list" where
  "vec_resize n x xs = take n xs @ replicate (n - length xs) x"

definition add_attr_id :: "string \<Rightarrow> attr_id_set \<Rightarrow> (attr_id_set \<times> nat) option" where
  "add_attr_id v s =
     do { it \<leftarrow> hm_find (as_map s) v;
          (case it of
             Some p \<Rightarrow> do { aid \<leftarrow> hm_obj (as_map s) p; Some (s, aid) }
           | None \<Rightarrow>
               do { buf \<leftarrow> add_attr v (as_buf s);
                    (m, p) \<leftarrow> hm_add attr_node0 (as_map s) v;
                    let aid = (as_aid s + 1) mod 2 ^ 32;
                    vec \<leftarrow> wr (vec_resize ((1 + aid) mod 2 ^ 32) [] (as_vec s)) aid v;
                    m \<leftarrow> hm_ref_set m p aid;
                    Some (\<lparr>as_map = m, as_vec = vec, as_buf = buf, as_aid = aid\<rparr>, aid) }) }"

text \<open>Number 0 is no attribute.\<close>

definition get_attr_id :: "string \<Rightarrow> attr_id_set \<Rightarrow> nat option" where
  "get_attr_id v s =
     do { it \<leftarrow> hm_find (as_map s) v; (case it of Some p \<Rightarrow> hm_obj (as_map s) p | None \<Rightarrow> Some 0) }"

definition attr_get_str :: "attr_id_set \<Rightarrow> nat \<Rightarrow> string" where
  "attr_get_str s aid = (if aid < length (as_vec s) then as_vec s ! aid else [])"

definition attr_is_valid :: "attr_id_set \<Rightarrow> nat \<Rightarrow> bool" where
  "attr_is_valid s aid \<longleftrightarrow> aid \<noteq> 0 \<and> aid < length (as_vec s)"

definition get_num_attr_id :: "attr_id_set \<Rightarrow> nat" where
  "get_num_attr_id s = as_aid s"

section \<open>Dictionaries\<close>

text \<open>A position is an index and a length of 16 bits each.\<close>

record attr_dict =
  ad_buf :: string
  ad_vec :: "(nat \<times> nat) list"
  ad_num :: nat

definition attr_dict_clear :: attr_dict where
  "attr_dict_clear = \<lparr>ad_buf = [], ad_vec = [], ad_num = 0\<rparr>"

definition get_num_attr :: "attr_dict \<Rightarrow> nat" where
  "get_num_attr d = ad_num d"

text \<open>\<open>Some None\<close>: no such attribute.\<close>

definition get_attr :: "attr_dict \<Rightarrow> nat \<Rightarrow> string option option" where
  "get_attr d aid =
     (if length (ad_vec d) \<le> aid then Some None
      else let (i, n) = ad_vec d ! aid in
        if n = 0 then Some None
        else if i + n \<le> length (ad_buf d) then Some (Some (take n (drop i (ad_buf d)))) else None)"

function get_next_from :: "attr_dict \<Rightarrow> nat \<Rightarrow> (nat \<times> string) option option" where
  "get_next_from d i =
     (if length (ad_vec d) \<le> i then Some None
      else do { v \<leftarrow> get_attr d i;
                (case v of Some v \<Rightarrow> Some (Some (i, v)) | None \<Rightarrow> get_next_from d (i + 1)) })"
  by pat_completeness auto
termination by (relation "measure (\<lambda>(d, i). length (ad_vec d) - i)") auto

definition get_next_attr :: "attr_dict \<Rightarrow> nat \<Rightarrow> (nat \<times> string) option option" where
  "get_next_attr d aid = get_next_from d (1 + aid)"

definition add_ref :: "nat \<Rightarrow> string \<Rightarrow> attr_dict \<Rightarrow> attr_dict option" where
  "add_ref aid val d =
     (let vec = (if length (ad_vec d) \<le> aid then vec_resize (1 + aid) (0, 0) (ad_vec d) else ad_vec d);
          i = length (ad_buf d) mod 2 ^ 16;
          n = length val mod 2 ^ 16;
          buf = ad_buf d @ replicate n (to_byte 0) in
      Some \<lparr>ad_buf = take i buf @ take n val @ drop (i + n) buf, ad_vec = vec[aid := (i, n)], ad_num = ad_num d + 1\<rparr>)"

text \<open>The account: a header of \<open>PROD\_HDR\<close> bytes with the total size at offset 12, then names and values,
  each after a byte with its length.  The length is a signed \<open>char\<close>: from 128 on the addition to the
  pointer overflows.\<close>

definition PROD_HDR :: nat where
  "PROD_HDR = 48"

function account_loop :: "string \<Rightarrow> nat \<Rightarrow> nat \<Rightarrow> attr_id_set \<Rightarrow> attr_dict \<Rightarrow> (bool \<times> attr_id_set \<times> attr_dict) option" where
  "account_loop mem e p s d =
     (if p = e then Some (True, s, d)
      else do { c \<leftarrow> rd mem p;
                if 128 \<le> byte c then None
                else let key = take (byte c) (drop (p + 1) mem); p1 = p + 1 + byte c in
                  if e < p1 then Some (False, s, d)
                  else do { c \<leftarrow> rd mem p1;
                            if 128 \<le> byte c then None
                            else let val = take (byte c) (drop (p1 + 1) mem); p2 = p1 + 1 + byte c in
                              if e < p2 then Some (False, s, d)
                              else if length mem < p2 then None
                              else do { (s, aid) \<leftarrow> add_attr_id key s;
                                        d \<leftarrow> add_ref aid val d;
                                        account_loop mem e p2 s d } } })"
  by pat_completeness auto
termination by (relation "measure (\<lambda>(mem, e, p, s, d). e - p)") auto

declare account_loop.simps [simp del]

definition init_from_account :: "string \<Rightarrow> attr_id_set \<Rightarrow> (bool \<times> attr_id_set \<times> attr_dict) option" where
  "init_from_account mem s =
     (if length mem < 16 then None
      else account_loop mem (le_val (take 4 (drop 12 mem))) PROD_HDR s attr_dict_clear)"

partial_function (option) attr_json_loop ::
    "jtree \<Rightarrow> nat \<Rightarrow> attr_id_set \<Rightarrow> attr_dict \<Rightarrow> (bool \<times> attr_id_set \<times> attr_dict) option" where
  [code]: "attr_json_loop pt it s d =
     (if it = 0 then Some (True, s, d)
      else do { kt \<leftarrow> jt_get_key pt it;
                if kt = 0 then Some (False, s, d)
                else do { k \<leftarrow> jt_get_str pt kt;
                          (s, aid) \<leftarrow> add_attr_id k s;
                          vt \<leftarrow> jt_get_val pt it;
                          v \<leftarrow> jt_get_str pt vt;
                          d \<leftarrow> add_ref aid v d;
                          it \<leftarrow> jt_get_next pt it;
                          attr_json_loop pt it s d } })"

definition init_from_json :: "jtree \<Rightarrow> nat \<Rightarrow> attr_id_set \<Rightarrow> attr_dict \<Rightarrow> (bool \<times> attr_id_set \<times> attr_dict) option" where
  "init_from_json pt h s d =
     (if h = 0 then Some (False, s, d)
      else do { ty \<leftarrow> jt_get_type pt h;
                if ty \<noteq> e_obj then Some (False, s, d)
                else do { it \<leftarrow> jt_get_first pt h; attr_json_loop pt it s attr_dict_clear } })"

fun write_account_ids :: "attr_id_set \<Rightarrow> attr_dict \<Rightarrow> nat list \<Rightarrow> net_wtr \<Rightarrow> net_wtr option" where
  "write_account_ids s d [] w = Some w"
| "write_account_ids s d (i # is) w =
     do { v \<leftarrow> get_attr d i;
          (case v of
             None \<Rightarrow> write_account_ids s d is w
           | Some v \<Rightarrow>
               do { let k = attr_get_str s i;
                    w \<leftarrow> nw_add_char (to_byte (length k)) w;
                    w \<leftarrow> nw_add_str k w;
                    w \<leftarrow> nw_add_char (to_byte (length v)) w;
                    w \<leftarrow> nw_add_str v w;
                    write_account_ids s d is w }) }"

definition write_account :: "attr_id_set \<Rightarrow> attr_dict \<Rightarrow> net_wtr \<Rightarrow> net_wtr option" where
  "write_account s d w = write_account_ids s d [1..<length (ad_vec d)] w"

fun write_json_ids :: "attr_id_set \<Rightarrow> attr_dict \<Rightarrow> nat list \<Rightarrow> json_wtr \<Rightarrow> json_wtr option" where
  "write_json_ids s d [] w = Some w"
| "write_json_ids s d (i # is) w =
     do { v \<leftarrow> get_attr d i;
          (case v of
             None \<Rightarrow> write_json_ids s d is w
           | Some v \<Rightarrow> do { w \<leftarrow> jw_key (attr_get_str s i) v w; write_json_ids s d is w }) }"

definition write_json :: "attr_id_set \<Rightarrow> attr_dict \<Rightarrow> json_wtr \<Rightarrow> json_wtr option" where
  "write_json s d w = write_json_ids s d [1..<length (ad_vec d)] w"

section \<open>The set of names\<close>

definition as_inv :: "attr_id_set \<Rightarrow> bool" where
  "as_inv s \<longleftrightarrow> hm_inv (as_map s) \<and> nw_bufs (as_buf s) \<and>
     (\<forall>v i. hm_lookup (as_map s) v = Some i \<longleftrightarrow> 0 < i \<and> i \<le> as_aid s \<and> as_vec s ! i = v) \<and>
     (if as_aid s = 0 then as_vec s = [] else length (as_vec s) = as_aid s + 1)"

lemma hm_find_cases:
  assumes "hm_inv m"
  obtains "hm_lookup m k = None" "hm_find m k = Some None"
  | p v where "hm_lookup m k = Some v" "hm_find m k = Some (Some p)" "hm_obj m p = Some v"
proof -
  have *: "map_get m k = Some (hm_lookup m k)" by (rule map_get_ok [OF assms])
  from assms obtain C F where rel: "hm_rel m C F" by (auto simp: hm_inv_def)
  show thesis
  proof (cases "hm_find m k")
    case None
    then show thesis using * by (simp add: map_get_def)
  next
    case (Some p)
    show thesis
    proof (cases p)
      case None
      then show thesis using * that(1) Some by (simp add: map_get_def)
    next
      case (Some q)
      then obtain v where "hm_obj m q = Some v" "hm_lookup m k = Some v"
        using * \<open>hm_find m k = Some p\<close>
        by (cases "hm_lookup m k") (auto simp: map_get_def bind_eq_Some_conv)
      then show thesis using that(2) \<open>hm_find m k = Some p\<close> Some by simp
    qed
  qed
qed

lemma hm_find_Some:
  assumes "hm_inv m" "hm_lookup m k = Some v"
  obtains p where "hm_find m k = Some (Some p)" "hm_obj m p = Some v"
  by (rule hm_find_cases [OF assms(1), of k]) (use assms(2) that in auto)

lemma attr_set_new_inv: "as_inv attr_set_new"
proof -
  have rel: "hm_rel (hash_map_new attr_node0 307 attr_hash) (\<lambda>_. []) []" by (rule hash_map_new_inv) simp
  then show ?thesis using empty_lookup [OF rel] hash_map_new_hm_inv [of 307 attr_node0 attr_hash]
    by (auto simp: as_inv_def attr_set_new_def)
qed

lemma attr_set_new_room: "hm_size (as_map attr_set_new) < HM_ROOM" "as_aid attr_set_new < HM_ROOM"
  by (simp_all add: attr_set_new_def hash_map_new_def hm_size_def HM_ROOM_def)

lemma add_attr_id_known:
  assumes "as_inv s" "0 < i" "i \<le> as_aid s"
  shows "add_attr_id (attr_get_str s i) s = Some (s, i)"
proof -
  have "hm_lookup (as_map s) (attr_get_str s i) = Some i"
    using assms by (auto simp: as_inv_def attr_get_str_def split: if_splits)
  moreover have "hm_inv (as_map s)" using assms(1) by (simp add: as_inv_def)
  ultimately obtain p where "hm_find (as_map s) (attr_get_str s i) = Some (Some p)" "hm_obj (as_map s) p = Some i"
    using hm_find_Some by metis
  then show ?thesis by (simp add: add_attr_id_def)
qed

lemma add_attr_id_ok:
  assumes inv: "as_inv s" and v: "length v \<le> NET_BUF_LEN"
    and room: "hm_size (as_map s) < HM_ROOM" "as_aid s < HM_ROOM"
  shows "\<exists>s' i. add_attr_id v s = Some (s', i) \<and> as_inv s' \<and> attr_get_str s' i = v \<and> attr_is_valid s' i \<and>
    get_attr_id v s' = Some i \<and> as_aid s \<le> as_aid s' \<and> as_aid s' \<le> as_aid s + 1 \<and> (\<forall>j. attr_is_valid s j \<longrightarrow> attr_get_str s' j = attr_get_str s j)"
proof -
  have hm: "hm_inv (as_map s)" using inv by (simp add: as_inv_def)
  note I = inv [unfolded as_inv_def]
  show ?thesis
  proof (rule hm_find_cases [OF hm, of v])
    fix p i assume *: "hm_lookup (as_map s) v = Some i" "hm_find (as_map s) v = Some (Some p)" "hm_obj (as_map s) p = Some i"
    have "0 < i" "i \<le> as_aid s" "as_vec s ! i = v" using I * by blast+
    then have "attr_get_str s i = v" "attr_is_valid s i"
      using I by (simp_all add: attr_get_str_def attr_is_valid_def)
    then show ?thesis using * inv by (intro exI [of _ s] exI [of _ i]) (simp add: add_attr_id_def get_attr_id_def)
  next
    assume *: "hm_lookup (as_map s) v = None" "hm_find (as_map s) v = Some None"
    obtain buf where buf: "add_attr v (as_buf s) = Some buf" "nw_bufs buf"
      using I v appends_fill [of v "length v"] unfolding add_attr_def by (metis appendsE order_refl)
    let ?aid = "as_aid s + 1"
    obtain m' where m': "map_put attr_node0 v ?aid (as_map s) = Some m'" "hm_inv m'"
      "hm_lookup m' = (hm_lookup (as_map s))(v \<mapsto> ?aid)"
      using map_put_ok [OF hm room(1), of attr_node0 v ?aid] by blast
    obtain m1 p where m1: "hm_add attr_node0 (as_map s) v = Some (m1, p)" "hm_ref_set m1 p ?aid = Some m'"
      using m'(1) *(2) by (auto simp: map_put_def bind_eq_Some_conv)
    let ?vec = "vec_resize (1 + ?aid) [] (as_vec s)"
    have len: "length ?vec = 1 + ?aid" using I by (auto simp: vec_resize_def split: if_splits)
    have old: "j \<le> as_aid s \<Longrightarrow> 0 < j \<Longrightarrow> ?vec ! j = as_vec s ! j" for j
      using I by (auto simp: vec_resize_def nth_append split: if_splits)
    define s' where "s' = \<lparr>as_map = m', as_vec = ?vec[?aid := v], as_buf = buf, as_aid = ?aid\<rparr>"
    have eq: "add_attr_id v s = Some (s', ?aid)"
      using * buf m1 len room(2) by (simp add: add_attr_id_def s'_def wr_def HM_ROOM_def)
    have "as_inv s'"
      unfolding as_inv_def
    proof (intro conjI allI)
      fix w i
      show "hm_lookup (as_map s') w = Some i \<longleftrightarrow> 0 < i \<and> i \<le> as_aid s' \<and> as_vec s' ! i = w"
      proof (cases "i = ?aid")
        case True
        then show ?thesis using m'(3) len I by (auto simp: s'_def)
      next
        case False
        then have "as_vec s' ! i = ?vec ! i" by (simp add: s'_def)
        moreover have "i \<le> as_aid s' \<longleftrightarrow> i \<le> as_aid s" using False by (auto simp: s'_def)
        moreover have "hm_lookup (as_map s') w = Some i \<longleftrightarrow> hm_lookup (as_map s) w = Some i"
          using m'(3) False *(1) by (auto simp: s'_def)
        ultimately show ?thesis using old I by metis
      qed
    qed (use m' buf len in \<open>simp_all add: s'_def\<close>)
    moreover have "attr_get_str s' ?aid = v" "attr_is_valid s' ?aid"
      using len by (simp_all add: attr_get_str_def attr_is_valid_def s'_def)
    moreover have "get_attr_id v s' = Some ?aid"
      by (rule hm_find_Some [OF m'(2), of v ?aid]) (simp_all add: m'(3) get_attr_id_def s'_def)
    moreover have "attr_get_str s' j = attr_get_str s j" if "attr_is_valid s j" for j
    proof -
      have "0 < j" "j \<le> as_aid s" "j < length (as_vec s)" using that I by (auto simp: attr_is_valid_def split: if_splits)
      then show ?thesis using old [of j] len by (simp add: attr_get_str_def s'_def)
    qed
    ultimately show ?thesis using eq by (intro exI [of _ s'] exI [of _ ?aid]) (simp add: s'_def)
  qed
qed

section \<open>Dictionaries\<close>

text \<open>The invariant: every position lies in the buffer, which is below the range of the indices.\<close>

definition ad_inv :: "attr_dict \<Rightarrow> bool" where
  "ad_inv d \<longleftrightarrow> length (ad_buf d) < 2 ^ 16 \<and> (\<forall>(i, n) \<in> set (ad_vec d). i + n \<le> length (ad_buf d))"

lemma get_attr_defined:
  assumes "ad_inv d"
  shows "\<exists>v. get_attr d aid = Some v"
proof (cases "length (ad_vec d) \<le> aid")
  case False
  obtain i n where i: "ad_vec d ! aid = (i, n)" by fastforce
  have "(i, n) \<in> set (ad_vec d)" using False i by (metis not_le nth_mem)
  then show ?thesis using assms i by (auto simp: ad_inv_def get_attr_def)
qed (simp add: get_attr_def)

lemma attr_dict_clear_ok: "ad_inv attr_dict_clear" "get_attr attr_dict_clear aid = Some None"
  by (simp_all add: ad_inv_def attr_dict_clear_def get_attr_def)

lemma set_vec_resize: "set (vec_resize n x xs) \<subseteq> insert x (set xs)"
  by (auto simp: vec_resize_def dest: in_set_takeD)

lemma add_ref_ok:
  assumes d: "ad_inv d" and len: "length (ad_buf d) + length v < 2 ^ 16"
  obtains d' where "add_ref aid v d = Some d'" "ad_inv d'" "length (ad_buf d') = length (ad_buf d) + length v"
    "\<And>a. get_attr d' a = (if a = aid then Some (if v = [] then None else Some v) else get_attr d a)"
proof -
  define vec where "vec = (if length (ad_vec d) \<le> aid then vec_resize (1 + aid) (0, 0) (ad_vec d) else ad_vec d)"
  define d' where "d' = \<lparr>ad_buf = ad_buf d @ v, ad_vec = vec[aid := (length (ad_buf d), length v)], ad_num = ad_num d + 1\<rparr>"
  have lens: "length (ad_buf d) mod 2 ^ 16 = length (ad_buf d)" "length v mod 2 ^ 16 = length v" using len by simp_all
  have eq: "add_ref aid v d = Some d'" using lens by (simp add: add_ref_def Let_def d'_def vec_def)
  have aid: "aid < length vec" by (auto simp: vec_def vec_resize_def)
  have old: "(i, n) \<in> set vec \<Longrightarrow> i + n \<le> length (ad_buf d)" for i n
    using d set_vec_resize [of "1 + aid" "(0, 0)" "ad_vec d"] by (auto simp: vec_def ad_inv_def split: if_splits)
  have "i + n \<le> length (ad_buf d) + length v" if "(i, n) \<in> set (vec[aid := (length (ad_buf d), length v)])" for i n
  proof -
    from that set_update_subset_insert have "(i, n) \<in> insert (length (ad_buf d), length v) (set vec)" by (rule rev_subsetD)
    then show ?thesis using old [of i n] by auto
  qed
  then have inv: "ad_inv d'" using len by (auto simp: ad_inv_def d'_def)
  moreover have "get_attr d' a = (if a = aid then Some (if v = [] then None else Some v) else get_attr d a)" for a
  proof (cases "a = aid")
    case False
    show ?thesis
    proof (cases "length (ad_vec d) \<le> a")
      case True
      have "length vec \<le> a \<or> vec ! a = (0, 0)"
        using True by (cases "Suc aid \<le> a") (auto simp: vec_def vec_resize_def nth_append split: if_splits)
      then have "get_attr d' a = Some None" using False by (auto simp: get_attr_def d'_def)
      then show ?thesis using True False by (simp add: get_attr_def)
    next
      case a: False
      then have *: "vec ! a = ad_vec d ! a" "a < length vec" by (auto simp: vec_def vec_resize_def nth_append)
      obtain i n where i: "ad_vec d ! a = (i, n)" by fastforce
      have "(i, n) \<in> set (ad_vec d)" using a i by (metis not_le nth_mem)
      then have "i + n \<le> length (ad_buf d)" using d by (auto simp: ad_inv_def)
      then show ?thesis using False a * i by (simp add: get_attr_def d'_def)
    qed
  qed (use aid in \<open>simp add: get_attr_def d'_def\<close>)
  ultimately show thesis using that eq by (simp add: d'_def)
qed

section \<open>Round trip through the account\<close>

definition dict_attrs :: "attr_dict \<Rightarrow> nat list \<Rightarrow> (nat \<times> string) list" where
  "dict_attrs d is = concat (map (\<lambda>i. case get_attr d i of Some (Some v) \<Rightarrow> [(i, v)] | _ \<Rightarrow> []) is)"

definition attr_rec :: "string \<Rightarrow> string \<Rightarrow> string" where
  "attr_rec k v = to_byte (length k) # k @ to_byte (length v) # v"

definition attr_text :: "attr_id_set \<Rightarrow> (nat \<times> string) list \<Rightarrow> string" where
  "attr_text s avs = concat (map (\<lambda>(i, v). attr_rec (attr_get_str s i) v) avs)"

lemma appends_write_account_ids:
  assumes "ad_inv d"
  shows "appends (write_account_ids s d is) (attr_text s (dict_attrs d is))"
proof (induction "is")
  case Nil
  have "write_account_ids s d [] = Some" by (rule ext) simp
  then show ?case by (simp add: attr_text_def dict_attrs_def appends_id)
next
  case (Cons i "is")
  obtain v where v: "get_attr d i = Some v" using get_attr_defined [OF assms] by blast
  show ?case
  proof (cases v)
    case None
    then have "write_account_ids s d (i # is) = write_account_ids s d is" using v by (intro ext) simp
    then show ?thesis using Cons v None by (simp add: dict_attrs_def)
  next
    case (Some u)
    define k where "k = attr_get_str s i"
    have eq: "write_account_ids s d (i # is) = (\<lambda>w. do { w \<leftarrow> nw_add_char (to_byte (length k)) w; w \<leftarrow> nw_add_str k w;
        w \<leftarrow> nw_add_char (to_byte (length u)) w; w \<leftarrow> nw_add_str u w; write_account_ids s d is w })"
      using v Some by (intro ext) (simp add: k_def Let_def)
    have "appends (write_account_ids s d (i # is))
        ([to_byte (length k)] @ k @ [to_byte (length u)] @ u @ attr_text s (dict_attrs d is))"
      unfolding eq by (intro appends_bind appends_char appends_str Cons)
    then show ?thesis by (rule appends_eq) (simp add: attr_text_def dict_attrs_def v Some attr_rec_def k_def)
  qed
qed

fun add_refs :: "(nat \<times> string) list \<Rightarrow> attr_dict \<Rightarrow> attr_dict option" where
  "add_refs [] d = Some d"
| "add_refs ((i, v) # avs) d = do { d \<leftarrow> add_ref i v d; add_refs avs d }"

text \<open>Reading the records at an offset.\<close>

definition rec_ok :: "attr_id_set \<Rightarrow> nat \<times> string \<Rightarrow> bool" where
  "rec_ok s = (\<lambda>(i, v). 0 < i \<and> i \<le> as_aid s \<and> length (attr_get_str s i) < 128 \<and> v \<noteq> [] \<and> length v < 128)"

lemma account_loop_text:
  assumes "as_inv s" "\<forall>x \<in> set avs. rec_ok s x" "e = length (pre @ attr_text s avs)" "length pre = p"
  shows "account_loop (pre @ attr_text s avs) e p s d =
    (case add_refs avs d of None \<Rightarrow> None | Some d \<Rightarrow> Some (True, s, d))"
  using assms(2-)
proof (induction avs arbitrary: pre p d)
  case Nil
  then show ?case by (subst account_loop.simps) (simp add: attr_text_def)
next
  case (Cons x avs)
  obtain i v where x: "x = (i, v)" by fastforce
  define k where "k = attr_get_str s i"
  define rest where "rest = attr_text s avs"
  have ok: "0 < i" "i \<le> as_aid s" "length k < 128" "length v < 128" using Cons.prems(1) x by (auto simp: rec_ok_def k_def)
  define mem where "mem = pre @ attr_text s (x # avs)"
  have mem: "mem = pre @ to_byte (length k) # k @ to_byte (length v) # v @ rest"
    by (simp add: mem_def attr_text_def attr_rec_def x k_def rest_def)
  define p1 where "p1 = p + 1 + length k"
  define p2 where "p2 = p1 + 1 + length v"
  have p: "p = length pre" using Cons.prems(3) by simp
  have r1: "rd mem p = Some (to_byte (length k))" by (simp add: rd_def mem p)
  have r2: "rd mem p1 = Some (to_byte (length v))" by (simp add: rd_def mem p p1_def nth_append)
  have k: "take (length k) (drop (p + 1) mem) = k" by (simp add: mem p)
  have vv: "take (length v) (drop (p1 + 1) mem) = v" by (simp add: mem p p1_def)
  have e: "e = length mem" using Cons.prems(2) by (simp add: mem_def)
  have le: "p \<noteq> e" "\<not> e < p1" "\<not> e < p2" "\<not> length mem < p2" unfolding e by (simp_all add: mem p p1_def p2_def)
  have b: "byte (to_byte (length k)) = length k" "byte (to_byte (length v)) = length v" using ok by simp_all
  have add: "add_attr_id k s = Some (s, i)" unfolding k_def by (rule add_attr_id_known [OF assms(1) ok(1,2)])
  have pre: "mem = (pre @ attr_rec k v) @ attr_text s avs" by (simp add: mem attr_rec_def rest_def)
  have IH: "account_loop mem e p2 s d' = (case add_refs avs d' of None \<Rightarrow> None | Some d \<Rightarrow> Some (True, s, d))" for d'
    unfolding pre
    by (rule Cons.IH) (use Cons.prems(1) in \<open>simp_all add: e pre p p1_def p2_def attr_rec_def\<close>)
  have "account_loop mem e p s d =
      (do { d \<leftarrow> add_ref i v d; account_loop mem e p2 s d })"
    using le ok r1 r2 add
    by (subst account_loop.simps)
      (simp add: b k [simplified] vv [simplified] Let_def p1_def [symmetric, simplified] p2_def [symmetric, simplified])
  also have "\<dots> = (case add_refs (x # avs) d of None \<Rightarrow> None | Some d \<Rightarrow> Some (True, s, d))"
    by (cases "add_ref i v d") (simp_all add: x IH)
  finally show ?case by (simp only: mem_def)
qed

lemma add_refs_ok:
  assumes "ad_inv d" "length (ad_buf d) + sum_list (map (length \<circ> snd) avs) < 2 ^ 16" "distinct (map fst avs)"
  shows "\<exists>d'. add_refs avs d = Some d' \<and> ad_inv d' \<and>
    (\<forall>a. get_attr d' a = (case map_of avs a of None \<Rightarrow> get_attr d a | Some v \<Rightarrow> Some (if v = [] then None else Some v)))"
  using assms
proof (induction avs arbitrary: d)
  case (Cons x avs)
  obtain i v where x: "x = (i, v)" by fastforce
  have "length (ad_buf d) + length v < 2 ^ 16" using Cons.prems(2) x by simp
  from add_ref_ok [OF Cons.prems(1) this, of i] obtain d1 where d1: "add_ref i v d = Some d1" "ad_inv d1"
    "length (ad_buf d1) = length (ad_buf d) + length v"
    "\<And>a. get_attr d1 a = (if a = i then Some (if v = [] then None else Some v) else get_attr d a)" by metis
  have "length (ad_buf d1) + sum_list (map (length \<circ> snd) avs) < 2 ^ 16" using Cons.prems(2) x d1(3) by (simp add: o_def)
  from Cons.IH [OF d1(2) this] Cons.prems(3) x obtain d2 where d2: "add_refs avs d1 = Some d2" "ad_inv d2"
    "\<forall>a. get_attr d2 a = (case map_of avs a of None \<Rightarrow> get_attr d1 a | Some v \<Rightarrow> Some (if v = [] then None else Some v))"
    by auto
  have "map_of avs i = None" using Cons.prems(3) x by (simp add: map_of_eq_None_iff)
  then show ?case using d1 d2 x by (auto split: option.split)
qed simp

lemma map_of_dict_attrs:
  assumes "ad_inv d" "distinct is"
  shows "map_of (dict_attrs d is) a = (if a \<in> set is then the (get_attr d a) else None)"
    and "distinct (map fst (dict_attrs d is))"
proof -
  have sub: "set (map fst (dict_attrs d is)) \<subseteq> set is" for "is"
    by (auto simp: dict_attrs_def split: option.splits)
  show "distinct (map fst (dict_attrs d is))" using assms(2)
  proof (induction "is")
    case (Cons i "is")
    then show ?case using sub [of "is"] by (auto simp: dict_attrs_def split: option.splits)
  qed (simp add: dict_attrs_def)
  show "map_of (dict_attrs d is) a = (if a \<in> set is then the (get_attr d a) else None)" using assms(2)
  proof (induction "is")
    case (Cons i "is")
    have "dict_attrs d (i # is) = (case get_attr d i of Some (Some v) \<Rightarrow> [(i, v)] | _ \<Rightarrow> []) @ dict_attrs d is"
      by (simp add: dict_attrs_def)
    moreover obtain u where "get_attr d i = Some u" using get_attr_defined [OF assms(1)] by blast
    ultimately show ?case using Cons by (cases u) auto
  qed (simp add: dict_attrs_def)
qed

lemma attr_text_length: "sum_list (map (length \<circ> snd) avs) \<le> length (attr_text s avs)"
  by (induction avs) (auto simp: attr_text_def attr_rec_def)

text \<open>(C11) A dictionary whose names and values have fewer than 128 characters, written
  behind a product account header that holds the total size, is read back with the same names: every
  attribute has its value, and the set of names is unchanged.\<close>

theorem attr_account_roundtrip:
  assumes inv: "as_inv s" "ad_inv d"
    and ok: "\<forall>i v. 0 < i \<longrightarrow> get_attr d i = Some (Some v) \<longrightarrow> attr_is_valid s i \<and> length (attr_get_str s i) < 128 \<and> length v < 128"
    and hdr: "length hdr = PROD_HDR" and size: "le_val (take 4 (drop 12 hdr)) = PROD_HDR + length (nw_text w)"
    and w: "write_account s d nw_new = Some w" and small: "length (nw_text w) < 2 ^ 16"
  shows "\<exists>d'. init_from_account (hdr @ nw_text w) s = Some (True, s, d') \<and> (\<forall>i. 0 < i \<longrightarrow> get_attr d' i = get_attr d i)"
proof -
  define avs where "avs = dict_attrs d [1..<length (ad_vec d)]"
  have tx: "nw_text w = attr_text s avs"
    using appendsD [OF appends_write_account_ids [OF inv(2)] nw_new_ok(1)] w
    unfolding write_account_def avs_def by (metis nw_new_ok(3) append_Nil option.inject)
  have m: "map_of avs a = (if a \<in> set [1..<length (ad_vec d)] then the (get_attr d a) else None)" for a
    unfolding avs_def by (rule map_of_dict_attrs(1) [OF inv(2)]) simp
  have dist: "distinct (map fst avs)" unfolding avs_def by (rule map_of_dict_attrs(2) [OF inv(2)]) simp
  have recs: "\<forall>x \<in> set avs. rec_ok s x"
  proof
    fix x assume x: "x \<in> set avs"
    obtain i v where iv: "x = (i, v)" by fastforce
    have "map_of avs i = Some v" using x iv dist by simp
    then have g: "0 < i" "get_attr d i = Some (Some v)"
      using m [of i] get_attr_defined [OF inv(2), of i] by (auto split: if_splits)
    then have "attr_is_valid s i \<and> length (attr_get_str s i) < 128 \<and> length v < 128" using ok by blast
    moreover have "v \<noteq> []" using g by (auto simp: get_attr_def split: if_splits prod.splits)
    ultimately show "rec_ok s x"
      using g(1) inv(1) iv by (auto simp: rec_ok_def as_inv_def attr_is_valid_def split: if_splits)
  qed
  have "sum_list (map (length \<circ> snd) avs) < 2 ^ 16" using attr_text_length [of avs s] small unfolding tx by linarith
  with add_refs_ok [OF attr_dict_clear_ok(1) _ dist] obtain d' where d': "add_refs avs attr_dict_clear = Some d'"
    "\<forall>a. get_attr d' a = (case map_of avs a of None \<Rightarrow> get_attr attr_dict_clear a | Some v \<Rightarrow> Some (if v = [] then None else Some v))"
    by (auto simp: attr_dict_clear_def)
  have "account_loop (hdr @ attr_text s avs) (PROD_HDR + length (attr_text s avs)) PROD_HDR s attr_dict_clear = Some (True, s, d')"
    using account_loop_text [OF inv(1) recs _ hdr] d'(1) hdr by simp
  then have "init_from_account (hdr @ nw_text w) s = Some (True, s, d')"
    using hdr size unfolding tx init_from_account_def by (simp add: PROD_HDR_def)
  moreover have "get_attr d' i = get_attr d i" if i: "0 < i" for i
  proof (cases "i < length (ad_vec d)")
    case True
    obtain u where u: "get_attr d i = Some u" using get_attr_defined [OF inv(2)] by blast
    have "u \<noteq> Some []" using u by (auto simp: get_attr_def split: if_splits prod.splits)
    then show ?thesis using d'(2) m [of i] True i u by (cases u) (auto simp: attr_dict_clear_ok)
  next
    case False
    then show ?thesis using d'(2) m [of i] by (simp add: attr_dict_clear_ok) (simp add: get_attr_def)
  qed
  ultimately show ?thesis by blast
qed

text \<open>A set with one name and a dictionary with its value, for the witness.\<close>

definition sample_set :: attr_id_set where
  "sample_set = fst (the (add_attr_id ''base'' attr_set_new))"

definition sample_dict :: attr_dict where
  "sample_dict = the (add_ref 1 ''BTC'' attr_dict_clear)"

theorem attr_account_roundtrip_witness:
  "\<exists>w d'. write_account sample_set sample_dict nw_new = Some w \<and> nw_text w = to_byte 4 # ''base'' @ to_byte 3 # ''BTC'' \<and>
     init_from_account ((replicate 12 (to_byte 0) @ le_bytes 4 57 @ replicate 32 (to_byte 0)) @ nw_text w) sample_set = Some (True, sample_set, d') \<and>
     get_attr d' 1 = Some (Some ''BTC'')"
proof -
  have "length ''base'' \<le> NET_BUF_LEN" by (simp add: NET_BUF_LEN_def)
  from add_attr_id_ok [OF attr_set_new_inv this attr_set_new_room] obtain s i where s: "add_attr_id ''base'' attr_set_new = Some (s, i)"
    "as_inv s" "attr_get_str s i = ''base''" "attr_is_valid s i" "as_aid s \<le> as_aid attr_set_new + 1" by blast
  have set: "sample_set = s" using s(1) by (simp add: sample_set_def)
  have "i = 1" using s(2,4,5) by (auto simp: attr_set_new_def attr_is_valid_def as_inv_def split: if_splits)
  then have nm: "attr_get_str s 1 = ''base''" "attr_is_valid s 1" using s(3,4) by simp_all
  have d: "sample_dict = \<lparr>ad_buf = ''BTC'', ad_vec = [(0, 0), (0, 3)], ad_num = 1\<rparr>"
    by (simp add: sample_dict_def add_ref_def attr_dict_clear_def vec_resize_def Let_def)
  have dinv: "ad_inv sample_dict" by (auto simp: d ad_inv_def)
  have g: "get_attr sample_dict i = (if i = 1 then Some (Some ''BTC'') else Some None)" for i
    by (cases "i = 0"; cases "i = 1") (auto simp: d get_attr_def)
  have tx: "attr_text s (dict_attrs sample_dict [1..<length (ad_vec sample_dict)]) = to_byte 4 # ''base'' @ to_byte 3 # ''BTC''"
  proof -
    have "[1..<length (ad_vec sample_dict)] = [1]" by (simp add: d)
    moreover have "dict_attrs sample_dict [1] = [(1, ''BTC'')]" by (simp add: dict_attrs_def g)
    ultimately show ?thesis using nm(1) by (simp add: attr_text_def attr_rec_def)
  qed
  obtain w where w: "write_account s sample_dict nw_new = Some w" "nw_text w = to_byte 4 # ''base'' @ to_byte 3 # ''BTC''"
    using appendsD [OF appends_write_account_ids [OF dinv] nw_new_ok(1)] tx
    unfolding write_account_def by (metis nw_new_ok(3) append_Nil)
  have "\<exists>d'. init_from_account ((replicate 12 (to_byte 0) @ le_bytes 4 57 @ replicate 32 (to_byte 0)) @ nw_text w) s = Some (True, s, d') \<and>
      (\<forall>i. 0 < i \<longrightarrow> get_attr d' i = get_attr sample_dict i)"
    by (rule attr_account_roundtrip [OF s(2) dinv _ _ _ w(1)])
      (simp_all add: g nm [unfolded One_nat_def] w(2) PROD_HDR_def le_val_bytes)
  then show ?thesis using w g [of 1] unfolding set by auto
qed

end
