(* ===== verification/Json_Tree.thy ===== *)
theory Json_Tree
  imports Jtree Json_Wtr
begin

text \<open>
  What the parse tree of \<open>pc/jtree.cpp\<close> says about the text: the tree that the parser builds for a printed
  JSON value represents that value, and the accessors of the tree (\<open>find_val\<close>, \<open>get_str\<close>, \<open>get_uint\<close>,
  \<open>get_first\<close>, \<open>get_next\<close>) read its members and elements.  Writer and parser of the client meet here.
\<close>

section \<open>Representation\<close>

definition sans_next :: "jnode \<Rightarrow> jnode" where
  "sans_next n = n\<lparr>jn_next := 0\<rparr>"

lemma sans_next_eq: "sans_next m = sans_next n \<Longrightarrow> jn_type m = jn_type n \<and> jn_h m = jn_h n \<and> jn_t m = jn_t n"
  by (cases m, cases n) (simp add: sans_next_def)

lemma sans_next_upd [simp]: "sans_next (n\<lparr>jn_next := i\<rparr>) = sans_next n"
  by (simp add: sans_next_def)

definition val_node :: "string \<Rightarrow> jnode list \<Rightarrow> nat \<Rightarrow> string \<Rightarrow> bool" where
  "val_node buf nv i s \<longleftrightarrow> i < length nv \<and> jn_type (nv ! i) = e_val \<and> jn_h (nv ! i) + jn_t (nv ! i) \<le> length buf \<and>
     take (jn_t (nv ! i)) (drop (jn_h (nv ! i)) buf) = s"

text \<open>An item is a part of the tree that hangs at one node of a chain and occupies an interval of the node
  vector; \<open>chain lo hi nv p h t items\<close> says that the nodes linked from \<open>h\<close> to \<open>t\<close> carry the items, in
  consecutive intervals between \<open>lo\<close> and \<open>hi\<close> (\<open>p\<close> is the node before \<open>h\<close>, or 0).\<close>

type_synonym item = "nat \<Rightarrow> nat \<Rightarrow> jnode list \<Rightarrow> nat \<Rightarrow> bool"

fun chain :: "nat \<Rightarrow> nat \<Rightarrow> jnode list \<Rightarrow> nat \<Rightarrow> nat \<Rightarrow> nat \<Rightarrow> item list \<Rightarrow> bool" where
  "chain lo hi nv p h t [] \<longleftrightarrow> h = 0 \<and> t = p"
| "chain lo hi nv p h t (r # rs) \<longleftrightarrow>
     (h \<noteq> 0 \<and> lo \<le> h \<and> (\<exists>m. h < m \<and> m \<le> hi \<and> r lo m nv h \<and> chain m hi nv h (jn_next (nv ! h)) t rs))"

primrec val_text :: "jv \<Rightarrow> string" where
  "val_text (JText s) = s"
| "val_text (JUint v) = uint_to_str v"
| "val_text (JInt v) = the (int_to_str v)"
| "val_text (JRaw s) = s"
| "val_text (JB58 s) = b58_text s"
| "val_text (JB64 s) = enc_base64 s"
| "val_text (JObj kvs) = []"
| "val_text (JArr vs) = []"

primrec rep :: "jv \<Rightarrow> string \<Rightarrow> item" where
  "rep (JText s) = (\<lambda>buf lo hi nv i. val_node buf nv i s)"
| "rep (JUint v) = (\<lambda>buf lo hi nv i. val_node buf nv i (uint_to_str v))"
| "rep (JInt v) = (\<lambda>buf lo hi nv i. val_node buf nv i (the (int_to_str v)))"
| "rep (JRaw s) = (\<lambda>buf lo hi nv i. val_node buf nv i s)"
| "rep (JB58 s) = (\<lambda>buf lo hi nv i. val_node buf nv i (b58_text s))"
| "rep (JB64 s) = (\<lambda>buf lo hi nv i. val_node buf nv i (enc_base64 s))"
| "rep (JObj kvs) = (\<lambda>buf lo hi nv i. i < length nv \<and> jn_type (nv ! i) = e_obj \<and> hi \<le> length nv \<and>
     chain lo hi nv 0 (jn_h (nv ! i)) (jn_t (nv ! i))
       (map (\<lambda>(k, r) lo m nv j. jn_type (nv ! j) = e_keyval \<and> lo \<le> jn_h (nv ! j) \<and> jn_h (nv ! j) < j \<and>
          lo \<le> jn_t (nv ! j) \<and> jn_t (nv ! j) < j \<and> jn_t (nv ! j) \<noteq> 0 \<and> val_node buf nv (jn_h (nv ! j)) k \<and> r buf (j + 1) m nv (jn_t (nv ! j)))
         (map (map_prod id rep) kvs)))"
| "rep (JArr vs) = (\<lambda>buf lo hi nv i. i < length nv \<and> jn_type (nv ! i) = e_arr \<and> hi \<le> length nv \<and>
     chain lo hi nv 0 (jn_h (nv ! i)) (jn_t (nv ! i)) (map (\<lambda>r lo m nv j. r buf (j + 1) m nv j) (map rep vs)))"

definition elem :: "string \<Rightarrow> jv \<Rightarrow> item" where
  "elem buf v lo m nv j \<longleftrightarrow> rep v buf (j + 1) m nv j"

definition member :: "string \<Rightarrow> string \<times> jv \<Rightarrow> item" where
  "member buf kv lo m nv j \<longleftrightarrow> jn_type (nv ! j) = e_keyval \<and> lo \<le> jn_h (nv ! j) \<and> jn_h (nv ! j) < j \<and>
     lo \<le> jn_t (nv ! j) \<and> jn_t (nv ! j) < j \<and> jn_t (nv ! j) \<noteq> 0 \<and> val_node buf nv (jn_h (nv ! j)) (fst kv) \<and>
     rep (snd kv) buf (j + 1) m nv (jn_t (nv ! j))"

lemma rep_scalar: "scalar v \<Longrightarrow> rep v buf lo hi nv i = val_node buf nv i (val_text v)"
  by (cases v) auto

lemma rep_arr: "rep (JArr vs) buf lo hi nv i \<longleftrightarrow> i < length nv \<and> jn_type (nv ! i) = e_arr \<and> hi \<le> length nv \<and>
    chain lo hi nv 0 (jn_h (nv ! i)) (jn_t (nv ! i)) (map (elem buf) vs)"
  by (simp add: elem_def [abs_def] comp_def)

lemma rep_obj: "rep (JObj kvs) buf lo hi nv i \<longleftrightarrow> i < length nv \<and> jn_type (nv ! i) = e_obj \<and> hi \<le> length nv \<and>
    chain lo hi nv 0 (jn_h (nv ! i)) (jn_t (nv ! i)) (map (member buf) kvs)"
proof -
  have "(case map_prod id rep kv of (k, r) \<Rightarrow> \<lambda>lo m nv j. jn_type (nv ! j) = e_keyval \<and> lo \<le> jn_h (nv ! j) \<and>
      jn_h (nv ! j) < j \<and> lo \<le> jn_t (nv ! j) \<and> jn_t (nv ! j) < j \<and> jn_t (nv ! j) \<noteq> 0 \<and> val_node buf nv (jn_h (nv ! j)) k \<and>
      r buf (j + 1) m nv (jn_t (nv ! j))) = member buf kv" for kv
    by (cases kv) (intro ext, simp add: member_def)
  then show ?thesis by (simp add: comp_def)
qed

declare rep.simps(7,8) [simp del]

section \<open>Frame\<close>

text \<open>The vectors agree on an interval.\<close>

definition agree :: "nat \<Rightarrow> nat \<Rightarrow> jnode list \<Rightarrow> jnode list \<Rightarrow> bool" where
  "agree lo hi nv nv' \<longleftrightarrow> length nv \<le> length nv' \<and> (\<forall>j. lo \<le> j \<and> j < hi \<longrightarrow> nv' ! j = nv ! j)"

lemma agree_sub: "agree lo hi nv nv' \<Longrightarrow> lo \<le> lo' \<Longrightarrow> hi' \<le> hi \<Longrightarrow> agree lo' hi' nv nv'"
  by (auto simp: agree_def)

text \<open>An item does not depend on the link of its node.\<close>

definition framed :: "item \<Rightarrow> bool" where
  "framed r \<longleftrightarrow> (\<forall>lo m nv nv' h. r lo m nv h \<and> lo \<le> h \<and> h < m \<and> m \<le> length nv \<and> length nv \<le> length nv' \<and>
     (\<forall>j. lo \<le> j \<and> j < m \<and> j \<noteq> h \<longrightarrow> nv' ! j = nv ! j) \<and> sans_next (nv' ! h) = sans_next (nv ! h) \<longrightarrow> r lo m nv' h)"

lemma framedD:
  "framed r \<Longrightarrow> r lo m nv h \<Longrightarrow> lo \<le> h \<Longrightarrow> h < m \<Longrightarrow> m \<le> length nv \<Longrightarrow> length nv \<le> length nv' \<Longrightarrow>
   (\<And>j. lo \<le> j \<Longrightarrow> j < m \<Longrightarrow> j \<noteq> h \<Longrightarrow> nv' ! j = nv ! j) \<Longrightarrow> sans_next (nv' ! h) = sans_next (nv ! h) \<Longrightarrow> r lo m nv' h"
  unfolding framed_def by blast

lemma chain_agree:
  assumes "chain lo hi nv p h t rs" "\<forall>r \<in> set rs. framed r" "agree lo hi nv nv'" "hi \<le> length nv"
  shows "chain lo hi nv' p h t rs"
  using assms
proof (induction rs arbitrary: lo p h)
  case (Cons r rs)
  obtain m where m: "h \<noteq> 0" "lo \<le> h" "h < m" "m \<le> hi" "r lo m nv h" "chain m hi nv h (jn_next (nv ! h)) t rs"
    using Cons.prems(1) by auto
  have eq: "nv' ! j = nv ! j" if "lo \<le> j" "j < m" for j using Cons.prems(3) that m(4) by (simp add: agree_def)
  have "r lo m nv' h"
    by (rule framedD [where r = r and nv = nv]) (use Cons.prems m eq in \<open>auto simp: agree_def\<close>)
  moreover have "chain m hi nv' h (jn_next (nv ! h)) t rs"
    by (rule Cons.IH [OF m(6)]) (use Cons.prems m in \<open>auto intro: agree_sub\<close>)
  ultimately show ?case using m eq [of h] by auto
qed simp

lemma chain_last: "chain lo hi nv p h t rs \<Longrightarrow> rs \<noteq> [] \<Longrightarrow> lo \<le> t \<and> t < hi \<and> t \<noteq> 0"
proof (induction rs arbitrary: lo p h)
  case (Cons r rs)
  from Cons.prems(1) obtain m where m: "h \<noteq> 0" "lo \<le> h" "h < m" "m \<le> hi" "chain m hi nv h (jn_next (nv ! h)) t rs"
    by auto
  show ?case
  proof (cases "rs = []")
    case True
    then show ?thesis using m by simp
  next
    case False
    then show ?thesis using Cons.IH [OF m(5)] m by simp
  qed
qed simp

text \<open>Framing of the members of a container follows from framing of their values.\<close>

definition rep_framed :: "string \<Rightarrow> jv \<Rightarrow> bool" where
  "rep_framed buf v \<longleftrightarrow> (\<forall>lo hi nv nv' i. rep v buf lo hi nv i \<and> agree lo hi nv nv' \<and> hi \<le> length nv \<and>
     sans_next (nv' ! i) = sans_next (nv ! i) \<longrightarrow> rep v buf lo hi nv' i)"

lemma elem_framedI: "rep_framed buf v \<Longrightarrow> framed (elem buf v)"
  unfolding framed_def elem_def
proof (intro allI impI, elim conjE)
  fix lo m h :: nat and nv nv' :: "jnode list"
  assume f: "rep_framed buf v" and r: "rep v buf (h + 1) m nv h" "lo \<le> h" "h < m" "m \<le> length nv" "length nv \<le> length nv'"
    "\<forall>j. lo \<le> j \<and> j < m \<and> j \<noteq> h \<longrightarrow> nv' ! j = nv ! j" "sans_next (nv' ! h) = sans_next (nv ! h)"
  have "agree (h + 1) m nv nv'" using r by (auto simp: agree_def)
  then show "rep v buf (h + 1) m nv' h" using f r by (auto simp: rep_framed_def)
qed

lemma member_framedI:
  assumes "rep_framed buf (snd kv)"
  shows "framed (member buf kv)"
  unfolding framed_def
proof (intro allI impI, elim conjE)
  fix lo m h :: nat and nv nv' :: "jnode list"
  assume r: "member buf kv lo m nv h" and h: "lo \<le> h" "h < m" "m \<le> length nv" "length nv \<le> length nv'"
    and eq: "\<forall>j. lo \<le> j \<and> j < m \<and> j \<noteq> h \<longrightarrow> nv' ! j = nv ! j" and s: "sans_next (nv' ! h) = sans_next (nv ! h)"
  have same: "nv' ! jn_h (nv ! h) = nv ! jn_h (nv ! h)" "nv' ! jn_t (nv ! h) = nv ! jn_t (nv ! h)"
    using r h eq by (auto simp: member_def)
  have "agree (h + 1) m nv nv'" using h eq by (auto simp: agree_def)
  then have "rep (snd kv) buf (h + 1) m nv' (jn_t (nv ! h))"
    using assms r same h by (auto simp: rep_framed_def member_def)
  then show "member buf kv lo m nv' h"
    using r sans_next_eq [OF s] same h by (auto simp: member_def val_node_def)
qed

lemma rep_framed_scalar:
  assumes "scalar v"
  shows "rep_framed buf v"
  unfolding rep_framed_def rep_scalar [OF assms]
proof (intro allI impI, elim conjE)
  fix lo hi i :: nat and nv nv' :: "jnode list"
  assume "val_node buf nv i (val_text v)" "agree lo hi nv nv'" and s: "sans_next (nv' ! i) = sans_next (nv ! i)"
  then show "val_node buf nv' i (val_text v)" using sans_next_eq [OF s] by (auto simp: val_node_def agree_def)
qed

lemma rep_framed_arr:
  assumes "\<forall>v \<in> set vs. rep_framed buf v"
  shows "rep_framed buf (JArr vs)"
  unfolding rep_framed_def
proof (intro allI impI, elim conjE)
  fix lo hi i :: nat and nv nv' :: "jnode list"
  assume r: "rep (JArr vs) buf lo hi nv i" "agree lo hi nv nv'" "hi \<le> length nv" and s: "sans_next (nv' ! i) = sans_next (nv ! i)"
  have "chain lo hi nv' 0 (jn_h (nv ! i)) (jn_t (nv ! i)) (map (elem buf) vs)"
    by (rule chain_agree [OF _ _ r(2,3)]) (use r assms elem_framedI in \<open>auto simp: rep_arr\<close>)
  then show "rep (JArr vs) buf lo hi nv' i" using r sans_next_eq [OF s] by (auto simp: rep_arr agree_def)
qed

lemma rep_framed_obj:
  assumes "\<forall>kv \<in> set kvs. rep_framed buf (snd kv)"
  shows "rep_framed buf (JObj kvs)"
  unfolding rep_framed_def
proof (intro allI impI, elim conjE)
  fix lo hi i :: nat and nv nv' :: "jnode list"
  assume r: "rep (JObj kvs) buf lo hi nv i" "agree lo hi nv nv'" "hi \<le> length nv" and s: "sans_next (nv' ! i) = sans_next (nv ! i)"
  have "chain lo hi nv' 0 (jn_h (nv ! i)) (jn_t (nv ! i)) (map (member buf) kvs)"
    by (rule chain_agree [OF _ _ r(2,3)]) (use r assms member_framedI in \<open>auto simp: rep_obj\<close>)
  then show "rep (JObj kvs) buf lo hi nv' i" using r sans_next_eq [OF s] by (auto simp: rep_obj agree_def)
qed

lemma rep_framed: "rep_framed buf v"
proof (induction v)
  case (JObj kvs)
  have "rep_framed buf (snd kv)" if "kv \<in> set kvs" for kv
    by (rule JObj.IH [OF that]) (cases kv, simp)
  then show ?case by (intro rep_framed_obj ballI)
next
  case (JArr vs)
  then show ?case by (intro rep_framed_arr ballI)
qed (simp_all add: rep_framed_scalar)

lemma rep_frame:
  "rep v buf lo hi nv i \<Longrightarrow> agree lo hi nv nv' \<Longrightarrow> hi \<le> length nv \<Longrightarrow> sans_next (nv' ! i) = sans_next (nv ! i) \<Longrightarrow>
   rep v buf lo hi nv' i"
  using rep_framed [of buf v] unfolding rep_framed_def by blast

lemma elem_framed: "framed (elem buf v)"
  by (rule elem_framedI [OF rep_framed])

lemma member_framed: "framed (member buf kv)"
  by (rule member_framedI [OF rep_framed])

text \<open>Linking a new item behind the last one.\<close>

lemma chain_snoc:
  assumes "chain lo hi nv p h t rs" "\<forall>r \<in> set rs. framed r" "hi \<le> length nv" "length nv \<le> length nv'"
    and "\<And>j. lo \<le> j \<Longrightarrow> j < hi \<Longrightarrow> rs = [] \<or> j \<noteq> t \<Longrightarrow> nv' ! j = nv ! j"
    and "rs \<noteq> [] \<Longrightarrow> nv' ! t = (nv ! t)\<lparr>jn_next := e\<rparr>"
    and "\<And>lo'. lo' \<le> hi \<Longrightarrow> r lo' hi' nv' e" "hi \<le> e" "e < hi'" "e \<noteq> 0" "lo \<le> hi" "jn_next (nv' ! e) = 0"
  shows "chain lo hi' nv' p (if rs = [] then e else h) e (rs @ [r])"
  using assms
proof (induction rs arbitrary: lo p h)
  case Nil
  then show ?case by auto
next
  case (Cons q rs)
  from Cons.prems(1) obtain m where m: "h \<noteq> 0" "lo \<le> h" "h < m" "m \<le> hi" "q lo m nv h"
    "chain m hi nv h (jn_next (nv ! h)) t rs"
    by auto
  show ?case
  proof (cases "rs = []")
    case True
    then have t: "t = h" using m by simp
    have n: "nv' ! h = (nv ! h)\<lparr>jn_next := e\<rparr>" using Cons.prems(6) t by simp
    have "q lo m nv' h"
      by (rule framedD [where r = q and nv = nv]) (use Cons.prems(2-5) m n t in auto)
    then show ?thesis using True m n Cons.prems(7) [of m] Cons.prems(8-10,12)
      by (simp, intro exI [of _ m], simp, intro exI [of _ hi'], simp)
  next
    case False
    then have t: "m \<le> t" using chain_last [OF m(6)] by simp
    have n: "nv' ! j = nv ! j" if "lo \<le> j" "j < m" for j using Cons.prems(5) [of j] that t m by simp
    have "q lo m nv' h"
      by (rule framedD [where r = q and nv = nv]) (use Cons.prems(2-4) m n in auto)
    moreover have "chain m hi' nv' h (if rs = [] then e else jn_next (nv ! h)) e (rs @ [r])"
      by (rule Cons.IH [OF m(6)]) (use Cons.prems m False in auto)
    ultimately show ?thesis using False m n [of h] Cons.prems(8,9) by auto
  qed
qed

section \<open>Scanning\<close>

lemma scan_string:
  "CHR 0x22 \<notin> set s \<Longrightarrow> jt_parse_loop (s @ CHR 0x22 # r) p (PString txt) jt =
     jt_parse_loop r (p + length s + 1) (PPeek txt (p + length s)) jt"
  by (induction s arbitrary: p) auto

lemma scan_number:
  "list_all number_char s \<Longrightarrow> jt_parse_loop (s @ r) p (PNumber txt) jt = jt_parse_loop r (p + length s) (PNumber txt) jt"
  by (induction s arbitrary: p) auto

lemma scan_keyword:
  "list_all is_alpha s \<Longrightarrow> jt_parse_loop (s @ r) p (PKeyword txt) jt = jt_parse_loop r (p + length s) (PKeyword txt) jt"
  by (induction s arbitrary: p) auto

text \<open>What stands behind a scalar: a comma or a closing bracket.\<close>

definition delim :: "string \<Rightarrow> bool" where
  "delim r \<longleftrightarrow> (\<exists>c r'. r = c # r' \<and> c \<in> {CHR '','', CHR ''}'', CHR '']''})"

lemma delim_simps [simp]: "delim (CHR '','' # r)" "delim (CHR ''}'' # r)" "delim (CHR '']'' # r)"
  by (simp_all add: delim_def)

lemma delim_ends:
  assumes "delim r"
  shows "jt_parse_loop r p (PPeek txt e) jt = (do { jt \<leftarrow> jt_parse_string txt e jt; jt_parse_loop r p PStart jt })"
    and "jt_parse_loop r p (PNumber txt) jt = (do { jt \<leftarrow> jt_parse_string txt p jt; jt_parse_loop r p PStart jt })"
    and "jt_parse_loop r p (PKeyword txt) jt = (do { jt \<leftarrow> jt_parse_string txt p jt; jt_parse_loop r p PStart jt })"
proof -
  obtain c r' where r: "r = c # r'" "c \<in> {CHR '','', CHR ''}'', CHR '']''}" using assms by (auto simp: delim_def)
  have c: "c \<noteq> CHR '':''" "\<not> is_space c" "\<not> number_char c" "\<not> is_alpha c"
    using r(2) by (auto simp: is_space_def number_char_def is_digit_def is_alpha_def less_eq_char_def)
  show "jt_parse_loop r p (PPeek txt e) jt = (do { jt \<leftarrow> jt_parse_string txt e jt; jt_parse_loop r p PStart jt })"
    "jt_parse_loop r p (PNumber txt) jt = (do { jt \<leftarrow> jt_parse_string txt p jt; jt_parse_loop r p PStart jt })"
    "jt_parse_loop r p (PKeyword txt) jt = (do { jt \<leftarrow> jt_parse_string txt p jt; jt_parse_loop r p PStart jt })"
    unfolding r(1) by (subst jt_parse_loop.simps, simp only: c if_False if_True not_False_eq_True)+
qed

text \<open>Values whose text the parser takes apart as it was printed: no quote inside a string, raw text only for
  the three keywords.\<close>

fun clean :: "jv \<Rightarrow> bool" where
  "clean (JText s) \<longleftrightarrow> CHR 0x22 \<notin> set s"
| "clean (JUint v) \<longleftrightarrow> True"
| "clean (JInt v) \<longleftrightarrow> - (2 ^ 63) < v \<and> v < 2 ^ 63"
| "clean (JRaw s) \<longleftrightarrow> s \<in> {''true'', ''false'', ''null''}"
| "clean (JB58 s) \<longleftrightarrow> CHR 0x22 \<notin> set (b58_text s)"
| "clean (JB64 s) \<longleftrightarrow> CHR 0x22 \<notin> set (enc_base64 s)"
| "clean (JObj kvs) \<longleftrightarrow> (\<forall>kv \<in> set kvs. CHR 0x22 \<notin> set (fst kv) \<and> clean (snd kv))"
| "clean (JArr vs) \<longleftrightarrow> (\<forall>v \<in> set vs. clean v)"

fun in_quotes :: "jv \<Rightarrow> bool" where
  "in_quotes (JText s) \<longleftrightarrow> True"
| "in_quotes (JB58 s) \<longleftrightarrow> True"
| "in_quotes (JB64 s) \<longleftrightarrow> True"
| "in_quotes v \<longleftrightarrow> False"

definition qlen :: "jv \<Rightarrow> nat" where
  "qlen v = (if in_quotes v then 1 else 0)"

lemma render_text: "scalar v \<Longrightarrow> render v = (if in_quotes v then quoted (val_text v) else val_text v)"
  by (cases v) auto

lemma digits_number: "list_all is_digit s \<Longrightarrow> list_all number_char s"
  by (auto simp: list_all_iff number_char_def)

lemma uint_text: "list_all is_digit (uint_to_str u) \<and> uint_to_str u \<noteq> []"
proof -
  obtain s where s: "put_digits (unat u) [] = s" "dec_val s = unat u" "list_all is_digit s"
    using put_digits_spec [of "unat u" "[]"] by auto
  moreover have "s \<noteq> []" if "u \<noteq> 0"
    using s(2) that by (cases s) (auto simp: dec_val_def unat_eq_zero)
  ultimately show ?thesis by (auto simp: uint_to_str_def is_digit_def less_eq_char_def)
qed

lemma int_text:
  assumes "- (2 ^ 63) < v" "v < 2 ^ 63"
  shows "\<exists>c s. the (int_to_str v) = c # s \<and> (c = CHR ''-'' \<or> is_digit c) \<and> list_all is_digit s"
proof (cases "v = 0")
  case True
  then show ?thesis by (simp add: int_to_str_def is_digit_def less_eq_char_def)
next
  case False
  obtain s where s: "put_digits (nat \<bar>v\<bar>) [] = s" "dec_val s = nat \<bar>v\<bar>" "list_all is_digit s"
    using put_digits_spec [of "nat \<bar>v\<bar>" "[]"] by auto
  have "s \<noteq> []" using s(2) False by (cases s) (auto simp: dec_val_def)
  moreover have "in_s64 (- v)" using assms by (simp add: in_s64_def)
  ultimately show ?thesis
    using False s by (cases s; cases "v < 0") (auto simp: int_to_str_def s64_def Let_def)
qed

lemma unquoted_text:
  assumes "scalar v" "clean v" "\<not> in_quotes v"
  shows "(\<exists>c s. val_text v = c # s \<and> (c = CHR ''-'' \<or> is_digit c) \<and> list_all number_char s) \<or>
    (\<exists>c s. val_text v = c # s \<and> c \<in> {CHR ''t'', CHR ''f'', CHR ''n''} \<and> list_all is_alpha s)"
proof (cases v)
  case (JUint u)
  then show ?thesis using uint_text [of u] digits_number by (cases "uint_to_str u") auto
next
  case (JInt i)
  then show ?thesis using int_text [of i] assms(2) digits_number by auto
next
  case (JRaw s)
  have a: "list_all is_alpha ''rue''" "list_all is_alpha ''alse''" "list_all is_alpha ''ull''"
    by (simp_all add: is_alpha_def less_eq_char_def)
  have "s = ''true'' \<or> s = ''false'' \<or> s = ''null''" using JRaw assms(2) by simp
  then show ?thesis
    by (elim disjE; intro disjI2; simp only: JRaw val_text.simps)
      (rule exI, rule exI, rule conjI, rule refl, use a in simp)+
qed (use assms in simp_all)

lemma scan_scalar:
  assumes "scalar v" "clean v" "delim r"
  shows "jt_parse_loop (render v @ r) p PStart jt =
    (do { jt \<leftarrow> jt_parse_string (p + qlen v) (p + qlen v + length (val_text v)) jt;
          jt_parse_loop r (p + length (render v)) PStart jt })"
proof (cases "in_quotes v")
  case True
  then have q: "CHR 0x22 \<notin> set (val_text v)" using assms(1,2) by (cases v) auto
  have "jt_parse_loop (render v @ r) p PStart jt = jt_parse_loop (val_text v @ CHR 0x22 # r) (p + 1) (PString (p + 1)) jt"
    using True by (simp add: render_text [OF assms(1)] quoted_def)
  also have "\<dots> = jt_parse_loop r (p + 1 + length (val_text v) + 1) (PPeek (p + 1) (p + 1 + length (val_text v))) jt"
    by (rule scan_string [OF q])
  finally show ?thesis
    using True by (simp add: delim_ends [OF assms(3)] qlen_def render_text [OF assms(1)] quoted_def)
next
  case False
  consider c s where "val_text v = c # s" "c = CHR ''-'' \<or> is_digit c" "list_all number_char s"
    | c s where "val_text v = c # s" "c \<in> {CHR ''t'', CHR ''f'', CHR ''n''}" "list_all is_alpha s"
    using unquoted_text [OF assms(1,2) False] by blast
  then show ?thesis
  proof cases
    case 1
    have d: "c \<notin> {CHR ''{'', CHR ''['', CHR ''}'', CHR '']'', CHR 0x22}"
      using 1(2) by (auto simp: is_digit_def less_eq_char_def)
    have "jt_parse_loop (render v @ r) p PStart jt = jt_parse_loop (s @ r) (p + 1) (PNumber p) jt"
      using 1(1,2) d False by (auto simp: render_text [OF assms(1)])
    then show ?thesis
      using False by (simp add: scan_number [OF 1(3)] delim_ends [OF assms(3)] qlen_def render_text [OF assms(1)] 1(1))
  next
    case 2
    have d: "c \<notin> {CHR ''{'', CHR ''['', CHR ''}'', CHR '']'', CHR 0x22, CHR ''-'', CHR ''.''} \<and> \<not> is_digit c"
      using 2(2) by (auto simp: is_digit_def less_eq_char_def)
    have "jt_parse_loop (render v @ r) p PStart jt = jt_parse_loop (s @ r) (p + 1) (PKeyword p) jt"
      using 2(1,2) d False by (auto simp: render_text [OF assms(1)])
    then show ?thesis
      using False by (simp add: scan_keyword [OF 2(3)] delim_ends [OF assms(3)] qlen_def render_text [OF assms(1)] 2(1))
  qed
qed

section \<open>Placing a node\<close>

text \<open>Linking node \<open>e\<close> behind the last node of container \<open>b\<close>.\<close>

definition link :: "nat \<Rightarrow> nat \<Rightarrow> jnode list \<Rightarrow> jnode list" where
  "link e b nv =
     (let t = jn_t (nv ! b); nv1 = (if t \<noteq> 0 then nv[t := (nv ! t)\<lparr>jn_next := e\<rparr>] else nv)
      in nv1[b := (nv1 ! b)\<lparr>jn_h := if t \<noteq> 0 then jn_h (nv1 ! b) else e, jn_t := e\<rparr>])"

definition ctx_ok :: "jtree \<Rightarrow> bool" where
  "ctx_ok jt \<longleftrightarrow> jt_nv jt \<noteq> [] \<and>
     (case jt_st jt of [] \<Rightarrow> jt_key jt = 0
      | b # _ \<Rightarrow> 0 < b \<and> b < length (jt_nv jt) \<and> jn_t (jt_nv jt ! b) < length (jt_nv jt) \<and> jn_t (jt_nv jt ! b) \<noteq> b)"

fun placed :: "nat list \<Rightarrow> nat \<Rightarrow> jnode list \<Rightarrow> jnode \<Rightarrow> jnode list" where
  "placed [] k nv n = nv @ [n]"
| "placed (b # st) k nv n =
     (if k \<noteq> 0 then link (length nv + 1) b (nv @ [n, \<lparr>jn_type = e_keyval, jn_next = 0, jn_h = k, jn_t = length nv\<rparr>])
      else link (length nv) b (nv @ [n]))"

lemma link_length [simp]: "length (link e b nv) = length nv"
  by (simp add: link_def Let_def)

lemma add_arr_link:
  assumes "jt_st jt = b # st" "b < length (jt_nv jt)" "jn_t (jt_nv jt ! b) < length (jt_nv jt)" "e < 2 ^ 24"
    "jn_t (jt_nv jt ! b) \<noteq> b"
  shows "jt_add_arr e jt = Some (jt\<lparr>jt_nv := link e b (jt_nv jt)\<rparr>)"
proof -
  have e: "e mod 2 ^ 24 = e" using assms(4) by simp
  show ?thesis
    unfolding jt_add_arr_def assms(1) e using assms(2,3,5)
    by (auto simp: jt_upd_node_def link_def Let_def rd_def wr_def)
qed

lemma place_node:
  assumes "ctx_ok jt" "length (jt_nv jt) + 1 < 2 ^ 24"
  shows "(let (jt, i) = jt_new_node ty h t jt in jt_add i jt) =
    Some (jt\<lparr>jt_nv := placed (jt_st jt) (jt_key jt) (jt_nv jt) \<lparr>jn_type = ty, jn_next = 0, jn_h = h, jn_t = t\<rparr>, jt_key := 0\<rparr>)"
proof (cases "jt_st jt")
  case Nil
  then show ?thesis using assms(1) by (simp add: jt_new_node_def jt_add_def ctx_ok_def)
next
  case (Cons b st)
  then have b: "b < length (jt_nv jt)" "jn_t (jt_nv jt ! b) < length (jt_nv jt)" "jn_t (jt_nv jt ! b) \<noteq> b"
    using assms(1) by (auto simp: ctx_ok_def)
  then show ?thesis
    using assms(2) Cons
    by (auto simp: jt_new_node_def jt_add_def jt_add_obj_def nth_append add_arr_link)
qed

lemma link_nth:
  assumes "b < length nv" "jn_t (nv ! b) < length nv" "jn_t (nv ! b) \<noteq> b" "j < length nv"
  shows "link e b nv ! j =
    (if j = b then (nv ! b)\<lparr>jn_h := if jn_t (nv ! b) = 0 then e else jn_h (nv ! b), jn_t := e\<rparr>
     else if j = jn_t (nv ! b) \<and> j \<noteq> 0 then (nv ! j)\<lparr>jn_next := e\<rparr> else nv ! j)"
  using assms by (auto simp: link_def Let_def nth_list_update)

lemma placed_length: "length (placed st k nv n) = length nv + (if st \<noteq> [] \<and> k \<noteq> 0 then 2 else 1)"
  by (cases st) auto

text \<open>What placing a node does to the vector.\<close>

lemma placed_nth:
  assumes "b < length nv" "jn_t (nv ! b) < length nv" "jn_t (nv ! b) \<noteq> b" "j < length nv"
    and "e = (if k \<noteq> 0 then length nv + 1 else length nv)"
  shows "placed (b # st) k nv n ! j =
    (if j = b then (nv ! b)\<lparr>jn_h := if jn_t (nv ! b) = 0 then e else jn_h (nv ! b), jn_t := e\<rparr>
     else if j = jn_t (nv ! b) \<and> j \<noteq> 0 then (nv ! j)\<lparr>jn_next := e\<rparr> else nv ! j)"
    and "placed (b # st) k nv n ! length nv = n"
    and "k \<noteq> 0 \<Longrightarrow> placed (b # st) k nv n ! (length nv + 1) = \<lparr>jn_type = e_keyval, jn_next = 0, jn_h = k, jn_t = length nv\<rparr>"
  using assms by (auto simp: link_nth nth_append)

declare placed.simps [simp del]

lemma placed_new: "ctx_ok jt \<Longrightarrow> placed (jt_st jt) k (jt_nv jt) n ! length (jt_nv jt) = n"
  by (cases "jt_st jt") (auto simp: ctx_ok_def link_nth nth_append placed.simps)

section \<open>The parser on a printed value\<close>

definition at :: "nat \<Rightarrow> string \<Rightarrow> string \<Rightarrow> bool" where
  "at p s buf \<longleftrightarrow> take (length s) (drop p buf) = s"

lemma at_iff: "at p s buf \<longleftrightarrow> (\<exists>r. drop p buf = s @ r)"
proof
  assume "at p s buf"
  then have "drop p buf = s @ drop (length s) (drop p buf)"
    using append_take_drop_id [of "length s" "drop p buf"] by (simp add: at_def)
  then show "\<exists>r. drop p buf = s @ r" by blast
qed (auto simp: at_def)

lemma at_append: "at p (s @ t) buf \<longleftrightarrow> at p s buf \<and> at (p + length s) t buf"
proof -
  have d: "drop (p + length s) buf = drop (length s) (drop p buf)" by (simp only: drop_drop add.commute)
  have "(\<exists>r. xs = (s @ t) @ r) \<longleftrightarrow> (\<exists>r. xs = s @ r) \<and> (\<exists>r. drop (length s) xs = t @ r)" for xs :: string
    by auto
  then show ?thesis unfolding at_iff d .
qed

lemma at_bound: "at p s buf \<Longrightarrow> s \<noteq> [] \<Longrightarrow> p + length s \<le> length buf"
proof -
  assume "at p s buf" "s \<noteq> []"
  then obtain r where "drop p buf = s @ r" "length s > 0" by (auto simp: at_iff)
  then have "length buf - p = length s + length r" "length s > 0"
    using length_drop [of p buf] by simp_all
  then show ?thesis by linarith
qed

definition parses :: "jv \<Rightarrow> bool" where
  "parses v \<longleftrightarrow> (\<forall>jt p post.
     ctx_ok jt \<and> length (jt_nv jt) + (if jt_key jt \<noteq> 0 then 1 else 0) \<le> p + 1 \<and> length (jt_buf jt) + 4 < 2 ^ 24 \<and>
     at p (render v) (jt_buf jt) \<and> (scalar v \<longrightarrow> delim post) \<longrightarrow>
     (\<exists>nv' n. jt_parse_loop (render v @ post) p PStart jt =
         jt_parse_loop post (p + length (render v)) PStart (jt\<lparr>jt_nv := nv', jt_key := 0\<rparr>) \<and>
       length nv' \<le> p + length (render v) + 1 \<and>
       (let pl = placed (jt_st jt) (jt_key jt) (jt_nv jt) n; i = length (jt_nv jt)
        in length pl \<le> length nv' \<and> (\<forall>j < length pl. j \<noteq> i \<longrightarrow> nv' ! j = pl ! j) \<and> jn_next (nv' ! i) = 0 \<and>
           rep v (jt_buf jt) (length pl) (length nv') nv' i)))"

lemma parsesE:
  assumes "parses v" "ctx_ok jt" "length (jt_nv jt) + (if jt_key jt \<noteq> 0 then 1 else 0) \<le> p + 1"
    "length (jt_buf jt) + 4 < 2 ^ 24" "at p (render v) (jt_buf jt)" "scalar v \<longrightarrow> delim post"
  obtains nv' n where "jt_parse_loop (render v @ post) p PStart jt =
         jt_parse_loop post (p + length (render v)) PStart (jt\<lparr>jt_nv := nv', jt_key := 0\<rparr>)"
    "length nv' \<le> p + length (render v) + 1"
    "length (placed (jt_st jt) (jt_key jt) (jt_nv jt) n) \<le> length nv'"
    "\<And>j. j < length (placed (jt_st jt) (jt_key jt) (jt_nv jt) n) \<Longrightarrow> j \<noteq> length (jt_nv jt) \<Longrightarrow>
       nv' ! j = placed (jt_st jt) (jt_key jt) (jt_nv jt) n ! j"
    "jn_next (nv' ! length (jt_nv jt)) = 0"
    "rep v (jt_buf jt) (length (placed (jt_st jt) (jt_key jt) (jt_nv jt) n)) (length nv') nv' (length (jt_nv jt))"
  using assms unfolding parses_def Let_def by blast

lemma render_nonempty: "scalar v \<Longrightarrow> clean v \<Longrightarrow> render v \<noteq> []"
  using unquoted_text [of v] by (cases "in_quotes v") (auto simp: render_text quoted_def)

lemma scalar_parses:
  assumes "scalar v" "clean v"
  shows "parses v"
  unfolding parses_def
proof (intro allI impI, elim conjE)
  fix jt p post
  assume c: "ctx_ok jt" "length (jt_nv jt) + (if jt_key jt \<noteq> 0 then 1 else 0) \<le> p + 1" "length (jt_buf jt) + 4 < 2 ^ 24"
    and a: "at p (render v) (jt_buf jt)" and d: "scalar v \<longrightarrow> delim post"
  define n where "n = \<lparr>jn_type = e_val, jn_next = 0, jn_h = p + qlen v, jn_t = length (val_text v)\<rparr>"
  define nv' where "nv' = placed (jt_st jt) (jt_key jt) (jt_nv jt) n"
  have b: "p + length (render v) \<le> length (jt_buf jt)" by (rule at_bound [OF a render_nonempty [OF assms]])
  have l: "length (render v) = 2 * qlen v + length (val_text v)"
    by (simp add: render_text [OF assms(1)] qlen_def quoted_def)
  have "length (jt_nv jt) + 1 < 2 ^ 24" using b c(2,3) by simp
  from place_node [OF c(1) this, of e_val "p + qlen v" "length (val_text v)"]
  have "jt_parse_string (p + qlen v) (p + qlen v + length (val_text v)) jt = Some (jt\<lparr>jt_nv := nv', jt_key := 0\<rparr>)"
    by (simp add: jt_parse_string_def nv'_def n_def)
  then have "jt_parse_loop (render v @ post) p PStart jt =
      jt_parse_loop post (p + length (render v)) PStart (jt\<lparr>jt_nv := nv', jt_key := 0\<rparr>)"
    using scan_scalar [OF assms, of post p jt] d assms(1) by simp
  moreover have "length nv' \<le> p + length (render v) + 1"
    using c(1,2) render_nonempty [OF assms]
    by (cases "render v"; cases "jt_st jt"; cases "jt_key jt = 0") (simp_all add: nv'_def placed_length ctx_ok_def)
  moreover have "rep v (jt_buf jt) (length nv') (length nv') nv' (length (jt_nv jt))"
  proof -
    have "take (length (val_text v)) (drop (p + qlen v) (jt_buf jt)) = val_text v"
    proof (cases "in_quotes v")
      case True
      then have "at p ([CHR 0x22] @ val_text v @ [CHR 0x22]) (jt_buf jt)"
        using a by (simp add: render_text [OF assms(1)] quoted_def)
      then have "at (p + length [CHR 0x22]) (val_text v) (jt_buf jt)" by (simp only: at_append)
      then have "at (p + 1) (val_text v) (jt_buf jt)" by simp
      then show ?thesis using True by (simp only: at_def qlen_def if_True)
    next
      case False
      then show ?thesis using a by (simp add: render_text [OF assms(1)] qlen_def at_def)
    qed
    then show ?thesis
      using b l placed_new [OF c(1)] by (simp add: rep_scalar [OF assms(1)] val_node_def nv'_def n_def placed_length)
  qed
  moreover have "jn_next (nv' ! length (jt_nv jt)) = 0" using placed_new [OF c(1)] by (simp add: nv'_def n_def)
  ultimately show "\<exists>nv' n. jt_parse_loop (render v @ post) p PStart jt =
         jt_parse_loop post (p + length (render v)) PStart (jt\<lparr>jt_nv := nv', jt_key := 0\<rparr>) \<and>
       length nv' \<le> p + length (render v) + 1 \<and>
       (let pl = placed (jt_st jt) (jt_key jt) (jt_nv jt) n; i = length (jt_nv jt)
        in length pl \<le> length nv' \<and> (\<forall>j < length pl. j \<noteq> i \<longrightarrow> nv' ! j = pl ! j) \<and> jn_next (nv' ! i) = 0 \<and>
           rep v (jt_buf jt) (length pl) (length nv') nv' i)"
    by (intro exI [of _ nv'] exI [of _ n]) (simp add: nv'_def Let_def)
qed

text \<open>A container that is being filled: the nodes below \<open>lo\<close> are as in \<open>nv0\<close>, except the container itself,
  and the items parsed so far hang on it.\<close>

definition opened :: "jtype \<Rightarrow> nat \<Rightarrow> nat \<Rightarrow> nat list \<Rightarrow> jnode list \<Rightarrow> item list \<Rightarrow> jtree \<Rightarrow> bool" where
  "opened ty b lo st nv0 rs jt \<longleftrightarrow>
     jt_st jt = b # st \<and> jt_key jt = 0 \<and> 0 < b \<and> b < lo \<and> lo = length nv0 \<and> lo \<le> length (jt_nv jt) \<and>
     (\<forall>j < lo. j \<noteq> b \<longrightarrow> jt_nv jt ! j = nv0 ! j) \<and> jn_type (jt_nv jt ! b) = ty \<and> jn_next (jt_nv jt ! b) = 0 \<and>
     (\<forall>r \<in> set rs. framed r) \<and>
     chain lo (length (jt_nv jt)) (jt_nv jt) 0 (jn_h (jt_nv jt ! b)) (jn_t (jt_nv jt ! b)) rs"

lemma opened_tail:
  assumes "opened ty b lo st nv0 rs jt"
  shows "jn_t (jt_nv jt ! b) < length (jt_nv jt)" "jn_t (jt_nv jt ! b) \<noteq> b" "jn_t (jt_nv jt ! b) = 0 \<longleftrightarrow> rs = []"
    "rs \<noteq> [] \<Longrightarrow> lo \<le> jn_t (jt_nv jt ! b)" "b < length (jt_nv jt)"
proof -
  have b: "0 < b" "b < lo" "lo \<le> length (jt_nv jt)"
    and c: "chain lo (length (jt_nv jt)) (jt_nv jt) 0 (jn_h (jt_nv jt ! b)) (jn_t (jt_nv jt ! b)) rs"
    using assms unfolding opened_def by blast+
  show "b < length (jt_nv jt)" using b(2,3) by linarith
  have e: "jn_t (jt_nv jt ! b) = 0" if "rs = []" using c that by simp
  note l = chain_last [OF c]
  show "lo \<le> jn_t (jt_nv jt ! b)" if "rs \<noteq> []" using l that by simp
  show "jn_t (jt_nv jt ! b) < length (jt_nv jt)" "jn_t (jt_nv jt ! b) \<noteq> b" "jn_t (jt_nv jt ! b) = 0 \<longleftrightarrow> rs = []"
    using e l b by linarith+
qed

lemma opened_ctx: "opened ty b lo st nv0 rs jt \<Longrightarrow> ctx_ok jt"
  using opened_tail [of ty b lo st nv0 rs jt] by (auto simp: opened_def ctx_ok_def)

text \<open>One more item: placed with or without a key, then grown at the end of the vector.\<close>

lemma opened_snoc:
  assumes o: "opened ty b lo st nv0 rs jt" and "framed r"
    and nv: "length (placed (b # st) k nv n) \<le> length nv'"
      "\<And>j. j < length (placed (b # st) k nv n) \<Longrightarrow> j \<noteq> length nv \<Longrightarrow> nv' ! j = placed (b # st) k nv n ! j"
      "take (length (jt_nv jt)) nv = jt_nv jt" "length (jt_nv jt) \<le> length nv"
    and e: "e = (if k \<noteq> 0 then length nv + 1 else length nv)" "jn_next (nv' ! e) = 0"
    and r: "\<And>lo'. lo' \<le> length (jt_nv jt) \<Longrightarrow> r lo' (length nv') nv' e"
  shows "opened ty b lo st nv0 (rs @ [r]) (jt\<lparr>jt_nv := nv', jt_key := 0\<rparr>)"
proof -
  let ?v = "jt_nv jt" and ?t = "jn_t (jt_nv jt ! b)"
  note t = opened_tail [OF o]
  have same: "nv ! j = ?v ! j" if "j < length ?v" for j using nv(3) that by (metis nth_take)
  have pre: "b < length nv" "jn_t (nv ! b) < length nv" "jn_t (nv ! b) \<noteq> b" using t(1,2,5) nv(4) same by auto
  have pl: "nv' ! j = (if j = b then (?v ! b)\<lparr>jn_h := if ?t = 0 then e else jn_h (?v ! b), jn_t := e\<rparr>
      else if j = ?t \<and> j \<noteq> 0 then (?v ! j)\<lparr>jn_next := e\<rparr> else ?v ! j)" if "j < length ?v" for j
    using nv(2) [of j] placed_nth(1) [OF pre, of j e k st n] that nv(4) e(1) same t(5)
    by (auto simp: placed_length)
  have lo: "lo \<le> length ?v" "b < lo" "0 < b" using o by (auto simp: opened_def)
  have en: "length ?v \<le> e" "e < length nv'" using e(1) nv(1,4) by (auto simp: placed_length)
  have b: "nv' ! b = (?v ! b)\<lparr>jn_h := if rs = [] then e else jn_h (?v ! b), jn_t := e\<rparr>"
    using pl [OF t(5)] t(3) by simp
  have "chain lo (length nv') nv' 0 (if rs = [] then e else jn_h (?v ! b)) e (rs @ [r])"
  proof (rule chain_snoc [where hi = "length ?v" and nv = ?v and t = ?t])
    show "chain lo (length ?v) ?v 0 (jn_h (?v ! b)) ?t rs" "\<forall>r \<in> set rs. framed r" using o by (auto simp: opened_def)
    show "nv' ! j = ?v ! j" if "lo \<le> j" "j < length ?v" "rs = [] \<or> j \<noteq> ?t" for j
      using pl [OF that(2)] that t(3) lo by auto
    show "nv' ! ?t = (?v ! ?t)\<lparr>jn_next := e\<rparr>" if "rs \<noteq> []" using pl [OF t(1)] t(2,3) that by simp
  qed (use en lo e(2) r in auto)
  then show ?thesis
    using o b pl lo en assms(2) t(3,4) by (auto simp: opened_def)
qed

text \<open>A text whose parse inside an open container of type \<open>ty\<close> adds one item.\<close>

definition adds :: "jtype \<Rightarrow> string \<Rightarrow> (string \<Rightarrow> item) \<Rightarrow> bool" where
  "adds ty txt r \<longleftrightarrow> (\<forall>b lo st nv0 rs jt p post.
     opened ty b lo st nv0 rs jt \<and> length (jt_nv jt) \<le> p + 1 \<and> length (jt_buf jt) + 4 < 2 ^ 24 \<and>
     at p txt (jt_buf jt) \<and> delim post \<longrightarrow>
     (\<exists>nv'. jt_parse_loop (txt @ post) p PStart jt =
         jt_parse_loop post (p + length txt) PStart (jt\<lparr>jt_nv := nv', jt_key := 0\<rparr>) \<and>
       length nv' \<le> p + length txt + 1 \<and>
       opened ty b lo st nv0 (rs @ [r (jt_buf jt)]) (jt\<lparr>jt_nv := nv', jt_key := 0\<rparr>)))"

lemma addsE:
  assumes "adds ty tx r" "opened ty b lo st nv0 rs jt" "length (jt_nv jt) \<le> p + 1" "length (jt_buf jt) + 4 < 2 ^ 24"
    "at p tx (jt_buf jt)" "delim post"
  obtains nv' where "jt_parse_loop (tx @ post) p PStart jt =
      jt_parse_loop post (p + length tx) PStart (jt\<lparr>jt_nv := nv', jt_key := 0\<rparr>)"
    "length nv' \<le> p + length tx + 1" "opened ty b lo st nv0 (rs @ [r (jt_buf jt)]) (jt\<lparr>jt_nv := nv', jt_key := 0\<rparr>)"
  using assms unfolding adds_def by blast

lemma elem_adds:
  assumes "parses v"
  shows "adds ty (render v) (\<lambda>buf. elem buf v)"
  unfolding adds_def
proof (intro allI impI, elim conjE)
  fix b lo st nv0 rs jt p post
  assume o: "opened ty b lo st nv0 rs jt" and c: "length (jt_nv jt) \<le> p + 1" "length (jt_buf jt) + 4 < 2 ^ 24"
    "at p (render v) (jt_buf jt)" "delim post"
  have st: "jt_st jt = b # st" "jt_key jt = 0" using o by (auto simp: opened_def)
  obtain nv' n where n: "jt_parse_loop (render v @ post) p PStart jt =
       jt_parse_loop post (p + length (render v)) PStart (jt\<lparr>jt_nv := nv', jt_key := 0\<rparr>)"
      "length nv' \<le> p + length (render v) + 1" "length (placed (b # st) 0 (jt_nv jt) n) \<le> length nv'"
      "\<forall>j < length (placed (b # st) 0 (jt_nv jt) n). j \<noteq> length (jt_nv jt) \<longrightarrow> nv' ! j = placed (b # st) 0 (jt_nv jt) n ! j"
      "jn_next (nv' ! length (jt_nv jt)) = 0"
      "rep v (jt_buf jt) (length (placed (b # st) 0 (jt_nv jt) n)) (length nv') nv' (length (jt_nv jt))"
    by (rule parsesE [OF assms opened_ctx [OF o], of p post]) (use c st in auto)
  have "elem (jt_buf jt) v lo' (length nv') nv' (length (jt_nv jt))" for lo'
    using n(6) by (simp add: elem_def placed_length)
  then have "opened ty b lo st nv0 (rs @ [elem (jt_buf jt) v]) (jt\<lparr>jt_nv := nv', jt_key := 0\<rparr>)"
    by (intro opened_snoc [OF o elem_framed n(3)]) (use n(4,5) in auto)
  then show "\<exists>nv'. jt_parse_loop (render v @ post) p PStart jt =
         jt_parse_loop post (p + length (render v)) PStart (jt\<lparr>jt_nv := nv', jt_key := 0\<rparr>) \<and>
       length nv' \<le> p + length (render v) + 1 \<and>
       opened ty b lo st nv0 (rs @ [elem (jt_buf jt) v]) (jt\<lparr>jt_nv := nv', jt_key := 0\<rparr>)"
    using n(1,2) by blast
qed

lemma scan_key:
  assumes "CHR 0x22 \<notin> set k"
  shows "jt_parse_loop (quoted k @ CHR '':'' # r) p PStart jt =
    jt_parse_loop r (p + length k + 3) PStart (jt\<lparr>jt_nv := jt_nv jt @ [\<lparr>jn_type = e_val, jn_next = 0, jn_h = p + 1, jn_t = length k\<rparr>],
      jt_key := length (jt_nv jt)\<rparr>)"
proof -
  have "jt_parse_loop (quoted k @ CHR '':'' # r) p PStart jt =
      jt_parse_loop (k @ CHR 0x22 # CHR '':'' # r) (p + 1) (PString (p + 1)) jt"
    by (simp add: quoted_def)
  also have "\<dots> = jt_parse_loop (CHR '':'' # r) (p + 1 + length k + 1) (PPeek (p + 1) (p + 1 + length k)) jt"
    by (rule scan_string [OF assms])
  finally show ?thesis by (simp add: jt_parse_key_def jt_new_node_def is_digit_def less_eq_char_def numeral_3_eq_3)
qed

lemma member_adds:
  assumes "parses v" "CHR 0x22 \<notin> set k"
  shows "adds ty (quoted k @ CHR '':'' # render v) (\<lambda>buf. member buf (k, v))"
  unfolding adds_def
proof (intro allI impI, elim conjE)
  fix b lo st nv0 rs jt p post
  assume o: "opened ty b lo st nv0 rs jt" and c: "length (jt_nv jt) \<le> p + 1" "length (jt_buf jt) + 4 < 2 ^ 24"
    "at p (quoted k @ CHR '':'' # render v) (jt_buf jt)" "delim post"
  have st: "jt_st jt = b # st" "jt_key jt = 0" using o by (auto simp: opened_def)
  note t = opened_tail [OF o]
  define kn where "kn = \<lparr>jn_type = e_val, jn_next = 0, jn_h = p + 1, jn_t = length k\<rparr>"
  define jt1 where "jt1 = jt\<lparr>jt_nv := jt_nv jt @ [kn], jt_key := length (jt_nv jt)\<rparr>"
  define q where "q = p + length k + 3"
  have len: "p + length (quoted k @ CHR '':'' # render v) = q + length (render v)" by (simp add: q_def quoted_def)
  have nz: "length (jt_nv jt) \<noteq> 0" using t(5) by auto
  have pre: "b < length (jt_nv jt1)" "jn_t (jt_nv jt1 ! b) < length (jt_nv jt1)" "jn_t (jt_nv jt1 ! b) \<noteq> b"
    "jt_st jt1 = b # st" "jt_key jt1 = length (jt_nv jt)" "jt_buf jt1 = jt_buf jt" "length (jt_nv jt1) = length (jt_nv jt) + 1"
    using t st by (auto simp: jt1_def nth_append)
  have ctx: "ctx_ok jt1" using pre o by (auto simp: ctx_ok_def opened_def jt1_def)
  have at: "at q (render v) (jt_buf jt)" "at (p + 1) k (jt_buf jt)" "p + 1 + length k \<le> length (jt_buf jt)"
  proof -
    have s: "quoted k @ CHR '':'' # render v = [CHR 0x22] @ k @ [CHR 0x22, CHR '':''] @ render v" by (simp add: quoted_def)
    show "at q (render v) (jt_buf jt)" "at (p + 1) k (jt_buf jt)"
      using c(3) unfolding s at_append by (simp_all add: q_def numeral_3_eq_3)
    show "p + 1 + length k \<le> length (jt_buf jt)" using at_bound [OF c(3)] by (simp add: quoted_def)
  qed
  let ?pl = "\<lambda>n. placed (b # st) (length (jt_nv jt)) (jt_nv jt1) n"
  obtain nv' n where n: "jt_parse_loop (render v @ post) q PStart jt1 =
       jt_parse_loop post (q + length (render v)) PStart (jt1\<lparr>jt_nv := nv', jt_key := 0\<rparr>)"
      "length nv' \<le> q + length (render v) + 1" "length (?pl n) \<le> length nv'"
      "\<forall>j < length (?pl n). j \<noteq> length (jt_nv jt1) \<longrightarrow> nv' ! j = ?pl n ! j"
      "jn_next (nv' ! length (jt_nv jt1)) = 0" "rep v (jt_buf jt) (length (?pl n)) (length nv') nv' (length (jt_nv jt1))"
    by (rule parsesE [OF assms(1) ctx, of q post]) (use c at pre(4-7) in \<open>auto simp: q_def\<close>)
  define e where "e = length (jt_nv jt1) + 1"
  have lp: "length (?pl n) = e + 1" using nz by (simp add: placed_length e_def)
  have kv: "nv' ! e = \<lparr>jn_type = e_keyval, jn_next = 0, jn_h = length (jt_nv jt), jn_t = length (jt_nv jt1)\<rparr>"
    using n(4) placed_nth(3) [OF pre(1-3) pre(1) refl nz] lp by (simp add: e_def)
  have key: "nv' ! length (jt_nv jt) = kn"
    using n(4) placed_nth(1) [OF pre(1-3) _ refl, where j = "length (jt_nv jt)" and k = "length (jt_nv jt)" and st = st and n = n] lp t(1,5) nz
    by (simp add: e_def pre(7)) (simp add: jt1_def nth_append)
  have "take (length k) (drop (p + 1) (jt_buf jt)) = k" using at(2) by (simp only: at_def)
  then have "member (jt_buf jt) (k, v) lo' (length nv') nv' e" if "lo' \<le> length (jt_nv jt)" for lo'
    using n(3,6) kv key that at(3) lp by (simp add: member_def val_node_def e_def pre(7)) (simp add: kn_def)
  then have "opened ty b lo st nv0 (rs @ [member (jt_buf jt) (k, v)]) (jt\<lparr>jt_nv := nv', jt_key := 0\<rparr>)"
    by (intro opened_snoc [OF o member_framed n(3), of e]) (use n(4) kv nz in \<open>auto simp: e_def jt1_def\<close>)
  moreover have "jt_parse_loop ((quoted k @ CHR '':'' # render v) @ post) p PStart jt =
      jt_parse_loop post (q + length (render v)) PStart (jt\<lparr>jt_nv := nv', jt_key := 0\<rparr>)"
    using n(1) scan_key [OF assms(2), of "render v @ post" p jt] by (simp add: jt1_def kn_def q_def)
  ultimately show "\<exists>nv'. jt_parse_loop ((quoted k @ CHR '':'' # render v) @ post) p PStart jt =
         jt_parse_loop post (p + length (quoted k @ CHR '':'' # render v)) PStart (jt\<lparr>jt_nv := nv', jt_key := 0\<rparr>) \<and>
       length nv' \<le> p + length (quoted k @ CHR '':'' # render v) + 1 \<and>
       opened ty b lo st nv0 (rs @ [member (jt_buf jt) (k, v)]) (jt\<lparr>jt_nv := nv', jt_key := 0\<rparr>)"
    using n(2) unfolding len by blast
qed

text \<open>The items behind the first one, each with its comma, up to the closing bracket.\<close>

lemma list_adds:
  assumes "\<forall>(tx, r) \<in> set xs. adds ty tx r" "opened ty b lo st nv0 rs jt" "length (jt_nv jt) \<le> p + 1"
    and "length (jt_buf jt) + 4 < 2 ^ 24" "at p (concat (map (\<lambda>x. CHR '','' # fst x) xs)) (jt_buf jt)" "delim post"
  shows "\<exists>nv'. jt_parse_loop (concat (map (\<lambda>x. CHR '','' # fst x) xs) @ post) p PStart jt =
      jt_parse_loop post (p + length (concat (map (\<lambda>x. CHR '','' # fst x) xs))) PStart (jt\<lparr>jt_nv := nv', jt_key := 0\<rparr>) \<and>
    length nv' \<le> p + length (concat (map (\<lambda>x. CHR '','' # fst x) xs)) + 1 \<and>
    opened ty b lo st nv0 (rs @ map (\<lambda>x. snd x (jt_buf jt)) xs) (jt\<lparr>jt_nv := nv', jt_key := 0\<rparr>)"
  using assms
proof (induction xs arbitrary: rs jt p)
  case Nil
  then have "jt\<lparr>jt_nv := jt_nv jt, jt_key := 0\<rparr> = jt" by (cases jt) (auto simp: opened_def)
  then show ?case using Nil by (intro exI [of _ "jt_nv jt"]) simp
next
  case (Cons x xs)
  obtain tx r where x: "x = (tx, r)" by fastforce
  let ?rest = "concat (map (\<lambda>x. CHR '','' # fst x) xs)"
  have a: "adds ty tx r" using Cons.prems(1) x by auto
  have s: "concat (map (\<lambda>x. CHR '','' # fst x) (x # xs)) = [CHR '',''] @ tx @ ?rest" by (simp add: x)
  have at: "at (p + 1) tx (jt_buf jt)" "at (p + 1 + length tx) ?rest (jt_buf jt)"
    using Cons.prems(5) unfolding s at_append by simp_all
  have "delim (?rest @ post)" using Cons.prems(6) by (cases xs) auto
  note dl = this
  obtain nv1 where n1: "jt_parse_loop (tx @ ?rest @ post) (p + 1) PStart jt =
       jt_parse_loop (?rest @ post) (p + 1 + length tx) PStart (jt\<lparr>jt_nv := nv1, jt_key := 0\<rparr>)"
      "length nv1 \<le> p + 1 + length tx + 1" "opened ty b lo st nv0 (rs @ [r (jt_buf jt)]) (jt\<lparr>jt_nv := nv1, jt_key := 0\<rparr>)"
    by (rule addsE [OF a Cons.prems(2) _ Cons.prems(4) at(1) dl]) (use Cons.prems(3) in simp_all)
  obtain nv' where n': "jt_parse_loop (?rest @ post) (p + 1 + length tx) PStart (jt\<lparr>jt_nv := nv1, jt_key := 0\<rparr>) =
       jt_parse_loop post (p + 1 + length tx + length ?rest) PStart (jt\<lparr>jt_nv := nv', jt_key := 0\<rparr>)"
      "length nv' \<le> p + 1 + length tx + length ?rest + 1"
      "opened ty b lo st nv0 (rs @ [r (jt_buf jt)] @ map (\<lambda>x. snd x (jt_buf jt)) xs) (jt\<lparr>jt_nv := nv', jt_key := 0\<rparr>)"
    using Cons.IH [OF _ n1(3), of "p + 1 + length tx"] Cons.prems(1,4,6) n1(2) at(2) by auto
  have "jt_parse_loop ([CHR '',''] @ tx @ ?rest @ post) p PStart jt = jt_parse_loop (tx @ ?rest @ post) (p + 1) PStart jt"
    by (simp add: is_digit_def less_eq_char_def)
  then show ?case
    unfolding s using n1(1) n' by (intro exI [of _ nv']) (simp add: x add.assoc)
qed

lemma sep_by_Cons: "sep_by (s # ss) = s @ concat (map (\<lambda>t. CHR '','' # t) ss)"
  by (induction ss arbitrary: s) auto

definition bracket :: "jtype \<Rightarrow> char \<times> char" where
  "bracket ty = (if ty = e_obj then (CHR ''{'', CHR ''}'') else (CHR ''['', CHR '']''))"

lemma container_scan:
  assumes "ty = e_obj \<or> ty = e_arr"
  shows "jt_parse_loop (fst (bracket ty) # r) p PStart jt = (do { jt \<leftarrow> jt_parse_start ty jt; jt_parse_loop r (p + 1) PStart jt })"
    and "jt_parse_loop (snd (bracket ty) # r) p PStart jt = (do { jt \<leftarrow> jt_parse_end jt; jt_parse_loop r (p + 1) PStart jt })"
    and "delim (snd (bracket ty) # r)"
  using assms by (auto simp: bracket_def jt_parse_start_object_def jt_parse_start_array_def)

declare jt_parse_loop.simps [simp del]

text \<open>A container: its brackets, the first item and the rest.\<close>

lemma container_parses:
  assumes ty: "ty = e_obj \<or> ty = e_arr" and v: "render v = fst (bracket ty) # sep_by (map fst xs) @ [snd (bracket ty)]" "\<not> scalar v"
    and xs: "\<forall>(tx, r) \<in> set xs. adds ty tx r"
    and rep: "\<And>buf lo hi nv i. rep v buf lo hi nv i \<longleftrightarrow> i < length nv \<and> jn_type (nv ! i) = ty \<and> hi \<le> length nv \<and>
      chain lo hi nv 0 (jn_h (nv ! i)) (jn_t (nv ! i)) (map (\<lambda>x. snd x buf) xs)"
  shows "parses v"
  unfolding parses_def
proof (intro allI impI, elim conjE)
  fix jt p post
  assume c: "ctx_ok jt" "length (jt_nv jt) + (if jt_key jt \<noteq> 0 then 1 else 0) \<le> p + 1" "length (jt_buf jt) + 4 < 2 ^ 24"
    and a: "at p (render v) (jt_buf jt)"
  define i where "i = length (jt_nv jt)"
  define n where "n = \<lparr>jn_type = ty, jn_next = 0, jn_h = 0, jn_t = 0\<rparr>"
  define pl where "pl = placed (jt_st jt) (jt_key jt) (jt_nv jt) n"
  define jt1 where "jt1 = jt\<lparr>jt_nv := pl, jt_key := 0, jt_st := i # jt_st jt\<rparr>"
  have i: "0 < i" "i < length pl" using c(1) by (auto simp: i_def ctx_ok_def pl_def placed_length)
  have ni: "pl ! i = n" using placed_new [OF c(1)] by (simp add: pl_def i_def)
  have "length (jt_nv jt) + 1 < 2 ^ 24" using at_bound [OF a] v(1) c(2,3) by simp
  from place_node [OF c(1) this, of ty 0 0] have start: "jt_parse_start ty jt = Some jt1"
    by (auto simp: jt_parse_start_def jt1_def pl_def n_def i_def jt_new_node_def)
  have o: "opened ty i (length pl) (jt_st jt) pl [] jt1" using i ni by (simp add: opened_def jt1_def n_def)
  have l: "length (jt_nv jt1) \<le> p + 2" using c(2) by (simp add: jt1_def pl_def placed_length split: if_splits)
  define body where "body = sep_by (map fst xs)"
  have ab: "at (p + 1) body (jt_buf jt1)"
  proof -
    have "render v = [fst (bracket ty)] @ body @ [snd (bracket ty)]" using v(1) by (simp add: body_def)
    then have "at (p + length [fst (bracket ty)]) body (jt_buf jt)" using a by (simp only: at_append)
    then show ?thesis by (simp add: jt1_def)
  qed
  have "\<exists>nv'. jt_parse_loop (body @ snd (bracket ty) # post) (p + 1) PStart jt1 =
      jt_parse_loop (snd (bracket ty) # post) (p + 1 + length body) PStart (jt1\<lparr>jt_nv := nv', jt_key := 0\<rparr>) \<and>
    length nv' \<le> p + length body + 2 \<and>
    opened ty i (length pl) (jt_st jt) pl (map (\<lambda>x. snd x (jt_buf jt1)) xs) (jt1\<lparr>jt_nv := nv', jt_key := 0\<rparr>)"
  proof (cases xs)
    case Nil
    have "jt1\<lparr>jt_nv := pl, jt_key := 0\<rparr> = jt1" "length pl \<le> p + 2" using l by (simp_all add: jt1_def)
    then show ?thesis using Nil o by (intro exI [of _ pl]) (simp add: body_def)
  next
    case (Cons x xs')
    obtain tx r where x: "x = (tx, r)" by fastforce
    let ?rest = "concat (map (\<lambda>x. CHR '','' # fst x) xs')"
    have b: "body = tx @ ?rest" using Cons x by (simp add: body_def sep_by_Cons comp_def)
    have at: "at (p + 1) tx (jt_buf jt1)" "at (p + 1 + length tx) ?rest (jt_buf jt1)"
      using ab unfolding b at_append by simp_all
    have bl: "length (jt_buf jt1) + 4 < 2 ^ 24" using c(3) by (simp add: jt1_def)
    have "delim (?rest @ snd (bracket ty) # post)" using container_scan(3) [OF ty] by (cases xs') auto
    note dl = this
    have ad: "adds ty tx r" using xs Cons x by auto
    obtain nv1 where n1: "jt_parse_loop (tx @ ?rest @ snd (bracket ty) # post) (p + 1) PStart jt1 =
         jt_parse_loop (?rest @ snd (bracket ty) # post) (p + 1 + length tx) PStart (jt1\<lparr>jt_nv := nv1, jt_key := 0\<rparr>)"
        "length nv1 \<le> p + 1 + length tx + 1" "opened ty i (length pl) (jt_st jt) pl ([] @ [r (jt_buf jt1)]) (jt1\<lparr>jt_nv := nv1, jt_key := 0\<rparr>)"
      by (rule addsE [OF ad o _ bl at(1) dl]) (use l in simp_all)
    obtain nv' where "jt_parse_loop (?rest @ snd (bracket ty) # post) (p + 1 + length tx) PStart (jt1\<lparr>jt_nv := nv1, jt_key := 0\<rparr>) =
         jt_parse_loop (snd (bracket ty) # post) (p + 1 + length tx + length ?rest) PStart (jt1\<lparr>jt_nv := nv', jt_key := 0\<rparr>)"
        "length nv' \<le> p + 1 + length tx + length ?rest + 1"
        "opened ty i (length pl) (jt_st jt) pl ([] @ [r (jt_buf jt1)] @ map (\<lambda>x. snd x (jt_buf jt1)) xs') (jt1\<lparr>jt_nv := nv', jt_key := 0\<rparr>)"
      using list_adds [OF _ n1(3), of xs' "p + 1 + length tx" "snd (bracket ty) # post"] xs Cons bl n1(2) at(2) container_scan(3) [OF ty]
      by auto
    then show ?thesis
      using n1(1) Cons x by (intro exI [of _ nv']) (simp add: b add.assoc)
  qed
  then obtain nv' where nv': "jt_parse_loop (body @ snd (bracket ty) # post) (p + 1) PStart jt1 =
      jt_parse_loop (snd (bracket ty) # post) (p + 1 + length body) PStart (jt1\<lparr>jt_nv := nv', jt_key := 0\<rparr>)"
    "length nv' \<le> p + length body + 2"
    "opened ty i (length pl) (jt_st jt) pl (map (\<lambda>x. snd x (jt_buf jt1)) xs) (jt1\<lparr>jt_nv := nv', jt_key := 0\<rparr>)" by blast
  have "jt_parse_end (jt1\<lparr>jt_nv := nv', jt_key := 0\<rparr>) = Some (jt\<lparr>jt_nv := nv', jt_key := 0\<rparr>)"
    by (simp add: jt_parse_end_def jt1_def)
  then have "jt_parse_loop (render v @ post) p PStart jt =
      jt_parse_loop post (p + length (render v)) PStart (jt\<lparr>jt_nv := nv', jt_key := 0\<rparr>)"
    using nv'(1) start by (simp add: v(1) body_def [symmetric] container_scan [OF ty] add.assoc)
  moreover have "length nv' \<le> p + length (render v) + 1" using nv'(2) by (simp add: v(1) body_def)
  moreover have "length pl \<le> length nv'" "\<forall>j < length pl. j \<noteq> i \<longrightarrow> nv' ! j = pl ! j" "jn_next (nv' ! i) = 0"
    using nv'(3) by (auto simp: opened_def)
  moreover have "rep v (jt_buf jt) (length pl) (length nv') nv' i"
    using nv'(3) i by (auto simp: rep opened_def jt1_def)
  ultimately show "\<exists>nv' n. jt_parse_loop (render v @ post) p PStart jt =
         jt_parse_loop post (p + length (render v)) PStart (jt\<lparr>jt_nv := nv', jt_key := 0\<rparr>) \<and>
       length nv' \<le> p + length (render v) + 1 \<and>
       (let pl = placed (jt_st jt) (jt_key jt) (jt_nv jt) n; i = length (jt_nv jt)
        in length pl \<le> length nv' \<and> (\<forall>j < length pl. j \<noteq> i \<longrightarrow> nv' ! j = pl ! j) \<and> jn_next (nv' ! i) = 0 \<and>
           rep v (jt_buf jt) (length pl) (length nv') nv' i)"
    unfolding Let_def i_def [symmetric] by (intro exI [of _ nv'] exI [of _ n]) (simp add: pl_def)
qed

lemma clean_parses: "clean v \<Longrightarrow> parses v"
proof (induction v)
  case (JObj kvs)
  have "parses (snd kv)" if "kv \<in> set kvs" for kv
    by (rule JObj.IH [OF that]) (use JObj.prems that in \<open>cases kv, auto\<close>)
  then have "\<forall>(tx, r) \<in> set (map (\<lambda>kv. (quoted (fst kv) @ CHR '':'' # render (snd kv), \<lambda>buf. member buf (fst kv, snd kv))) kvs).
      adds e_obj tx r"
    using member_adds JObj.prems by auto
  then show ?case
    by (rule container_parses [OF disjI1 [OF refl], rotated 2])
      (simp_all add: bracket_def rep_obj comp_def case_prod_unfold)
next
  case (JArr vs)
  then have "\<forall>(tx, r) \<in> set (map (\<lambda>v. (render v, \<lambda>buf. elem buf v)) vs). adds e_arr tx r"
    using elem_adds by auto
  then show ?case
    by (rule container_parses [OF disjI2 [OF refl], rotated 2])
      (simp_all add: bracket_def rep_arr comp_def)
qed (simp_all add: scalar_parses)

section \<open>Reading the tree\<close>

text \<open>A tree whose node \<open>i\<close> carries the value \<open>v\<close>; the node 0 stands for absent.\<close>

definition json_at :: "jtree \<Rightarrow> nat \<Rightarrow> jv \<Rightarrow> bool" where
  "json_at jt i v \<longleftrightarrow> i \<noteq> 0 \<and> jt_nv jt \<noteq> [] \<and> jt_nv jt ! 0 = jnode0 \<and>
     (\<exists>lo hi. rep v (jt_buf jt) lo hi (jt_nv jt) i \<and> hi \<le> length (jt_nv jt))"

lemma jt_parse_json:
  assumes "clean v" "\<not> scalar v" "length (render v) + 4 < 2 ^ 24"
  obtains jt where "jt_parse (render v) = Some jt" "jt_is_valid jt" "json_at jt 1 v" "jt_buf jt = render v"
    "rep v (render v) 2 (length (jt_nv jt)) (jt_nv jt) 1"
proof -
  let ?jt = "jtree_start (render v)"
  have c: "ctx_ok ?jt" by (simp add: ctx_ok_def jtree_start_def)
  have a: "at 0 (render v) (jt_buf ?jt)" by (simp add: at_def jtree_start_def)
  obtain nv' n where n: "jt_parse_loop (render v @ []) 0 PStart ?jt =
         jt_parse_loop [] (0 + length (render v)) PStart (?jt\<lparr>jt_nv := nv', jt_key := 0\<rparr>)"
    "length (placed (jt_st ?jt) (jt_key ?jt) (jt_nv ?jt) n) \<le> length nv'"
    "\<And>j. j < length (placed (jt_st ?jt) (jt_key ?jt) (jt_nv ?jt) n) \<Longrightarrow> j \<noteq> length (jt_nv ?jt) \<Longrightarrow>
       nv' ! j = placed (jt_st ?jt) (jt_key ?jt) (jt_nv ?jt) n ! j"
    "rep v (jt_buf ?jt) (length (placed (jt_st ?jt) (jt_key ?jt) (jt_nv ?jt) n)) (length nv') nv' (length (jt_nv ?jt))"
    by (rule parsesE [OF clean_parses [OF assms(1)] c _ _ a, of "[]"]) (use assms(2,3) in \<open>auto simp: jtree_start_def\<close>)
  have "nv' \<noteq> []" "length nv' > 1" "nv' ! 0 = jnode0"
    using n(2) n(3) [of 0] by (auto simp: jtree_start_def placed.simps)
  then show thesis
    using n(1,4) by (intro that [of "?jt\<lparr>jt_nv := nv', jt_key := 0\<rparr>"])
      (auto simp: jt_parse_def jt_parse_loop.simps(1) jt_is_valid_def json_at_def jtree_start_def placed.simps numeral_2_eq_2)
qed

lemma json_at_scalar:
  assumes "json_at jt i v" "scalar v"
  shows "jt_get_str jt i = Some (val_text v)" "jt_get_type jt i = Some e_val"
  using assms by (auto simp: json_at_def rep_scalar val_node_def jt_get_str_def jt_get_type_def rd_def)

lemma json_at_text: "json_at jt i (JText s) \<Longrightarrow> jt_get_str jt i = Some s"
  using json_at_scalar [of jt i "JText s"] by simp

lemma json_at_uint: "json_at jt i (JUint u) \<Longrightarrow> jt_get_uint jt i = Some u"
  using json_at_scalar [of jt i "JUint u"] by (simp add: jt_get_uint_def int_str_uint)

lemma json_at_int:
  assumes "json_at jt i (JInt v)" "- (2 ^ 63) < v" "v < 2 ^ 63"
  shows "jt_get_int jt i = Some v"
proof -
  obtain s where "int_to_str v = Some s" "str_to_int s = Some v" using int_str_int [OF assms(2,3)] by blast
  then show ?thesis using json_at_scalar [OF assms(1)] by (simp add: jt_get_int_def)
qed

lemma json_at_bool:
  assumes "json_at jt i (JRaw s)" "s \<noteq> []"
  shows "jt_get_bool jt i = Some (hd s = CHR ''t'')"
proof -
  let ?n = "jt_nv jt ! i"
  have n: "i < length (jt_nv jt)" "jn_h ?n + jn_t ?n \<le> length (jt_buf jt)" "take (jn_t ?n) (drop (jn_h ?n) (jt_buf jt)) = s"
    using assms(1) by (auto simp: json_at_def val_node_def)
  have "length (take (jn_t ?n) (drop (jn_h ?n) (jt_buf jt))) = jn_t ?n" using n(2) by (simp add: min_def) arith
  then have "jn_t ?n = length s" using n(3) by simp
  then have h: "jn_h ?n < length (jt_buf jt)" using n(2) assms(2) by (cases s) auto
  have "hd (take (jn_t ?n) (drop (jn_h ?n) (jt_buf jt))) = jt_buf jt ! jn_h ?n"
    using \<open>jn_t ?n = length s\<close> assms(2) h by (simp add: hd_drop_conv_nth)
  then have "hd s = jt_buf jt ! jn_h ?n" using n(3) by simp
  then show ?thesis using n(1) h by (simp add: jt_get_bool_def rd_def)
qed

text \<open>\<open>find\_val\<close> gives the first member of that name, or 0.\<close>

lemma chain_find:
  assumes "chain lo hi (jt_nv jt) p h t (map (member (jt_buf jt)) kvs)" "hi \<le> length (jt_nv jt)"
  shows "\<exists>j. jt_find_loop jt k h = Some j \<and>
    (case map_of kvs k of None \<Rightarrow> j = 0
     | Some v \<Rightarrow> j \<noteq> 0 \<and> (\<exists>lo hi. rep v (jt_buf jt) lo hi (jt_nv jt) j \<and> hi \<le> length (jt_nv jt)))"
  using assms
proof (induction kvs arbitrary: lo p h)
  case Nil
  then show ?case by (simp add: jt_find_loop.simps)
next
  case (Cons kv kvs)
  obtain k' v where kv: "kv = (k', v)" by fastforce
  from Cons.prems(1) obtain m where m: "h \<noteq> 0" "h < m" "m \<le> hi" "member (jt_buf jt) kv lo m (jt_nv jt) h"
    "chain m hi (jt_nv jt) h (jn_next (jt_nv jt ! h)) t (map (member (jt_buf jt)) kvs)"
    by auto
  have h: "h < length (jt_nv jt)" using m Cons.prems(2) by simp
  let ?n = "jt_nv jt ! h"
  have mem: "jn_type ?n = e_keyval" "jt_get_str jt (jn_h ?n) = Some k'" "jn_t ?n \<noteq> 0" "rep v (jt_buf jt) (h + 1) m (jt_nv jt) (jn_t ?n)"
    using m(4) kv by (auto simp: member_def val_node_def jt_get_str_def rd_def)
  have step: "jt_find_loop jt k h = (if k = k' then Some (jn_t ?n) else jt_find_loop jt k (jn_next ?n))"
    by (subst jt_find_loop.simps) (use m(1) h mem in \<open>simp add: jt_get_type_def jt_get_key_def jt_get_val_def jt_get_next_def rd_def\<close>)
  show ?case
  proof (cases "k = k'")
    case True
    then show ?thesis using step mem(3,4) kv m(3) Cons.prems(2) le_trans by (simp, blast)
  next
    case False
    then show ?thesis using step Cons.IH [OF m(5) Cons.prems(2)] kv by auto
  qed
qed

lemma json_at_find:
  assumes "json_at jt i (JObj kvs)"
  shows "\<exists>j. jt_find_val jt i k = Some j \<and> (case map_of kvs k of None \<Rightarrow> j = 0 | Some v \<Rightarrow> json_at jt j v)"
proof -
  obtain lo hi where r: "rep (JObj kvs) (jt_buf jt) lo hi (jt_nv jt) i" "hi \<le> length (jt_nv jt)"
    using assms by (auto simp: json_at_def)
  from chain_find [of lo hi jt 0 "jn_h (jt_nv jt ! i)" "jn_t (jt_nv jt ! i)" kvs k] r show ?thesis
    using assms by (auto simp: rep_obj jt_find_val_def jt_get_first_def rd_def json_at_def split: option.splits)
qed

lemma json_at_find_Some:
  assumes "json_at jt i (JObj kvs)" "map_of kvs k = Some v"
  obtains j where "jt_find_val jt i k = Some j" "json_at jt j v" "j \<noteq> 0"
  using json_at_find [OF assms(1), of k] assms(2) by (auto simp: json_at_def)

lemma json_at_find_None:
  "json_at jt i (JObj kvs) \<Longrightarrow> map_of kvs k = None \<Longrightarrow> jt_find_val jt i k = Some 0"
  using json_at_find [of jt i kvs k] by auto

text \<open>The elements of an array.\<close>

fun elems_at :: "jtree \<Rightarrow> nat \<Rightarrow> jv list \<Rightarrow> bool" where
  "elems_at jt i [] \<longleftrightarrow> i = 0"
| "elems_at jt i (v # vs) \<longleftrightarrow> json_at jt i v \<and> (\<exists>j. jt_get_next jt i = Some j \<and> elems_at jt j vs)"

lemma json_at_first:
  assumes "json_at jt i (JArr vs)"
  shows "\<exists>j. jt_get_first jt i = Some j \<and> elems_at jt j vs"
proof -
  have "chain lo hi (jt_nv jt) p h t (map (elem (jt_buf jt)) vs) \<Longrightarrow> hi \<le> length (jt_nv jt) \<Longrightarrow> elems_at jt h vs" for lo hi p h t
  proof (induction vs arbitrary: lo p h)
    case (Cons v vs)
    from Cons.prems(1) obtain m where m: "h \<noteq> 0" "h < m" "m \<le> hi" "elem (jt_buf jt) v lo m (jt_nv jt) h"
      "chain m hi (jt_nv jt) h (jn_next (jt_nv jt ! h)) t (map (elem (jt_buf jt)) vs)"
      by auto
    have "m \<le> length (jt_nv jt)" using m Cons.prems(2) by simp
    then have "json_at jt h v" "h < length (jt_nv jt)" using m assms by (auto simp: json_at_def elem_def)
    then show ?case using Cons.IH [OF m(5) Cons.prems(2)] by (simp add: jt_get_next_def rd_def)
  qed simp
  then show ?thesis using assms by (auto simp: json_at_def rep_arr jt_get_first_def rd_def)
qed

section \<open>Walking the tree\<close>

text \<open>The value that a walk with the accessors of the tree finds; every read can fail.  The fuel bounds the
  depth of the calls.\<close>

datatype js = JsVal string | JsArr "js list" | JsObj "(string \<times> js) list"

fun read_back :: "nat \<Rightarrow> jtree \<Rightarrow> nat \<Rightarrow> js option"
  and read_elems :: "nat \<Rightarrow> jtree \<Rightarrow> nat \<Rightarrow> js list option"
  and read_members :: "nat \<Rightarrow> jtree \<Rightarrow> nat \<Rightarrow> (string \<times> js) list option" where
  "read_back 0 jt i = None"
| "read_back (Suc f) jt i =
     do { ty \<leftarrow> jt_get_type jt i;
          (case ty of
             e_val \<Rightarrow> do { s \<leftarrow> jt_get_str jt i; Some (JsVal s) }
           | e_arr \<Rightarrow> do { h \<leftarrow> jt_get_first jt i; vs \<leftarrow> read_elems f jt h; Some (JsArr vs) }
           | e_obj \<Rightarrow> do { h \<leftarrow> jt_get_first jt i; vs \<leftarrow> read_members f jt h; Some (JsObj vs) }
           | e_keyval \<Rightarrow> None) }"
| "read_elems 0 jt i = None"
| "read_elems (Suc f) jt i =
     (if i = 0 then Some []
      else do { v \<leftarrow> read_back f jt i; n \<leftarrow> jt_get_next jt i; vs \<leftarrow> read_elems f jt n; Some (v # vs) })"
| "read_members 0 jt i = None"
| "read_members (Suc f) jt i =
     (if i = 0 then Some []
      else do { kn \<leftarrow> jt_get_key jt i; k \<leftarrow> jt_get_str jt kn; vn \<leftarrow> jt_get_val jt i; v \<leftarrow> read_back f jt vn;
                n \<leftarrow> jt_get_next jt i; vs \<leftarrow> read_members f jt n; Some ((k, v) # vs) })"

primrec shape :: "jv \<Rightarrow> js" where
  "shape (JText s) = JsVal s"
| "shape (JUint v) = JsVal (uint_to_str v)"
| "shape (JInt v) = JsVal (the (int_to_str v))"
| "shape (JRaw s) = JsVal s"
| "shape (JB58 s) = JsVal (b58_text s)"
| "shape (JB64 s) = JsVal (enc_base64 s)"
| "shape (JObj kvs) = JsObj (map (map_prod (\<lambda>k. k) shape) kvs)"
| "shape (JArr vs) = JsArr (map shape vs)"

definition reads_back :: "jv \<Rightarrow> bool" where
  "reads_back v \<longleftrightarrow> (\<forall>jt lo hi i f. rep v (jt_buf jt) lo hi (jt_nv jt) i \<and> lo \<le> hi \<and> hi \<le> length (jt_nv jt) \<and>
     2 * (hi - lo) + 2 \<le> f \<longrightarrow> read_back f jt i = Some (shape v))"

lemma scalar_reads_back:
  assumes "scalar v"
  shows "reads_back v"
  unfolding reads_back_def
proof (intro allI impI, elim conjE)
  fix jt :: jtree and lo hi i f
  assume "rep v (jt_buf jt) lo hi (jt_nv jt) i" and f: "2 * (hi - lo) + 2 \<le> f"
  then have "jt_get_type jt i = Some e_val" "jt_get_str jt i = Some (val_text v)"
    by (auto simp: rep_scalar [OF assms] val_node_def jt_get_str_def jt_get_type_def rd_def)
  moreover obtain f' where "f = Suc f'" using f by (cases f) auto
  moreover have "shape v = JsVal (val_text v)" using assms by (cases v) auto
  ultimately show "read_back f jt i = Some (shape v)" by simp
qed

lemma elems_read_back:
  assumes "\<forall>v \<in> set vs. reads_back v" "chain lo hi (jt_nv jt) p h t (map (elem (jt_buf jt)) vs)"
    "hi \<le> length (jt_nv jt)" "lo \<le> hi" "2 * (hi - lo) + 1 \<le> f"
  shows "read_elems f jt h = Some (map shape vs)"
  using assms
proof (induction vs arbitrary: lo p h f)
  case Nil
  then show ?case by (cases f) auto
next
  case (Cons v vs)
  obtain g where f: "f = Suc g" using Cons.prems(5) by (cases f) auto
  from Cons.prems(2) obtain m where m: "h \<noteq> 0" "lo \<le> h" "h < m" "m \<le> hi" "elem (jt_buf jt) v lo m (jt_nv jt) h"
    "chain m hi (jt_nv jt) h (jn_next (jt_nv jt ! h)) t (map (elem (jt_buf jt)) vs)"
    by auto
  have "reads_back v" using Cons.prems(1) by simp
  moreover have "rep v (jt_buf jt) (h + 1) m (jt_nv jt) h" "h + 1 \<le> m" "m \<le> length (jt_nv jt)" "2 * (m - (h + 1)) + 2 \<le> g"
    using m Cons.prems(3,5) f by (auto simp: elem_def)
  ultimately have "read_back g jt h = Some (shape v)" unfolding reads_back_def by blast
  moreover have "read_elems g jt (jn_next (jt_nv jt ! h)) = Some (map shape vs)"
    by (rule Cons.IH [OF _ m(6)]) (use Cons.prems m f in auto)
  ultimately show ?case using m(1,3,4) Cons.prems(3) f by (simp add: jt_get_next_def rd_def)
qed

lemma members_read_back:
  assumes "\<forall>kv \<in> set kvs. reads_back (snd kv)" "chain lo hi (jt_nv jt) p h t (map (member (jt_buf jt)) kvs)"
    "hi \<le> length (jt_nv jt)" "lo \<le> hi" "2 * (hi - lo) + 1 \<le> f"
  shows "read_members f jt h = Some (map (map_prod (\<lambda>k. k) shape) kvs)"
  using assms
proof (induction kvs arbitrary: lo p h f)
  case Nil
  then show ?case by (cases f) auto
next
  case (Cons kv kvs)
  obtain g where f: "f = Suc g" using Cons.prems(5) by (cases f) auto
  obtain k v where kv: "kv = (k, v)" by fastforce
  from Cons.prems(2) obtain m where m: "h \<noteq> 0" "lo \<le> h" "h < m" "m \<le> hi" "member (jt_buf jt) kv lo m (jt_nv jt) h"
    "chain m hi (jt_nv jt) h (jn_next (jt_nv jt ! h)) t (map (member (jt_buf jt)) kvs)"
    by auto
  let ?n = "jt_nv jt ! h"
  have h: "h < length (jt_nv jt)" using m Cons.prems(3) by simp
  have mem: "jt_get_str jt (jn_h ?n) = Some k" "rep v (jt_buf jt) (h + 1) m (jt_nv jt) (jn_t ?n)"
    using m(5) kv by (auto simp: member_def val_node_def jt_get_str_def rd_def)
  have "reads_back v" using Cons.prems(1) kv by simp
  moreover have "h + 1 \<le> m" "m \<le> length (jt_nv jt)" "2 * (m - (h + 1)) + 2 \<le> g"
    using m Cons.prems(3,5) f by auto
  ultimately have "read_back g jt (jn_t ?n) = Some (shape v)" using mem(2) unfolding reads_back_def by blast
  moreover have "read_members g jt (jn_next ?n) = Some (map (map_prod (\<lambda>k. k) shape) kvs)"
    by (rule Cons.IH [OF _ m(6)]) (use Cons.prems m f in auto)
  ultimately show ?case using m(1) h f mem(1) kv
    by (simp add: jt_get_next_def jt_get_key_def jt_get_val_def rd_def)
qed

lemma rep_reads_back: "reads_back v"
proof (induction v)
  case (JObj kvs)
  have kvs: "\<forall>kv \<in> set kvs. reads_back (snd kv)"
  proof
    fix kv assume kv: "kv \<in> set kvs"
    show "reads_back (snd kv)" by (rule JObj.IH [OF kv]) (cases kv, simp)
  qed
  show ?case
    unfolding reads_back_def
  proof (intro allI impI, elim conjE)
    fix jt :: jtree and lo hi i f
    assume r: "rep (JObj kvs) (jt_buf jt) lo hi (jt_nv jt) i" and l: "lo \<le> hi" "hi \<le> length (jt_nv jt)" "2 * (hi - lo) + 2 \<le> f"
    obtain g where f: "f = Suc g" using l by (cases f) auto
    have "read_members g jt (jn_h (jt_nv jt ! i)) = Some (map (map_prod (\<lambda>k. k) shape) kvs)"
      by (rule members_read_back [OF kvs]) (use r l f in \<open>auto simp: rep_obj\<close>)
    then show "read_back f jt i = Some (shape (JObj kvs))"
      using r f by (simp add: rep_obj jt_get_type_def jt_get_first_def rd_def)
  qed
next
  case (JArr vs)
  show ?case
    unfolding reads_back_def
  proof (intro allI impI, elim conjE)
    fix jt :: jtree and lo hi i f
    assume r: "rep (JArr vs) (jt_buf jt) lo hi (jt_nv jt) i" and l: "lo \<le> hi" "hi \<le> length (jt_nv jt)" "2 * (hi - lo) + 2 \<le> f"
    obtain g where f: "f = Suc g" using l by (cases f) auto
    have "read_elems g jt (jn_h (jt_nv jt ! i)) = Some (map shape vs)"
      by (rule elems_read_back) (use r l f JArr.IH in \<open>auto simp: rep_arr\<close>)
    then show "read_back f jt i = Some (shape (JArr vs))"
      using r f by (simp add: rep_arr jt_get_type_def jt_get_first_def rd_def)
  qed
qed (simp_all add: scalar_reads_back)

section \<open>Properties\<close>

text \<open>(C6) Printing and parsing JSON agree: the text of an object or array, as the writer
  prints it, parses without an access outside the tree, all its brackets are closed, and a walk with the
  accessors of the tree finds exactly the printed value, its members and elements in order.  This holds for
  values without a quote in a key or a string (the writer does not escape them), whose bare words are
  \<open>true\<close>, \<open>false\<close> and \<open>null\<close> and whose integers are above \<open>- (2 ^ 63)\<close> (\<open>clean\<close>), and for
  texts below 16 megabytes, where the 24 bits of a link suffice.\<close>

theorem json_text_roundtrip:
  assumes "clean v" "\<not> scalar v" "length (render v) + 4 < 2 ^ 24"
  shows "\<exists>jt. jt_parse (render v) = Some jt \<and> jt_is_valid jt \<and> read_back (2 * length (jt_nv jt)) jt 1 = Some (shape v)"
proof -
  obtain jt where jt: "jt_parse (render v) = Some jt" "jt_is_valid jt" "jt_buf jt = render v"
    "rep v (render v) 2 (length (jt_nv jt)) (jt_nv jt) 1"
    by (rule jt_parse_json [OF assms])
  have "read_back (2 * length (jt_nv jt)) jt 1 = Some (shape v)"
    by (rule rep_reads_back [of v, unfolded reads_back_def, rule_format, where lo = 2 and hi = "length (jt_nv jt)"])
      (use jt in \<open>auto simp: jt_is_valid_def\<close>)
  then show ?thesis using jt by blast
qed

theorem json_text_roundtrip_witness:
  "\<exists>jt. jt_parse ''{\"id\":7,\"params\":[\"x\",{\"k\":-12}],\"r\":null}'' = Some jt \<and> jt_is_valid jt \<and>
     read_back (2 * length (jt_nv jt)) jt 1 =
       Some (JsObj [(''id'', JsVal ''7''), (''params'', JsArr [JsVal ''x'', JsObj [(''k'', JsVal ''-12'')]]), (''r'', JsVal ''null'')])"
proof -
  define v where "v = JObj [(''id'', JUint 7), (''params'', JArr [JText ''x'', JObj [(''k'', JInt (- 12))]]), (''r'', JRaw ''null'')]"
  have r: "render v = ''{\"id\":7,\"params\":[\"x\",{\"k\":-12}],\"r\":null}''" unfolding v_def by code_simp
  have s: "shape v = JsObj [(''id'', JsVal ''7''), (''params'', JsArr [JsVal ''x'', JsObj [(''k'', JsVal ''-12'')]]), (''r'', JsVal ''null'')]"
    unfolding v_def by code_simp
  have "clean v" "\<not> scalar v" by (simp_all add: v_def)
  from json_text_roundtrip [OF this] show ?thesis by (simp add: r s)
qed

end
