(* ===== verification/Commands.thy ===== *)
theory Commands
  imports Oracle Bincode
begin

text \<open>
  The commands of the on-chain program as the client sees them, \<open>program/c/src/oracle/oracle.h\<close>: their
  numbers, the accounts they document, and the two well-known accounts the client refers to.
\<close>

datatype command_t =
    e_cmd_init_mapping | e_cmd_add_mapping | e_cmd_add_product | e_cmd_upd_product | e_cmd_add_price
  | e_cmd_add_publisher | e_cmd_del_publisher | e_cmd_upd_price | e_cmd_agg_price | e_cmd_init_price
  | e_cmd_init_test | e_cmd_upd_test | e_cmd_set_min_pub | e_cmd_upd_price_no_fail_on_error
  | e_cmd_resize_price_account | e_cmd_del_price | e_cmd_del_product

fun command_code :: "command_t \<Rightarrow> int" where
  "command_code e_cmd_init_mapping = 0"
| "command_code e_cmd_add_mapping = 1"
| "command_code e_cmd_add_product = 2"
| "command_code e_cmd_upd_product = 3"
| "command_code e_cmd_add_price = 4"
| "command_code e_cmd_add_publisher = 5"
| "command_code e_cmd_del_publisher = 6"
| "command_code e_cmd_upd_price = 7"
| "command_code e_cmd_agg_price = 8"
| "command_code e_cmd_init_price = 9"
| "command_code e_cmd_init_test = 10"
| "command_code e_cmd_upd_test = 11"
| "command_code e_cmd_set_min_pub = 12"
| "command_code e_cmd_upd_price_no_fail_on_error = 13"
| "command_code e_cmd_resize_price_account = 14"
| "command_code e_cmd_del_price = 15"
| "command_code e_cmd_del_product = 16"

text \<open>The documented role of every account of a command: whether it signs and whether it is writable.\<close>

datatype role = Signer_Writable | Writable | Readable

fun command_roles :: "command_t \<Rightarrow> role list" where
  "command_roles e_cmd_init_mapping = [Signer_Writable, Signer_Writable]"
| "command_roles e_cmd_add_mapping = [Signer_Writable, Signer_Writable, Signer_Writable]"
| "command_roles e_cmd_add_product = [Signer_Writable, Signer_Writable, Signer_Writable]"
| "command_roles e_cmd_upd_product = [Signer_Writable, Signer_Writable]"
| "command_roles e_cmd_add_price = [Signer_Writable, Signer_Writable, Signer_Writable]"
| "command_roles e_cmd_add_publisher = [Signer_Writable, Signer_Writable]"
| "command_roles e_cmd_del_publisher = [Signer_Writable, Signer_Writable]"
| "command_roles e_cmd_upd_price = [Signer_Writable, Writable, Readable]"
| "command_roles e_cmd_agg_price = [Signer_Writable, Writable, Readable]"
| "command_roles e_cmd_init_price = [Signer_Writable, Signer_Writable]"
| "command_roles e_cmd_init_test = []"
| "command_roles e_cmd_upd_test = []"
| "command_roles e_cmd_set_min_pub = [Signer_Writable, Signer_Writable]"
| "command_roles e_cmd_upd_price_no_fail_on_error = [Signer_Writable, Writable, Readable]"
| "command_roles e_cmd_resize_price_account = [Signer_Writable, Signer_Writable, Readable]"
| "command_roles e_cmd_del_price = [Signer_Writable, Signer_Writable, Signer_Writable]"
| "command_roles e_cmd_del_product = [Signer_Writable, Signer_Writable, Signer_Writable]"

text \<open>The role an account has in a message.\<close>

definition account_role :: "sol_msg \<Rightarrow> nat \<Rightarrow> role option" where
  "account_role m i =
     (if sm_is_signer m i then (if sm_is_writable m i then Some Signer_Writable else None)
      else Some (if sm_is_writable m i then Writable else Readable))"

definition sysvar_clock_id :: string where
  "sysvar_clock_id = concat (map (le_bytes 8)
     [0xc974c71817d5a706, 0xb65e1d6998635628, 0x5c6d4b9ba3b85e8b, 0x215b5573])"

definition compute_budget_program_id :: string where
  "compute_budget_program_id = concat (map (le_bytes 8)
     [0x321721e56f460603, 0xe79bc372baadecff, 0x6b12f7c5bbe58cbc, 0x403a9b432c])"

lemma length_ids [simp]: "length sysvar_clock_id = HASH_LEN" "length compute_budget_program_id = HASH_LEN"
  by (simp_all add: sysvar_clock_id_def compute_budget_program_id_def HASH_LEN_def)

text \<open>Every instruction of the program starts with its version and command.\<close>

definition cmd_hdr :: "command_t \<Rightarrow> string" where
  "cmd_hdr c = le_bytes 4 PC_VERSION @ i32_bytes (command_code c)"

lemma length_i_bytes [simp]: "length (i32_bytes i) = 4" "length (i64_bytes i) = 8"
  by (simp_all add: i32_bytes_def i64_bytes_def)

lemma length_cmd_hdr [simp]: "length (cmd_hdr c) = 8"
  by (simp add: cmd_hdr_def)

end
