(* ===== verification/Json_Calls.thy ===== *)
theory Json_Calls
  imports Json_Wtr
begin

text \<open>
  Symbolic execution of sequences of JSON writer calls, as they stand in the request builders of the
  client: every call has a rule that gives the text behind it, the comma flag and the open containers.
\<close>

named_theorems jw_exec "rules for the calls of the JSON writer"

definition jw_state :: "string \<Rightarrow> bool \<Rightarrow> jw_type list \<Rightarrow> json_wtr \<Rightarrow> bool" where
  "jw_state s f st w \<longleftrightarrow> nw_bufs w \<and> nw_inv w \<and> nw_text w = s \<and> jw_first w = f \<and> jw_st w = st"

definition jw_ok :: "string \<Rightarrow> bool \<Rightarrow> jw_type list \<Rightarrow> json_wtr option \<Rightarrow> bool" where
  "jw_ok s f st m \<longleftrightarrow> (\<exists>w. m = Some w \<and> jw_state s f st w)"

lemma jw_okE:
  assumes "jw_ok s f st m"
  obtains w where "m = Some w" "nw_text w = s" "nw_inv w" "nw_bufs w" "jw_st w = st" "jw_first w = f" "jw_state s f st w"
  using assms by (auto simp: jw_ok_def jw_state_def)

lemma jw_state_new: "jw_state [] True [] jw_new"
  by (simp add: jw_state_def)

lemma jw_ok_return: "jw_state s f st w \<Longrightarrow> jw_ok s f st (Some w)"
  by (simp add: jw_ok_def)

lemma jw_ok_bind: "jw_ok s f st m \<Longrightarrow> (\<And>w. jw_state s f st w \<Longrightarrow> jw_ok s' f' st' (g w)) \<Longrightarrow> jw_ok s' f' st' (m \<bind> g)"
  by (auto simp: jw_ok_def)

lemma jw_ok_eq: "jw_ok s f st m \<Longrightarrow> s = s' \<Longrightarrow> jw_ok s' f st m"
  by simp

lemma jw_ok_if: "(c \<Longrightarrow> jw_ok s f st m) \<Longrightarrow> (\<not> c \<Longrightarrow> jw_ok s' f st m') \<Longrightarrow> jw_ok (if c then s else s') f st (if c then m else m')"
  by simp

definition sep :: "bool \<Rightarrow> string" where
  "sep f = (if f then [] else '','')"

lemma sep_simps [simp]: "sep True = []" "sep False = '',''"
  by (simp_all add: sep_def)

definition opener :: "jw_type \<Rightarrow> string" where
  "opener t = (case t of jw_obj \<Rightarrow> ''{'' | jw_arr \<Rightarrow> ''['')"

definition closer :: "jw_type \<Rightarrow> string" where
  "closer t = (case t of jw_obj \<Rightarrow> ''}'' | jw_arr \<Rightarrow> '']'')"

lemma jw_ok_member:
  assumes "jw_state s f st w" "printable v"
  shows "jw_ok (s @ sep f @ quoted k @ '':'' @ render v) False st (emit_members [(k, v)] w)"
proof -
  have "nw_bufs w" "printable (JObj [(k, v)])" using assms by (simp_all add: jw_state_def)
  from emit_ok(2) [OF this] obtain w' where "emit_members [(k, v)] w = Some w'"
    "jw_post w (comma_sep (jw_first w) [quoted k @ CHR '':'' # render v]) False w'" by auto
  then show ?thesis using assms(1) by (auto simp: jw_ok_def jw_state_def jw_post_def comma_sep_def sep_def)
qed

lemma jw_ok_elem:
  assumes "jw_state s f st w" "printable v"
  shows "jw_ok (s @ sep f @ render v) False st (emit_elems [v] w)"
proof -
  have "nw_bufs w" "printable (JArr [v])" using assms by (simp_all add: jw_state_def)
  from emit_ok(3) [OF this] obtain w' where "emit_elems [v] w = Some w'"
    "jw_post w (comma_sep (jw_first w) [render v]) False w'" by auto
  then show ?thesis using assms(1) by (auto simp: jw_ok_def jw_state_def jw_post_def comma_sep_def sep_def)
qed

lemma jw_exec_members [jw_exec]:
  assumes "jw_state s f st w"
  shows "jw_ok (s @ sep f @ quoted k @ '':'' @ quoted v) False st (jw_key k v w)"
    "jw_ok (s @ sep f @ quoted k @ '':'' @ uint_to_str u) False st (jw_key_uint k u w)"
    "jw_ok (s @ sep f @ quoted k @ '':'' @ ''null'') False st (jw_key_null k w)"
    "jw_ok (s @ sep f @ quoted k @ '':'' @ ''true'') False st (jw_key_true k w)"
    "jw_ok (s @ sep f @ quoted k @ '':'' @ ''false'') False st (jw_key_false k w)"
    "jw_ok (s @ sep f @ quoted k @ '':'' @ v) False st (jw_key_verbatim k v w)"
    "jw_ok (s @ sep f @ quoted v) False st (jw_val v w)"
    "jw_ok (s @ sep f @ uint_to_str u) False st (jw_val_uint u w)"
  using jw_ok_member [OF assms, of "JText v" k] jw_ok_member [OF assms, of "JUint u" k]
    jw_ok_member [OF assms, of "JRaw ''null''" k] jw_ok_member [OF assms, of "JRaw ''true''" k]
    jw_ok_member [OF assms, of "JRaw ''false''" k] jw_ok_member [OF assms, of "JRaw v" k]
    jw_ok_elem [OF assms, of "JText v"] jw_ok_elem [OF assms, of "JUint u"]
  by (simp_all add: jw_calls_emit del: emit_members.simps emit_elems.simps)

lemma jw_exec_int:
  assumes "jw_state s f st w" "- (2 ^ 63) < i" "i < 2 ^ 63"
  shows "jw_ok (s @ sep f @ quoted k @ '':'' @ the (int_to_str i)) False st (jw_key_int k i w)"
    "jw_ok (s @ sep f @ the (int_to_str i)) False st (jw_val_int i w)"
  using jw_ok_member [OF assms(1), of "JInt i" k] jw_ok_elem [OF assms(1), of "JInt i"] assms(2,3)
  by (simp_all add: jw_calls_emit del: emit_members.simps emit_elems.simps)

lemma jw_exec_base58:
  assumes "jw_state s f st w" "2 * length b \<le> NET_BUF_LEN"
  shows "jw_ok (s @ sep f @ quoted k @ '':'' @ quoted (b58_text b)) False st (jw_key_enc_base58 k b w)"
    "jw_ok (s @ sep f @ quoted k @ '':'' @ quoted (b58_text b)) False st (jw_key_hash k b w)"
    "jw_ok (s @ sep f @ quoted (b58_text b)) False st (jw_val_enc_base58 b w)"
    "jw_ok (s @ sep f @ quoted (b58_text b)) False st (jw_val_hash b w)"
    "jw_ok (s @ sep f @ quoted (b58_text b)) False st (jw_val_signature b w)"
  using jw_ok_member [OF assms(1), of "JB58 b" k] jw_ok_elem [OF assms(1), of "JB58 b"] assms(2)
  by (simp_all add: jw_calls_emit jw_val_signature_def del: emit_members.simps emit_elems.simps)

lemma jw_exec_base64:
  assumes "jw_state s f st w" "enc_base64_len (length b) \<le> NET_BUF_LEN"
  shows "jw_ok (s @ sep f @ quoted (enc_base64 b)) False st (jw_val_enc_base64 b w)"
  using jw_ok_elem [OF assms(1), of "JB64 b"] assms(2)
  by (simp_all add: jw_calls_emit del: emit_members.simps emit_elems.simps)

lemma jw_open_ok:
  assumes "jw_state s f st w"
  shows "jw_ok (s @ opener t) True (t # st) (if t = jw_obj then jw_add_obj w else jw_add_arr w)"
proof -
  have "nw_bufs w" using assms by (simp add: jw_state_def)
  from appends_post [OF appends_char this, of "hd (opener t)"] obtain w' where
    w: "nw_add_char (hd (opener t)) w = Some w'" "jw_post w [hd (opener t)] (jw_first w) w'" by metis
  show ?thesis
  proof (cases t)
    case jw_obj
    then show ?thesis using w assms
      by (auto simp: jw_ok_def jw_state_def jw_post_def opener_def jw_add_obj_def)
  next
    case jw_arr
    then show ?thesis using w assms
      by (auto simp: jw_ok_def jw_state_def jw_post_def opener_def jw_add_arr_def)
  qed
qed

lemma jw_exec_open [jw_exec]:
  assumes "jw_state s f st w"
  shows "jw_ok (s @ sep f @ quoted k @ '':'' @ opener t) True (t # st) (jw_key_type k t w)"
    "jw_ok (s @ sep f @ opener t) True (t # st) (jw_val_type t w)"
proof -
  have b: "nw_bufs w" using assms by (simp add: jw_state_def)
  obtain w1 where w0: "jw_add_first w = Some w1" "jw_post w (if jw_first w then [] else '','') False w1"
    by (rule jw_add_first_ok [OF b])
  then have w1: "jw_add_first w = Some w1" "jw_state (s @ sep f) False st w1"
    using assms by (auto simp: jw_state_def jw_post_def sep_def)
  have "appends (\<lambda>w. do { w \<leftarrow> jw_add_text k w; nw_add_char CHR '':'' w }) (quoted k @ '':'')"
    by (rule appends_eq, (rule appends_bind appends)+) simp
  moreover have "nw_bufs w1" using w1 by (simp add: jw_state_def)
  ultimately obtain w2 where w2: "(do { w \<leftarrow> jw_add_text k w1; nw_add_char CHR '':'' w }) = Some w2"
    "jw_post w1 (quoted k @ '':'') (jw_first w1) w2" by (rule appends_post)
  have k: "jw_add_key_only k w = Some w2" using w1 w2 by (simp add: jw_add_key_only_def)
  have "jw_state (s @ sep f @ quoted k @ '':'') False st w2" using w1 w2 by (simp add: jw_state_def jw_post_def)
  from jw_open_ok [OF this, of t] show "jw_ok (s @ sep f @ quoted k @ '':'' @ opener t) True (t # st) (jw_key_type k t w)"
    by (simp add: jw_key_type_def k)
  from jw_open_ok [OF w1(2), of t] show "jw_ok (s @ sep f @ opener t) True (t # st) (jw_val_type t w)"
    by (simp add: jw_val_type_def w1(1))
qed

lemma jw_exec_pop [jw_exec]:
  assumes "jw_state s f (t # st) w"
  shows "jw_ok (s @ closer t) False st (jw_pop w)"
proof -
  have "nw_bufs w" using assms by (simp add: jw_state_def)
  from appends_post [OF appends_char this, of "hd (closer t)"] obtain w' where
    w: "nw_add_char (hd (closer t)) w = Some w'" "jw_post w [hd (closer t)] (jw_first w) w'" by metis
  show ?thesis
  proof (cases t)
    case jw_obj
    then show ?thesis using w assms
      by (auto simp: jw_ok_def jw_state_def jw_post_def closer_def jw_pop_def)
  next
    case jw_arr
    then show ?thesis using w assms
      by (auto simp: jw_ok_def jw_state_def jw_post_def closer_def jw_pop_def)
  qed
qed

lemmas jw_exec_all = jw_ok_bind jw_exec jw_exec_base58 jw_exec_base64 jw_ok_return

end
