(* ===== verification/Upd_Price.thy ===== *)
theory Upd_Price
  imports Commands Json_Calls
begin

text \<open>
  The price update transaction, \<open>rpc::upd\_price\<close> in \<open>pc/rpc\_client.cpp\<close>: one transaction updates a batch of
  price accounts of one publisher.  The reference is the message \<open>upd_price_message\<close> with its wire format
  from \<open>Bincode\<close>.  Key objects are their bytes and the empty string is a null pointer; \<open>ed_sign\<close> is the
  library's signature.  The key cache holds the private key, \<open>None\<close> when it was never set.
\<close>

section \<open>Model\<close>

record upd_price =
  up_bhash :: string
  up_pkey :: string
  up_ckey :: "string option"
  up_gkey :: string
  up_akey :: string
  up_sig :: string
  up_price :: int
  up_conf :: u64
  up_pub_slot :: u64
  up_cmd :: command_t
  up_st :: int
  up_ack :: string

text \<open>The constructor leaves the other members as they are in memory.\<close>

definition upd_price_new :: "upd_price \<Rightarrow> upd_price" where
  "upd_price_new u = u\<lparr>up_pkey := [], up_ckey := None, up_gkey := [], up_akey := [],
     up_cmd := e_cmd_upd_price_no_fail_on_error, up_ack := []\<rparr>"

definition key_cache_set :: "string \<Rightarrow> string option" where
  "key_cache_set kp = Some (take HASH_LEN kp)"

definition up_set_publish :: "string \<Rightarrow> upd_price \<Rightarrow> upd_price" where
  "up_set_publish kp u = u\<lparr>up_pkey := kp\<rparr>"

definition up_set_pubcache :: "string option \<Rightarrow> upd_price \<Rightarrow> upd_price" where
  "up_set_pubcache kc u = u\<lparr>up_ckey := kc\<rparr>"

definition up_set_account :: "string \<Rightarrow> upd_price \<Rightarrow> upd_price" where
  "up_set_account pk u = u\<lparr>up_akey := pk\<rparr>"

definition up_set_program :: "string \<Rightarrow> upd_price \<Rightarrow> upd_price" where
  "up_set_program pk u = u\<lparr>up_gkey := pk\<rparr>"

definition up_set_block_hash :: "string \<Rightarrow> upd_price \<Rightarrow> upd_price" where
  "up_set_block_hash h u = u\<lparr>up_bhash := h\<rparr>"

definition up_set_symbol_status :: "int \<Rightarrow> upd_price \<Rightarrow> upd_price" where
  "up_set_symbol_status st u = u\<lparr>up_st := st\<rparr>"

definition up_set_price :: "int \<Rightarrow> u64 \<Rightarrow> int \<Rightarrow> bool \<Rightarrow> upd_price \<Rightarrow> upd_price" where
  "up_set_price px conf st is_agg u =
     u\<lparr>up_price := px, up_conf := conf, up_st := st,
       up_cmd := if is_agg then e_cmd_agg_price else e_cmd_upd_price_no_fail_on_error\<rparr>"

definition up_set_slot :: "u64 \<Rightarrow> upd_price \<Rightarrow> upd_price" where
  "up_set_slot slot u = u\<lparr>up_pub_slot := slot\<rparr>"

text \<open>Signing with an empty cache does nothing.\<close>

definition bc_sign_cache :: "(string \<Rightarrow> string \<Rightarrow> string option) \<Rightarrow> nat \<Rightarrow> nat \<Rightarrow> string option \<Rightarrow> bincode \<Rightarrow> bincode option" where
  "bc_sign_cache ed_sign sig m kc b = (case kc of None \<Rightarrow> Some b | Some k \<Rightarrow> bc_sign ed_sign sig m k b)"

text \<open>One instruction: \<open>i\<close> is the position in the batch of \<open>n\<close>.\<close>

definition bc_upd_price_ix :: "nat \<Rightarrow> nat \<times> upd_price \<Rightarrow> bincode \<Rightarrow> bincode option" where
  "bc_upd_price_ix n = (\<lambda>(i, upd) tx.
     do { tx \<leftarrow> bc_u8 (n + 2) tx;
          tx \<leftarrow> bc_add_len 3 tx;
          tx \<leftarrow> bc_u8 0 tx;
          tx \<leftarrow> bc_u8 (i + 1) tx;
          tx \<leftarrow> bc_u8 (n + 1) tx;
          tx \<leftarrow> bc_add_len 40 tx;
          tx \<leftarrow> bc_u32 PC_VERSION tx;
          tx \<leftarrow> bc_i32 (command_code (up_cmd upd)) tx;
          tx \<leftarrow> bc_i32 (up_st upd) tx;
          tx \<leftarrow> bc_i32 0 tx;
          tx \<leftarrow> bc_i64 (up_price upd) tx;
          tx \<leftarrow> bc_u64 (up_conf upd) tx;
          bc_u64 (up_pub_slot upd) tx })"

definition bc_cu_limit :: "nat \<Rightarrow> nat \<Rightarrow> bincode \<Rightarrow> bincode option" where
  "bc_cu_limit n cu_units tx =
     (if cu_units > 0 then
        do { tx \<leftarrow> bc_u8 (n + 3) tx; tx \<leftarrow> bc_add_len 0 tx; tx \<leftarrow> bc_add_len 5 tx; tx \<leftarrow> bc_u8 2 tx;
             bc_u32 (cu_units * n) tx }
      else Some tx)"

definition bc_cu_price :: "nat \<Rightarrow> nat \<Rightarrow> bincode \<Rightarrow> bincode option" where
  "bc_cu_price n cu_price tx =
     (if cu_price > 0 then
        do { tx \<leftarrow> bc_u8 (n + 3) tx; tx \<leftarrow> bc_add_len 0 tx; tx \<leftarrow> bc_add_len 9 tx; tx \<leftarrow> bc_u8 3 tx;
             bc_u64 (of_nat cu_price) tx }
      else Some tx)"

definition bc_upd_price_msg :: "upd_price list \<Rightarrow> nat \<Rightarrow> nat \<Rightarrow> bincode \<Rightarrow> bincode option" where
  "bc_upd_price_msg upds cu_units cu_price tx =
     (let n = length upds; first = hd upds in
      do { tx \<leftarrow> bc_u8 1 tx;
           tx \<leftarrow> bc_u8 0 tx;
           tx \<leftarrow> bc_u8 2 tx;
           tx \<leftarrow> bc_add_len (n + 4) tx;
           tx \<leftarrow> bc_key_pair (up_pkey first) tx;
           tx \<leftarrow> bc_each (\<lambda>u. bc_hash (up_akey u)) upds tx;
           tx \<leftarrow> bc_hash sysvar_clock_id tx;
           tx \<leftarrow> bc_hash (up_gkey first) tx;
           tx \<leftarrow> bc_hash compute_budget_program_id tx;
           tx \<leftarrow> bc_hash (up_bhash first) tx;
           tx \<leftarrow> bc_add_len (n + (if cu_units > 0 then 1 else 0) + (if cu_price > 0 then 1 else 0)) tx;
           tx \<leftarrow> bc_cu_limit n cu_units tx;
           tx \<leftarrow> bc_cu_price n cu_price tx;
           bc_each (bc_upd_price_ix n) (zip [0..<n] upds) tx })"

definition upd_price_build_tx ::
    "(string \<Rightarrow> string \<Rightarrow> string option) \<Rightarrow> upd_price list \<Rightarrow> nat \<Rightarrow> nat \<Rightarrow> bincode \<Rightarrow> (bool \<times> upd_price list \<times> bincode) option" where
  "upd_price_build_tx ed_sign upds cu_units cu_price tx =
     (case upds of
        [] \<Rightarrow> Some (False, [], tx)
      | first # others \<Rightarrow>
          do { tx \<leftarrow> bc_add_len 1 tx;
               let (tx, pub_idx) = bc_reserve_sign tx;
               let tx_idx = bc_size tx;
               tx \<leftarrow> bc_upd_price_msg upds cu_units cu_price tx;
               tx \<leftarrow> bc_sign_cache ed_sign pub_idx tx_idx (up_ckey first) tx;
               sig \<leftarrow> sig_init_from_buf (drop pub_idx (bc_mem tx));
               Some (True, first\<lparr>up_sig := sig\<rparr> # others, tx) })"

text \<open>The datagram for the validator: a header with the protocol and the size, then the transaction, in the
  buffer \<open>mem\<close> of the writer.\<close>

definition PC_TPU_PROTO_ID :: nat where
  "PC_TPU_PROTO_ID = 0xb1ab"

definition tx_wtr_init :: "string \<Rightarrow> bincode option" where
  "tx_wtr_init mem = do { tx \<leftarrow> bc_u16 PC_TPU_PROTO_ID (bc_attach mem); bc_u16 0 tx }"

definition tx_wtr_commit :: "bincode \<Rightarrow> string option" where
  "tx_wtr_commit tx = do { mem \<leftarrow> mem_write 2 (le_bytes 2 (bc_size tx)) (bc_mem tx); Some (take (bc_size tx) mem) }"

definition upd_price_build ::
    "(string \<Rightarrow> string \<Rightarrow> string option) \<Rightarrow> string \<Rightarrow> upd_price list \<Rightarrow> nat \<Rightarrow> nat \<Rightarrow> (string option \<times> upd_price list) option" where
  "upd_price_build ed_sign mem upds cu_units cu_price =
     do { tx \<leftarrow> tx_wtr_init mem;
          (ok, upds, tx) \<leftarrow> upd_price_build_tx ed_sign upds cu_units cu_price tx;
          if \<not> ok then Some (None, upds)
          else do { out \<leftarrow> tx_wtr_commit tx; Some (Some out, upds) } }"

text \<open>The JSON request with the transaction in base 64; \<open>mem\<close> are the bytes of the buffer that is allocated.\<close>

definition upd_price_params :: "string \<Rightarrow> json_wtr \<Rightarrow> json_wtr option" where
  "upd_price_params tx msg =
     do { msg \<leftarrow> jw_key ''method'' ''sendTransaction'' msg;
          msg \<leftarrow> jw_key_type ''params'' jw_arr msg;
          msg \<leftarrow> jw_val_enc_base64 tx msg;
          msg \<leftarrow> jw_val_type jw_obj msg;
          msg \<leftarrow> jw_key ''encoding'' ''base64'' msg;
          msg \<leftarrow> jw_key_true ''skipPreflight'' msg;
          msg \<leftarrow> jw_pop msg;
          jw_pop msg }"

definition upd_price_request ::
    "(string \<Rightarrow> string \<Rightarrow> string option) \<Rightarrow> string \<Rightarrow> upd_price list \<Rightarrow> nat \<Rightarrow> nat \<Rightarrow> json_wtr \<Rightarrow> (bool \<times> upd_price list \<times> json_wtr) option" where
  "upd_price_request ed_sign mem upds cu_units cu_price msg =
     do { (ok, upds, tx) \<leftarrow> upd_price_build_tx ed_sign upds cu_units cu_price (bc_attach mem);
          if \<not> ok then Some (False, upds, msg)
          else do { msg \<leftarrow> upd_price_params (bc_text tx) msg; Some (True, upds, msg) } }"

section \<open>Reference message\<close>

definition upd_price_data :: "upd_price \<Rightarrow> string" where
  "upd_price_data u = cmd_hdr (up_cmd u) @ i32_bytes (up_st u) @ i32_bytes 0 @ i64_bytes (up_price u) @
     le_bytes 8 (unat (up_conf u)) @ le_bytes 8 (unat (up_pub_slot u))"

definition cu_ixs :: "nat \<Rightarrow> nat \<Rightarrow> nat \<Rightarrow> sol_ix list" where
  "cu_ixs n cu_units cu_price =
     (if cu_units > 0 then [\<lparr>ix_prog = n + 3, ix_accs = [], ix_data = le_bytes 1 2 @ le_bytes 4 (cu_units * n)\<rparr>] else []) @
     (if cu_price > 0 then [\<lparr>ix_prog = n + 3, ix_accs = [], ix_data = le_bytes 1 3 @ le_bytes 8 cu_price\<rparr>] else [])"

definition upd_price_message :: "upd_price list \<Rightarrow> nat \<Rightarrow> nat \<Rightarrow> sol_msg" where
  "upd_price_message upds cu_units cu_price =
     (let n = length upds; first = hd upds in
      \<lparr>sm_signers = 1, sm_ro_signed = 0, sm_ro_unsigned = 2,
       sm_keys = pub_of (up_pkey first) # map up_akey upds @ [sysvar_clock_id, up_gkey first, compute_budget_program_id],
       sm_bhash = up_bhash first,
       sm_ixs = cu_ixs n cu_units cu_price @
         map (\<lambda>(i, u). \<lparr>ix_prog = n + 2, ix_accs = [0, i + 1, n + 1], ix_data = upd_price_data u\<rparr>) (zip [0..<n] upds)\<rparr>)"

text \<open>A batch is well formed when its keys have their lengths.\<close>

definition upds_ok :: "upd_price list \<Rightarrow> bool" where
  "upds_ok upds \<longleftrightarrow> upds \<noteq> [] \<and> length (up_pkey (hd upds)) = KEY_PAIR_LEN \<and> length (up_gkey (hd upds)) = HASH_LEN \<and>
     length (up_bhash (hd upds)) = HASH_LEN \<and> (\<forall>u \<in> set upds. length (up_akey u) = HASH_LEN)"

lemma length_upd_price_data [simp]: "length (upd_price_data u) = 40"
  by (simp add: upd_price_data_def)

lemma len_bytes_small: "n < 128 \<Longrightarrow> len_bytes n = le_bytes 1 n"
  by (simp add: len_bytes_def)

lemma enc_list_bytes: "enc_list (\<lambda>c. [c]) s = len_bytes (length s) @ s"
  by (simp add: enc_list_def)

lemma bwrites_upd_price_ix:
  "bwrites (bc_upd_price_ix n (i, u))
     (enc_ix \<lparr>ix_prog = n + 2, ix_accs = [0, i + 1, n + 1], ix_data = upd_price_data u\<rparr>)"
  unfolding bc_upd_price_ix_def prod.case
  by (rule bwrites_eq, (rule bwrites_bind bwrites_ints)+)
    (simp add: enc_ix_def enc_list_bytes enc_list_def len_bytes_small upd_price_data_def cmd_hdr_def numeral_3_eq_3
      del: le_bytes.simps)

lemma bwrites_cu_limit:
  "bwrites (bc_cu_limit n cu) (concat (map enc_ix (cu_ixs n cu 0)))"
proof -
  have eq: "bc_cu_limit n cu = (\<lambda>tx. if cu > 0 then
        (do { tx \<leftarrow> bc_u8 (n + 3) tx; tx \<leftarrow> bc_add_len 0 tx; tx \<leftarrow> bc_add_len 5 tx; tx \<leftarrow> bc_u8 2 tx;
             bc_u32 (cu * n) tx }) else Some tx)" by (rule ext) (simp add: bc_cu_limit_def)
  show ?thesis unfolding eq
    by (rule bwrites_eq, rule bwrites_if, (rule bwrites_bind bwrites_ints bwrites_skip)+)
      (simp add: cu_ixs_def enc_ix_def enc_list_bytes enc_list_def len_bytes_small del: le_bytes.simps)
qed

lemma bwrites_cu_price:
  assumes "cp < 2 ^ 64"
  shows "bwrites (bc_cu_price n cp) (concat (map enc_ix (cu_ixs n 0 cp)))"
proof -
  have eq: "bc_cu_price n cp = (\<lambda>tx. if cp > 0 then
        (do { tx \<leftarrow> bc_u8 (n + 3) tx; tx \<leftarrow> bc_add_len 0 tx; tx \<leftarrow> bc_add_len 9 tx; tx \<leftarrow> bc_u8 3 tx;
             bc_u64 (of_nat cp) tx }) else Some tx)" by (rule ext) (simp add: bc_cu_price_def)
  have "unat (of_nat cp :: u64) = cp" using assms by (simp add: unat_of_nat)
  then show ?thesis unfolding eq
    by (intro bwrites_eq [OF bwrites_if [OF bwrites_bind [OF bwrites_ints(1) bwrites_bind [OF bwrites_ints(7)
          bwrites_bind [OF bwrites_ints(7) bwrites_bind [OF bwrites_ints(1) bwrites_ints(4)]]]] bwrites_skip]])
      (simp add: cu_ixs_def enc_ix_def enc_list_bytes enc_list_def len_bytes_small del: le_bytes.simps)
qed

lemma cu_ixs_split: "cu_ixs n cu cp = cu_ixs n cu 0 @ cu_ixs n 0 cp"
  by (simp add: cu_ixs_def)

lemma bwrites_upd_price_msg:
  assumes ok: "upds_ok upds" and cp: "cp < 2 ^ 64"
  shows "bwrites (bc_upd_price_msg upds cu cp) (enc_msg (upd_price_message upds cu cp))"
proof -
  define n where "n = length upds"
  have k: "length (up_pkey (hd upds)) = KEY_PAIR_LEN" "length (up_gkey (hd upds)) = HASH_LEN"
    "length (up_bhash (hd upds)) = HASH_LEN" using ok by (simp_all add: upds_ok_def)
  have each: "bwrites (bc_each (\<lambda>u. bc_hash (up_akey u)) upds) (concat (map up_akey upds))"
    by (rule bwrites_each) (use ok in \<open>simp add: upds_ok_def bwrites_hash\<close>)
  let ?ix = "\<lambda>(i, u). \<lparr>ix_prog = n + 2, ix_accs = [0, i + 1, n + 1], ix_data = upd_price_data u\<rparr>"
  have ixs: "bwrites (bc_each (bc_upd_price_ix n) (zip [0..<n] upds)) (concat (map (enc_ix \<circ> ?ix) (zip [0..<n] upds)))"
    by (rule bwrites_each) (auto simp: bwrites_upd_price_ix [simplified])
  have len: "length (cu_ixs n cu cp @ map ?ix (zip [0..<n] upds)) = n + (if cu > 0 then 1 else 0) + (if cp > 0 then 1 else 0)"
    by (simp add: cu_ixs_def n_def)
  have len': "length (pub_of (up_pkey (hd upds)) # map up_akey upds @ [sysvar_clock_id, up_gkey (hd upds), compute_budget_program_id]) = n + 4"
    by (simp add: n_def)
  have enc: "enc_msg (upd_price_message upds cu cp) =
      le_bytes 1 1 @ le_bytes 1 0 @ le_bytes 1 2 @ len_bytes (n + 4) @ pub_of (up_pkey (hd upds)) @ concat (map up_akey upds) @
      sysvar_clock_id @ up_gkey (hd upds) @ compute_budget_program_id @ up_bhash (hd upds) @
      len_bytes (n + (if cu > 0 then 1 else 0) + (if cp > 0 then 1 else 0)) @
      concat (map enc_ix (cu_ixs n cu 0)) @ concat (map enc_ix (cu_ixs n 0 cp)) @ concat (map (enc_ix \<circ> ?ix) (zip [0..<n] upds))"
    unfolding upd_price_message_def Let_def n_def [symmetric] enc_msg_def enc_list_def sol_msg.simps len len'
    by (simp add: cu_ixs_split [of n cu cp] del: le_bytes.simps)
  show ?thesis
    unfolding bc_upd_price_msg_def [abs_def] Let_def n_def [symmetric]
    by (rule bwrites_eq, (rule bwrites_bind bwrites_ints bwrites_key_pair bwrites_hash bwrites_cu_limit bwrites_cu_price
        each ixs cp k length_ids)+)
      (simp only: enc append_assoc)
qed

section \<open>Results\<close>

lemma length_concat_map: "\<forall>x \<in> set xs. length (f x) = n \<Longrightarrow> length (concat (map f xs)) = length xs * n"
  by (induction xs) auto

text \<open>The size of the message; the bounds keep all indices and counts in one byte.\<close>

definition cu_size :: "nat \<Rightarrow> nat \<Rightarrow> nat" where
  "cu_size cu cp = (if cu > 0 then 8 else 0) + (if cp > 0 then 12 else 0)"

lemma length_upd_price_msg:
  assumes "upds_ok upds" "length upds < 124"
  shows "length (enc_msg (upd_price_message upds cu cp)) = 165 + 78 * length upds + cu_size cu cp"
proof -
  define n where "n = length upds"
  let ?ix = "\<lambda>(i, u). \<lparr>ix_prog = n + 2, ix_accs = [0, i + 1, n + 1], ix_data = upd_price_data u\<rparr>"
  have k: "length (pub_of (up_pkey (hd upds))) = 32" "length (up_gkey (hd upds)) = 32" "length (up_bhash (hd upds)) = 32"
    "\<forall>u \<in> set upds. length (up_akey u) = 32"
    using assms by (simp_all add: upds_ok_def HASH_LEN_def KEY_PAIR_LEN_def pub_of_def)
  have ids: "length sysvar_clock_id = 32" "length compute_budget_program_id = 32" by (simp_all add: HASH_LEN_def)
  have a: "length (concat (map up_akey upds)) = n * 32" using k(4) by (simp add: length_concat_map n_def)
  have "\<forall>x \<in> set (zip [0..<n] upds). length (enc_ix (?ix x)) = 46"
    by (auto simp: enc_ix_def enc_list_bytes enc_list_def length_len_bytes)
  then have i: "length (concat (map (\<lambda>x. enc_ix (?ix x)) (zip [0..<n] upds))) = n * 46"
    by (subst length_concat_map) (auto simp: n_def)
  have c: "length (concat (map enc_ix (cu_ixs n cu cp))) = cu_size cu cp"
    by (simp add: cu_ixs_def cu_size_def enc_ix_def enc_list_bytes enc_list_def length_len_bytes)
  have l: "length (cu_ixs n cu cp) \<le> 2" by (simp add: cu_ixs_def)
  show ?thesis
    unfolding upd_price_message_def Let_def n_def [symmetric] enc_msg_def enc_list_def sol_msg.simps
    using assms(2) k ids a i c l
    by (simp add: length_len_bytes n_def [symmetric] comp_def del: le_bytes.simps)
qed

lemma wf_upd_price_message:
  assumes "upds_ok upds" "length upds < 124"
  shows "wf_msg (upd_price_message upds cu cp)"
proof -
  have l: "length (cu_ixs (length upds) cu cp) \<le> 2" by (simp add: cu_ixs_def)
  have c: "\<forall>ix \<in> set (cu_ixs (length upds) cu cp). wf_ix ix" using assms(2) by (auto simp: cu_ixs_def wf_ix_def)
  have i: "(i, u) \<in> set (zip [0..<length upds] upds) \<Longrightarrow> i < 124" for i u
    using assms(2) by (auto dest!: set_zip_leftD)
  have p: "length (pub_of (up_pkey (hd upds))) = HASH_LEN"
    using assms(1) by (simp add: upds_ok_def pub_of_def KEY_PAIR_LEN_def HASH_LEN_def)
  show ?thesis
    using assms l c p
    by (auto simp: wf_msg_def upd_price_message_def Let_def upds_ok_def wf_ix_def dest!: i)
qed

lemma upd_price_build_tx_eq:
  "upds = first # others \<Longrightarrow> up_ckey first = Some k \<Longrightarrow>
    upd_price_build_tx ed_sign upds cu cp tx =
      map_option (\<lambda>(tx, sig). (True, first\<lparr>up_sig := sig\<rparr> # others, tx)) (bc_tx ed_sign [k] (bc_upd_price_msg upds cu cp) tx)"
  by (simp add: upd_price_build_tx_def bc_tx_def bc_sign_all_def bc_sign_cache_def Let_def bc_size_def option.map_comp
      split: option.split prod.split bind_split)

lemma bstrict_upd_price_msg: "bstrict (bc_upd_price_msg upds cu cp)"
  unfolding bc_upd_price_msg_def [abs_def] Let_def by (intro bstrict_bind bstrict_u8)

lemma build_tx_ok:
  assumes ok: "upds_ok upds" "length upds < 124" and cp: "cp < 2 ^ 64"
    and sign: "up_ckey (hd upds) = Some k" "ed_sign (take HASH_LEN k) (enc_msg (upd_price_message upds cu cp)) = Some sg" "length sg = SIG_LEN"
    and b: "bc_idx tx \<le> length (bc_mem tx)"
  shows "if bc_idx tx + 230 + 78 * length upds + cu_size cu cp \<le> length (bc_mem tx)
    then (\<exists>tx'. upd_price_build_tx ed_sign upds cu cp tx = Some (True, (hd upds)\<lparr>up_sig := sg\<rparr> # tl upds, tx') \<and>
      bc_text tx' = bc_text tx @ enc_tx [sg] (upd_price_message upds cu cp) \<and> length (bc_mem tx') = length (bc_mem tx) \<and>
      bc_idx tx' = bc_idx tx + 230 + 78 * length upds + cu_size cu cp)
    else upd_price_build_tx ed_sign upds cu cp tx = None"
proof -
  obtain first others where u: "upds = first # others" using ok(1) by (cases upds) (auto simp: upds_ok_def)
  have k: "up_ckey first = Some k" using sign u by simp
  define m where "m = enc_msg (upd_price_message upds cu cp)"
  have body: "bwrites (bc_upd_price_msg upds cu cp) m" unfolding m_def by (rule bwrites_upd_price_msg [OF ok(1) cp])
  have len: "length m = 165 + 78 * length upds + cu_size cu cp" unfolding m_def by (rule length_upd_price_msg [OF ok])
  note eq = upd_price_build_tx_eq [OF u k, of ed_sign cu cp tx]
  show ?thesis
  proof (cases "bc_idx tx + 230 + 78 * length upds + cu_size cu cp \<le> length (bc_mem tx)")
    case True
    have "bc_idx tx + 1 + length [k] * SIG_LEN + length m \<le> length (bc_mem tx)" using True len by (simp add: SIG_LEN_def)
    from bc_tx_enc [OF b _ _ body this, of ed_sign "\<lambda>_. sg"] sign(2,3) obtain tx' where
      tx': "bc_tx ed_sign [k] (bc_upd_price_msg upds cu cp) tx = Some (tx', sg)" "bc_text tx' = bc_text tx @ enc_list id [sg] @ m"
      "length (bc_mem tx') = length (bc_mem tx)" "bc_idx tx' = bc_idx tx + 1 + SIG_LEN + length m"
      by (auto simp: m_def)
    have "upd_price_build_tx ed_sign upds cu cp tx = Some (True, (hd upds)\<lparr>up_sig := sg\<rparr> # tl upds, tx')"
      unfolding eq tx'(1) by (simp add: u)
    moreover have "bc_idx tx' = bc_idx tx + 230 + 78 * length upds + cu_size cu cp" using tx'(4) len by (simp add: SIG_LEN_def)
    ultimately show ?thesis using True tx'(2,3) by (simp add: enc_tx_def m_def)
  next
    case False
    have "bc_tx ed_sign [k] (bc_upd_price_msg upds cu cp) tx = None"
      by (rule bc_tx_overrun [OF body bstrict_upd_price_msg]) (use False len in \<open>simp_all add: SIG_LEN_def\<close>)
    then show ?thesis using False eq by simp
  qed
qed

text \<open>The datagram.\<close>

lemma tx_wtr_init_ok:
  assumes "length mem = NET_BUF_LEN"
  obtains tx where "tx_wtr_init mem = Some tx" "bc_text tx = le_bytes 2 PC_TPU_PROTO_ID @ le_bytes 2 0" "bc_idx tx = 4"
    "length (bc_mem tx) = NET_BUF_LEN"
proof -
  have w: "bwrites (\<lambda>tx. bc_u16 PC_TPU_PROTO_ID tx \<bind> bc_u16 0) (le_bytes 2 PC_TPU_PROTO_ID @ le_bytes 2 0)"
    by (intro bwrites_bind bwrites_ints)
  define tx where "tx = (bc_attach mem)\<lparr>bc_mem := (le_bytes 2 PC_TPU_PROTO_ID @ le_bytes 2 0) @ drop 4 mem, bc_idx := 4\<rparr>"
  have "tx_wtr_init mem = Some tx"
    using bwritesD [OF w, of "bc_attach mem"] assms by (simp add: tx_wtr_init_def bc_attach_def tx_def NET_BUF_LEN_def)
  then show thesis by (rule that) (use assms in \<open>simp_all add: tx_def bc_text_def NET_BUF_LEN_def\<close>)
qed

lemma tx_wtr_commit_ok:
  assumes "bc_text tx = le_bytes 2 p @ le_bytes 2 0 @ s" "bc_idx tx = 4 + length s" "bc_idx tx \<le> length (bc_mem tx)"
  shows "tx_wtr_commit tx = Some (le_bytes 2 p @ le_bytes 2 (4 + length s) @ s)"
proof -
  define z where "z = le_bytes 2 (4 + length s)"
  have z: "length z = 2" by (simp add: z_def)
  have mem: "bc_mem tx = (le_bytes 2 p @ le_bytes 2 0 @ s) @ drop (bc_idx tx) (bc_mem tx)"
    unfolding assms(1) [symmetric] by (simp add: bc_text_def)
  have "take 2 (bc_mem tx) = le_bytes 2 p" "drop (2 + 2) (bc_mem tx) = s @ drop (bc_idx tx) (bc_mem tx)"
    by (subst mem, simp)+
  then have "mem_write 2 z (bc_mem tx) = Some (le_bytes 2 p @ z @ s @ drop (bc_idx tx) (bc_mem tx))"
    using assms(2,3) z by (simp add: mem_write_def)
  moreover have "take (4 + length s) (le_bytes 2 p @ z @ s @ d) = le_bytes 2 p @ z @ s" for d
    using z by simp
  ultimately show ?thesis
    unfolding tx_wtr_commit_def bc_size_def assms(2) z_def [symmetric] by simp
qed

lemma upd_price_build_spec:
  assumes "upds_ok upds" "length upds < 124" "cp < 2 ^ 64" "length mem = NET_BUF_LEN"
    and "up_ckey (hd upds) = Some k" "ed_sign (take HASH_LEN k) (enc_msg (upd_price_message upds cu cp)) = Some sg" "length sg = SIG_LEN"
  shows "if 234 + 78 * length upds + cu_size cu cp \<le> NET_BUF_LEN
    then (\<exists>tb. upd_price_build ed_sign mem upds cu cp =
        Some (Some (le_bytes 2 PC_TPU_PROTO_ID @ le_bytes 2 (4 + length tb) @ tb), (hd upds)\<lparr>up_sig := sg\<rparr> # tl upds) \<and>
      length tb = 230 + 78 * length upds + cu_size cu cp \<and>
      dec_tx tb = Some (([sg], upd_price_message upds cu cp), []))
    else upd_price_build ed_sign mem upds cu cp = None"
proof -
  obtain tx where tx: "tx_wtr_init mem = Some tx" "bc_text tx = le_bytes 2 PC_TPU_PROTO_ID @ le_bytes 2 0" "bc_idx tx = 4"
    "length (bc_mem tx) = NET_BUF_LEN" using tx_wtr_init_ok [OF assms(4)] by metis
  have b: "bc_idx tx \<le> length (bc_mem tx)" using tx by (simp add: NET_BUF_LEN_def)
  note res = build_tx_ok [where ed_sign = ed_sign and cu = cu and sg = sg and k = k, OF assms(1,2,3,5,6,7) b, unfolded tx(3,4)]
  show ?thesis
  proof (cases "234 + 78 * length upds + cu_size cu cp \<le> NET_BUF_LEN")
    case True
    define tb where "tb = enc_tx [sg] (upd_price_message upds cu cp)"
    from res True obtain tx' where tx': "upd_price_build_tx ed_sign upds cu cp tx = Some (True, (hd upds)\<lparr>up_sig := sg\<rparr> # tl upds, tx')"
      "bc_text tx' = bc_text tx @ tb" "length (bc_mem tx') = NET_BUF_LEN" "bc_idx tx' = 234 + 78 * length upds + cu_size cu cp"
      by (auto simp: tb_def)
    have "bc_idx tx' = length (bc_text tx')" using tx'(3,4) True by (simp add: bc_text_def)
    then have len: "length tb = 230 + 78 * length upds + cu_size cu cp" using tx'(2,4) tx(2) by simp
    have "tx_wtr_commit tx' = Some (le_bytes 2 PC_TPU_PROTO_ID @ le_bytes 2 (4 + length tb) @ tb)"
      by (rule tx_wtr_commit_ok) (use tx' tx(2) len True in simp_all)
    moreover have "dec_tx tb = Some (([sg], upd_price_message upds cu cp), [])"
      using dec_tx_enc [OF wf_upd_price_message [OF assms(1,2)], of "[sg]" cu cp "[]"] assms(7) by (simp add: tb_def)
    ultimately show ?thesis using True tx(1) tx'(1) len by (simp add: upd_price_build_def)
  next
    case False
    then show ?thesis using res tx(1) by (simp add: upd_price_build_def)
  qed
qed

text \<open>(C4) Building the datagram of a batch of \<open>n\<close> price updates succeeds exactly when the
  header of 4 bytes and the transaction of \<open>230 + 78 * n\<close> bytes (8 more with a compute limit, 12 more with a
  compute price) fit into the buffer, and otherwise overruns it.  What is built is the header with the
  protocol and the size, and a transaction that the decoder of the chain reads as the documented message
  with one signature over that message; the first request keeps the signature.\<close>

theorem upd_price_datagram:
  assumes "upds_ok upds" "length upds < 124" "cp < 2 ^ 64" "length mem = NET_BUF_LEN"
    and "up_ckey (hd upds) = Some k" "ed_sign (take HASH_LEN k) (enc_msg (upd_price_message upds cu cp)) = Some sg" "length sg = SIG_LEN"
  shows "if 234 + 78 * length upds + cu_size cu cp \<le> NET_BUF_LEN
    then (\<exists>tb. upd_price_build ed_sign mem upds cu cp =
        Some (Some (le_bytes 2 PC_TPU_PROTO_ID @ le_bytes 2 (4 + length tb) @ tb), (hd upds)\<lparr>up_sig := sg\<rparr> # tl upds) \<and>
      length tb = 230 + 78 * length upds + cu_size cu cp \<and>
      dec_tx tb = Some (([sg], upd_price_message upds cu cp), []))
    else upd_price_build ed_sign mem upds cu cp = None"
  by (rule upd_price_build_spec [where ed_sign = ed_sign, OF assms])

text \<open>A batch of one for the witnesses.\<close>

definition sample_upd :: upd_price where
  "sample_upd = \<lparr>up_bhash = replicate 32 CHR ''b'', up_pkey = replicate 64 CHR ''p'', up_ckey = Some (replicate 32 CHR ''k''),
     up_gkey = replicate 32 CHR ''g'', up_akey = replicate 32 CHR ''a'', up_sig = [], up_price = 100, up_conf = 1,
     up_pub_slot = 7, up_cmd = e_cmd_upd_price_no_fail_on_error, up_st = 1, up_ack = []\<rparr>"

definition sample_sign :: "string \<Rightarrow> string \<Rightarrow> string option" where
  "sample_sign k m = Some (replicate 64 CHR ''s'')"

lemma sample_upds:
  "0 < n \<Longrightarrow> upds_ok (replicate n sample_upd)" "0 < n \<Longrightarrow> up_ckey (hd (replicate n sample_upd)) = Some (replicate 32 CHR ''k'')"
  "length (replicate 64 CHR ''s'') = SIG_LEN"
  by (auto simp: upds_ok_def sample_upd_def HASH_LEN_def KEY_PAIR_LEN_def SIG_LEN_def)

theorem upd_price_datagram_witness:
  "\<exists>tb u. upd_price_build sample_sign (replicate NET_BUF_LEN CHR ''m'') [sample_upd] 0 0 =
     Some (Some (le_bytes 2 PC_TPU_PROTO_ID @ le_bytes 2 312 @ tb), u) \<and> length tb = 308 \<and>
     upd_price_build sample_sign (replicate NET_BUF_LEN CHR ''m'') (replicate 14 sample_upd) 0 0 = None"
proof -
  note t0 = upd_price_datagram [where ed_sign = sample_sign and sg = "replicate 64 CHR ''s''" and
      k = "replicate 32 CHR ''k''" and mem = "replicate NET_BUF_LEN CHR ''m''" and cu = 0 and cp = 0]
  note 1 = t0 [where upds = "[sample_upd]"] and 2 = t0 [where upds = "replicate 14 sample_upd"]
  show ?thesis using 1 2 sample_upds(1,2) [of 1] sample_upds(1,2) [of 14] sample_upds(3)
    by (auto simp: NET_BUF_LEN_def cu_size_def sample_sign_def)
qed

lemma enc_base64_len_fits: "enc_base64_len n \<le> NET_BUF_LEN \<longleftrightarrow> n \<le> 951"
proof -
  have "(n + 2 - (n + 2) mod 3) div 3 = (n + 2) div 3" by (simp add: minus_mod_eq_mult_div)
  moreover have "(n + 2) div 3 * 4 \<le> 1270 \<longleftrightarrow> (n + 2) div 3 < 318" by linarith
  moreover have "(n + 2) div 3 < 318 \<longleftrightarrow> n + 2 < 318 * 3" by (rule div_less_iff_less_mult) simp
  moreover have "n + 2 < 318 * 3 \<longleftrightarrow> n \<le> 951" by linarith
  ultimately show ?thesis unfolding enc_base64_len_def NET_BUF_LEN_def by simp
qed

lemma upd_price_params_ok:
  assumes "jw_state s f st msg" "enc_base64_len (length tb) \<le> NET_BUF_LEN"
  shows "jw_ok (s @ sep f @ ''\"method\":\"sendTransaction\",\"params\":[\"'' @ enc_base64 tb @
     ''\",{\"encoding\":\"base64\",\"skipPreflight\":true}]'') False st (upd_price_params tb msg)"
  unfolding upd_price_params_def
  by (rule jw_ok_eq, (rule jw_ok_bind jw_exec jw_exec_base64 assms | assumption)+)
    (simp add: quoted_def opener_def closer_def)

lemma jw_val_enc_base64_null:
  "\<not> enc_base64_len (length tb) \<le> NET_BUF_LEN \<Longrightarrow> jw_val_enc_base64 tb w = None"
  by (simp add: jw_val_enc_base64_def jw_add_enc_base64_def nw_fill_def nw_reserve_def Option.bind_rzero)

lemma upd_price_params_null:
  "\<not> enc_base64_len (length tb) \<le> NET_BUF_LEN \<Longrightarrow> upd_price_params tb msg = None"
  by (simp add: upd_price_params_def jw_val_enc_base64_null Option.bind_rzero)

text \<open>(C36) The JSON request of a batch succeeds exactly when the transaction has at most
  951 bytes: the base 64 text of a longer one does not fit into a buffer, and the encoder is then given a
  null pointer.  With a compute limit and a compute price the limit is 8 updates, without them 9; the
  transaction itself would have room for 13.\<close>

theorem upd_price_request_limit:
  assumes "upds_ok upds" "length upds < 124" "cp < 2 ^ 64" "length mem = NET_BUF_LEN"
    and "up_ckey (hd upds) = Some k" "ed_sign (take HASH_LEN k) (enc_msg (upd_price_message upds cu cp)) = Some sg" "length sg = SIG_LEN"
    and "nw_bufs msg" "nw_inv msg"
  shows "if 230 + 78 * length upds + cu_size cu cp \<le> 951
    then (\<exists>msg'. upd_price_request ed_sign mem upds cu cp msg = Some (True, (hd upds)\<lparr>up_sig := sg\<rparr> # tl upds, msg') \<and>
      nw_text msg' = nw_text msg @ sep (jw_first msg) @
        ''\"method\":\"sendTransaction\",\"params\":[\"'' @ enc_base64 (enc_tx [sg] (upd_price_message upds cu cp)) @
        ''\",{\"encoding\":\"base64\",\"skipPreflight\":true}]'' \<and> jw_st msg' = jw_st msg)
    else upd_price_request ed_sign mem upds cu cp msg = None"
proof -
  define sz where "sz = 230 + 78 * length upds + cu_size cu cp"
  have b: "bc_idx (bc_attach mem) \<le> length (bc_mem (bc_attach mem))" by (simp add: bc_attach_def)
  note res = build_tx_ok [where ed_sign = ed_sign and cu = cu and sg = sg and k = k, OF assms(1,2,3,5,6,7) b]
  have at: "bc_idx (bc_attach mem) = 0" "length (bc_mem (bc_attach mem)) = NET_BUF_LEN" "bc_text (bc_attach mem) = []"
    using assms(4) by (simp_all add: bc_attach_def bc_text_def)
  have msg: "jw_state (nw_text msg) (jw_first msg) (jw_st msg) msg" using assms(8,9) by (simp add: jw_state_def)
  show ?thesis
  proof (cases "sz \<le> NET_BUF_LEN")
    case True
    define tb where "tb = enc_tx [sg] (upd_price_message upds cu cp)"
    define upds' where "upds' = (hd upds)\<lparr>up_sig := sg\<rparr> # tl upds"
    from res True obtain tx' where tx': "upd_price_build_tx ed_sign upds cu cp (bc_attach mem) = Some (True, upds', tx')"
      "bc_text tx' = tb" "length (bc_mem tx') = NET_BUF_LEN" "bc_idx tx' = sz"
      by (auto simp: tb_def at sz_def upds'_def)
    have len: "length tb = sz" using tx' True by (metis bc_text_def length_take min.absorb2)
    have eq: "upd_price_request ed_sign mem upds cu cp msg = upd_price_params tb msg \<bind> (\<lambda>msg. Some (True, upds', msg))"
      by (simp add: upd_price_request_def tx'(1,2))
    show ?thesis
    proof (cases "sz \<le> 951")
      case True
      then have "enc_base64_len (length tb) \<le> NET_BUF_LEN" using len enc_base64_len_fits by simp
      from upd_price_params_ok [OF msg this] obtain msg' where "upd_price_params tb msg = Some msg'"
        "jw_state (nw_text msg @ sep (jw_first msg) @ ''\"method\":\"sendTransaction\",\"params\":[\"'' @ enc_base64 tb @
         ''\",{\"encoding\":\"base64\",\"skipPreflight\":true}]'') False (jw_st msg) msg'"
        by (auto simp: jw_ok_def)
      then show ?thesis using True unfolding eq sz_def tb_def upds'_def jw_state_def by simp
    next
      case False
      then have "\<not> enc_base64_len (length tb) \<le> NET_BUF_LEN" using len enc_base64_len_fits by simp
      then show ?thesis using False unfolding eq sz_def by (simp add: upd_price_params_null)
    qed
  next
    case False
    then show ?thesis using res by (simp add: upd_price_request_def at sz_def NET_BUF_LEN_def)
  qed
qed

theorem upd_price_request_limit_witness:
  "upd_price_request sample_sign (replicate NET_BUF_LEN CHR ''m'') (replicate 9 sample_upd) 20000 1 jw_new = None \<and>
   upd_price_request sample_sign (replicate NET_BUF_LEN CHR ''m'') (replicate 8 sample_upd) 20000 1 jw_new \<noteq> None"
proof -
  note t0 = upd_price_request_limit [where ed_sign = sample_sign and sg = "replicate 64 CHR ''s''" and
      k = "replicate 32 CHR ''k''" and mem = "replicate NET_BUF_LEN CHR ''m''" and cu = 20000 and cp = 1 and msg = jw_new]
  note 1 = t0 [where upds = "replicate 9 sample_upd"] and 2 = t0 [where upds = "replicate 8 sample_upd"]
  show ?thesis using 1 2 sample_upds(1,2) [of 9] sample_upds(1,2) [of 8] sample_upds(3)
    by (auto simp: cu_size_def sample_sign_def)
qed

text \<open>(C37) In the transaction that the chain decodes from the bytes of a datagram, every
  price-update instruction names the program, read-only, and as the header of the program documents, the
  publisher as writable signer and the price account of its update as writable; but the clock,
  documented as readable, is writable, because the message header counts the two last accounts as
  read-only and these are the program and the compute budget program.\<close>

theorem upd_price_roles:
  assumes "upds_ok upds" "length upds < 124" "cp < 2 ^ 64" "length mem = NET_BUF_LEN"
    and "234 + 78 * length upds + cu_size cu cp \<le> NET_BUF_LEN"
    and "up_ckey (hd upds) = Some k" "\<forall>m. \<exists>sg. ed_sign (take HASH_LEN k) m = Some sg \<and> length sg = SIG_LEN"
  shows "\<exists>hdr tb upds' sg m budget ixs. upd_price_build ed_sign mem upds cu cp = Some (Some (hdr @ tb), upds') \<and>
    length hdr = 4 \<and> dec_tx tb = Some (([sg], m), []) \<and> sm_ixs m = budget @ ixs \<and> length ixs = length upds \<and>
    (\<forall>i < length upds. length (ix_accs (ixs ! i)) = 3 \<and>
       sm_keys m ! ix_prog (ixs ! i) = up_gkey (hd upds) \<and> account_role m (ix_prog (ixs ! i)) = Some Readable \<and>
       sm_keys m ! (ix_accs (ixs ! i) ! 0) = pub_of (up_pkey (hd upds)) \<and>
       account_role m (ix_accs (ixs ! i) ! 0) = Some (command_roles e_cmd_upd_price ! 0) \<and>
       sm_keys m ! (ix_accs (ixs ! i) ! 1) = up_akey (upds ! i) \<and>
       account_role m (ix_accs (ixs ! i) ! 1) = Some (command_roles e_cmd_upd_price ! 1) \<and>
       sm_keys m ! (ix_accs (ixs ! i) ! 2) = sysvar_clock_id \<and>
       account_role m (ix_accs (ixs ! i) ! 2) = Some Writable \<and> command_roles e_cmd_upd_price ! 2 = Readable)"
proof -
  let ?m = "upd_price_message upds cu cp" and ?n = "length upds"
  obtain sg where sg: "ed_sign (take HASH_LEN k) (enc_msg ?m) = Some sg" "length sg = SIG_LEN" using assms(7) by blast
  obtain tb where tb: "upd_price_build ed_sign mem upds cu cp =
      Some (Some ((le_bytes 2 PC_TPU_PROTO_ID @ le_bytes 2 (4 + length tb)) @ tb), (hd upds)\<lparr>up_sig := sg\<rparr> # tl upds)"
      "dec_tx tb = Some (([sg], ?m), [])"
    using upd_price_build_spec [where ed_sign = ed_sign and sg = sg, OF assms(1-4,6) sg] assms(5) by auto
  let ?ixs = "map (\<lambda>(i, u). \<lparr>ix_prog = ?n + 2, ix_accs = [0, i + 1, ?n + 1], ix_data = upd_price_data u\<rparr>) (zip [0..<?n] upds)"
  have ixs: "sm_ixs ?m = cu_ixs ?n cu cp @ ?ixs" "length ?ixs = ?n"
    by (simp_all add: upd_price_message_def Let_def)
  have at: "ix_prog (?ixs ! i) = Suc (Suc ?n)" "ix_accs (?ixs ! i) = [0, Suc i, Suc ?n]" if "i < ?n" for i
    using that by simp_all
  have keys: "sm_keys ?m = pub_of (up_pkey (hd upds)) # map up_akey upds @ [sysvar_clock_id, up_gkey (hd upds), compute_budget_program_id]"
    "sm_signers ?m = 1" "sm_ro_signed ?m = 0" "sm_ro_unsigned ?m = 2" by (simp_all add: upd_price_message_def Let_def)
  have role: "account_role ?m 0 = Some Signer_Writable" "account_role ?m (Suc ?n) = Some Writable"
    "account_role ?m (Suc (Suc ?n)) = Some Readable" "i < ?n \<Longrightarrow> account_role ?m (Suc i) = Some Writable" for i
    by (simp_all add: account_role_def sm_is_signer_def sm_is_writable_def keys)
  have key: "sm_keys ?m ! Suc ?n = sysvar_clock_id" "sm_keys ?m ! Suc (Suc ?n) = up_gkey (hd upds)"
    "sm_keys ?m ! 0 = pub_of (up_pkey (hd upds))" "i < ?n \<Longrightarrow> sm_keys ?m ! Suc i = up_akey (upds ! i)" for i
    by (simp_all add: keys nth_append)
  define ixs where "ixs = ?ixs"
  have "length (le_bytes 2 PC_TPU_PROTO_ID @ le_bytes 2 (4 + length tb)) = 4" by simp
  moreover have "sm_ixs ?m = cu_ixs ?n cu cp @ ixs" "length ixs = ?n" using ixs by (simp_all only: ixs_def)
  moreover have "\<forall>i < ?n. length (ix_accs (ixs ! i)) = 3 \<and>
       sm_keys ?m ! ix_prog (ixs ! i) = up_gkey (hd upds) \<and> account_role ?m (ix_prog (ixs ! i)) = Some Readable \<and>
       sm_keys ?m ! (ix_accs (ixs ! i) ! 0) = pub_of (up_pkey (hd upds)) \<and>
       account_role ?m (ix_accs (ixs ! i) ! 0) = Some (command_roles e_cmd_upd_price ! 0) \<and>
       sm_keys ?m ! (ix_accs (ixs ! i) ! 1) = up_akey (upds ! i) \<and>
       account_role ?m (ix_accs (ixs ! i) ! 1) = Some (command_roles e_cmd_upd_price ! 1) \<and>
       sm_keys ?m ! (ix_accs (ixs ! i) ! 2) = sysvar_clock_id \<and>
       account_role ?m (ix_accs (ixs ! i) ! 2) = Some Writable \<and> command_roles e_cmd_upd_price ! 2 = Readable"
    using at [folded ixs_def] role key by (intro allI impI) (simp add: numeral_2_eq_2)
  ultimately show ?thesis using tb by blast
qed

theorem upd_price_roles_witness:
  "\<exists>hdr tb upds' sg m budget ixs. upd_price_build sample_sign (replicate NET_BUF_LEN CHR ''m'') [sample_upd] 0 0 = Some (Some (hdr @ tb), upds') \<and>
     dec_tx tb = Some (([sg], m), []) \<and> sm_ixs m = budget @ ixs \<and>
     sm_keys m ! (ix_accs (ixs ! 0) ! 2) = sysvar_clock_id \<and> account_role m (ix_accs (ixs ! 0) ! 2) = Some Writable"
  using upd_price_roles [where ed_sign = sample_sign and k = "replicate 32 CHR ''k''" and upds = "[sample_upd]" and cu = 0 and cp = 0 and
      mem = "replicate NET_BUF_LEN CHR ''m''"] sample_upds(1,2) [of 1] sample_upds(3)
  by (simp add: NET_BUF_LEN_def cu_size_def sample_sign_def) blast

end
