(* ===== verification/Admin_Rpc.thy ===== *)
theory Admin_Rpc
  imports Upd_Price Attr_Id
begin

text \<open>
  The administrative transactions, \<open>pcapps/admin\_rpc\_client.cpp\<close>: every request builds a transaction with one
  instruction whose accounts all sign, and wraps it as a \<open>sendTransaction\<close> call.  The class members that are
  pointers to keys are the bytes of the keys.  The message of each request is a definition of its own; the
  code around it (signature slots, signing, encoding) is the same text in every request and is the
  definition \<open>admin_tx\<close>.
\<close>

section \<open>Model\<close>

definition send_transaction :: "string \<Rightarrow> json_wtr \<Rightarrow> json_wtr option" where
  "send_transaction tx msg =
     do { msg \<leftarrow> jw_key ''method'' ''sendTransaction'' msg;
          msg \<leftarrow> jw_key_type ''params'' jw_arr msg;
          msg \<leftarrow> jw_val_enc_base64 tx msg;
          msg \<leftarrow> jw_val_type jw_obj msg;
          msg \<leftarrow> jw_key ''encoding'' ''base64'' msg;
          msg \<leftarrow> jw_pop msg;
          jw_pop msg }"

text \<open>The system program has the zero key.\<close>

definition sys_id :: string where
  "sys_id = hash_zero"

definition e_create_account :: nat where
  "e_create_account = 0"

record admin_base =
  ab_bhash :: string
  ab_pkey :: string
  ab_gkey :: string
  ab_sig :: string

definition ab_set_block_hash :: "string \<Rightarrow> 'a admin_base_scheme \<Rightarrow> 'a admin_base_scheme" where
  "ab_set_block_hash h r = r\<lparr>ab_bhash := h\<rparr>"

definition ab_set_publish :: "string \<Rightarrow> 'a admin_base_scheme \<Rightarrow> 'a admin_base_scheme" where
  "ab_set_publish kp r = r\<lparr>ab_pkey := kp\<rparr>"

definition ab_set_program :: "string \<Rightarrow> 'a admin_base_scheme \<Rightarrow> 'a admin_base_scheme" where
  "ab_set_program pk r = r\<lparr>ab_gkey := pk\<rparr>"

text \<open>Signature slots for the keys \<open>kps\<close>, the message, its signatures (the first is kept), and the JSON call.\<close>

definition admin_tx ::
    "(string \<Rightarrow> string \<Rightarrow> string option) \<Rightarrow> string \<Rightarrow> string list \<Rightarrow> (bincode \<Rightarrow> bincode option) \<Rightarrow> json_wtr \<Rightarrow> (string \<times> json_wtr) option" where
  "admin_tx ed_sign mem kps body msg =
     do { (tx, sig) \<leftarrow> bc_tx ed_sign kps body (bc_attach mem);
          msg \<leftarrow> send_transaction (bc_text tx) msg;
          Some (sig, msg) }"

record create_account =
  ca_bhash :: string
  ca_snd :: string
  ca_account :: string
  ca_owner :: string
  ca_lamports :: u64
  ca_space :: u64
  ca_sig :: string

definition create_account_msg :: "create_account \<Rightarrow> bincode \<Rightarrow> bincode option" where
  "create_account_msg r tx =
     do { tx \<leftarrow> bc_u8 2 tx;
          tx \<leftarrow> bc_u8 0 tx;
          tx \<leftarrow> bc_u8 1 tx;
          tx \<leftarrow> bc_add_len 3 tx;
          tx \<leftarrow> bc_key_pair (ca_snd r) tx;
          tx \<leftarrow> bc_key_pair (ca_account r) tx;
          tx \<leftarrow> bc_hash sys_id tx;
          tx \<leftarrow> bc_hash (ca_bhash r) tx;
          tx \<leftarrow> bc_add_len 1 tx;
          tx \<leftarrow> bc_u8 2 tx;
          tx \<leftarrow> bc_add_len 2 tx;
          tx \<leftarrow> bc_u8 0 tx;
          tx \<leftarrow> bc_u8 1 tx;
          tx \<leftarrow> bc_add_len 52 tx;
          tx \<leftarrow> bc_u32 e_create_account tx;
          tx \<leftarrow> bc_u64 (ca_lamports r) tx;
          tx \<leftarrow> bc_u64 (ca_space r) tx;
          bc_hash (ca_owner r) tx }"

definition create_account_request where
  "create_account_request ed_sign mem r msg =
     do { (sig, msg) \<leftarrow> admin_tx ed_sign mem [ca_snd r, ca_account r] (create_account_msg r) msg;
          Some (r\<lparr>ca_sig := sig\<rparr>, msg) }"

record init_mapping = admin_base +
  im_mkey :: string

definition init_mapping_msg :: "init_mapping \<Rightarrow> bincode \<Rightarrow> bincode option" where
  "init_mapping_msg r tx =
     do { tx \<leftarrow> bc_u8 2 tx;
          tx \<leftarrow> bc_u8 0 tx;
          tx \<leftarrow> bc_u8 1 tx;
          tx \<leftarrow> bc_add_len 3 tx;
          tx \<leftarrow> bc_key_pair (ab_pkey r) tx;
          tx \<leftarrow> bc_key_pair (im_mkey r) tx;
          tx \<leftarrow> bc_hash (ab_gkey r) tx;
          tx \<leftarrow> bc_hash (ab_bhash r) tx;
          tx \<leftarrow> bc_add_len 1 tx;
          tx \<leftarrow> bc_u8 2 tx;
          tx \<leftarrow> bc_add_len 2 tx;
          tx \<leftarrow> bc_u8 0 tx;
          tx \<leftarrow> bc_u8 1 tx;
          tx \<leftarrow> bc_add_len 8 tx;
          tx \<leftarrow> bc_u32 PC_VERSION tx;
          bc_i32 (command_code e_cmd_init_mapping) tx }"

definition init_mapping_request where
  "init_mapping_request ed_sign mem r msg =
     do { (sig, msg) \<leftarrow> admin_tx ed_sign mem [ab_pkey r, im_mkey r] (init_mapping_msg r) msg;
          Some (r\<lparr>ab_sig := sig\<rparr>, msg) }"

record add_mapping = admin_base +
  am_mkey :: string
  am_akey :: string

definition add_mapping_msg :: "add_mapping \<Rightarrow> bincode \<Rightarrow> bincode option" where
  "add_mapping_msg r tx =
     do { tx \<leftarrow> bc_u8 3 tx;
          tx \<leftarrow> bc_u8 0 tx;
          tx \<leftarrow> bc_u8 1 tx;
          tx \<leftarrow> bc_add_len 4 tx;
          tx \<leftarrow> bc_key_pair (ab_pkey r) tx;
          tx \<leftarrow> bc_key_pair (am_mkey r) tx;
          tx \<leftarrow> bc_key_pair (am_akey r) tx;
          tx \<leftarrow> bc_hash (ab_gkey r) tx;
          tx \<leftarrow> bc_hash (ab_bhash r) tx;
          tx \<leftarrow> bc_add_len 1 tx;
          tx \<leftarrow> bc_u8 3 tx;
          tx \<leftarrow> bc_add_len 3 tx;
          tx \<leftarrow> bc_u8 0 tx;
          tx \<leftarrow> bc_u8 1 tx;
          tx \<leftarrow> bc_u8 2 tx;
          tx \<leftarrow> bc_add_len 8 tx;
          tx \<leftarrow> bc_u32 PC_VERSION tx;
          bc_i32 (command_code e_cmd_add_mapping) tx }"

definition add_mapping_request where
  "add_mapping_request ed_sign mem r msg =
     do { (sig, msg) \<leftarrow> admin_tx ed_sign mem [ab_pkey r, am_mkey r, am_akey r] (add_mapping_msg r) msg;
          Some (r\<lparr>ab_sig := sig\<rparr>, msg) }"

record add_product = admin_base +
  ap_akey :: string
  ap_mkey :: string

definition add_product_msg :: "add_product \<Rightarrow> bincode \<Rightarrow> bincode option" where
  "add_product_msg r tx =
     do { tx \<leftarrow> bc_u8 3 tx;
          tx \<leftarrow> bc_u8 0 tx;
          tx \<leftarrow> bc_u8 1 tx;
          tx \<leftarrow> bc_add_len 4 tx;
          tx \<leftarrow> bc_key_pair (ab_pkey r) tx;
          tx \<leftarrow> bc_key_pair (ap_mkey r) tx;
          tx \<leftarrow> bc_key_pair (ap_akey r) tx;
          tx \<leftarrow> bc_hash (ab_gkey r) tx;
          tx \<leftarrow> bc_hash (ab_bhash r) tx;
          tx \<leftarrow> bc_add_len 1 tx;
          tx \<leftarrow> bc_u8 3 tx;
          tx \<leftarrow> bc_add_len 3 tx;
          tx \<leftarrow> bc_u8 0 tx;
          tx \<leftarrow> bc_u8 1 tx;
          tx \<leftarrow> bc_u8 2 tx;
          tx \<leftarrow> bc_add_len 8 tx;
          tx \<leftarrow> bc_u32 PC_VERSION tx;
          bc_i32 (command_code e_cmd_add_product) tx }"

definition add_product_request where
  "add_product_request ed_sign mem r msg =
     do { (sig, msg) \<leftarrow> admin_tx ed_sign mem [ab_pkey r, ap_mkey r, ap_akey r] (add_product_msg r) msg;
          Some (r\<lparr>ab_sig := sig\<rparr>, msg) }"

record add_price = admin_base +
  apr_expo :: int
  apr_ptype :: nat
  apr_akey :: string
  apr_skey :: string

definition add_price_msg :: "add_price \<Rightarrow> bincode \<Rightarrow> bincode option" where
  "add_price_msg r tx =
     do { tx \<leftarrow> bc_u8 3 tx;
          tx \<leftarrow> bc_u8 0 tx;
          tx \<leftarrow> bc_u8 1 tx;
          tx \<leftarrow> bc_add_len 4 tx;
          tx \<leftarrow> bc_key_pair (ab_pkey r) tx;
          tx \<leftarrow> bc_key_pair (apr_skey r) tx;
          tx \<leftarrow> bc_key_pair (apr_akey r) tx;
          tx \<leftarrow> bc_hash (ab_gkey r) tx;
          tx \<leftarrow> bc_hash (ab_bhash r) tx;
          tx \<leftarrow> bc_add_len 1 tx;
          tx \<leftarrow> bc_u8 3 tx;
          tx \<leftarrow> bc_add_len 3 tx;
          tx \<leftarrow> bc_u8 0 tx;
          tx \<leftarrow> bc_u8 1 tx;
          tx \<leftarrow> bc_u8 2 tx;
          tx \<leftarrow> bc_add_len 16 tx;
          tx \<leftarrow> bc_u32 PC_VERSION tx;
          tx \<leftarrow> bc_i32 (command_code e_cmd_add_price) tx;
          tx \<leftarrow> bc_i32 (apr_expo r) tx;
          bc_u32 (apr_ptype r) tx }"

definition add_price_request where
  "add_price_request ed_sign mem r msg =
     do { (sig, msg) \<leftarrow> admin_tx ed_sign mem [ab_pkey r, apr_skey r, apr_akey r] (add_price_msg r) msg;
          Some (r\<lparr>ab_sig := sig\<rparr>, msg) }"

record init_price = admin_base +
  ip_expo :: int
  ip_ptype :: nat
  ip_akey :: string

definition init_price_msg :: "init_price \<Rightarrow> bincode \<Rightarrow> bincode option" where
  "init_price_msg r tx =
     do { tx \<leftarrow> bc_u8 2 tx;
          tx \<leftarrow> bc_u8 0 tx;
          tx \<leftarrow> bc_u8 1 tx;
          tx \<leftarrow> bc_add_len 3 tx;
          tx \<leftarrow> bc_key_pair (ab_pkey r) tx;
          tx \<leftarrow> bc_key_pair (ip_akey r) tx;
          tx \<leftarrow> bc_hash (ab_gkey r) tx;
          tx \<leftarrow> bc_hash (ab_bhash r) tx;
          tx \<leftarrow> bc_add_len 1 tx;
          tx \<leftarrow> bc_u8 2 tx;
          tx \<leftarrow> bc_add_len 2 tx;
          tx \<leftarrow> bc_u8 0 tx;
          tx \<leftarrow> bc_u8 1 tx;
          tx \<leftarrow> bc_add_len 16 tx;
          tx \<leftarrow> bc_u32 PC_VERSION tx;
          tx \<leftarrow> bc_i32 (command_code e_cmd_init_price) tx;
          tx \<leftarrow> bc_i32 (ip_expo r) tx;
          bc_u32 (ip_ptype r) tx }"

definition init_price_request where
  "init_price_request ed_sign mem r msg =
     do { (sig, msg) \<leftarrow> admin_tx ed_sign mem [ab_pkey r, ip_akey r] (init_price_msg r) msg;
          Some (r\<lparr>ab_sig := sig\<rparr>, msg) }"

record set_min_pub_rpc = admin_base +
  smp_min_pub :: nat
  smp_akey :: string

definition set_min_pub_rpc_msg :: "set_min_pub_rpc \<Rightarrow> bincode \<Rightarrow> bincode option" where
  "set_min_pub_rpc_msg r tx =
     do { tx \<leftarrow> bc_u8 2 tx;
          tx \<leftarrow> bc_u8 0 tx;
          tx \<leftarrow> bc_u8 1 tx;
          tx \<leftarrow> bc_add_len 3 tx;
          tx \<leftarrow> bc_key_pair (ab_pkey r) tx;
          tx \<leftarrow> bc_key_pair (smp_akey r) tx;
          tx \<leftarrow> bc_hash (ab_gkey r) tx;
          tx \<leftarrow> bc_hash (ab_bhash r) tx;
          tx \<leftarrow> bc_add_len 1 tx;
          tx \<leftarrow> bc_u8 2 tx;
          tx \<leftarrow> bc_add_len 2 tx;
          tx \<leftarrow> bc_u8 0 tx;
          tx \<leftarrow> bc_u8 1 tx;
          tx \<leftarrow> bc_add_len 12 tx;
          tx \<leftarrow> bc_u32 PC_VERSION tx;
          tx \<leftarrow> bc_i32 (command_code e_cmd_set_min_pub) tx;
          tx \<leftarrow> bc_u8 (smp_min_pub r) tx;
          tx \<leftarrow> bc_u8 0 tx;
          bc_u16 0 tx }"

definition set_min_pub_rpc_request where
  "set_min_pub_rpc_request ed_sign mem r msg =
     do { (sig, msg) \<leftarrow> admin_tx ed_sign mem [ab_pkey r, smp_akey r] (set_min_pub_rpc_msg r) msg;
          Some (r\<lparr>ab_sig := sig\<rparr>, msg) }"

record add_publisher = admin_base +
  apb_nkey :: string
  apb_akey :: string

definition add_publisher_msg :: "add_publisher \<Rightarrow> bincode \<Rightarrow> bincode option" where
  "add_publisher_msg r tx =
     do { tx \<leftarrow> bc_u8 2 tx;
          tx \<leftarrow> bc_u8 0 tx;
          tx \<leftarrow> bc_u8 1 tx;
          tx \<leftarrow> bc_add_len 3 tx;
          tx \<leftarrow> bc_key_pair (ab_pkey r) tx;
          tx \<leftarrow> bc_key_pair (apb_akey r) tx;
          tx \<leftarrow> bc_hash (ab_gkey r) tx;
          tx \<leftarrow> bc_hash (ab_bhash r) tx;
          tx \<leftarrow> bc_add_len 1 tx;
          tx \<leftarrow> bc_u8 2 tx;
          tx \<leftarrow> bc_add_len 2 tx;
          tx \<leftarrow> bc_u8 0 tx;
          tx \<leftarrow> bc_u8 1 tx;
          tx \<leftarrow> bc_add_len 40 tx;
          tx \<leftarrow> bc_u32 PC_VERSION tx;
          tx \<leftarrow> bc_i32 (command_code e_cmd_add_publisher) tx;
          bc_hash (apb_nkey r) tx }"

definition add_publisher_request where
  "add_publisher_request ed_sign mem r msg =
     do { (sig, msg) \<leftarrow> admin_tx ed_sign mem [ab_pkey r, apb_akey r] (add_publisher_msg r) msg;
          Some (r\<lparr>ab_sig := sig\<rparr>, msg) }"

record del_publisher = admin_base +
  dpb_nkey :: string
  dpb_akey :: string

definition del_publisher_msg :: "del_publisher \<Rightarrow> bincode \<Rightarrow> bincode option" where
  "del_publisher_msg r tx =
     do { tx \<leftarrow> bc_u8 2 tx;
          tx \<leftarrow> bc_u8 0 tx;
          tx \<leftarrow> bc_u8 1 tx;
          tx \<leftarrow> bc_add_len 3 tx;
          tx \<leftarrow> bc_key_pair (ab_pkey r) tx;
          tx \<leftarrow> bc_key_pair (dpb_akey r) tx;
          tx \<leftarrow> bc_hash (ab_gkey r) tx;
          tx \<leftarrow> bc_hash (ab_bhash r) tx;
          tx \<leftarrow> bc_add_len 1 tx;
          tx \<leftarrow> bc_u8 2 tx;
          tx \<leftarrow> bc_add_len 2 tx;
          tx \<leftarrow> bc_u8 0 tx;
          tx \<leftarrow> bc_u8 1 tx;
          tx \<leftarrow> bc_add_len 40 tx;
          tx \<leftarrow> bc_u32 PC_VERSION tx;
          tx \<leftarrow> bc_i32 (command_code e_cmd_del_publisher) tx;
          bc_hash (dpb_nkey r) tx }"

definition del_publisher_request where
  "del_publisher_request ed_sign mem r msg =
     do { (sig, msg) \<leftarrow> admin_tx ed_sign mem [ab_pkey r, dpb_akey r] (del_publisher_msg r) msg;
          Some (r\<lparr>ab_sig := sig\<rparr>, msg) }"

text \<open>The attributes of a product are written into a separate writer, of which the first buffer is copied.\<close>

record upd_product = admin_base +
  upr_akey :: string
  upr_aptr :: attr_dict

definition upd_product_msg :: "string \<Rightarrow> upd_product \<Rightarrow> bincode \<Rightarrow> bincode option" where
  "upd_product_msg ahd r tx =
     do { tx \<leftarrow> bc_u8 2 tx;
          tx \<leftarrow> bc_u8 0 tx;
          tx \<leftarrow> bc_u8 1 tx;
          tx \<leftarrow> bc_add_len 3 tx;
          tx \<leftarrow> bc_key_pair (ab_pkey r) tx;
          tx \<leftarrow> bc_key_pair (upr_akey r) tx;
          tx \<leftarrow> bc_hash (ab_gkey r) tx;
          tx \<leftarrow> bc_hash (ab_bhash r) tx;
          tx \<leftarrow> bc_add_len 1 tx;
          tx \<leftarrow> bc_u8 2 tx;
          tx \<leftarrow> bc_add_len 2 tx;
          tx \<leftarrow> bc_u8 0 tx;
          tx \<leftarrow> bc_u8 1 tx;
          tx \<leftarrow> bc_add_len (8 + length ahd) tx;
          tx \<leftarrow> bc_u32 PC_VERSION tx;
          tx \<leftarrow> bc_i32 (command_code e_cmd_upd_product) tx;
          bc_buf ahd tx }"

definition upd_product_request where
  "upd_product_request ed_sign mem aset r msg =
     do { awtr \<leftarrow> write_account aset (upr_aptr r) nw_new;
          (bufs, _) \<leftarrow> nw_detach awtr;
          (sig, msg) \<leftarrow> admin_tx ed_sign mem [ab_pkey r, upr_akey r] (upd_product_msg (hd bufs) r) msg;
          Some (r\<lparr>ab_sig := sig\<rparr>, msg) }"

text \<open>The virtual call \<open>request\<close>.\<close>

datatype admin_req =
    AR_create_account create_account
  | AR_init_mapping init_mapping
  | AR_add_mapping add_mapping
  | AR_add_product add_product
  | AR_add_price add_price
  | AR_init_price init_price
  | AR_set_min_pub_rpc set_min_pub_rpc
  | AR_add_publisher add_publisher
  | AR_del_publisher del_publisher
  | AR_upd_product upd_product

fun admin_request ::
    "(string \<Rightarrow> string \<Rightarrow> string option) \<Rightarrow> string \<Rightarrow> attr_id_set \<Rightarrow> admin_req \<Rightarrow> json_wtr \<Rightarrow> (admin_req \<times> json_wtr) option" where
  "admin_request ed_sign mem aset (AR_create_account r) msg =
     map_option (map_prod AR_create_account id) (create_account_request ed_sign mem r msg)"
| "admin_request ed_sign mem aset (AR_init_mapping r) msg =
     map_option (map_prod AR_init_mapping id) (init_mapping_request ed_sign mem r msg)"
| "admin_request ed_sign mem aset (AR_add_mapping r) msg =
     map_option (map_prod AR_add_mapping id) (add_mapping_request ed_sign mem r msg)"
| "admin_request ed_sign mem aset (AR_add_product r) msg =
     map_option (map_prod AR_add_product id) (add_product_request ed_sign mem r msg)"
| "admin_request ed_sign mem aset (AR_add_price r) msg =
     map_option (map_prod AR_add_price id) (add_price_request ed_sign mem r msg)"
| "admin_request ed_sign mem aset (AR_init_price r) msg =
     map_option (map_prod AR_init_price id) (init_price_request ed_sign mem r msg)"
| "admin_request ed_sign mem aset (AR_set_min_pub_rpc r) msg =
     map_option (map_prod AR_set_min_pub_rpc id) (set_min_pub_rpc_request ed_sign mem r msg)"
| "admin_request ed_sign mem aset (AR_add_publisher r) msg =
     map_option (map_prod AR_add_publisher id) (add_publisher_request ed_sign mem r msg)"
| "admin_request ed_sign mem aset (AR_del_publisher r) msg =
     map_option (map_prod AR_del_publisher id) (del_publisher_request ed_sign mem r msg)"
| "admin_request ed_sign mem aset (AR_upd_product r) msg =
     map_option (map_prod AR_upd_product id) (upd_product_request ed_sign mem aset r msg)"

section \<open>Reference message\<close>

text \<open>The accounts of the only instruction are the signing keys in order; the program is the last key.\<close>

definition admin_message :: "string list \<Rightarrow> string \<Rightarrow> string \<Rightarrow> string \<Rightarrow> sol_msg" where
  "admin_message kps prog bhash dat =
     \<lparr>sm_signers = length kps, sm_ro_signed = 0, sm_ro_unsigned = 1, sm_keys = map pub_of kps @ [prog],
      sm_bhash = bhash, sm_ixs = [\<lparr>ix_prog = length kps, ix_accs = [0..<length kps], ix_data = dat\<rparr>]\<rparr>"

definition attrs_text :: "attr_id_set \<Rightarrow> attr_dict \<Rightarrow> string" where
  "attrs_text s d = attr_text s (dict_attrs d [1..<length (ad_vec d)])"

fun admin_signers :: "admin_req \<Rightarrow> string list" where
  "admin_signers (AR_create_account r) = [ca_snd r, ca_account r]"
| "admin_signers (AR_init_mapping r) = [ab_pkey r, im_mkey r]"
| "admin_signers (AR_add_mapping r) = [ab_pkey r, am_mkey r, am_akey r]"
| "admin_signers (AR_add_product r) = [ab_pkey r, ap_mkey r, ap_akey r]"
| "admin_signers (AR_add_price r) = [ab_pkey r, apr_skey r, apr_akey r]"
| "admin_signers (AR_init_price r) = [ab_pkey r, ip_akey r]"
| "admin_signers (AR_set_min_pub_rpc r) = [ab_pkey r, smp_akey r]"
| "admin_signers (AR_add_publisher r) = [ab_pkey r, apb_akey r]"
| "admin_signers (AR_del_publisher r) = [ab_pkey r, dpb_akey r]"
| "admin_signers (AR_upd_product r) = [ab_pkey r, upr_akey r]"

fun admin_prog :: "admin_req \<Rightarrow> string" where
  "admin_prog (AR_create_account r) = sys_id"
| "admin_prog (AR_init_mapping r) = ab_gkey r"
| "admin_prog (AR_add_mapping r) = ab_gkey r"
| "admin_prog (AR_add_product r) = ab_gkey r"
| "admin_prog (AR_add_price r) = ab_gkey r"
| "admin_prog (AR_init_price r) = ab_gkey r"
| "admin_prog (AR_set_min_pub_rpc r) = ab_gkey r"
| "admin_prog (AR_add_publisher r) = ab_gkey r"
| "admin_prog (AR_del_publisher r) = ab_gkey r"
| "admin_prog (AR_upd_product r) = ab_gkey r"

fun admin_bhash :: "admin_req \<Rightarrow> string" where
  "admin_bhash (AR_create_account r) = ca_bhash r"
| "admin_bhash (AR_init_mapping r) = ab_bhash r"
| "admin_bhash (AR_add_mapping r) = ab_bhash r"
| "admin_bhash (AR_add_product r) = ab_bhash r"
| "admin_bhash (AR_add_price r) = ab_bhash r"
| "admin_bhash (AR_init_price r) = ab_bhash r"
| "admin_bhash (AR_set_min_pub_rpc r) = ab_bhash r"
| "admin_bhash (AR_add_publisher r) = ab_bhash r"
| "admin_bhash (AR_del_publisher r) = ab_bhash r"
| "admin_bhash (AR_upd_product r) = ab_bhash r"

fun admin_cmd :: "admin_req \<Rightarrow> command_t option" where
  "admin_cmd (AR_create_account r) = None"
| "admin_cmd (AR_init_mapping r) = Some e_cmd_init_mapping"
| "admin_cmd (AR_add_mapping r) = Some e_cmd_add_mapping"
| "admin_cmd (AR_add_product r) = Some e_cmd_add_product"
| "admin_cmd (AR_add_price r) = Some e_cmd_add_price"
| "admin_cmd (AR_init_price r) = Some e_cmd_init_price"
| "admin_cmd (AR_set_min_pub_rpc r) = Some e_cmd_set_min_pub"
| "admin_cmd (AR_add_publisher r) = Some e_cmd_add_publisher"
| "admin_cmd (AR_del_publisher r) = Some e_cmd_del_publisher"
| "admin_cmd (AR_upd_product r) = Some e_cmd_upd_product"

fun admin_data :: "attr_id_set \<Rightarrow> admin_req \<Rightarrow> string" where
  "admin_data aset (AR_create_account r) = le_bytes 4 e_create_account @ le_bytes 8 (unat (ca_lamports r)) @ le_bytes 8 (unat (ca_space r)) @ ca_owner r"
| "admin_data aset (AR_init_mapping r) = cmd_hdr e_cmd_init_mapping"
| "admin_data aset (AR_add_mapping r) = cmd_hdr e_cmd_add_mapping"
| "admin_data aset (AR_add_product r) = cmd_hdr e_cmd_add_product"
| "admin_data aset (AR_add_price r) = cmd_hdr e_cmd_add_price @ i32_bytes (apr_expo r) @ le_bytes 4 (apr_ptype r)"
| "admin_data aset (AR_init_price r) = cmd_hdr e_cmd_init_price @ i32_bytes (ip_expo r) @ le_bytes 4 (ip_ptype r)"
| "admin_data aset (AR_set_min_pub_rpc r) = cmd_hdr e_cmd_set_min_pub @ le_bytes 1 (smp_min_pub r) @ le_bytes 1 0 @ le_bytes 2 0"
| "admin_data aset (AR_add_publisher r) = cmd_hdr e_cmd_add_publisher @ apb_nkey r"
| "admin_data aset (AR_del_publisher r) = cmd_hdr e_cmd_del_publisher @ dpb_nkey r"
| "admin_data aset (AR_upd_product r) = cmd_hdr e_cmd_upd_product @ attrs_text aset (upr_aptr r)"

text \<open>The keys have their lengths.\<close>

fun extra_keys :: "admin_req \<Rightarrow> string list" where
  "extra_keys (AR_create_account r) = [ca_owner r]"
| "extra_keys (AR_add_publisher r) = [apb_nkey r]"
| "extra_keys (AR_del_publisher r) = [dpb_nkey r]"
| "extra_keys _ = []"

definition admin_ok :: "admin_req \<Rightarrow> bool" where
  "admin_ok r \<longleftrightarrow> (\<forall>kp \<in> set (admin_signers r). length kp = KEY_PAIR_LEN) \<and> length (admin_prog r) = HASH_LEN \<and>
     length (admin_bhash r) = HASH_LEN \<and> (\<forall>k \<in> set (extra_keys r). length k = HASH_LEN) \<and>
     (case r of AR_upd_product u \<Rightarrow> ad_inv (upr_aptr u) | _ \<Rightarrow> True)"

section \<open>Messages\<close>

lemma length_sys_id [simp]: "length sys_id = HASH_LEN"
  by (simp add: sys_id_def hash_zero_def)

lemma enc_admin_message:
  "length kps < 128 \<Longrightarrow> enc_msg (admin_message kps prog bhash dat) =
     le_bytes 1 (length kps) @ le_bytes 1 0 @ le_bytes 1 1 @ len_bytes (length kps + 1) @ concat (map pub_of kps) @ prog @ bhash @
     len_bytes 1 @ le_bytes 1 (length kps) @ len_bytes (length kps) @ concat (map (le_bytes 1) [0..<length kps]) @
     len_bytes (length dat) @ dat"
  by (simp add: enc_msg_def admin_message_def enc_list_def enc_ix_def del: le_bytes.simps)

lemma bwrites_init_mapping_msg:
  assumes "length (ab_gkey r) = HASH_LEN" "length (ab_bhash r) = HASH_LEN" "length (ab_pkey r) = KEY_PAIR_LEN" "length (im_mkey r) = KEY_PAIR_LEN"
  shows "bwrites (init_mapping_msg r) (enc_msg (admin_message (admin_signers (AR_init_mapping r)) (ab_gkey r) (ab_bhash r) (admin_data aset (AR_init_mapping r))))"
  unfolding init_mapping_msg_def [abs_def]
  by (rule bwrites_eq, (rule bwrites_bind bwrites_ints bwrites_key_pair bwrites_hash assms)+)
    (simp add: enc_admin_message cmd_hdr_def assms HASH_LEN_def numeral_eq_Suc upt_rec del: le_bytes.simps)

lemma bwrites_add_mapping_msg:
  assumes "length (ab_gkey r) = HASH_LEN" "length (ab_bhash r) = HASH_LEN" "length (ab_pkey r) = KEY_PAIR_LEN" "length (am_mkey r) = KEY_PAIR_LEN" "length (am_akey r) = KEY_PAIR_LEN"
  shows "bwrites (add_mapping_msg r) (enc_msg (admin_message (admin_signers (AR_add_mapping r)) (ab_gkey r) (ab_bhash r) (admin_data aset (AR_add_mapping r))))"
  unfolding add_mapping_msg_def [abs_def]
  by (rule bwrites_eq, (rule bwrites_bind bwrites_ints bwrites_key_pair bwrites_hash assms)+)
    (simp add: enc_admin_message cmd_hdr_def assms HASH_LEN_def numeral_eq_Suc upt_rec del: le_bytes.simps)

lemma bwrites_add_product_msg:
  assumes "length (ab_gkey r) = HASH_LEN" "length (ab_bhash r) = HASH_LEN" "length (ab_pkey r) = KEY_PAIR_LEN" "length (ap_mkey r) = KEY_PAIR_LEN" "length (ap_akey r) = KEY_PAIR_LEN"
  shows "bwrites (add_product_msg r) (enc_msg (admin_message (admin_signers (AR_add_product r)) (ab_gkey r) (ab_bhash r) (admin_data aset (AR_add_product r))))"
  unfolding add_product_msg_def [abs_def]
  by (rule bwrites_eq, (rule bwrites_bind bwrites_ints bwrites_key_pair bwrites_hash assms)+)
    (simp add: enc_admin_message cmd_hdr_def assms HASH_LEN_def numeral_eq_Suc upt_rec del: le_bytes.simps)

lemma bwrites_add_price_msg:
  assumes "length (ab_gkey r) = HASH_LEN" "length (ab_bhash r) = HASH_LEN" "length (ab_pkey r) = KEY_PAIR_LEN" "length (apr_skey r) = KEY_PAIR_LEN" "length (apr_akey r) = KEY_PAIR_LEN"
  shows "bwrites (add_price_msg r) (enc_msg (admin_message (admin_signers (AR_add_price r)) (ab_gkey r) (ab_bhash r) (admin_data aset (AR_add_price r))))"
  unfolding add_price_msg_def [abs_def]
  by (rule bwrites_eq, (rule bwrites_bind bwrites_ints bwrites_key_pair bwrites_hash assms)+)
    (simp add: enc_admin_message cmd_hdr_def assms HASH_LEN_def numeral_eq_Suc upt_rec del: le_bytes.simps)

lemma bwrites_init_price_msg:
  assumes "length (ab_gkey r) = HASH_LEN" "length (ab_bhash r) = HASH_LEN" "length (ab_pkey r) = KEY_PAIR_LEN" "length (ip_akey r) = KEY_PAIR_LEN"
  shows "bwrites (init_price_msg r) (enc_msg (admin_message (admin_signers (AR_init_price r)) (ab_gkey r) (ab_bhash r) (admin_data aset (AR_init_price r))))"
  unfolding init_price_msg_def [abs_def]
  by (rule bwrites_eq, (rule bwrites_bind bwrites_ints bwrites_key_pair bwrites_hash assms)+)
    (simp add: enc_admin_message cmd_hdr_def assms HASH_LEN_def numeral_eq_Suc upt_rec del: le_bytes.simps)

lemma bwrites_set_min_pub_rpc_msg:
  assumes "length (ab_gkey r) = HASH_LEN" "length (ab_bhash r) = HASH_LEN" "length (ab_pkey r) = KEY_PAIR_LEN" "length (smp_akey r) = KEY_PAIR_LEN"
  shows "bwrites (set_min_pub_rpc_msg r) (enc_msg (admin_message (admin_signers (AR_set_min_pub_rpc r)) (ab_gkey r) (ab_bhash r) (admin_data aset (AR_set_min_pub_rpc r))))"
  unfolding set_min_pub_rpc_msg_def [abs_def]
  by (rule bwrites_eq, (rule bwrites_bind bwrites_ints bwrites_key_pair bwrites_hash assms)+)
    (simp add: enc_admin_message cmd_hdr_def assms HASH_LEN_def numeral_eq_Suc upt_rec del: le_bytes.simps)

lemma bwrites_add_publisher_msg:
  assumes "length (ab_gkey r) = HASH_LEN" "length (ab_bhash r) = HASH_LEN" "length (ab_pkey r) = KEY_PAIR_LEN" "length (apb_akey r) = KEY_PAIR_LEN" "length (apb_nkey r) = HASH_LEN"
  shows "bwrites (add_publisher_msg r) (enc_msg (admin_message (admin_signers (AR_add_publisher r)) (ab_gkey r) (ab_bhash r) (admin_data aset (AR_add_publisher r))))"
  unfolding add_publisher_msg_def [abs_def]
  by (rule bwrites_eq, (rule bwrites_bind bwrites_ints bwrites_key_pair bwrites_hash assms)+)
    (simp add: enc_admin_message cmd_hdr_def assms HASH_LEN_def numeral_eq_Suc upt_rec del: le_bytes.simps)

lemma bwrites_del_publisher_msg:
  assumes "length (ab_gkey r) = HASH_LEN" "length (ab_bhash r) = HASH_LEN" "length (ab_pkey r) = KEY_PAIR_LEN" "length (dpb_akey r) = KEY_PAIR_LEN" "length (dpb_nkey r) = HASH_LEN"
  shows "bwrites (del_publisher_msg r) (enc_msg (admin_message (admin_signers (AR_del_publisher r)) (ab_gkey r) (ab_bhash r) (admin_data aset (AR_del_publisher r))))"
  unfolding del_publisher_msg_def [abs_def]
  by (rule bwrites_eq, (rule bwrites_bind bwrites_ints bwrites_key_pair bwrites_hash assms)+)
    (simp add: enc_admin_message cmd_hdr_def assms HASH_LEN_def numeral_eq_Suc upt_rec del: le_bytes.simps)

lemma bwrites_create_account_msg:
  assumes "length (ca_owner r) = HASH_LEN" "length (ca_bhash r) = HASH_LEN" "length (ca_snd r) = KEY_PAIR_LEN"
    "length (ca_account r) = KEY_PAIR_LEN"
  shows "bwrites (create_account_msg r) (enc_msg (admin_message (admin_signers (AR_create_account r)) sys_id (ca_bhash r)
    (admin_data aset (AR_create_account r))))"
  unfolding create_account_msg_def [abs_def]
  by (rule bwrites_eq, (rule bwrites_bind bwrites_ints bwrites_key_pair bwrites_hash assms length_sys_id)+)
    (simp add: enc_admin_message assms HASH_LEN_def numeral_eq_Suc upt_rec del: le_bytes.simps)

lemma bwrites_upd_product_msg:
  assumes "length (ab_gkey r) = HASH_LEN" "length (ab_bhash r) = HASH_LEN" "length (ab_pkey r) = KEY_PAIR_LEN"
    "length (upr_akey r) = KEY_PAIR_LEN"
  shows "bwrites (upd_product_msg ahd r) (enc_msg (admin_message [ab_pkey r, upr_akey r] (ab_gkey r) (ab_bhash r)
    (cmd_hdr e_cmd_upd_product @ ahd)))"
  unfolding upd_product_msg_def [abs_def]
  by (rule bwrites_eq, (rule bwrites_bind bwrites_ints bwrites_key_pair bwrites_hash assms)+)
    (simp add: enc_admin_message cmd_hdr_def assms HASH_LEN_def upt_rec numeral_2_eq_2 numeral_3_eq_3 del: le_bytes.simps)

lemma bstrict_admin_msgs:
  "bstrict (create_account_msg r1)" "bstrict (init_mapping_msg r2)" "bstrict (add_mapping_msg r3)" "bstrict (add_product_msg r4)"
  "bstrict (add_price_msg r5)" "bstrict (init_price_msg r6)" "bstrict (set_min_pub_rpc_msg r7)" "bstrict (add_publisher_msg r8)"
  "bstrict (del_publisher_msg r9)" "bstrict (upd_product_msg ahd r10)"
  unfolding create_account_msg_def [abs_def] init_mapping_msg_def [abs_def] add_mapping_msg_def [abs_def] add_product_msg_def [abs_def]
    add_price_msg_def [abs_def] init_price_msg_def [abs_def] set_min_pub_rpc_msg_def [abs_def] add_publisher_msg_def [abs_def]
    del_publisher_msg_def [abs_def] upd_product_msg_def [abs_def]
  by (intro bstrict_bind bstrict_u8)+

section \<open>Transactions\<close>

definition admin_size :: "nat \<Rightarrow> nat \<Rightarrow> nat" where
  "admin_size k d = 72 + 97 * k + (if d < 128 then 1 else 2) + d"

lemma length_admin_msg:
  assumes "length kps < 127" "\<forall>kp \<in> set kps. length kp = KEY_PAIR_LEN" "length prog = HASH_LEN" "length bhash = HASH_LEN"
  shows "1 + length kps * SIG_LEN + length (enc_msg (admin_message kps prog bhash dat)) = admin_size (length kps) (length dat)"
proof -
  have "length (concat (map pub_of kps)) = length kps * 32"
    using assms(2) by (intro length_concat_map) (simp add: pub_of_def KEY_PAIR_LEN_def HASH_LEN_def)
  moreover have "length (concat (map (le_bytes 1) [0..<length kps])) = length kps * 1"
    using length_concat_map [of "[0..<length kps]" "le_bytes 1" 1] by (simp del: le_bytes.simps)
  ultimately show ?thesis
    using assms by (simp add: enc_admin_message length_len_bytes HASH_LEN_def SIG_LEN_def admin_size_def del: le_bytes.simps)
qed

lemma send_transaction_ok:
  assumes "jw_state s f st msg" "enc_base64_len (length tb) \<le> NET_BUF_LEN"
  shows "jw_ok (s @ sep f @ ''\"method\":\"sendTransaction\",\"params\":[\"'' @ enc_base64 tb @
     ''\",{\"encoding\":\"base64\"}]'') False st (send_transaction tb msg)"
  unfolding send_transaction_def
  by (rule jw_ok_eq, (rule jw_ok_bind jw_exec jw_exec_base64 assms | assumption)+)
    (simp add: quoted_def opener_def closer_def)

lemma send_transaction_null:
  "\<not> enc_base64_len (length tb) \<le> NET_BUF_LEN \<Longrightarrow> send_transaction tb msg = None"
  by (simp add: send_transaction_def jw_val_enc_base64_null)

definition tx_call :: "string \<Rightarrow> string" where
  "tx_call tb = ''\"method\":\"sendTransaction\",\"params\":[\"'' @ enc_base64 tb @ ''\",{\"encoding\":\"base64\"}]''"

lemma admin_tx_ok:
  assumes kps: "kps \<noteq> []" "length kps < 127" "\<forall>kp \<in> set kps. length kp = KEY_PAIR_LEN" "length prog = HASH_LEN" "length bhash = HASH_LEN"
    and body: "bwrites body (enc_msg (admin_message kps prog bhash dat))" "bstrict body" and mem: "length mem = NET_BUF_LEN"
    and sg: "\<forall>kp \<in> set kps. ed_sign (take HASH_LEN kp) (enc_msg (admin_message kps prog bhash dat)) = Some (sg kp) \<and> length (sg kp) = SIG_LEN"
    and msg: "nw_bufs msg" "nw_inv msg"
  shows "if admin_size (length kps) (length dat) \<le> 951
    then (\<exists>msg'. admin_tx ed_sign mem kps body msg = Some (sg (hd kps), msg') \<and> jw_st msg' = jw_st msg \<and>
      nw_text msg' = nw_text msg @ sep (jw_first msg) @ tx_call (enc_tx (map sg kps) (admin_message kps prog bhash dat)))
    else admin_tx ed_sign mem kps body msg = None"
proof -
  define m where "m = enc_msg (admin_message kps prog bhash dat)"
  define sz where "sz = admin_size (length kps) (length dat)"
  have len: "1 + length kps * SIG_LEN + length m = sz" unfolding m_def sz_def by (rule length_admin_msg [OF kps(2-)])
  have at: "bc_idx (bc_attach mem) = 0" "length (bc_mem (bc_attach mem)) = NET_BUF_LEN" "bc_text (bc_attach mem) = []"
    using mem by (simp_all add: bc_attach_def bc_text_def)
  have st: "jw_state (nw_text msg) (jw_first msg) (jw_st msg) msg" using msg by (simp add: jw_state_def)
  show ?thesis
  proof (cases "sz \<le> NET_BUF_LEN")
    case True
    have "\<exists>tx. bc_tx ed_sign kps body (bc_attach mem) = Some (tx, sg (hd kps)) \<and> bc_text tx = bc_text (bc_attach mem) @ enc_list id (map sg kps) @ m \<and>
        length (bc_mem tx) = length (bc_mem (bc_attach mem)) \<and> bc_idx tx = bc_idx (bc_attach mem) + 1 + length kps * SIG_LEN + length m"
      by (rule bc_tx_enc [OF _ _ kps(1) body(1) [folded m_def]]) (use at len True kps sg m_def in auto)
    then obtain tx where tx: "bc_tx ed_sign kps body (bc_attach mem) = Some (tx, sg (hd kps))"
        "bc_text tx = enc_tx (map sg kps) (admin_message kps prog bhash dat)" "bc_idx tx = sz" "length (bc_mem tx) = NET_BUF_LEN"
      using at len by (auto simp: m_def enc_tx_def)
    define tb where "tb = bc_text tx"
    have l: "length tb = sz" using tx(3,4) True by (simp add: tb_def bc_text_def)
    have eq: "admin_tx ed_sign mem kps body msg = send_transaction tb msg \<bind> (\<lambda>msg. Some (sg (hd kps), msg))"
      by (simp add: admin_tx_def tx(1) tb_def)
    show ?thesis
    proof (cases "sz \<le> 951")
      case True
      then have "enc_base64_len (length tb) \<le> NET_BUF_LEN" using l enc_base64_len_fits by simp
      from send_transaction_ok [OF st this] obtain msg' where "send_transaction tb msg = Some msg'"
        "jw_state (nw_text msg @ sep (jw_first msg) @ tx_call tb) False (jw_st msg) msg'"
        unfolding tx_call_def by (auto simp: jw_ok_def)
      then show ?thesis using True unfolding eq sz_def tb_def tx(2) jw_state_def by simp
    next
      case False
      then have "\<not> enc_base64_len (length tb) \<le> NET_BUF_LEN" using l enc_base64_len_fits by simp
      then show ?thesis using False unfolding eq sz_def by (simp add: send_transaction_null)
    qed
  next
    case False
    have "bc_tx ed_sign kps body (bc_attach mem) = None"
      by (rule bc_tx_overrun [OF body(1) [folded m_def] body(2)]) (use False at len kps(2) in simp_all)
    moreover have "\<not> sz \<le> 951" using False by (simp add: NET_BUF_LEN_def)
    ultimately show ?thesis unfolding sz_def by (simp add: admin_tx_def)
  qed
qed

section \<open>The attributes of a product\<close>

text \<open>A buffer is only followed by another one when it is full.\<close>

definition nw_full :: "'a net_wtr_scheme \<Rightarrow> bool" where
  "nw_full w \<longleftrightarrow> (\<forall>b \<in> set (wt_hd w). length b = NET_BUF_LEN)"

lemma nw_put_full: "nw_put s w = Some w' \<Longrightarrow> nw_full w \<Longrightarrow> nw_full w'"
  by (auto simp: nw_put_def nw_full_def split: option.splits if_splits)

lemma nw_room_full:
  "(do { n \<leftarrow> tail_size w; if n = NET_BUF_LEN then nw_alloc w else Some w }) = Some w' \<Longrightarrow> nw_full w \<Longrightarrow> nw_full w'"
  by (auto simp: bind_eq_Some_conv nw_alloc_def nw_full_def tail_size_def split: option.splits if_splits)

lemma nw_add_char_full: "nw_add_char c w = Some w' \<Longrightarrow> nw_full w \<Longrightarrow> nw_full w'"
  using nw_put_full nw_room_full unfolding nw_add_char_def by (fastforce simp: bind_eq_Some_conv)

lemma nw_add_alloc_full: "nw_add_alloc s w = Some w' \<Longrightarrow> nw_full w \<Longrightarrow> nw_full w'"
proof (induction s w rule: nw_add_alloc.induct)
  case (1 s w)
  show ?case
  proof (cases "s = []")
    case False
    from 1(2) obtain n w1 m w2 where a: "tail_size w = Some n" "(if n = NET_BUF_LEN then nw_alloc w else Some w) = Some w1"
        "tail_size w1 = Some m" "min (NET_BUF_LEN - m) (length s) \<noteq> 0"
        "nw_put (take (min (NET_BUF_LEN - m) (length s)) s) w1 = Some w2"
        "nw_add_alloc (drop (min (NET_BUF_LEN - m) (length s)) s) w2 = Some w'"
      by (subst (asm) nw_add_alloc.simps) (auto simp: False bind_eq_Some_conv Let_def split: if_splits)
    have "nw_full w1" using nw_room_full [of w w1] a(1,2) 1(3) by simp
    then have "nw_full w2" using nw_put_full a(5) by blast
    then show ?thesis using 1(1) [OF False a(1,2,3) refl a(4,5) a(6)] by simp
  qed (use 1 in \<open>simp add: nw_add_alloc.simps\<close>)
qed

lemma nw_add_str_full: "nw_add_str s w = Some w' \<Longrightarrow> nw_full w \<Longrightarrow> nw_full w'"
  using nw_put_full nw_add_alloc_full unfolding nw_add_str_def
  by (auto simp: bind_eq_Some_conv split: if_splits)

lemma write_account_ids_full: "write_account_ids s d is w = Some w' \<Longrightarrow> nw_full w \<Longrightarrow> nw_full w'"
proof (induction "is" arbitrary: w)
  case (Cons i "is")
  then show ?case
    by (auto simp: bind_eq_Some_conv Let_def split: option.splits dest!: nw_add_char_full nw_add_str_full)
qed simp

lemma write_account_first:
  assumes "ad_inv d"
  obtains w bufs where "write_account s d nw_new = Some w" "nw_detach w = Some (bufs, w\<lparr>wt_hd := [], wt_tl := None, wt_sz := 0\<rparr>)"
    "if length (attrs_text s d) < NET_BUF_LEN then hd bufs = attrs_text s d else length (hd bufs) = NET_BUF_LEN"
proof -
  obtain w where w: "write_account s d nw_new = Some w" "nw_bufs w" "nw_text w = attrs_text s d"
    using appendsD [OF appends_write_account_ids [OF assms] nw_new_ok(1)] unfolding write_account_def attrs_text_def
    by (metis nw_new_ok(3) append_Nil)
  have full: "nw_full w" using write_account_ids_full w(1) by (simp add: write_account_def nw_full_def nw_new_def) 
  obtain t where t: "wt_tl w = Some t" "length t \<le> NET_BUF_LEN" using w(2) by (auto simp: nw_bufs_def)
  have tx: "attrs_text s d = concat (wt_hd w) @ t" using w(3) t by (simp add: nw_text_def)
  show thesis
  proof (rule that [OF w(1)])
    show "nw_detach w = Some (wt_hd w @ [t], w\<lparr>wt_hd := [], wt_tl := None, wt_sz := 0\<rparr>)" by (simp add: nw_detach_def t)
    show "if length (attrs_text s d) < NET_BUF_LEN then hd (wt_hd w @ [t]) = attrs_text s d
        else length (hd (wt_hd w @ [t])) = NET_BUF_LEN"
    proof (cases "wt_hd w")
      case Nil
      then show ?thesis using tx t by auto
    next
      case (Cons b bs)
      then have "length b = NET_BUF_LEN" using full by (simp add: nw_full_def)
      then show ?thesis using tx Cons by simp
    qed
  qed
qed

section \<open>Results\<close>

definition admin_msg_of :: "attr_id_set \<Rightarrow> admin_req \<Rightarrow> sol_msg" where
  "admin_msg_of aset r = admin_message (admin_signers r) (admin_prog r) (admin_bhash r) (admin_data aset r)"

fun admin_body :: "admin_req \<Rightarrow> bincode \<Rightarrow> bincode option" where
  "admin_body (AR_create_account r) = create_account_msg r"
| "admin_body (AR_init_mapping r) = init_mapping_msg r"
| "admin_body (AR_add_mapping r) = add_mapping_msg r"
| "admin_body (AR_add_product r) = add_product_msg r"
| "admin_body (AR_add_price r) = add_price_msg r"
| "admin_body (AR_init_price r) = init_price_msg r"
| "admin_body (AR_set_min_pub_rpc r) = set_min_pub_rpc_msg r"
| "admin_body (AR_add_publisher r) = add_publisher_msg r"
| "admin_body (AR_del_publisher r) = del_publisher_msg r"
| "admin_body (AR_upd_product r) = (\<lambda>_. None)"

fun set_sig :: "string \<Rightarrow> admin_req \<Rightarrow> admin_req" where
  "set_sig sig (AR_create_account r) = AR_create_account (r\<lparr>ca_sig := sig\<rparr>)"
| "set_sig sig (AR_init_mapping r) = AR_init_mapping (r\<lparr>ab_sig := sig\<rparr>)"
| "set_sig sig (AR_add_mapping r) = AR_add_mapping (r\<lparr>ab_sig := sig\<rparr>)"
| "set_sig sig (AR_add_product r) = AR_add_product (r\<lparr>ab_sig := sig\<rparr>)"
| "set_sig sig (AR_add_price r) = AR_add_price (r\<lparr>ab_sig := sig\<rparr>)"
| "set_sig sig (AR_init_price r) = AR_init_price (r\<lparr>ab_sig := sig\<rparr>)"
| "set_sig sig (AR_set_min_pub_rpc r) = AR_set_min_pub_rpc (r\<lparr>ab_sig := sig\<rparr>)"
| "set_sig sig (AR_add_publisher r) = AR_add_publisher (r\<lparr>ab_sig := sig\<rparr>)"
| "set_sig sig (AR_del_publisher r) = AR_del_publisher (r\<lparr>ab_sig := sig\<rparr>)"
| "set_sig sig (AR_upd_product r) = AR_upd_product (r\<lparr>ab_sig := sig\<rparr>)"

definition is_upd_product :: "admin_req \<Rightarrow> bool" where
  "is_upd_product r \<longleftrightarrow> (\<exists>u. r = AR_upd_product u)"

lemmas admin_request_defs = create_account_request_def init_mapping_request_def add_mapping_request_def add_product_request_def
  add_price_request_def init_price_request_def set_min_pub_rpc_request_def add_publisher_request_def del_publisher_request_def

lemma map_bind_pair: "map_option f (do { (a, b) \<leftarrow> m; Some (g a, b) }) = do { (a, b) \<leftarrow> m; Some (f (g a, b)) }"
  by (cases m) auto

lemma admin_request_eq:
  "\<not> is_upd_product r \<Longrightarrow> admin_request ed_sign mem aset r msg =
     do { (sig, msg) \<leftarrow> admin_tx ed_sign mem (admin_signers r) (admin_body r) msg; Some (set_sig sig r, msg) }"
  by (cases r) (simp_all add: is_upd_product_def admin_request_defs map_bind_pair)

lemma bstrict_admin_body: "bstrict (admin_body r)"
  by (cases r) (simp_all add: bstrict_admin_msgs, simp add: bstrict_def)

lemma bwrites_admin_body:
  assumes "admin_ok r" "\<not> is_upd_product r"
  shows "bwrites (admin_body r) (enc_msg (admin_msg_of aset r))"
proof (cases r)
  case (AR_create_account u)
  have "bwrites (create_account_msg u) (enc_msg (admin_msg_of aset (AR_create_account u)))"
    unfolding admin_msg_of_def admin_bhash.simps admin_prog.simps
    by (rule bwrites_create_account_msg) (use assms(1) AR_create_account in \<open>simp_all add: admin_ok_def\<close>)
  then show ?thesis using AR_create_account by simp
next
  case (AR_init_mapping u)
  have "bwrites (init_mapping_msg u) (enc_msg (admin_msg_of aset (AR_init_mapping u)))"
    unfolding admin_msg_of_def admin_bhash.simps admin_prog.simps
    by (rule bwrites_init_mapping_msg) (use assms(1) AR_init_mapping in \<open>simp_all add: admin_ok_def\<close>)
  then show ?thesis using AR_init_mapping by simp
next
  case (AR_add_mapping u)
  have "bwrites (add_mapping_msg u) (enc_msg (admin_msg_of aset (AR_add_mapping u)))"
    unfolding admin_msg_of_def admin_bhash.simps admin_prog.simps
    by (rule bwrites_add_mapping_msg) (use assms(1) AR_add_mapping in \<open>simp_all add: admin_ok_def\<close>)
  then show ?thesis using AR_add_mapping by simp
next
  case (AR_add_product u)
  have "bwrites (add_product_msg u) (enc_msg (admin_msg_of aset (AR_add_product u)))"
    unfolding admin_msg_of_def admin_bhash.simps admin_prog.simps
    by (rule bwrites_add_product_msg) (use assms(1) AR_add_product in \<open>simp_all add: admin_ok_def\<close>)
  then show ?thesis using AR_add_product by simp
next
  case (AR_add_price u)
  have "bwrites (add_price_msg u) (enc_msg (admin_msg_of aset (AR_add_price u)))"
    unfolding admin_msg_of_def admin_bhash.simps admin_prog.simps
    by (rule bwrites_add_price_msg) (use assms(1) AR_add_price in \<open>simp_all add: admin_ok_def\<close>)
  then show ?thesis using AR_add_price by simp
next
  case (AR_init_price u)
  have "bwrites (init_price_msg u) (enc_msg (admin_msg_of aset (AR_init_price u)))"
    unfolding admin_msg_of_def admin_bhash.simps admin_prog.simps
    by (rule bwrites_init_price_msg) (use assms(1) AR_init_price in \<open>simp_all add: admin_ok_def\<close>)
  then show ?thesis using AR_init_price by simp
next
  case (AR_set_min_pub_rpc u)
  have "bwrites (set_min_pub_rpc_msg u) (enc_msg (admin_msg_of aset (AR_set_min_pub_rpc u)))"
    unfolding admin_msg_of_def admin_bhash.simps admin_prog.simps
    by (rule bwrites_set_min_pub_rpc_msg) (use assms(1) AR_set_min_pub_rpc in \<open>simp_all add: admin_ok_def\<close>)
  then show ?thesis using AR_set_min_pub_rpc by simp
next
  case (AR_add_publisher u)
  have "bwrites (add_publisher_msg u) (enc_msg (admin_msg_of aset (AR_add_publisher u)))"
    unfolding admin_msg_of_def admin_bhash.simps admin_prog.simps
    by (rule bwrites_add_publisher_msg) (use assms(1) AR_add_publisher in \<open>simp_all add: admin_ok_def\<close>)
  then show ?thesis using AR_add_publisher by simp
next
  case (AR_del_publisher u)
  have "bwrites (del_publisher_msg u) (enc_msg (admin_msg_of aset (AR_del_publisher u)))"
    unfolding admin_msg_of_def admin_bhash.simps admin_prog.simps
    by (rule bwrites_del_publisher_msg) (use assms(1) AR_del_publisher in \<open>simp_all add: admin_ok_def\<close>)
  then show ?thesis using AR_del_publisher by simp
next
  case (AR_upd_product u)
  then show ?thesis using assms(2) by (simp add: is_upd_product_def)
qed

lemma admin_signers_ok: "admin_signers r \<noteq> []" "length (admin_signers r) \<le> 3"
  by (cases r; simp)+

lemma wf_admin_msg:
  assumes "admin_ok r" "admin_size (length (admin_signers r)) (length (admin_data aset r)) \<le> 951"
  shows "wf_msg (admin_msg_of aset r)"
proof -
  have "length (admin_data aset r) < 2 ^ 14" using assms(2) by (simp add: admin_size_def split: if_splits)
  then show ?thesis
    using assms(1) admin_signers_ok(2) [of r]
    by (auto simp: wf_msg_def admin_msg_of_def admin_message_def wf_ix_def admin_ok_def pub_of_def KEY_PAIR_LEN_def HASH_LEN_def)
qed

lemma admin_roles:
  "admin_cmd r = Some c \<Longrightarrow>
    map (account_role (admin_msg_of aset r)) (ix_accs (hd (sm_ixs (admin_msg_of aset r)))) = map Some (command_roles c)"
  by (cases r) (auto simp: admin_msg_of_def admin_message_def account_role_def sm_is_signer_def sm_is_writable_def upt_rec)

lemma upd_product_request_ok:
  assumes ok: "admin_ok (AR_upd_product u)" and mem: "length mem = NET_BUF_LEN" and msg: "nw_bufs msg" "nw_inv msg"
    and sg: "\<forall>kp \<in> set (admin_signers (AR_upd_product u)). ed_sign (take HASH_LEN kp) (enc_msg (admin_msg_of aset (AR_upd_product u))) = Some (sg kp) \<and> length (sg kp) = SIG_LEN"
  shows "if admin_size 2 (length (admin_data aset (AR_upd_product u))) \<le> 951
    then (\<exists>msg'. admin_request ed_sign mem aset (AR_upd_product u) msg = Some (set_sig (sg (ab_pkey u)) (AR_upd_product u), msg') \<and>
      jw_st msg' = jw_st msg \<and> nw_text msg' = nw_text msg @ sep (jw_first msg) @
        tx_call (enc_tx (map sg (admin_signers (AR_upd_product u))) (admin_msg_of aset (AR_upd_product u))))
    else admin_request ed_sign mem aset (AR_upd_product u) msg = None"
proof -
  let ?kps = "[ab_pkey u, upr_akey u]"
  have k: "length (ab_gkey u) = HASH_LEN" "length (ab_bhash u) = HASH_LEN" "length (ab_pkey u) = KEY_PAIR_LEN"
    "length (upr_akey u) = KEY_PAIR_LEN" "ad_inv (upr_aptr u)" using ok by (simp_all add: admin_ok_def)
  define at where "at = attrs_text aset (upr_aptr u)"
  obtain w bufs where w: "write_account aset (upr_aptr u) nw_new = Some w" "nw_detach w = Some (bufs, w\<lparr>wt_hd := [], wt_tl := None, wt_sz := 0\<rparr>)"
    "if length at < NET_BUF_LEN then hd bufs = at else length (hd bufs) = NET_BUF_LEN"
    using write_account_first [OF k(5), of aset] unfolding at_def by blast
  have eq: "admin_request ed_sign mem aset (AR_upd_product u) msg =
      do { (sig, msg) \<leftarrow> admin_tx ed_sign mem ?kps (upd_product_msg (hd bufs) u) msg; Some (set_sig sig (AR_upd_product u), msg) }"
    by (simp add: upd_product_request_def w(1,2) map_bind_pair)
  have body: "bwrites (upd_product_msg ahd u) (enc_msg (admin_message ?kps (ab_gkey u) (ab_bhash u) (cmd_hdr e_cmd_upd_product @ ahd)))" for ahd
    by (rule bwrites_upd_product_msg [OF k(1-4)])
  have m: "admin_msg_of aset (AR_upd_product u) = admin_message ?kps (ab_gkey u) (ab_bhash u) (cmd_hdr e_cmd_upd_product @ at)"
    by (simp add: admin_msg_of_def at_def)
  have d: "admin_data aset (AR_upd_product u) = cmd_hdr e_cmd_upd_product @ at" by (simp add: at_def)
  show ?thesis
  proof (cases "length at < NET_BUF_LEN")
    case True
    then have "hd bufs = at" using w(3) by simp
    moreover have "\<forall>kp \<in> set ?kps. ed_sign (take HASH_LEN kp) (enc_msg (admin_message ?kps (ab_gkey u) (ab_bhash u) (cmd_hdr e_cmd_upd_product @ at))) = Some (sg kp) \<and> length (sg kp) = SIG_LEN"
      using sg unfolding m by simp
    from admin_tx_ok [where ed_sign = ed_sign and sg = sg, OF _ _ _ k(1,2) body bstrict_admin_msgs(10) mem this msg] k(3,4)
    have "if admin_size 2 (length (cmd_hdr e_cmd_upd_product @ at)) \<le> 951
      then (\<exists>msg'. admin_tx ed_sign mem ?kps (upd_product_msg at u) msg = Some (sg (ab_pkey u), msg') \<and> jw_st msg' = jw_st msg \<and>
        nw_text msg' = nw_text msg @ sep (jw_first msg) @ tx_call (enc_tx (map sg ?kps)
          (admin_message ?kps (ab_gkey u) (ab_bhash u) (cmd_hdr e_cmd_upd_product @ at))))
      else admin_tx ed_sign mem ?kps (upd_product_msg at u) msg = None"
      by (simp add: numeral_2_eq_2 cong: if_cong)
    ultimately show ?thesis unfolding eq m d by (auto split: if_splits)
  next
    case False
    then have l: "length (hd bufs) = NET_BUF_LEN" using w(3) by simp
    have "1 + length ?kps * SIG_LEN + length (enc_msg (admin_message ?kps (ab_gkey u) (ab_bhash u) (cmd_hdr e_cmd_upd_product @ hd bufs))) =
        admin_size (length ?kps) (length (cmd_hdr e_cmd_upd_product @ hd bufs))"
      by (rule length_admin_msg) (use k in simp_all)
    then have "bc_tx ed_sign ?kps (upd_product_msg (hd bufs) u) (bc_attach mem) = None"
      by (intro bc_tx_overrun [OF body bstrict_admin_msgs(10)]) (use l mem in \<open>simp_all add: bc_attach_def admin_size_def NET_BUF_LEN_def\<close>)
    then show ?thesis using False unfolding eq d by (simp add: admin_tx_def admin_size_def NET_BUF_LEN_def)
  qed
qed

text \<open>(C7) Every administrative request whose transaction has at most 951 bytes writes a
  \<open>sendTransaction\<close> call with the base 64 text of a transaction that the decoder of the chain reads as the
  documented message: one instruction with the command of the request, all signing keys as its accounts with
  the documented roles, the program as the only read-only account, and one signature per signing key over
  the message; the request keeps the first signature.  A longer transaction, which only the attributes of a
  product can make, ends in a null pointer or overruns the buffer.\<close>

theorem admin_request_tx:
  assumes "admin_ok r" "length mem = NET_BUF_LEN" "nw_bufs msg" "nw_inv msg"
    and "\<forall>kp \<in> set (admin_signers r). ed_sign (take HASH_LEN kp) (enc_msg (admin_msg_of aset r)) = Some (sg kp) \<and> length (sg kp) = SIG_LEN"
  shows "if admin_size (length (admin_signers r)) (length (admin_data aset r)) \<le> 951
    then (\<exists>msg' tb. admin_request ed_sign mem aset r msg = Some (set_sig (sg (hd (admin_signers r))) r, msg') \<and>
      nw_text msg' = nw_text msg @ sep (jw_first msg) @ tx_call tb \<and> jw_st msg' = jw_st msg \<and>
      dec_tx tb = Some ((map sg (admin_signers r), admin_msg_of aset r), []) \<and>
      (\<forall>c. admin_cmd r = Some c \<longrightarrow>
        map (account_role (admin_msg_of aset r)) (ix_accs (hd (sm_ixs (admin_msg_of aset r)))) = map Some (command_roles c)))
    else admin_request ed_sign mem aset r msg = None"
proof -
  define tb where "tb = enc_tx (map sg (admin_signers r)) (admin_msg_of aset r)"
  have res: "if admin_size (length (admin_signers r)) (length (admin_data aset r)) \<le> 951
    then (\<exists>msg'. admin_request ed_sign mem aset r msg = Some (set_sig (sg (hd (admin_signers r))) r, msg') \<and>
      jw_st msg' = jw_st msg \<and> nw_text msg' = nw_text msg @ sep (jw_first msg) @ tx_call tb)
    else admin_request ed_sign mem aset r msg = None"
  proof (cases "is_upd_product r")
    case True
    then obtain u where "r = AR_upd_product u" by (auto simp: is_upd_product_def)
    moreover have "length (admin_signers (AR_upd_product u)) = 2" "hd (admin_signers (AR_upd_product u)) = ab_pkey u" by simp_all
    ultimately show ?thesis
      using upd_product_request_ok [of u mem msg ed_sign aset sg] assms unfolding tb_def by (simp only: if_True) auto
  next
    case False
    have k: "length (admin_signers r) < 127" "\<forall>kp \<in> set (admin_signers r). length kp = KEY_PAIR_LEN"
      "length (admin_prog r) = HASH_LEN" "length (admin_bhash r) = HASH_LEN"
      using assms(1) admin_signers_ok(2) [of r] by (simp_all add: admin_ok_def)
    from admin_tx_ok [where ed_sign = ed_sign and sg = sg, OF admin_signers_ok(1) k bwrites_admin_body [OF assms(1) False, of aset, unfolded admin_msg_of_def]
        bstrict_admin_body assms(2) assms(5) [unfolded admin_msg_of_def] assms(3,4)]
    show ?thesis unfolding admin_request_eq [OF False] tb_def admin_msg_of_def by (auto split: if_splits)
  qed
  show ?thesis
  proof (cases "admin_size (length (admin_signers r)) (length (admin_data aset r)) \<le> 951")
    case True
    have "dec_tx tb = Some ((map sg (admin_signers r), admin_msg_of aset r), [])"
      using dec_tx_enc [OF wf_admin_msg [OF assms(1) True], of "map sg (admin_signers r)" "[]"] assms(5) admin_signers_ok(2) [of r]
      by (simp add: tb_def)
    then show ?thesis using res True admin_roles [of r] by auto
  next
    case False
    then show ?thesis using res by simp
  qed
qed

definition sample_mapping :: init_mapping where
  "sample_mapping = \<lparr>ab_bhash = replicate 32 CHR ''b'', ab_pkey = replicate 64 CHR ''p'', ab_gkey = replicate 32 CHR ''g'',
     ab_sig = [], im_mkey = replicate 64 CHR ''m''\<rparr>"

theorem admin_request_tx_witness:
  "\<exists>msg' tb. admin_request sample_sign (replicate NET_BUF_LEN CHR ''m'') attr_set_new (AR_init_mapping sample_mapping) jw_new =
     Some (set_sig (replicate 64 CHR ''s'') (AR_init_mapping sample_mapping), msg') \<and> nw_text msg' = tx_call tb \<and>
     dec_tx tb = Some (([replicate 64 CHR ''s'', replicate 64 CHR ''s''], admin_msg_of attr_set_new (AR_init_mapping sample_mapping)), [])"
  using admin_request_tx [of "AR_init_mapping sample_mapping" "replicate NET_BUF_LEN CHR ''m''" jw_new sample_sign attr_set_new "\<lambda>_. replicate 64 CHR ''s''"]
  by (simp add: admin_ok_def sample_mapping_def KEY_PAIR_LEN_def HASH_LEN_def sample_sign_def SIG_LEN_def admin_size_def) blast

end
