(* ===== verification/Rpc_Request.thy ===== *)
theory Rpc_Request
  imports Json_Calls Key_Pair Json_Tree
begin

text \<open>
  The requests of the JSON-RPC client, \<open>pc/rpc\_client.cpp\<close> and \<open>pcapps/admin\_rpc\_client.cpp\<close>: the calls that
  write each request, and the readers of responses and notifications.  A reader returns the request object
  afterwards and the states in which its callback was invoked.  \<open>None\<close> is an access outside the node
  vector, the text or a key.
\<close>

section \<open>Names of types and states\<close>

definition price_type_str :: "string list" where
  "price_type_str = [''unknown'', ''price'', ''twap'']"

definition symbol_status_str :: "string list" where
  "symbol_status_str = [''unknown'', ''trading'', ''halted'']"

definition commitment_str :: "string list" where
  "commitment_str = [''unknown'', ''processed'', ''confirmed'', ''finalized'']"

text \<open>The loops over the tables; \<open>n\<close> is the number of values of the enumeration.\<close>

definition str_to_enum :: "string list \<Rightarrow> nat \<Rightarrow> string \<Rightarrow> nat" where
  "str_to_enum tbl n s = (case find (\<lambda>i. s = tbl ! i) [0..<n] of Some i \<Rightarrow> i | None \<Rightarrow> 0)"

definition enum_to_str :: "string list \<Rightarrow> nat \<Rightarrow> nat \<Rightarrow> string" where
  "enum_to_str tbl n i = tbl ! (if i < n then i else 0)"

definition str_to_price_type :: "string \<Rightarrow> nat" where
  "str_to_price_type = str_to_enum price_type_str 2"

definition price_type_to_str :: "nat \<Rightarrow> string" where
  "price_type_to_str = enum_to_str price_type_str 2"

definition str_to_symbol_status :: "string \<Rightarrow> nat" where
  "str_to_symbol_status = str_to_enum symbol_status_str 3"

definition symbol_status_to_str :: "nat \<Rightarrow> string" where
  "symbol_status_to_str = enum_to_str symbol_status_str 3"

definition str_to_commitment :: "string \<Rightarrow> nat" where
  "str_to_commitment = str_to_enum commitment_str 4"

definition commitment_to_str :: "nat \<Rightarrow> string" where
  "commitment_to_str = enum_to_str commitment_str 4"

text \<open>Every value reads back from its name; the name of a moving average is not recognised.\<close>

lemma enum_names:
  "i < 2 \<Longrightarrow> str_to_price_type (price_type_to_str i) = i"
  "i < 3 \<Longrightarrow> str_to_symbol_status (symbol_status_to_str i) = i"
  "i < 4 \<Longrightarrow> str_to_commitment (commitment_to_str i) = i"
  "str_to_price_type ''twap'' = 0"
proof -
  show "i < 2 \<Longrightarrow> str_to_price_type (price_type_to_str i) = i"
    by (cases "i = 0"; cases "i = 1") (auto simp: str_to_price_type_def price_type_to_str_def str_to_enum_def
      enum_to_str_def price_type_str_def upt_rec)
  show "i < 3 \<Longrightarrow> str_to_symbol_status (symbol_status_to_str i) = i"
    by (cases "i = 0"; cases "i = 1"; cases "i = 2") (auto simp: str_to_symbol_status_def symbol_status_to_str_def
      str_to_enum_def enum_to_str_def symbol_status_str_def upt_rec)
  show "i < 4 \<Longrightarrow> str_to_commitment (commitment_to_str i) = i"
    by (cases "i = 0"; cases "i = 1"; cases "i = 2"; cases "i = 3") (auto simp: str_to_commitment_def commitment_to_str_def
      str_to_enum_def enum_to_str_def commitment_str_def upt_rec)
  show "str_to_price_type ''twap'' = 0"
    by (simp add: str_to_price_type_def str_to_enum_def price_type_str_def upt_rec)
qed

section \<open>Requests\<close>

definition req_get_recent_block_hash :: "json_wtr \<Rightarrow> json_wtr option" where
  "req_get_recent_block_hash msg = jw_key ''method'' ''getRecentBlockhash'' msg"

definition req_get_slot :: "nat \<Rightarrow> json_wtr \<Rightarrow> json_wtr option" where
  "req_get_slot cmt msg =
     do { msg \<leftarrow> jw_key ''method'' ''getSlot'' msg;
          msg \<leftarrow> jw_key_type ''params'' jw_arr msg;
          msg \<leftarrow> jw_val_type jw_obj msg;
          msg \<leftarrow> jw_key ''commitment'' (commitment_to_str cmt) msg;
          msg \<leftarrow> jw_pop msg;
          jw_pop msg }"

definition req_get_account_info :: "string \<Rightarrow> nat \<Rightarrow> json_wtr \<Rightarrow> json_wtr option" where
  "req_get_account_info acc cmt msg =
     do { msg \<leftarrow> jw_key ''method'' ''getAccountInfo'' msg;
          msg \<leftarrow> jw_key_type ''params'' jw_arr msg;
          msg \<leftarrow> jw_val_hash acc msg;
          msg \<leftarrow> jw_val_type jw_obj msg;
          msg \<leftarrow> jw_key ''encoding'' ''base64+zstd'' msg;
          msg \<leftarrow> jw_key ''commitment'' (commitment_to_str cmt) msg;
          msg \<leftarrow> jw_pop msg;
          jw_pop msg }"

definition req_account_subscribe :: "string \<Rightarrow> nat \<Rightarrow> json_wtr \<Rightarrow> json_wtr option" where
  "req_account_subscribe acc cmt msg =
     do { msg \<leftarrow> jw_key ''method'' ''accountSubscribe'' msg;
          msg \<leftarrow> jw_key_type ''params'' jw_arr msg;
          msg \<leftarrow> jw_val_hash acc msg;
          msg \<leftarrow> jw_val_type jw_obj msg;
          msg \<leftarrow> jw_key ''encoding'' ''base64+zstd'' msg;
          msg \<leftarrow> jw_key ''commitment'' (commitment_to_str cmt) msg;
          msg \<leftarrow> jw_pop msg;
          jw_pop msg }"

definition req_program_subscribe :: "string \<Rightarrow> nat \<Rightarrow> json_wtr \<Rightarrow> json_wtr option" where
  "req_program_subscribe pgm cmt msg =
     do { msg \<leftarrow> jw_key ''method'' ''programSubscribe'' msg;
          msg \<leftarrow> jw_key_type ''params'' jw_arr msg;
          msg \<leftarrow> jw_val_hash pgm msg;
          msg \<leftarrow> jw_val_type jw_obj msg;
          msg \<leftarrow> jw_key ''encoding'' ''base64+zstd'' msg;
          msg \<leftarrow> jw_key ''commitment'' (commitment_to_str cmt) msg;
          msg \<leftarrow> jw_pop msg;
          jw_pop msg }"

text \<open>The filter compares the 32-bit account type at its offset in the account header.\<close>

definition ACC_TYPE_OFFSET :: u64 where
  "ACC_TYPE_OFFSET = 8"

definition req_get_program_accounts :: "string \<Rightarrow> nat \<Rightarrow> u32 \<Rightarrow> json_wtr \<Rightarrow> json_wtr option" where
  "req_get_program_accounts pgm cmt acct_type msg =
     do { msg \<leftarrow> jw_key ''method'' ''getProgramAccounts'' msg;
          msg \<leftarrow> jw_key_type ''params'' jw_arr msg;
          msg \<leftarrow> jw_val_hash pgm msg;
          msg \<leftarrow> jw_val_type jw_obj msg;
          msg \<leftarrow> jw_key ''encoding'' ''base64+zstd'' msg;
          msg \<leftarrow> jw_key ''commitment'' (commitment_to_str cmt) msg;
          msg \<leftarrow> (if acct_type \<noteq> 0 then
             do { msg \<leftarrow> jw_key_type ''filters'' jw_arr msg;
                  msg \<leftarrow> jw_val_type jw_obj msg;
                  msg \<leftarrow> jw_key_type ''memcmp'' jw_obj msg;
                  msg \<leftarrow> jw_key_uint ''offset'' ACC_TYPE_OFFSET msg;
                  msg \<leftarrow> jw_key_enc_base58 ''bytes'' (le_bytes 4 (unat acct_type)) msg;
                  msg \<leftarrow> jw_pop msg;
                  msg \<leftarrow> jw_pop msg;
                  jw_pop msg }
             else Some msg);
          msg \<leftarrow> jw_key_true ''withContext'' msg;
          msg \<leftarrow> jw_pop msg;
          jw_pop msg }"

definition req_get_minimum_balance :: "u64 \<Rightarrow> json_wtr \<Rightarrow> json_wtr option" where
  "req_get_minimum_balance sz msg =
     do { msg \<leftarrow> jw_key ''method'' ''getMinimumBalanceForRentExemption'' msg;
          msg \<leftarrow> jw_key_type ''params'' jw_arr msg;
          msg \<leftarrow> jw_val_uint sz msg;
          jw_pop msg }"

definition req_signature_subscribe :: "string \<Rightarrow> nat \<Rightarrow> json_wtr \<Rightarrow> json_wtr option" where
  "req_signature_subscribe sig cmt msg =
     do { msg \<leftarrow> jw_key ''method'' ''signatureSubscribe'' msg;
          msg \<leftarrow> jw_key_type ''params'' jw_arr msg;
          msg \<leftarrow> jw_val_signature sig msg;
          msg \<leftarrow> jw_val_type jw_obj msg;
          msg \<leftarrow> jw_key ''commitment'' (commitment_to_str cmt) msg;
          msg \<leftarrow> jw_pop msg;
          jw_pop msg }"

text \<open>The virtual call \<open>request\<close>, and the message that \<open>rpc\_client::send\<close> builds around it.\<close>

datatype rpc_req =
    Get_Recent_Block_Hash
  | Get_Slot nat
  | Get_Account_Info string nat
  | Account_Subscribe string nat
  | Program_Subscribe string nat
  | Get_Program_Accounts string nat u32
  | Get_Minimum_Balance u64
  | Signature_Subscribe string nat

fun rpc_request :: "rpc_req \<Rightarrow> json_wtr \<Rightarrow> json_wtr option" where
  "rpc_request Get_Recent_Block_Hash = req_get_recent_block_hash"
| "rpc_request (Get_Slot cmt) = req_get_slot cmt"
| "rpc_request (Get_Account_Info acc cmt) = req_get_account_info acc cmt"
| "rpc_request (Account_Subscribe acc cmt) = req_account_subscribe acc cmt"
| "rpc_request (Program_Subscribe pgm cmt) = req_program_subscribe pgm cmt"
| "rpc_request (Get_Program_Accounts pgm cmt ty) = req_get_program_accounts pgm cmt ty"
| "rpc_request (Get_Minimum_Balance sz) = req_get_minimum_balance sz"
| "rpc_request (Signature_Subscribe sig cmt) = req_signature_subscribe sig cmt"

fun get_is_http :: "rpc_req \<Rightarrow> bool" where
  "get_is_http (Account_Subscribe acc cmt) = False"
| "get_is_http (Program_Subscribe pgm cmt) = False"
| "get_is_http (Signature_Subscribe sig cmt) = False"
| "get_is_http _ = True"

definition rpc_message :: "u64 \<Rightarrow> (json_wtr \<Rightarrow> json_wtr option) \<Rightarrow> json_wtr option" where
  "rpc_message rid request =
     do { jw \<leftarrow> jw_val_type jw_obj jw_new;
          jw \<leftarrow> jw_key ''jsonrpc'' ''2.0'' jw;
          jw \<leftarrow> jw_key_uint ''id'' rid jw;
          jw \<leftarrow> request jw;
          jw_pop jw }"

section \<open>The documented calls\<close>

definition cmt_val :: "nat \<Rightarrow> string \<times> jv" where
  "cmt_val cmt = (''commitment'', JText (commitment_to_str cmt))"

fun rpc_doc :: "rpc_req \<Rightarrow> (string \<times> jv) list" where
  "rpc_doc Get_Recent_Block_Hash = [(''method'', JText ''getRecentBlockhash'')]"
| "rpc_doc (Get_Slot cmt) = [(''method'', JText ''getSlot''), (''params'', JArr [JObj [cmt_val cmt]])]"
| "rpc_doc (Get_Account_Info acc cmt) = [(''method'', JText ''getAccountInfo''),
     (''params'', JArr [JB58 acc, JObj [(''encoding'', JText ''base64+zstd''), cmt_val cmt]])]"
| "rpc_doc (Account_Subscribe acc cmt) = [(''method'', JText ''accountSubscribe''),
     (''params'', JArr [JB58 acc, JObj [(''encoding'', JText ''base64+zstd''), cmt_val cmt]])]"
| "rpc_doc (Program_Subscribe pgm cmt) = [(''method'', JText ''programSubscribe''),
     (''params'', JArr [JB58 pgm, JObj [(''encoding'', JText ''base64+zstd''), cmt_val cmt]])]"
| "rpc_doc (Get_Program_Accounts pgm cmt ty) = [(''method'', JText ''getProgramAccounts''),
     (''params'', JArr [JB58 pgm, JObj ([(''encoding'', JText ''base64+zstd''), cmt_val cmt] @
        (if ty \<noteq> 0 then [(''filters'', JArr [JObj [(''memcmp'', JObj [(''offset'', JUint ACC_TYPE_OFFSET),
           (''bytes'', JB58 (le_bytes 4 (unat ty)))])]])] else []) @ [(''withContext'', JRaw ''true'')])])]"
| "rpc_doc (Get_Minimum_Balance sz) = [(''method'', JText ''getMinimumBalanceForRentExemption''), (''params'', JArr [JUint sz])]"
| "rpc_doc (Signature_Subscribe sig cmt) = [(''method'', JText ''signatureSubscribe''),
     (''params'', JArr [JB58 sig, JObj [cmt_val cmt]])]"

fun rpc_req_ok :: "rpc_req \<Rightarrow> bool" where
  "rpc_req_ok (Get_Account_Info acc cmt) = (length acc = HASH_LEN)"
| "rpc_req_ok (Account_Subscribe acc cmt) = (length acc = HASH_LEN)"
| "rpc_req_ok (Program_Subscribe pgm cmt) = (length pgm = HASH_LEN)"
| "rpc_req_ok (Get_Program_Accounts pgm cmt ty) = (length pgm = HASH_LEN)"
| "rpc_req_ok (Signature_Subscribe sig cmt) = (length sig = SIG_LEN)"
| "rpc_req_ok _ = True"

text \<open>The text of a request behind the first members.\<close>

definition members_text :: "(string \<times> jv) list \<Rightarrow> string" where
  "members_text kvs = concat (map (\<lambda>(k, v). '','' @ quoted k @ '':'' @ render v) kvs)"

lemma rpc_request_text:
  assumes "rpc_req_ok r" "jw_state s False st w"
  shows "jw_ok (s @ members_text (rpc_doc r)) False st (rpc_request r w)"
proof -
  have k: "2 * n \<le> NET_BUF_LEN" if "n = HASH_LEN \<or> n = SIG_LEN \<or> n = 4" for n
    using that by (auto simp: NET_BUF_LEN_def HASH_LEN_def SIG_LEN_def)
  note defs = req_get_recent_block_hash_def req_get_slot_def req_get_account_info_def req_account_subscribe_def
    req_program_subscribe_def req_get_minimum_balance_def req_signature_subscribe_def
  note run = jw_ok_bind jw_exec jw_exec_base58 assms(2)
  note fin = members_text_def cmt_val_def opener_def closer_def
  show ?thesis
  proof (cases r)
    case Get_Recent_Block_Hash
    show ?thesis unfolding Get_Recent_Block_Hash rpc_request.simps defs
      by (rule jw_ok_eq, (rule run)+) (simp add: fin)
  next
    case (Get_Slot cmt)
    show ?thesis unfolding Get_Slot rpc_request.simps defs
      by (rule jw_ok_eq, (rule run | assumption)+) (simp add: fin)
  next
    case (Get_Account_Info acc cmt)
    then have a: "2 * length acc \<le> NET_BUF_LEN" using assms(1) k by simp
    show ?thesis unfolding Get_Account_Info rpc_request.simps defs
      by (rule jw_ok_eq, (rule run a | assumption)+) (simp add: fin)
  next
    case (Account_Subscribe acc cmt)
    then have a: "2 * length acc \<le> NET_BUF_LEN" using assms(1) k by simp
    show ?thesis unfolding Account_Subscribe rpc_request.simps defs
      by (rule jw_ok_eq, (rule run a | assumption)+) (simp add: fin)
  next
    case (Program_Subscribe pgm cmt)
    then have a: "2 * length pgm \<le> NET_BUF_LEN" using assms(1) k by simp
    show ?thesis unfolding Program_Subscribe rpc_request.simps defs
      by (rule jw_ok_eq, (rule run a | assumption)+) (simp add: fin)
  next
    case (Get_Program_Accounts pgm cmt ty)
    then have a: "2 * length pgm \<le> NET_BUF_LEN" using assms(1) k by simp
    have b: "2 * length (le_bytes 4 (unat ty)) \<le> NET_BUF_LEN" by (simp add: NET_BUF_LEN_def)
    show ?thesis
    proof (cases "ty = 0")
      case True
      show ?thesis unfolding Get_Program_Accounts rpc_request.simps req_get_program_accounts_def
        by (simp add: True, rule jw_ok_eq, (rule run a | assumption)+) (simp add: fin True)
    next
      case False
      show ?thesis unfolding Get_Program_Accounts rpc_request.simps req_get_program_accounts_def
        by (simp add: False, rule jw_ok_eq, (rule run a b | assumption)+) (simp add: fin False)
    qed
  next
    case (Get_Minimum_Balance sz)
    show ?thesis unfolding Get_Minimum_Balance rpc_request.simps defs
      by (rule jw_ok_eq, (rule run | assumption)+) (simp add: fin)
  next
    case (Signature_Subscribe sig cmt)
    then have a: "2 * length sig \<le> NET_BUF_LEN" using assms(1) k by simp
    show ?thesis unfolding Signature_Subscribe rpc_request.simps defs
      by (rule jw_ok_eq, (rule run a | assumption)+) (simp add: fin)
  qed
qed

text \<open>The message of every request is the JSON-RPC call that the node documents: version, number, method
  and parameters, as the reference printer writes it.\<close>

lemma rpc_message_ok:
  assumes "rpc_req_ok r"
  shows "jw_ok (render (JObj ([(''jsonrpc'', JText ''2.0''), (''id'', JUint rid)] @ rpc_doc r))) False []
    (rpc_message rid (rpc_request r))"
proof -
  define s where "s = ''{'' @ quoted ''jsonrpc'' @ '':'' @ quoted ''2.0'' @ '','' @ quoted ''id'' @ '':'' @ uint_to_str rid @
    members_text (rpc_doc r) @ ''}''"
  have "jw_ok s False [] (rpc_message rid (rpc_request r))"
    unfolding rpc_message_def
    by (rule jw_ok_eq, (rule jw_ok_bind jw_exec jw_state_new rpc_request_text [OF assms] | simp only: | assumption)+)
      (simp add: s_def opener_def closer_def)
  moreover have "s = render (JObj ([(''jsonrpc'', JText ''2.0''), (''id'', JUint rid)] @ rpc_doc r))"
    by (simp add: s_def sep_by_Cons members_text_def comp_def case_prod_unfold)
  ultimately show ?thesis by simp
qed

end
