(* ===== verification/Rpc_Response.thy ===== *)
theory Rpc_Response
  imports Rpc_Request
begin

text \<open>
  The replies of the JSON-RPC calls, \<open>pc/rpc_client.cpp\<close> and \<open>pcapps/admin_rpc_client.cpp\<close>: the methods
  \<open>response\<close> and \<open>notify\<close> of the request classes.  A reader takes the parse tree of the reply and the
  request object and gives the object after the reply, the states in which the object was shown to its
  subscriber (one for every call of \<open>on_response\<close>) and the subscription under which it was registered.
  A read outside the node vector of the tree or outside the text, and a key that overflows the fixed
  buffer, are \<open>None\<close>.
\<close>

section \<open>The request object\<close>

datatype rpc_class =
    C_Block_Hash | C_Slot | C_Account_Info | C_Account_Subscribe | C_Program_Subscribe
  | C_Program_Accounts | C_Upd_Price | C_Minimum_Balance | C_Signature_Subscribe | C_Transaction

text \<open>The base class \<open>rpc\_request\<close> (with \<open>error\<close>: \<open>rq_err\<close> is the message when \<open>is\_err\_\<close> is set), followed
  by the result fields of the derived classes.  Classes share a field that means the same in all of them
  (\<open>slot\_\<close> and \<open>cslot\_\<close>, \<open>lamports\_\<close>); \<open>C_Transaction\<close> is every administration transaction, which has no
  result.  \<open>dptr\_\<close>, \<open>dlen\_\<close> and \<open>optr\_\<close>, \<open>olen\_\<close> are the texts they delimit.\<close>

record rpc_obj =
  rq_class :: rpc_class
  rq_id :: u64
  rq_err :: "string option"
  rq_ec :: int
  rq_sent :: int
  rq_recv :: int
  rq_slot :: u64
  rq_bhash :: string
  rq_fee :: u64
  rq_lamports :: u64
  rq_acc :: string
  rq_data :: string
  rq_owner :: string
  rq_exec :: bool
  rq_rent :: u64
  rq_ack :: string

definition rq_is_err :: "rpc_obj \<Rightarrow> bool" where
  "rq_is_err rq \<longleftrightarrow> rq_err rq \<noteq> None"

definition rq_reset_err :: "rpc_obj \<Rightarrow> rpc_obj" where
  "rq_reset_err rq = rq\<lparr>rq_err := None\<rparr>"

definition get_is_recv :: "rpc_obj \<Rightarrow> bool" where
  "get_is_recv rq \<longleftrightarrow> rq_recv rq \<ge> rq_sent rq"

type_synonym rpc_reply = "(rpc_obj \<times> rpc_obj list \<times> u64 option) option"

text \<open>\<open>now\<close> is the time of \<open>get\_now\<close>.\<close>

definition on_response :: "int \<Rightarrow> rpc_obj \<Rightarrow> rpc_obj" where
  "on_response now rq = rq\<lparr>rq_recv := now\<rparr>"

definition on_error :: "int \<Rightarrow> jtree \<Rightarrow> rpc_obj \<Rightarrow> rpc_obj option option" where
  "on_error now jt rq =
     do { etok \<leftarrow> jt_find_val jt 1 ''error'';
          if etok = 0 then Some None
          else do { mtok \<leftarrow> jt_find_val jt etok ''message'';
                    emsg \<leftarrow> jt_get_str jt mtok;
                    ctok \<leftarrow> jt_find_val jt etok ''code'';
                    code \<leftarrow> jt_get_int jt ctok;
                    Some (Some (on_response now (rq\<lparr>rq_err := Some emsg, rq_ec := signed_take_bit 31 code\<rparr>))) } }"

text \<open>The first line of every \<open>response\<close>.\<close>

definition unless_error :: "int \<Rightarrow> jtree \<Rightarrow> rpc_obj \<Rightarrow> rpc_reply \<Rightarrow> rpc_reply" where
  "unless_error now jt rq body =
     do { e \<leftarrow> on_error now jt rq; (case e of Some rq \<Rightarrow> Some (rq, [rq], None) | None \<Rightarrow> body) }"

definition answered :: "int \<Rightarrow> rpc_obj \<Rightarrow> rpc_reply" where
  "answered now rq = (let rq = on_response now rq in Some (rq, [rq], None))"

definition find_uint :: "jtree \<Rightarrow> nat \<Rightarrow> string \<Rightarrow> u64 option" where
  "find_uint jt tok key = do { vtok \<leftarrow> jt_find_val jt tok key; jt_get_uint jt vtok }"

definition find_str :: "jtree \<Rightarrow> nat \<Rightarrow> string \<Rightarrow> string option" where
  "find_str jt tok key = do { vtok \<leftarrow> jt_find_val jt tok key; jt_get_str jt vtok }"

definition find_bool :: "jtree \<Rightarrow> nat \<Rightarrow> string \<Rightarrow> bool option" where
  "find_bool jt tok key = do { vtok \<leftarrow> jt_find_val jt tok key; jt_get_bool jt vtok }"

text \<open>The first element of the array under \<open>data\<close>.\<close>

definition find_data :: "jtree \<Rightarrow> nat \<Rightarrow> string option" where
  "find_data jt tok = do { dtok \<leftarrow> jt_find_val jt tok ''data''; ftok \<leftarrow> jt_get_first jt dtok; jt_get_str jt ftok }"

section \<open>Replies\<close>

definition rsp_block_hash :: "int \<Rightarrow> jtree \<Rightarrow> rpc_obj \<Rightarrow> rpc_reply" where
  "rsp_block_hash now jt rq = unless_error now jt rq
     (do { rtok \<leftarrow> jt_find_val jt 1 ''result'';
           ctok \<leftarrow> jt_find_val jt rtok ''context'';
           slot \<leftarrow> find_uint jt ctok ''slot'';
           vtok \<leftarrow> jt_find_val jt rtok ''value'';
           txt \<leftarrow> find_str jt vtok ''blockhash'';
           bhash \<leftarrow> dec_base58_into txt (rq_bhash rq);
           ftok \<leftarrow> jt_find_val jt vtok ''feeCalculator'';
           fee \<leftarrow> find_uint jt ftok ''lamportsPerSignature'';
           answered now (rq\<lparr>rq_slot := slot, rq_bhash := bhash, rq_fee := fee\<rparr>) })"

definition rsp_slot :: "int \<Rightarrow> jtree \<Rightarrow> rpc_obj \<Rightarrow> rpc_reply" where
  "rsp_slot now jt rq = unless_error now jt rq
     (do { cslot \<leftarrow> find_uint jt 1 ''result''; answered now (rq\<lparr>rq_slot := cslot\<rparr>) })"

definition rsp_account_info :: "int \<Rightarrow> jtree \<Rightarrow> rpc_obj \<Rightarrow> rpc_reply" where
  "rsp_account_info now jt rq = unless_error now jt rq
     (do { rtok \<leftarrow> jt_find_val jt 1 ''result'';
           ctok \<leftarrow> jt_find_val jt rtok ''context'';
           slot \<leftarrow> find_uint jt ctok ''slot'';
           vtok \<leftarrow> jt_find_val jt rtok ''value'';
           exec \<leftarrow> find_bool jt vtok ''executable'';
           lamports \<leftarrow> find_uint jt vtok ''lamports'';
           data \<leftarrow> find_data jt vtok;
           owner \<leftarrow> find_str jt vtok ''owner'';
           rent \<leftarrow> find_uint jt vtok ''rentEpoch'';
           answered now (rq\<lparr>rq_slot := slot, rq_exec := exec, rq_lamports := lamports, rq_data := data,
             rq_owner := owner, rq_rent := rent\<rparr>) })"

text \<open>\<open>rpc\_subscription::add\_notify\<close>: the request takes the number of the subscription and is registered
  under it.\<close>

definition add_notify_sub :: "jtree \<Rightarrow> rpc_obj \<Rightarrow> rpc_reply" where
  "add_notify_sub jt rq =
     do { rtok \<leftarrow> jt_find_val jt 1 ''result'';
          if rtok \<noteq> 0 then do { subid \<leftarrow> jt_get_uint jt rtok; Some (rq\<lparr>rq_id := subid\<rparr>, [], Some subid) }
          else Some (rq, [], None) }"

definition rsp_account_subscribe :: "int \<Rightarrow> jtree \<Rightarrow> rpc_obj \<Rightarrow> rpc_reply" where
  "rsp_account_subscribe now jt rq = unless_error now jt rq (add_notify_sub jt rq)"

definition rsp_program_subscribe :: "int \<Rightarrow> jtree \<Rightarrow> rpc_obj \<Rightarrow> rpc_reply" where
  "rsp_program_subscribe now jt rq = unless_error now jt rq (add_notify_sub jt rq)"

definition rsp_signature_subscribe :: "int \<Rightarrow> jtree \<Rightarrow> rpc_obj \<Rightarrow> rpc_reply" where
  "rsp_signature_subscribe now jt rq = unless_error now jt rq (add_notify_sub jt rq)"

text \<open>The loop over the accounts of a program shows every account to the subscriber.\<close>

partial_function (option) program_accounts_loop ::
    "int \<Rightarrow> jtree \<Rightarrow> nat \<Rightarrow> rpc_obj \<Rightarrow> rpc_obj list \<Rightarrow> (rpc_obj \<times> rpc_obj list) option" where
  [code]: "program_accounts_loop now jt tok rq shown =
     (if tok = 0 then Some (rq, shown)
      else do { akey \<leftarrow> find_str jt tok ''pubkey'';
                acc \<leftarrow> hash_init_from_text akey (rq_acc rq);
                atok \<leftarrow> jt_find_val jt tok ''account'';
                lamports \<leftarrow> find_uint jt atok ''lamports'';
                data \<leftarrow> find_data jt atok;
                let rq = on_response now (rq\<lparr>rq_acc := acc, rq_lamports := lamports, rq_data := data\<rparr>);
                tok \<leftarrow> jt_get_next jt tok;
                program_accounts_loop now jt tok rq (shown @ [rq]) })"

definition rsp_program_accounts :: "int \<Rightarrow> jtree \<Rightarrow> rpc_obj \<Rightarrow> rpc_reply" where
  "rsp_program_accounts now jt rq = unless_error now jt rq
     (do { rtok \<leftarrow> jt_find_val jt 1 ''result'';
           ctok \<leftarrow> jt_find_val jt rtok ''context'';
           slot \<leftarrow> find_uint jt ctok ''slot'';
           vtok \<leftarrow> jt_find_val jt rtok ''value'';
           tok \<leftarrow> jt_get_first jt vtok;
           (rq, shown) \<leftarrow> program_accounts_loop now jt tok (rq\<lparr>rq_slot := slot\<rparr>) [];
           Some (rq, shown, None) })"

definition rsp_upd_price :: "int \<Rightarrow> jtree \<Rightarrow> rpc_obj \<Rightarrow> rpc_reply" where
  "rsp_upd_price now jt rq = unless_error now jt rq
     (do { rtok \<leftarrow> jt_find_val jt 1 ''result'';
           if rtok = 0 then Some (rq, [], None)
           else do { ack \<leftarrow> jt_get_str jt rtok; answered now (rq\<lparr>rq_ack := ack\<rparr>) } })"

definition rsp_minimum_balance :: "int \<Rightarrow> jtree \<Rightarrow> rpc_obj \<Rightarrow> rpc_reply" where
  "rsp_minimum_balance now jt rq = unless_error now jt rq
     (do { lamports \<leftarrow> find_uint jt 1 ''result''; answered now (rq\<lparr>rq_lamports := lamports\<rparr>) })"

definition rsp_transaction :: "int \<Rightarrow> jtree \<Rightarrow> rpc_obj \<Rightarrow> rpc_reply" where
  "rsp_transaction now jt rq = unless_error now jt rq (answered now rq)"

definition rpc_response :: "int \<Rightarrow> jtree \<Rightarrow> rpc_obj \<Rightarrow> rpc_reply" where
  "rpc_response now jt rq =
     (case rq_class rq of
        C_Block_Hash \<Rightarrow> rsp_block_hash now jt rq
      | C_Slot \<Rightarrow> rsp_slot now jt rq
      | C_Account_Info \<Rightarrow> rsp_account_info now jt rq
      | C_Account_Subscribe \<Rightarrow> rsp_account_subscribe now jt rq
      | C_Program_Subscribe \<Rightarrow> rsp_program_subscribe now jt rq
      | C_Program_Accounts \<Rightarrow> rsp_program_accounts now jt rq
      | C_Upd_Price \<Rightarrow> rsp_upd_price now jt rq
      | C_Minimum_Balance \<Rightarrow> rsp_minimum_balance now jt rq
      | C_Signature_Subscribe \<Rightarrow> rsp_signature_subscribe now jt rq
      | C_Transaction \<Rightarrow> rsp_transaction now jt rq)"

section \<open>Notifications\<close>

text \<open>The result is whether the subscription ends, the object and the states shown to the subscriber.\<close>

type_synonym rpc_note = "(bool \<times> rpc_obj \<times> rpc_obj list) option"

definition note_unless_error :: "int \<Rightarrow> jtree \<Rightarrow> rpc_obj \<Rightarrow> rpc_note \<Rightarrow> rpc_note" where
  "note_unless_error now jt rq body =
     do { e \<leftarrow> on_error now jt rq; (case e of Some rq \<Rightarrow> Some (True, rq, [rq]) | None \<Rightarrow> body) }"

definition ntf_account_subscribe :: "int \<Rightarrow> jtree \<Rightarrow> rpc_obj \<Rightarrow> rpc_note" where
  "ntf_account_subscribe now jt rq = note_unless_error now jt rq
     (do { ptok \<leftarrow> jt_find_val jt 1 ''params'';
           rtok \<leftarrow> jt_find_val jt ptok ''result'';
           ctok \<leftarrow> jt_find_val jt rtok ''context'';
           slot \<leftarrow> find_uint jt ctok ''slot'';
           vtok \<leftarrow> jt_find_val jt rtok ''value'';
           data \<leftarrow> find_data jt vtok;
           lamports \<leftarrow> find_uint jt vtok ''lamports'';
           let rq = on_response now (rq\<lparr>rq_slot := slot, rq_data := data, rq_lamports := lamports\<rparr>);
           Some (False, rq, [rq]) })"

definition ntf_program_subscribe :: "int \<Rightarrow> jtree \<Rightarrow> rpc_obj \<Rightarrow> rpc_note" where
  "ntf_program_subscribe now jt rq = note_unless_error now jt rq
     (do { ptok \<leftarrow> jt_find_val jt 1 ''params'';
           rtok \<leftarrow> jt_find_val jt ptok ''result'';
           ctok \<leftarrow> jt_find_val jt rtok ''context'';
           slot \<leftarrow> find_uint jt ctok ''slot'';
           vtok \<leftarrow> jt_find_val jt rtok ''value'';
           akey \<leftarrow> find_str jt vtok ''pubkey'';
           acc \<leftarrow> hash_init_from_text akey (rq_acc rq);
           atok \<leftarrow> jt_find_val jt vtok ''account'';
           data \<leftarrow> find_data jt atok;
           lamports \<leftarrow> find_uint jt atok ''lamports'';
           let rq = on_response now (rq\<lparr>rq_slot := slot, rq_acc := acc, rq_data := data, rq_lamports := lamports\<rparr>);
           Some (False, rq, [rq]) })"

definition ntf_signature_subscribe :: "int \<Rightarrow> jtree \<Rightarrow> rpc_obj \<Rightarrow> rpc_note" where
  "ntf_signature_subscribe now jt rq = note_unless_error now jt rq
     (do { ptok \<leftarrow> jt_find_val jt 1 ''params'';
           rtok \<leftarrow> jt_find_val jt ptok ''result'';
           ctok \<leftarrow> jt_find_val jt rtok ''context'';
           slot \<leftarrow> find_uint jt ctok ''slot'';
           let rq = on_response now (rq\<lparr>rq_slot := slot\<rparr>);
           Some (True, rq, [rq]) })"

definition rpc_notify :: "int \<Rightarrow> jtree \<Rightarrow> rpc_obj \<Rightarrow> rpc_note" where
  "rpc_notify now jt rq =
     (case rq_class rq of
        C_Account_Subscribe \<Rightarrow> ntf_account_subscribe now jt rq
      | C_Program_Subscribe \<Rightarrow> ntf_program_subscribe now jt rq
      | C_Signature_Subscribe \<Rightarrow> ntf_signature_subscribe now jt rq
      | _ \<Rightarrow> Some (True, rq, []))"

section \<open>Reading documented replies\<close>

lemma find_uint_json: "json_at jt i (JObj kvs) \<Longrightarrow> map_of kvs k = Some (JUint u) \<Longrightarrow> find_uint jt i k = Some u"
  by (elim json_at_find_Some, assumption) (simp add: find_uint_def json_at_uint)

lemma find_str_json: "json_at jt i (JObj kvs) \<Longrightarrow> map_of kvs k = Some (JText s) \<Longrightarrow> find_str jt i k = Some s"
  by (elim json_at_find_Some, assumption) (simp add: find_str_def json_at_text)

lemma find_bool_json:
  "json_at jt i (JObj kvs) \<Longrightarrow> map_of kvs k = Some (JRaw s) \<Longrightarrow> s \<noteq> [] \<Longrightarrow> find_bool jt i k = Some (hd s = CHR ''t'')"
  by (elim json_at_find_Some, assumption) (simp add: find_bool_def json_at_bool)

lemma find_data_json:
  assumes "json_at jt i (JObj kvs)" "map_of kvs ''data'' = Some (JArr (JText d # ds))"
  shows "find_data jt i = Some d"
proof -
  obtain j where j: "jt_find_val jt i ''data'' = Some j" "json_at jt j (JArr (JText d # ds))"
    by (rule json_at_find_Some [OF assms])
  then show ?thesis using json_at_first [OF j(2)] by (auto simp: find_data_def json_at_text)
qed

lemmas find_json = find_uint_json find_str_json find_bool_json find_data_json

lemma on_error_none: "json_at jt 1 (JObj kvs) \<Longrightarrow> map_of kvs ''error'' = None \<Longrightarrow> on_error now jt rq = Some None"
  by (simp add: on_error_def json_at_find_None)

lemma on_error_some:
  assumes "json_at jt 1 (JObj kvs)" "map_of kvs ''error'' = Some (JObj e)"
    and "map_of e ''message'' = Some (JText msg)" "map_of e ''code'' = Some (JInt code)" "- (2 ^ 63) < code" "code < 2 ^ 63"
  shows "on_error now jt rq = Some (Some (rq\<lparr>rq_err := Some msg, rq_ec := signed_take_bit 31 code, rq_recv := now\<rparr>))"
proof -
  obtain i where i: "jt_find_val jt 1 ''error'' = Some i" "json_at jt i (JObj e)" "i \<noteq> 0"
    by (rule json_at_find_Some [OF assms(1,2)])
  obtain m where m: "jt_find_val jt i ''message'' = Some m" "json_at jt m (JText msg)" by (rule json_at_find_Some [OF i(2) assms(3)])
  obtain c where c: "jt_find_val jt i ''code'' = Some c" "json_at jt c (JInt code)" by (rule json_at_find_Some [OF i(2) assms(4)])
  show ?thesis using i m c json_at_text [OF m(2)] json_at_int [OF c(2) assms(5,6)]
    by (simp add: on_error_def on_response_def)
qed

text \<open>An error reply has the same effect on every class.\<close>

lemma rpc_response_error:
  assumes "on_error now jt rq = Some (Some rq')"
  shows "rpc_response now jt rq = Some (rq', [rq'], None)"
  using assms
  by (simp add: rpc_response_def rsp_block_hash_def rsp_slot_def rsp_account_info_def rsp_account_subscribe_def
    rsp_program_subscribe_def rsp_signature_subscribe_def rsp_program_accounts_def rsp_upd_price_def
    rsp_minimum_balance_def rsp_transaction_def unless_error_def split: rpc_class.split)

definition account_reply :: "(string \<times> jv) list \<Rightarrow> u64 \<Rightarrow> string \<Rightarrow> u64 \<Rightarrow> string \<Rightarrow> string \<Rightarrow> u64 \<Rightarrow> bool" where
  "account_reply kvs slot exec lamports data owner rent \<longleftrightarrow>
     (\<exists>r c a ds. map_of kvs ''error'' = None \<and> map_of kvs ''result'' = Some (JObj r) \<and>
        map_of r ''context'' = Some (JObj c) \<and> map_of c ''slot'' = Some (JUint slot) \<and> map_of r ''value'' = Some (JObj a) \<and>
        map_of a ''executable'' = Some (JRaw exec) \<and> map_of a ''lamports'' = Some (JUint lamports) \<and>
        map_of a ''data'' = Some (JArr (JText data # ds)) \<and> map_of a ''owner'' = Some (JText owner) \<and>
        map_of a ''rentEpoch'' = Some (JUint rent))"

lemma account_reply_read:
  assumes "json_at jt 1 (JObj kvs)" "account_reply kvs slot exec lamports data owner rent" "exec \<noteq> []"
  shows "rsp_account_info now jt rq =
    (let rq' = rq\<lparr>rq_slot := slot, rq_exec := (hd exec = CHR ''t''), rq_lamports := lamports, rq_data := data,
       rq_owner := owner, rq_rent := rent, rq_recv := now\<rparr> in Some (rq', [rq'], None))"
proof -
  obtain r c a ds where e: "map_of kvs ''error'' = None" and r: "map_of kvs ''result'' = Some (JObj r)"
    and c: "map_of r ''context'' = Some (JObj c)" "map_of c ''slot'' = Some (JUint slot)"
    and a: "map_of r ''value'' = Some (JObj a)" "map_of a ''executable'' = Some (JRaw exec)"
      "map_of a ''lamports'' = Some (JUint lamports)" "map_of a ''data'' = Some (JArr (JText data # ds))"
      "map_of a ''owner'' = Some (JText owner)" "map_of a ''rentEpoch'' = Some (JUint rent)"
    using assms(2) unfolding account_reply_def by blast
  obtain i where i: "jt_find_val jt 1 ''result'' = Some i" "json_at jt i (JObj r)" by (rule json_at_find_Some [OF assms(1) r])
  obtain j where j: "jt_find_val jt i ''context'' = Some j" "json_at jt j (JObj c)" by (rule json_at_find_Some [OF i(2) c(1)])
  obtain k where k: "jt_find_val jt i ''value'' = Some k" "json_at jt k (JObj a)" by (rule json_at_find_Some [OF i(2) a(1)])
  have f: "find_uint jt j ''slot'' = Some slot" "find_bool jt k ''executable'' = Some (hd exec = CHR ''t'')"
    "find_uint jt k ''lamports'' = Some lamports" "find_data jt k = Some data" "find_str jt k ''owner'' = Some owner"
    "find_uint jt k ''rentEpoch'' = Some rent"
    by (rule find_uint_json [OF j(2) c(2)] find_bool_json [OF k(2) a(2) assms(3)] find_uint_json [OF k(2) a(3)]
      find_data_json [OF k(2) a(4)] find_str_json [OF k(2) a(5)] find_uint_json [OF k(2) a(6)])+
  show ?thesis
    by (simp add: rsp_account_info_def unless_error_def on_error_none [OF assms(1) e] i j k f answered_def on_response_def Let_def del: One_nat_def)
qed

text \<open>(C12) End to end from the text of a reply: an account reply in the documented form, whatever
  the order of its members and whatever other members it has, fills the fields of the request with the values in
  the text and shows it once to the subscriber; an error reply to any class of request records message and code
  and shows the request once.\<close>

theorem rpc_reply_read:
  assumes "clean (JObj kvs)" "length (render (JObj kvs)) + 4 < 2 ^ 24"
  shows "\<exists>jt. jt_parse (render (JObj kvs)) = Some jt \<and>
    (account_reply kvs slot exec lamports data owner rent \<and> exec \<in> {''true'', ''false''} \<and> rq_class rq = C_Account_Info \<longrightarrow>
       (let rq' = rq\<lparr>rq_slot := slot, rq_exec := (exec = ''true''), rq_lamports := lamports, rq_data := data,
          rq_owner := owner, rq_rent := rent, rq_recv := now\<rparr> in rpc_response now jt rq = Some (rq', [rq'], None))) \<and>
    (map_of kvs ''error'' = Some (JObj e) \<and> map_of e ''message'' = Some (JText msg) \<and> map_of e ''code'' = Some (JInt code) \<longrightarrow>
       (let rq' = rq\<lparr>rq_err := Some msg, rq_ec := signed_take_bit 31 code, rq_recv := now\<rparr>
        in rpc_response now jt rq = Some (rq', [rq'], None)))"
proof -
  obtain jt where jt: "jt_parse (render (JObj kvs)) = Some jt" "json_at jt 1 (JObj kvs)"
    by (rule jt_parse_json [OF assms(1) _ assms(2)]) simp
  have "- (2 ^ 63) < code \<and> code < 2 ^ 63"
    if "map_of kvs ''error'' = Some (JObj e)" "map_of e ''code'' = Some (JInt code)"
    using assms(1) map_of_SomeD [OF that(1)] map_of_SomeD [OF that(2)] by fastforce
  then have err: "rpc_response now jt rq = (let rq' = rq\<lparr>rq_err := Some msg, rq_ec := signed_take_bit 31 code, rq_recv := now\<rparr>
      in Some (rq', [rq'], None))"
    if "map_of kvs ''error'' = Some (JObj e)" "map_of e ''message'' = Some (JText msg)" "map_of e ''code'' = Some (JInt code)"
    using rpc_response_error [OF on_error_some [OF jt(2) that]] that by (simp add: Let_def)
  have acc: "rpc_response now jt rq = (let rq' = rq\<lparr>rq_slot := slot, rq_exec := (exec = ''true''), rq_lamports := lamports, rq_data := data,
      rq_owner := owner, rq_rent := rent, rq_recv := now\<rparr> in Some (rq', [rq'], None))"
    if "account_reply kvs slot exec lamports data owner rent" "exec = ''true'' \<or> exec = ''false''" "rq_class rq = C_Account_Info"
  proof -
    have "exec \<noteq> []" "(hd exec = CHR ''t'') = (exec = ''true'')" using that(2) by auto
    then show ?thesis using account_reply_read [OF jt(2) that(1), of now rq] that(3) by (simp add: rpc_response_def)
  qed
  show ?thesis
  proof (intro exI [of _ jt] conjI impI)
    show "jt_parse (render (JObj kvs)) = Some jt" by (rule jt(1))
  next
    assume a: "account_reply kvs slot exec lamports data owner rent \<and> exec \<in> {''true'', ''false''} \<and> rq_class rq = C_Account_Info"
    then have "exec = ''true'' \<or> exec = ''false''" by blast
    from acc [OF _ this] a show "let rq' = rq\<lparr>rq_slot := slot, rq_exec := (exec = ''true''), rq_lamports := lamports, rq_data := data,
        rq_owner := owner, rq_rent := rent, rq_recv := now\<rparr> in rpc_response now jt rq = Some (rq', [rq'], None)"
      by (simp only: Let_def)
  next
    assume "map_of kvs ''error'' = Some (JObj e) \<and> map_of e ''message'' = Some (JText msg) \<and> map_of e ''code'' = Some (JInt code)"
    with err show "let rq' = rq\<lparr>rq_err := Some msg, rq_ec := signed_take_bit 31 code, rq_recv := now\<rparr>
        in rpc_response now jt rq = Some (rq', [rq'], None)"
      by (simp only: Let_def simp_thms)
  qed
qed

definition rpc_obj_new :: "rpc_class \<Rightarrow> rpc_obj" where
  "rpc_obj_new c = \<lparr>rq_class = c, rq_id = 0, rq_err = None, rq_ec = 0, rq_sent = 0, rq_recv = 0, rq_slot = 0, rq_bhash = hash_zero,
     rq_fee = 0, rq_lamports = 0, rq_acc = hash_zero, rq_data = [], rq_owner = [], rq_exec = False, rq_rent = 0, rq_ack = []\<rparr>"

theorem rpc_reply_read_witness:
  "\<exists>jt. jt_parse ''{\"error\":{\"code\":-9,\"message\":\"behind\"},\"id\":1}'' = Some jt \<and>
     rpc_response 5 jt (rpc_obj_new C_Slot) =
       Some ((rpc_obj_new C_Slot)\<lparr>rq_err := Some ''behind'', rq_ec := - 9, rq_recv := 5\<rparr>,
         [(rpc_obj_new C_Slot)\<lparr>rq_err := Some ''behind'', rq_ec := - 9, rq_recv := 5\<rparr>], None)"
proof -
  define e where "e = [(''code'', JInt (- 9)), (''message'', JText ''behind'')]"
  define kvs where "kvs = [(''error'', JObj e), (''id'', JUint 1)]"
  have r: "render (JObj kvs) = ''{\"error\":{\"code\":-9,\"message\":\"behind\"},\"id\":1}''" unfolding kvs_def e_def by code_simp
  have k: "map_of kvs ''error'' = Some (JObj e)" "map_of e ''message'' = Some (JText ''behind'')" "map_of e ''code'' = Some (JInt (- 9))"
    by (simp_all add: kvs_def e_def)
  have c: "clean (JObj kvs)" by (simp add: kvs_def e_def)
  have l: "length (render (JObj kvs)) + 4 < 2 ^ 24" unfolding r by simp
  have b: "signed_take_bit 31 (- 9) = (- 9 :: int)" by simp
  obtain jt where "jt_parse (render (JObj kvs)) = Some jt"
    "map_of kvs ''error'' = Some (JObj e) \<and> map_of e ''message'' = Some (JText ''behind'') \<and> map_of e ''code'' = Some (JInt (- 9)) \<longrightarrow>
       (let rq' = (rpc_obj_new C_Slot)\<lparr>rq_err := Some ''behind'', rq_ec := signed_take_bit 31 (- 9), rq_recv := 5\<rparr>
        in rpc_response 5 jt (rpc_obj_new C_Slot) = Some (rq', [rq'], None))"
    using rpc_reply_read [OF c l, where rq = "rpc_obj_new C_Slot" and slot = 0 and exec = "[]" and lamports = 0
      and data = "[]" and owner = "[]" and rent = 0 and now = 5 and e = e and msg = "''behind''" and code = "- 9"]
    by blast
  with k show ?thesis unfolding r b Let_def by blast
qed

text \<open>(C38) For an account that does not exist the node answers with a null value; the
  reader looks for members of that value anyway and follows the position of the word in the text as an index into
  the node vector, which lies behind its end.\<close>

theorem account_missing_reads_out:
  "(do { jt \<leftarrow> jt_parse ''{\"jsonrpc\":\"2.0\",\"result\":{\"context\":{\"slot\":7},\"value\":null},\"id\":3}'';
         rpc_response now jt (rpc_obj_new C_Account_Info) }) = None"
proof -
  have "(case jt_parse ''{\"jsonrpc\":\"2.0\",\"result\":{\"context\":{\"slot\":7},\"value\":null},\"id\":3}'' of None \<Rightarrow> False
      | Some jt \<Rightarrow> jt_find_val jt 1 ''error'' = Some 0 \<and>
          (do { rtok \<leftarrow> jt_find_val jt 1 ''result''; vtok \<leftarrow> jt_find_val jt rtok ''value''; jt_find_val jt vtok ''executable'' }) = None)"
    by code_simp
  then obtain jt where jt: "jt_parse ''{\"jsonrpc\":\"2.0\",\"result\":{\"context\":{\"slot\":7},\"value\":null},\"id\":3}'' = Some jt"
    "jt_find_val jt 1 ''error'' = Some 0"
    "(do { rtok \<leftarrow> jt_find_val jt 1 ''result''; vtok \<leftarrow> jt_find_val jt rtok ''value''; jt_find_val jt vtok ''executable'' }) = None"
    by (auto split: option.splits)
  have "rsp_account_info now jt rq = None" for rq
    using jt(2,3)
    by (auto simp: rsp_account_info_def unless_error_def on_error_def find_bool_def bind_eq_None_conv split: Option.bind_splits)
  then show ?thesis using jt(1) by (simp add: rpc_response_def rpc_obj_new_def)
qed

end
