(* ===== verification/Rpc_Client.thy ===== *)
theory Rpc_Client
  imports Rpc_Response Upd_Price Hash_Map Http Ws_Frame
begin

text \<open>
  The JSON-RPC client, \<open>rpc\_client\<close> in \<open>pc/rpc_client.cpp\<close>: numbering of requests, the table of requests that
  wait for a reply, reuse of numbers, subscriptions, and the dispatch of incoming messages.

  A request object is a pointer (a number) into the store \<open>rc_obj\<close>.  What a subscriber does when it is
  shown an object is the parameter \<open>cb\<close>: the list of its calls to the client.  The messages handed to the
  connections are recorded in \<open>rc_out\<close>, each with its number and the requests it carries.
\<close>

section \<open>Model\<close>

datatype channel = Ch_Http | Ch_Ws | Ch_None

record rpc_msg =
  rm_id :: u64
  rm_reqs :: "nat list"
  rm_chan :: channel
  rm_text :: string

definition SUB_HSIZE :: nat where
  "SUB_HSIZE = 8363"

text \<open>The waiting requests are an unordered multimap.  The language leaves open where \<open>emplace\<close> puts an
  element among those of other keys, and when the table is rehashed, which invalidates all iterators.
  Both matter when requests are sent while the range of a key is iterated; \<open>placing\<close> is the decision of
  the library for one element: apart from the range, directly behind its last element and so before its
  end, or with a rehash.\<close>

datatype placing = Apart | Within | Rehash

text \<open>\<open>rc_host\<close> is the host of the HTTP connection, \<open>rc_ws\<close> whether a websocket connection is set,
  \<open>rc_now\<close> the clock, \<open>rc_rnd\<close> the results of \<open>random()\<close>, and \<open>rc_mm\<close> the decisions of the multimap:
  given the number of messages sent so far, the elements, the key under iteration and the new element.\<close>

record rpc_client =
  rc_host :: string
  rc_ws :: bool
  rc_rv :: "(u64 \<times> nat) list"
  rc_reuse :: "u64 list"
  rc_smap :: "(u64, nat) hash_map"
  rc_id :: u64
  rc_obj :: "nat \<Rightarrow> rpc_obj"
  rc_now :: int
  rc_rnd :: "nat \<Rightarrow> u32"
  rc_mm :: "nat \<Rightarrow> (u64 \<times> nat) list \<Rightarrow> u64 \<Rightarrow> u64 \<times> nat \<Rightarrow> placing"
  rc_out :: "rpc_msg list"

definition sub_node0 :: "(u64, nat) node" where
  "sub_node0 = \<lparr>hn_nxt = 0, hn_key = 0, hn_val = 0\<rparr>"

definition sub_hash :: "u64 \<Rightarrow> nat" where
  "sub_hash i = unat (ucast i :: u32)"

definition rpc_client_new :: "string \<Rightarrow> bool \<Rightarrow> (nat \<Rightarrow> rpc_obj) \<Rightarrow> int \<Rightarrow> (nat \<Rightarrow> u32) \<Rightarrow>
    (nat \<Rightarrow> (u64 \<times> nat) list \<Rightarrow> u64 \<Rightarrow> u64 \<times> nat \<Rightarrow> placing) \<Rightarrow> rpc_client" where
  "rpc_client_new host ws obj now rnd mm =
     \<lparr>rc_host = host, rc_ws = ws, rc_rv = [], rc_reuse = [], rc_smap = hash_map_new sub_node0 SUB_HSIZE sub_hash,
      rc_id = 0, rc_obj = obj, rc_now = now, rc_rnd = rnd, rc_mm = mm, rc_out = []\<rparr>"

definition rpc_reset :: "rpc_client \<Rightarrow> rpc_client" where
  "rpc_reset c = c\<lparr>rc_rv := [], rc_smap := hm_clear (rc_smap c), rc_reuse := [], rc_id := 0\<rparr>"

definition rpc_new_id :: "rpc_client \<Rightarrow> rpc_client \<times> u64" where
  "rpc_new_id c =
     (if rc_reuse c \<noteq> [] then (c\<lparr>rc_reuse := butlast (rc_reuse c)\<rparr>, last (rc_reuse c))
      else (c\<lparr>rc_id := rc_id c + 1\<rparr>, rc_id c + 1))"

text \<open>\<open>set\_id\<close>, \<open>set\_sent\_time\<close> and \<open>emplace\<close> for one request object.\<close>

definition rpc_register :: "u64 \<Rightarrow> nat \<Rightarrow> rpc_client \<Rightarrow> rpc_client" where
  "rpc_register rid ptr c =
     c\<lparr>rc_obj := (rc_obj c)(ptr := rc_obj c ptr\<lparr>rq_id := rid, rq_sent := rc_now c\<rparr>), rc_rv := rc_rv c @ [(rid, ptr)]\<rparr>"

text \<open>The message goes to the HTTP connection as a POST request, or to the websocket as a masked frame; without a
  websocket connection it is dropped.\<close>

definition rpc_submit :: "u64 \<Rightarrow> nat list \<Rightarrow> bool \<Rightarrow> json_wtr \<Rightarrow> rpc_client \<Rightarrow> rpc_client option" where
  "rpc_submit rid ptrs http jw c =
     (if http then
        do { msg \<leftarrow> http_post (rc_host c) jw;
             Some (c\<lparr>rc_out := rc_out c @ [\<lparr>rm_id = rid, rm_reqs = ptrs, rm_chan = Ch_Http, rm_text = nw_text msg\<rparr>]\<rparr>) }
      else if rc_ws c then
        do { (msg, _) \<leftarrow> ws_commit ws_text jw True (rc_rnd c (length (rc_out c))) nw_new;
             Some (c\<lparr>rc_out := rc_out c @ [\<lparr>rm_id = rid, rm_reqs = ptrs, rm_chan = Ch_Ws, rm_text = nw_text msg\<rparr>]\<rparr>) }
      else Some (c\<lparr>rc_out := rc_out c @ [\<lparr>rm_id = rid, rm_reqs = ptrs, rm_chan = Ch_None, rm_text = []\<rparr>]\<rparr>))"

text \<open>\<open>send\<close> of one request: \<open>req\<close> is its \<open>request\<close> method, \<open>http\<close> its \<open>get\_is\_http\<close>.\<close>

definition rpc_send :: "(json_wtr \<Rightarrow> json_wtr option) \<Rightarrow> bool \<Rightarrow> nat \<Rightarrow> rpc_client \<Rightarrow> rpc_client option" where
  "rpc_send req http ptr c =
     (let (c, rid) = rpc_new_id c; c = rpc_register rid ptr c
      in do { jw \<leftarrow> rpc_message rid req; rpc_submit rid [ptr] http jw c })"

text \<open>\<open>send\<close> of a batch of price updates; \<open>upd\_price\<close> requests go over HTTP.\<close>

definition rpc_send_batch :: "(json_wtr \<Rightarrow> json_wtr option) \<Rightarrow> nat list \<Rightarrow> rpc_client \<Rightarrow> rpc_client option" where
  "rpc_send_batch req ptrs c =
     (if ptrs = [] then Some c
      else (let (c, rid) = rpc_new_id c; c = fold (rpc_register rid) ptrs c
            in do { jw \<leftarrow> rpc_message rid req; rpc_submit rid ptrs True jw c }))"

definition rpc_add_notify :: "u64 \<Rightarrow> nat \<Rightarrow> rpc_client \<Rightarrow> rpc_client option" where
  "rpc_add_notify subid ptr c =
     do { (m, p) \<leftarrow> hm_add sub_node0 (rc_smap c) subid; m \<leftarrow> hm_ref_set m p ptr; Some (c\<lparr>rc_smap := m\<rparr>) }"

definition rpc_remove_notify :: "nat \<Rightarrow> rpc_client \<Rightarrow> rpc_client option" where
  "rpc_remove_notify ptr c =
     do { p \<leftarrow> hm_find (rc_smap c) (rq_id (rc_obj c ptr));
          (case p of None \<Rightarrow> Some c | Some p \<Rightarrow> do { m \<leftarrow> hm_del (rc_smap c) p; Some (c\<lparr>rc_smap := m\<rparr>) }) }"

text \<open>What a subscriber may do when it is shown an object.\<close>

datatype rpc_call =
    Act_Send "json_wtr \<Rightarrow> json_wtr option" bool nat
  | Act_Batch "json_wtr \<Rightarrow> json_wtr option" "nat list"
  | Act_Reset_Err nat

fun rpc_act :: "rpc_call \<Rightarrow> rpc_client \<Rightarrow> rpc_client option" where
  "rpc_act (Act_Send req http ptr) c = rpc_send req http ptr c"
| "rpc_act (Act_Batch req ptrs) c = rpc_send_batch req ptrs c"
| "rpc_act (Act_Reset_Err ptr) c = Some (c\<lparr>rc_obj := (rc_obj c)(ptr := rq_reset_err (rc_obj c ptr))\<rparr>)"

fun rpc_acts :: "rpc_call list \<Rightarrow> rpc_client \<Rightarrow> rpc_client option" where
  "rpc_acts [] c = Some c"
| "rpc_acts (a # as') c = do { c \<leftarrow> rpc_act a c; rpc_acts as' c }"

type_synonym callback = "nat \<Rightarrow> rpc_obj \<Rightarrow> rpc_call list"

text \<open>\<open>rptr->response( jp\_ )\<close>: the reader, the registration of a subscription, the callbacks.\<close>

definition rpc_on_reply :: "callback \<Rightarrow> jtree \<Rightarrow> nat \<Rightarrow> rpc_client \<Rightarrow> rpc_client option" where
  "rpc_on_reply cb jt ptr c =
     do { (rq, shown, sub) \<leftarrow> rpc_response (rc_now c) jt (rc_obj c ptr);
          let c = c\<lparr>rc_obj := (rc_obj c)(ptr := rq)\<rparr>;
          c \<leftarrow> (case sub of None \<Rightarrow> Some c | Some subid \<Rightarrow> rpc_add_notify subid ptr c);
          rpc_acts (concat (map (cb ptr) shown)) c }"

text \<open>The elements that \<open>es\<close>, emplaced one after the other into a table with the elements \<open>old\<close>, add to the
  range of \<open>rid\<close>: those with the same key, and those that the library puts before the end of the range.
  With a rehash the iterators of the loop are invalid and its continuation is undefined.\<close>

fun range_news :: "((u64 \<times> nat) list \<Rightarrow> u64 \<Rightarrow> u64 \<times> nat \<Rightarrow> placing) \<Rightarrow> u64 \<Rightarrow> (u64 \<times> nat) list \<Rightarrow>
    (u64 \<times> nat) list \<Rightarrow> (u64 \<times> nat) list option" where
  "range_news mm rid old [] = Some []"
| "range_news mm rid old (e # es) =
     (if mm old rid e = Rehash then None
      else do { r \<leftarrow> range_news mm rid (old @ [e]) es;
                Some (if fst e = rid \<or> mm old rid e = Within then e # r else r) })"

text \<open>The loop over the range: the elements still to visit, and the visited ones, which are erased after it.\<close>

partial_function (option) rpc_on_replies ::
    "callback \<Rightarrow> jtree \<Rightarrow> u64 \<Rightarrow> (u64 \<times> nat) list \<Rightarrow> (u64 \<times> nat) list \<Rightarrow> rpc_client \<Rightarrow> ((u64 \<times> nat) list \<times> rpc_client) option" where
  [code]: "rpc_on_replies cb jt rid todo seen c =
     (case todo of
        [] \<Rightarrow> Some (seen, c)
      | e # es \<Rightarrow>
          do { c' \<leftarrow> rpc_on_reply cb jt (snd e) c;
               news \<leftarrow> range_news (rc_mm c (length (rc_out c))) rid (rc_rv c) (drop (length (rc_rv c)) (rc_rv c'));
               rpc_on_replies cb jt rid (es @ news) (seen @ [e]) c' })"

text \<open>The requests under a number, in the order in which they were sent (equal keys keep the order in which
  they were emplaced).\<close>

definition rpc_waiting :: "u64 \<Rightarrow> rpc_client \<Rightarrow> nat list" where
  "rpc_waiting rid c = map snd (filter (\<lambda>(i, ptr). i = rid) (rc_rv c))"

definition rpc_range :: "u64 \<Rightarrow> rpc_client \<Rightarrow> (u64 \<times> nat) list" where
  "rpc_range rid c = filter (\<lambda>(i, ptr). i = rid) (rc_rv c)"

definition rpc_erase :: "u64 \<Rightarrow> (u64 \<times> nat) list \<Rightarrow> (u64 \<times> nat) list \<Rightarrow> (u64 \<times> nat) list" where
  "rpc_erase rid seen rv = filter (\<lambda>(i, ptr). i \<noteq> rid) (fold remove1 seen rv)"

definition rpc_on_note :: "callback \<Rightarrow> jtree \<Rightarrow> rpc_client \<Rightarrow> rpc_client option" where
  "rpc_on_note cb jt c =
     do { ptok \<leftarrow> jt_find_val jt 1 ''params'';
          stok \<leftarrow> jt_find_val jt ptok ''subscription'';
          if stok = 0 then Some c
          else do { sid \<leftarrow> jt_get_uint jt stok;
                    p \<leftarrow> hm_find (rc_smap c) sid;
                    (case p of
                       None \<Rightarrow> Some c
                     | Some p \<Rightarrow>
                         do { ptr \<leftarrow> hm_obj (rc_smap c) p;
                              (fin, rq, shown) \<leftarrow> rpc_notify (rc_now c) jt (rc_obj c ptr);
                              c \<leftarrow> rpc_acts (concat (map (cb ptr) shown)) (c\<lparr>rc_obj := (rc_obj c)(ptr := rq)\<rparr>);
                              if fin then do { m \<leftarrow> hm_del (rc_smap c) p; Some (c\<lparr>rc_smap := m\<rparr>) } else Some c }) } }"

definition parse_response :: "callback \<Rightarrow> string \<Rightarrow> rpc_client \<Rightarrow> rpc_client option" where
  "parse_response cb s c =
     do { jt \<leftarrow> jt_parse s;
          idtok \<leftarrow> jt_find_val jt 1 ''id'';
          if idtok \<noteq> 0 then
            do { rid \<leftarrow> jt_get_uint jt idtok;
                 (seen, c) \<leftarrow> rpc_on_replies cb jt rid (rpc_range rid c) [] c;
                 Some (c\<lparr>rc_reuse := rc_reuse c @ [rid], rc_rv := rpc_erase rid seen (rc_rv c)\<rparr>) }
          else rpc_on_note cb jt c }"

section \<open>Numbering\<close>

text \<open>The messages whose reply has not arrived; dropped messages among them.\<close>

type_synonym pending = "(u64 \<times> nat list) list"

definition new_pending :: "rpc_client \<Rightarrow> rpc_client \<Rightarrow> pending" where
  "new_pending c c' = map (\<lambda>m. (rm_id m, rm_reqs m)) (drop (length (rc_out c)) (rc_out c'))"

definition rpc_inv :: "rpc_client \<Rightarrow> pending \<Rightarrow> bool" where
  "rpc_inv c pend \<longleftrightarrow>
     distinct (map fst pend @ rc_reuse c) \<and> set (map fst pend @ rc_reuse c) \<subseteq> {1..rc_id c} \<and>
     rc_rv c = concat (map (\<lambda>(i, ptrs). map (Pair i) ptrs) pend)"

lemma rpc_range_waiting: "rpc_range i c = map (Pair i) (rpc_waiting i c)"
proof -
  have "map (Pair i) (map snd (filter (\<lambda>(j, ptr). j = i) rv)) = filter (\<lambda>(j, ptr). j = i) rv" for rv :: "(u64 \<times> nat) list"
    by (induction rv) auto
  then show ?thesis unfolding rpc_range_def rpc_waiting_def by (rule sym)
qed

lemma rpc_inv_waiting:
  assumes "rpc_inv c pend"
  shows "(i, ptrs) \<in> set pend \<Longrightarrow> rpc_waiting i c = ptrs" "i \<notin> set (map fst pend) \<Longrightarrow> rpc_waiting i c = []"
proof -
  have rv: "rc_rv c = concat (map (\<lambda>(i, ptrs). map (Pair i) ptrs) pend)" and d: "distinct (map fst pend)"
    using assms by (auto simp: rpc_inv_def)
  have w: "rpc_waiting i c = concat (map (\<lambda>(j, ptrs). if j = i then ptrs else []) pend)"
    unfolding rpc_waiting_def rv by (induction pend) (auto simp: filter_map comp_def)
  show "i \<notin> set (map fst pend) \<Longrightarrow> rpc_waiting i c = []" unfolding w by (auto simp: image_iff split: if_splits)
  show "rpc_waiting i c = ptrs" if "(i, ptrs) \<in> set pend"
    unfolding w using d that
  proof (induction pend)
    case (Cons x pend)
    obtain j ps where x: "x = (j, ps)" by fastforce
    show ?case
    proof (cases "j = i")
      case True
      then have "concat (map (\<lambda>(j, ptrs). if j = i then ptrs else []) pend) = []"
        using Cons.prems(1) x by (auto simp: image_iff split: if_splits)
      then show ?thesis using True Cons.prems x by (auto simp: image_iff)
    next
      case False
      then show ?thesis using Cons x by auto
    qed
  qed simp
qed

definition rpc_good :: "rpc_client \<Rightarrow> pending \<Rightarrow> bool" where
  "rpc_good c pend \<longleftrightarrow> rpc_inv c pend \<and> unat (rc_id c) \<le> length (rc_out c)"

lemma below_Suc:
  fixes w :: u64
  assumes "unat w + 1 < 2 ^ 64"
  shows "unat (w + 1) = unat w + 1" "w < w + 1" "1 \<le> w + 1" "{1..w} \<subseteq> {1..w + 1}"
proof -
  have "unat (w + 1) = (unat w + unat (1 :: u64)) mod 2 ^ 64" by (simp add: unat_word_ariths)
  then show u: "unat (w + 1) = unat w + 1" using assms by simp
  show "w < w + 1" "1 \<le> w + 1" using u by (simp_all add: word_less_nat_alt word_le_nat_alt)
  then show "{1..w} \<subseteq> {1..w + 1}" by auto
qed

text \<open>A fresh number is neither waited for nor free.\<close>

lemma rpc_new_id_good:
  assumes "rpc_good c pend" "length (rc_out c) + 1 < 2 ^ 64" "rpc_new_id c = (c1, rid)"
  shows "distinct (map fst pend @ [rid] @ rc_reuse c1)" "set (map fst pend @ [rid] @ rc_reuse c1) \<subseteq> {1..rc_id c1}"
    "unat (rc_id c1) \<le> length (rc_out c) + 1" "rc_rv c1 = rc_rv c" "rc_out c1 = rc_out c" "rc_obj c1 = rc_obj c"
proof -
  have inv: "distinct (map fst pend @ rc_reuse c)" "set (map fst pend @ rc_reuse c) \<subseteq> {1..rc_id c}"
    "unat (rc_id c) \<le> length (rc_out c)"
    using assms(1) by (auto simp: rpc_good_def rpc_inv_def)
  have p: "set (map fst pend) \<subseteq> {1..rc_id c}" using inv(2) by simp
  show "rc_rv c1 = rc_rv c" "rc_out c1 = rc_out c" "rc_obj c1 = rc_obj c"
    using assms(3) by (auto simp: rpc_new_id_def split: if_splits)
  have "distinct (map fst pend @ [rid] @ rc_reuse c1) \<and> set (map fst pend @ [rid] @ rc_reuse c1) \<subseteq> {1..rc_id c1} \<and>
      unat (rc_id c1) \<le> length (rc_out c) + 1"
  proof (cases "rc_reuse c = []")
    case True
    have r: "unat (rc_id c) + 1 < 2 ^ 64" using inv(3) assms(2) by simp
    have c: "rid = rc_id c + 1" "rc_id c1 = rc_id c + 1" "rc_reuse c1 = []"
      using assms(3) True by (auto simp: rpc_new_id_def)
    have "rid \<notin> set (map fst pend)"
    proof
      assume "rid \<in> set (map fst pend)"
      then have "rid \<in> {1..rc_id c}" by (rule subsetD [OF p])
      then show False using below_Suc(2) [OF r] c(1) by auto
    qed
    moreover have "set (map fst pend) \<subseteq> {1..rc_id c1}"
      unfolding c(2) by (rule subset_trans [OF p below_Suc(4) [OF r]])
    moreover have "rid \<in> {1..rc_id c1}" using below_Suc(3) [OF r] c by simp
    ultimately show ?thesis using inv(1,3) True c below_Suc(1) [OF r] by simp
  next
    case False
    then obtain us where us: "rc_reuse c = us @ [rid]" "rc_reuse c1 = us" "rc_id c1 = rc_id c"
      using assms(3) by (intro that [of "butlast (rc_reuse c)"]) (auto simp: rpc_new_id_def)
    then show ?thesis using inv by auto
  qed
  then show "distinct (map fst pend @ [rid] @ rc_reuse c1)" "set (map fst pend @ [rid] @ rc_reuse c1) \<subseteq> {1..rc_id c1}"
    "unat (rc_id c1) \<le> length (rc_out c) + 1" by auto
qed

lemma rpc_register_fields:
  "rc_rv (rpc_register rid ptr c) = rc_rv c @ [(rid, ptr)]" "rc_out (rpc_register rid ptr c) = rc_out c"
  "rc_reuse (rpc_register rid ptr c) = rc_reuse c" "rc_id (rpc_register rid ptr c) = rc_id c"
  "rc_mm (rpc_register rid ptr c) = rc_mm c"
  by (simp_all add: rpc_register_def)

lemma rpc_registers_fields:
  "rc_rv (fold (rpc_register rid) ptrs c) = rc_rv c @ map (Pair rid) ptrs" "rc_out (fold (rpc_register rid) ptrs c) = rc_out c"
  "rc_reuse (fold (rpc_register rid) ptrs c) = rc_reuse c" "rc_id (fold (rpc_register rid) ptrs c) = rc_id c"
  "rc_mm (fold (rpc_register rid) ptrs c) = rc_mm c"
  by (induction ptrs arbitrary: c) (simp_all add: rpc_register_fields)

lemma rpc_submit_fields:
  assumes "rpc_submit rid ptrs http jw c = Some c'"
  shows "rc_rv c' = rc_rv c \<and> rc_reuse c' = rc_reuse c \<and> rc_id c' = rc_id c \<and> rc_mm c' = rc_mm c \<and>
    (\<exists>m. rc_out c' = rc_out c @ [m] \<and> rm_id m = rid \<and> rm_reqs m = ptrs)"
  using assms by (auto simp: rpc_submit_def split: if_splits bind_splits)

text \<open>What every operation guarantees: the log grows, and the invariant holds for the pending messages and the
  new ones, as long as fewer than 2\^{}64 messages were sent.\<close>

definition keeps :: "rpc_client \<Rightarrow> rpc_client \<Rightarrow> bool" where
  "keeps c c' \<longleftrightarrow> rc_mm c' = rc_mm c \<and> (\<exists>ms. rc_out c' = rc_out c @ ms) \<and>
     (\<forall>pend. rpc_good c pend \<and> length (rc_out c') < 2 ^ 64 \<longrightarrow> rpc_good c' (pend @ new_pending c c'))"

lemma keeps_refl: "keeps c c"
  by (simp add: keeps_def new_pending_def)

lemma keeps_trans:
  assumes "keeps c c1" "keeps c1 c2"
  shows "keeps c c2"
proof -
  obtain ms ns where o: "rc_out c1 = rc_out c @ ms" "rc_out c2 = rc_out c1 @ ns" using assms by (auto simp: keeps_def)
  have n: "new_pending c c2 = new_pending c c1 @ new_pending c1 c2" by (simp add: new_pending_def o)
  have "rpc_good c2 (pend @ new_pending c c2)" if "rpc_good c pend" "length (rc_out c2) < 2 ^ 64" for pend
  proof -
    have "length (rc_out c1) < 2 ^ 64" using that(2) o(2) by simp
    then have "rpc_good c1 (pend @ new_pending c c1)" using assms(1) that(1) unfolding keeps_def by blast
    then have "rpc_good c2 ((pend @ new_pending c c1) @ new_pending c1 c2)"
      using assms(2) that(2) unfolding keeps_def by blast
    then show ?thesis by (simp only: n append_assoc)
  qed
  then show ?thesis using o assms unfolding keeps_def by auto
qed

lemma keeps_fields:
  assumes "rc_mm c' = rc_mm c" "rc_out c' = rc_out c" "rc_rv c' = rc_rv c" "rc_reuse c' = rc_reuse c" "rc_id c' = rc_id c"
  shows "keeps c c'"
  using assms by (simp add: keeps_def new_pending_def rpc_good_def rpc_inv_def)

lemma keeps_new:
  assumes "rpc_new_id c = (c1, rid)" "rc_rv c' = rc_rv c1 @ map (Pair rid) ptrs" "rc_reuse c' = rc_reuse c1"
    "rc_id c' = rc_id c1" "rc_out c' = rc_out c1 @ [m]" "rm_id m = rid" "rm_reqs m = ptrs" "rc_mm c' = rc_mm c1"
  shows "keeps c c'"
proof -
  have o: "rc_out c1 = rc_out c" "rc_mm c1 = rc_mm c" using assms(1) by (auto simp: rpc_new_id_def split: if_splits)
  then have n: "new_pending c c' = [(rid, ptrs)]" using assms(5-7) by (simp add: new_pending_def)
  have "rpc_good c' (pend @ [(rid, ptrs)])" if "rpc_good c pend" "length (rc_out c') < 2 ^ 64" for pend
  proof -
    have l: "length (rc_out c) + 1 < 2 ^ 64" using that(2) assms(5) o(1) by simp
    show ?thesis
      using rpc_new_id_good [OF that(1) l assms(1)] that(1) assms(2-5) by (auto simp: rpc_good_def rpc_inv_def)
  qed
  then show ?thesis using o assms(5,8) n by (simp add: keeps_def)
qed

lemma rpc_send_keeps: "rpc_send req http ptr c = Some c' \<Longrightarrow> keeps c c'"
  by (auto simp: rpc_send_def Let_def rpc_register_fields split: prod.splits bind_splits
      dest!: rpc_submit_fields intro!: keeps_new)

lemma rpc_send_batch_keeps: "rpc_send_batch req ptrs c = Some c' \<Longrightarrow> keeps c c'"
  by (auto simp: rpc_send_batch_def Let_def rpc_registers_fields keeps_refl split: prod.splits bind_splits if_splits
      dest!: rpc_submit_fields intro!: keeps_new)

lemma rpc_acts_keeps: "rpc_acts acts c = Some c' \<Longrightarrow> keeps c c'"
proof (induction acts arbitrary: c)
  case (Cons a as')
  obtain c1 where c1: "rpc_act a c = Some c1" "rpc_acts as' c1 = Some c'" using Cons.prems by (auto split: bind_splits)
  have "keeps c c1"
    using c1(1) by (cases a) (auto intro: rpc_send_keeps rpc_send_batch_keeps keeps_fields)
  then show ?case using Cons.IH [OF c1(2)] by (rule keeps_trans)
qed (simp add: keeps_refl)

lemma rpc_on_reply_keeps:
  assumes "rpc_on_reply cb jt ptr c = Some c'"
  shows "keeps c c'"
proof -
  obtain rq shown sub c2 where r: "rpc_response (rc_now c) jt (rc_obj c ptr) = Some (rq, shown, sub)"
    "(case sub of None \<Rightarrow> Some (c\<lparr>rc_obj := (rc_obj c)(ptr := rq)\<rparr>) |
      Some subid \<Rightarrow> rpc_add_notify subid ptr (c\<lparr>rc_obj := (rc_obj c)(ptr := rq)\<rparr>)) = Some c2"
    "rpc_acts (concat (map (cb ptr) shown)) c2 = Some c'"
    using assms by (auto simp: rpc_on_reply_def Let_def split: bind_splits)
  have "keeps c c2"
    using r(2) by (intro keeps_fields) (auto simp: rpc_add_notify_def split: option.splits bind_splits)
  then show ?thesis using rpc_acts_keeps [OF r(3)] by (rule keeps_trans)
qed

lemma rpc_on_replies_keeps:
  assumes "rpc_on_replies cb jt rid todo seen c = Some (seen', c')"
  shows "keeps c c'"
proof -
  have "keeps c (snd r)" if "rpc_on_replies cb jt rid todo seen c = Some r" for r
  proof (rule rpc_on_replies.raw_induct [where P = "\<lambda>cb jt rid todo seen c r. keeps c (snd r)", OF _ that])
    fix loop cb jt rid todo seen c and r :: "(u64 \<times> nat) list \<times> rpc_client"
    assume ih: "\<And>cb jt rid todo seen c r. loop cb jt rid todo seen c = Some r \<Longrightarrow> keeps c (snd r)"
      and r: "(case todo of [] \<Rightarrow> Some (seen, c) | e # es \<Rightarrow>
          do { c' \<leftarrow> rpc_on_reply cb jt (snd e) c;
               news \<leftarrow> range_news (rc_mm c (length (rc_out c))) rid (rc_rv c) (drop (length (rc_rv c)) (rc_rv c'));
               loop cb jt rid (es @ news) (seen @ [e]) c' }) = Some r"
    show "keeps c (snd r)"
    proof (cases todo)
      case Nil
      then show ?thesis using r keeps_refl by auto
    next
      case (Cons e es)
      then obtain c1 news where "rpc_on_reply cb jt (snd e) c = Some c1" "loop cb jt rid (es @ news) (seen @ [e]) c1 = Some r"
        using r by (auto split: bind_splits)
      then show ?thesis using keeps_trans [OF rpc_on_reply_keeps ih] by blast
    qed
  qed
  then show ?thesis using assms by fastforce
qed

lemma remove1_range: "\<forall>e \<in> set seen. fst e = rid \<Longrightarrow> rpc_erase rid seen rv = filter (\<lambda>(i, ptr). i \<noteq> rid) rv"
proof (induction seen arbitrary: rv)
  case (Cons e seen)
  have "filter (\<lambda>(i, ptr). i \<noteq> rid) (remove1 e rv) = filter (\<lambda>(i, ptr). i \<noteq> rid) rv"
    using Cons.prems by (induction rv) auto
  then show ?case using Cons by (simp add: rpc_erase_def)
qed (simp add: rpc_erase_def)

lemma rpc_on_note_keeps:
  assumes "rpc_on_note cb jt c = Some c'"
  shows "keeps c c'"
proof -
  have "c' = c \<or> (\<exists>ptr rq calls c1 m. rpc_acts calls (c\<lparr>rc_obj := (rc_obj c)(ptr := rq)\<rparr>) = Some c1 \<and>
      (c' = c1 \<or> c' = c1\<lparr>rc_smap := m\<rparr>))"
    using assms by (auto simp: rpc_on_note_def split: bind_splits if_splits option.splits) blast+
  then show ?thesis
  proof (elim disjE exE conjE)
    fix ptr rq calls c1 m
    assume a: "rpc_acts calls (c\<lparr>rc_obj := (rc_obj c)(ptr := rq)\<rparr>) = Some c1"
    have "keeps c (c\<lparr>rc_obj := (rc_obj c)(ptr := rq)\<rparr>)" by (rule keeps_fields) simp_all
    then have k: "keeps c c1" using rpc_acts_keeps [OF a] by (rule keeps_trans)
    then show "keeps c c'" if "c' = c1" using that by simp
    have "keeps c1 (c1\<lparr>rc_smap := m\<rparr>)" by (rule keeps_fields) simp_all
    then show "keeps c c'" if "c' = c1\<lparr>rc_smap := m\<rparr>" using k that keeps_trans by blast
  qed (simp add: keeps_refl)
qed

section \<open>Reachable states\<close>

text \<open>The number in a message from the node.\<close>

definition reply_id :: "string \<Rightarrow> u64 option" where
  "reply_id s = do { jt \<leftarrow> jt_parse s; idtok \<leftarrow> jt_find_val jt 1 ''id''; if idtok \<noteq> 0 then jt_get_uint jt idtok else None }"

definition is_note :: "string \<Rightarrow> bool" where
  "is_note s \<longleftrightarrow> do { jt \<leftarrow> jt_parse s; jt_find_val jt 1 ''id'' } = Some 0"

text \<open>The elements that the dispatch of a reply visits, in order.\<close>

definition reply_visits :: "callback \<Rightarrow> string \<Rightarrow> rpc_client \<Rightarrow> (u64 \<times> nat) list option" where
  "reply_visits cb s c =
     do { jt \<leftarrow> jt_parse s; rid \<leftarrow> reply_id s;
          (seen, _) \<leftarrow> rpc_on_replies cb jt rid (rpc_range rid c) [] c; Some seen }"

text \<open>While the reply to \<open>rid\<close> leads from \<open>c\<close> to \<open>c'\<close>, the multimap does not rehash and puts what the
  callbacks send apart from the range under iteration.\<close>

definition placed_apart :: "u64 \<Rightarrow> rpc_client \<Rightarrow> rpc_client \<Rightarrow> bool" where
  "placed_apart rid c c' \<longleftrightarrow>
     (\<forall>n old e. length (rc_out c) \<le> n \<and> n < length (rc_out c') \<longrightarrow> rc_mm c n old rid e = Apart)"

text \<open>The client together with the messages whose reply is outstanding: the application sends, the node answers
  an outstanding message or notifies, the connection is set up anew, time passes.\<close>

inductive rpc_reach :: "callback \<Rightarrow> rpc_client \<Rightarrow> pending \<Rightarrow> bool" for cb where
  start: "rpc_reach cb (rpc_client_new host ws obj now rnd mm) []"
| send: "rpc_reach cb c pend \<Longrightarrow> rpc_act call c = Some c' \<Longrightarrow> rpc_reach cb c' (pend @ new_pending c c')"
| reply: "rpc_reach cb c pend \<Longrightarrow> reply_id s = Some rid \<Longrightarrow> rid \<in> set (map fst pend) \<Longrightarrow> parse_response cb s c = Some c' \<Longrightarrow>
    placed_apart rid c c' \<Longrightarrow> rpc_reach cb c' (filter (\<lambda>(i, ptrs). i \<noteq> rid) (pend @ new_pending c c'))"
| note_: "rpc_reach cb c pend \<Longrightarrow> is_note s \<Longrightarrow> parse_response cb s c = Some c' \<Longrightarrow> rpc_reach cb c' (pend @ new_pending c c')"
| unsubscribe: "rpc_reach cb c pend \<Longrightarrow> rpc_remove_notify ptr c = Some c' \<Longrightarrow> rpc_reach cb c' pend"
| reconnect: "rpc_reach cb c pend \<Longrightarrow> rpc_reach cb (rpc_reset c\<lparr>rc_host := host, rc_ws := ws\<rparr>) []"
| time: "rpc_reach cb c pend \<Longrightarrow> rpc_reach cb (c\<lparr>rc_now := now\<rparr>) pend"

lemma keepsD: "keeps c c' \<Longrightarrow> rpc_good c pend \<Longrightarrow> length (rc_out c') < 2 ^ 64 \<Longrightarrow> rpc_good c' (pend @ new_pending c c')"
  by (auto simp: keeps_def)

lemma keeps_mono: "keeps c c' \<Longrightarrow> length (rc_out c') < 2 ^ 64 \<Longrightarrow> length (rc_out c) < 2 ^ 64"
  by (auto simp: keeps_def)

lemma filter_pending:
  "filter (\<lambda>(j, ptr). j \<noteq> i) (concat (map (\<lambda>(i, ptrs). map (Pair i) ptrs) pend)) =
   concat (map (\<lambda>(i, ptrs). map (Pair i) ptrs) (filter (\<lambda>(j, ptrs). j \<noteq> i) pend))"
  by (induction pend) (auto simp: filter_map comp_def)

lemma range_news_apart:
  "\<forall>e \<in> set es. fst e \<noteq> rid \<Longrightarrow> es = [] \<or> (\<forall>old e. mm old rid e = Apart) \<Longrightarrow> range_news mm rid old es = Some []"
  by (induction es arbitrary: old) auto

text \<open>The numbers of the requests that are sent during the dispatch are fresh.\<close>

lemma news_fresh:
  assumes "rpc_good c pend" "rpc_good c' (pend @ new_pending c c')" "rid \<in> set (map fst pend)"
  shows "\<forall>e \<in> set (drop (length (rc_rv c)) (rc_rv c')). fst e \<noteq> rid"
    "drop (length (rc_rv c)) (rc_rv c') \<noteq> [] \<Longrightarrow> length (rc_out c) < length (rc_out c')"
proof -
  have d: "distinct (map fst (pend @ new_pending c c'))" and
    e: "rc_rv c = concat (map (\<lambda>(i, ptrs). map (Pair i) ptrs) pend)"
      "rc_rv c' = concat (map (\<lambda>(i, ptrs). map (Pair i) ptrs) (pend @ new_pending c c'))"
    using assms(1,2) by (auto simp only: rpc_good_def rpc_inv_def distinct_append)
  have n: "drop (length (rc_rv c)) (rc_rv c') = concat (map (\<lambda>(i, ptrs). map (Pair i) ptrs) (new_pending c c'))"
    unfolding e by simp
  have "rid \<notin> set (map fst (new_pending c c'))" using d assms(3) by auto
  then show "\<forall>e \<in> set (drop (length (rc_rv c)) (rc_rv c')). fst e \<noteq> rid" unfolding n by force
  show "drop (length (rc_rv c)) (rc_rv c') \<noteq> [] \<Longrightarrow> length (rc_out c) < length (rc_out c')"
    unfolding n by (rule ccontr) (simp add: new_pending_def)
qed

lemma rpc_on_replies_apart:
  assumes "rpc_on_replies cb jt rid todo seen c = Some (seen', c')" "rpc_good c pend" "rid \<in> set (map fst pend)"
    and "length (rc_out c') < 2 ^ 64" "placed_apart rid c c'"
  shows "seen' = seen @ todo"
  using assms
proof (induction todo arbitrary: seen c pend)
  case Nil
  then show ?case by (simp add: rpc_on_replies.simps)
next
  case (Cons e es)
  obtain c1 news where s: "rpc_on_reply cb jt (snd e) c = Some c1"
    "range_news (rc_mm c (length (rc_out c))) rid (rc_rv c) (drop (length (rc_rv c)) (rc_rv c1)) = Some news"
    "rpc_on_replies cb jt rid (es @ news) (seen @ [e]) c1 = Some (seen', c')"
    using Cons.prems(1) by (subst (asm) rpc_on_replies.simps) (auto split: bind_splits)
  note k = rpc_on_reply_keeps [OF s(1)] rpc_on_replies_keeps [OF s(3)]
  have o: "length (rc_out c) \<le> length (rc_out c1)" "length (rc_out c1) \<le> length (rc_out c')" "rc_mm c1 = rc_mm c"
    using k by (auto simp: keeps_def)
  have g: "rpc_good c1 (pend @ new_pending c c1)"
    using keepsD [OF k(1) Cons.prems(2)] o(2) Cons.prems(4) by simp
  note f = news_fresh [OF Cons.prems(2) g Cons.prems(3)]
  have "drop (length (rc_rv c)) (rc_rv c1) = [] \<or> (\<forall>old e. rc_mm c (length (rc_out c)) old rid e = Apart)"
  proof (cases "drop (length (rc_rv c)) (rc_rv c1) = []")
    case False
    then have "length (rc_out c) < length (rc_out c')" using f(2) o(2) by (meson less_le_trans)
    then show ?thesis using Cons.prems(5) by (simp add: placed_apart_def)
  qed simp
  then have "news = []" using range_news_apart [OF f(1)] s(2) by (metis option.inject)
  moreover have "placed_apart rid c1 c'" using Cons.prems(5) o by (auto simp: placed_apart_def)
  ultimately have "seen' = (seen @ [e]) @ es"
    using s(3) Cons.prems(3,4) by (intro Cons.IH [OF _ g]) simp_all
  then show ?case by simp
qed

lemma parse_replyE:
  assumes "parse_response cb s c = Some c'" "reply_id s = Some rid"
  obtains jt c1 seen where "jt_parse s = Some jt" "rpc_on_replies cb jt rid (rpc_range rid c) [] c = Some (seen, c1)"
    "c' = c1\<lparr>rc_reuse := rc_reuse c1 @ [rid], rc_rv := rpc_erase rid seen (rc_rv c1)\<rparr>"
  using assms by (auto simp: parse_response_def reply_id_def split: bind_splits if_splits)

lemma reply_visits_range:
  assumes "parse_response cb s c = Some c'" "reply_id s = Some rid" "rid \<in> set (map fst pend)" "rpc_good c pend"
    and "length (rc_out c') < 2 ^ 64" "placed_apart rid c c'"
  shows "reply_visits cb s c = Some (rpc_range rid c)"
proof (rule parse_replyE [OF assms(1,2)])
  fix jt c1 seen
  assume j: "jt_parse s = Some jt" "rpc_on_replies cb jt rid (rpc_range rid c) [] c = Some (seen, c1)"
    "c' = c1\<lparr>rc_reuse := rc_reuse c1 @ [rid], rc_rv := rpc_erase rid seen (rc_rv c1)\<rparr>"
  have "seen = [] @ rpc_range rid c"
    by (rule rpc_on_replies_apart [OF j(2) assms(4,3)]) (use assms(5,6) j(3) in \<open>simp_all add: placed_apart_def\<close>)
  then show ?thesis using j(1,2) assms(2) by (simp add: reply_visits_def)
qed

lemma parse_reply_good:
  assumes "parse_response cb s c = Some c'" "reply_id s = Some rid" "rid \<in> set (map fst pend)" "rpc_good c pend"
    and "length (rc_out c') < 2 ^ 64" "placed_apart rid c c'"
  shows "rpc_good c' (filter (\<lambda>(i, ptrs). i \<noteq> rid) (pend @ new_pending c c'))"
proof -
  obtain jt c1 seen where j: "jt_parse s = Some jt" "rpc_on_replies cb jt rid (rpc_range rid c) [] c = Some (seen, c1)"
    "c' = c1\<lparr>rc_reuse := rc_reuse c1 @ [rid], rc_rv := rpc_erase rid seen (rc_rv c1)\<rparr>"
    using parse_replyE [OF assms(1,2)] by blast
  have "seen = rpc_range rid c" using reply_visits_range [OF assms] assms(2) j(1,2) by (simp add: reply_visits_def)
  then have c1: "rpc_on_replies cb jt rid (rpc_range rid c) [] c = Some (seen, c1)"
    "c' = c1\<lparr>rc_reuse := rc_reuse c1 @ [rid], rc_rv := filter (\<lambda>(i, ptr). i \<noteq> rid) (rc_rv c1)\<rparr>"
    using j remove1_range [of seen rid "rc_rv c1"] by (auto simp: rpc_range_def)
  have n: "new_pending c c' = new_pending c c1" using c1(2) by (simp add: new_pending_def)
  have "rpc_good c1 (pend @ new_pending c c1)"
    using keepsD [OF rpc_on_replies_keeps [OF c1(1)] assms(4)] assms(5) c1(2) by simp
  then have g: "distinct (map fst (pend @ new_pending c c1) @ rc_reuse c1)"
    "set (map fst (pend @ new_pending c c1) @ rc_reuse c1) \<subseteq> {1..rc_id c1}" "unat (rc_id c1) \<le> length (rc_out c1)"
    "rc_rv c1 = concat (map (\<lambda>(i, ptrs). map (Pair i) ptrs) (pend @ new_pending c c1))"
    by (auto simp only: rpc_good_def rpc_inv_def)
  let ?p = "pend @ new_pending c c1" and ?f = "filter (\<lambda>(i, ptrs). i \<noteq> rid) (pend @ new_pending c c1)"
  have f: "map fst ?f = filter (\<lambda>i. i \<noteq> rid) (map fst ?p)" by (simp add: filter_map comp_def case_prod_unfold)
  have rid: "rid \<in> set (map fst ?p)" using assms(3) by simp
  have "distinct (map fst ?f @ rc_reuse c1 @ [rid])" unfolding f using g(1) rid by (auto simp del: map_append)
  moreover have "set (map fst ?f @ rc_reuse c1 @ [rid]) \<subseteq> {1..rc_id c1}" unfolding f using g(2) rid by (auto simp del: map_append)
  ultimately have "rpc_inv c' ?f"
    unfolding rpc_inv_def using c1(2) g(4) filter_pending [of rid ?p] by (simp del: filter_append map_append)
  then show ?thesis using g(3) c1(2) n by (simp add: rpc_good_def)
qed

lemma rpc_reach_good: "rpc_reach cb c pend \<Longrightarrow> length (rc_out c) < 2 ^ 64 \<Longrightarrow> rpc_good c pend"
proof (induction rule: rpc_reach.induct)
  case (start host ws obj now rnd mm)
  then show ?case by (simp add: rpc_good_def rpc_inv_def rpc_client_new_def)
next
  case (send c pend call c')
  have "keeps c c'" using rpc_acts_keeps [of "[call]" c c'] send.hyps(2) by simp
  then show ?case using send.IH send.prems keepsD keeps_mono by blast
next
  case (reply c pend s rid c')
  obtain jt seen c1 where "rpc_on_replies cb jt rid (rpc_range rid c) [] c = Some (seen, c1)" "rc_out c' = rc_out c1"
    using reply.hyps(2,4) by (auto simp: parse_response_def reply_id_def split: bind_splits if_splits)
  then have "length (rc_out c) < 2 ^ 64" using keeps_mono [OF rpc_on_replies_keeps] reply.prems by metis
  then show ?case using parse_reply_good [OF reply.hyps(4,2,3)] reply.IH reply.prems reply.hyps(5) by blast
next
  case (note_ c pend s c')
  have "\<exists>jt. rpc_on_note cb jt c = Some c'"
    using note_.hyps(2,3) by (auto simp: parse_response_def is_note_def split: bind_splits if_splits)
  then have "keeps c c'" using rpc_on_note_keeps by blast
  then show ?case using note_.IH note_.prems keepsD keeps_mono by blast
next
  case (unsubscribe c pend ptr c')
  have e: "rc_out c' = rc_out c" "rc_rv c' = rc_rv c" "rc_reuse c' = rc_reuse c" "rc_id c' = rc_id c"
    using unsubscribe.hyps(2) by (auto simp: rpc_remove_notify_def split: bind_splits option.splits)
  then show ?case using unsubscribe.IH unsubscribe.prems by (simp add: rpc_good_def rpc_inv_def)
next
  case (reconnect c pend host ws)
  then show ?case by (simp add: rpc_good_def rpc_inv_def rpc_reset_def)
next
  case (time c pend now)
  then show ?case by (simp add: rpc_good_def rpc_inv_def)
qed

section \<open>Sending\<close>

lemma rpc_submit_delivers:
  assumes "nw_inv jw" "nw_text jw = body" "good_value (rc_host c)" "base + length body + length (rc_host c) + length rest + 200 < 2 ^ 64"
    and "\<not> http \<Longrightarrow> length body < 2 ^ 32"
  shows "\<exists>c' m. rpc_submit rid ptrs http jw c = Some c' \<and> rc_out c' = rc_out c @ [m] \<and> rc_obj c' = rc_obj c \<and>
    rm_id m = rid \<and> rm_reqs m = ptrs \<and> rc_rv c' = rc_rv c \<and>
    (http \<longrightarrow> rm_chan m = Ch_Http \<and> (\<exists>hs'. http_server_parse sha1 base hs (rm_text m @ rest) = Done (length (rm_text m)) hs' \<and>
       hs_out hs' = hs_out hs @ [body])) \<and>
    (\<not> http \<and> rc_ws c \<longrightarrow> rm_chan m = Ch_Ws \<and>
       ws_parse st (rm_text m @ rest) = Done (length (rm_text m)) (ws_emit (Msg body) st)) \<and>
    (\<not> http \<and> \<not> rc_ws c \<longrightarrow> rm_chan m = Ch_None)"
proof -
  obtain msg hs' where p: "http_post (rc_host c) jw = Some msg"
    "http_server_parse sha1 base hs (nw_text msg @ rest) = Done (length (nw_text msg)) hs'" "hs_out hs' = hs_out hs @ [body]"
    using http_post_delivers [OF assms(1,3), of base rest sha1 hs] assms(2,4) by auto
  show ?thesis
  proof (cases http)
    case True
    then show ?thesis using p by (simp add: rpc_submit_def)
  next
    case False
    obtain w buf' where "ws_commit ws_text jw True (rc_rnd c (length (rc_out c))) nw_new = Some (w, buf')"
      "ws_parse st (nw_text w @ rest) = Done (length (nw_text w)) (ws_emit (Msg body) st)"
      using ws_frame_delivers [OF assms(1), of True ws_text "rc_rnd c (length (rc_out c))" st rest] assms(2,5) False by auto
    then show ?thesis using False by (cases "rc_ws c") (simp_all add: rpc_submit_def)
  qed
qed

lemma rpc_new_id_keeps: "rpc_new_id c = (c1, rid) \<Longrightarrow> rc_host c1 = rc_host c \<and> rc_ws c1 = rc_ws c \<and> rc_out c1 = rc_out c \<and>
    rc_rv c1 = rc_rv c \<and> rc_obj c1 = rc_obj c \<and> rc_now c1 = rc_now c"
  by (auto simp: rpc_new_id_def split: if_splits)

definition rpc_body :: "u64 \<Rightarrow> rpc_req \<Rightarrow> string" where
  "rpc_body rid r = render (JObj ([(''jsonrpc'', JText ''2.0''), (''id'', JUint rid)] @ rpc_doc r))"

text \<open>Requests over the websocket are short: the keys have a fixed size.\<close>

lemma put_digits_short: "v < 10 ^ k \<Longrightarrow> length (put_digits v acc) \<le> k + length acc"
proof (induction k arbitrary: v acc)
  case 0
  then show ?case by (simp add: put_digits.simps)
next
  case (Suc k)
  have "v div 10 < 10 ^ k" using Suc.prems by (simp add: less_mult_imp_div_less mult.commute)
  from Suc.IH [OF this, of "digit (v mod 10) # acc"] show ?case by (subst put_digits.simps) simp
qed

lemma uint_to_str_short: "length (uint_to_str n) \<le> 20"
proof -
  have "unat n < 10 ^ 20" using unsigned_less [of n, where ?'a = nat] by simp
  from put_digits_short [OF this, of "[]"] show ?thesis by (simp add: uint_to_str_def)
qed

lemma b58_text_short: "length (b58_text s) \<le> 2 * length s"
  by (auto simp: b58_text_def enc_base58_def Let_def split: option.splits if_splits)

lemma commitment_short: "length (commitment_to_str cmt) \<le> 9"
  using less_Suc_eq by (auto simp: commitment_to_str_def enum_to_str_def commitment_str_def nth_Cons split: nat.splits)

lemma rpc_body_short:
  assumes "rpc_req_ok r" "\<not> get_is_http r"
  shows "length (rpc_body rid r) < 2 ^ 32"
proof -
  note parts = uint_to_str_short [of rid] commitment_short b58_text_short
  have "length (rpc_body rid r) \<le> 400"
  proof (cases r)
    case (Account_Subscribe acc cmt)
    then show ?thesis using assms parts(1) commitment_short [of cmt] b58_text_short [of acc]
      by (simp add: rpc_body_def quoted_def cmt_val_def HASH_LEN_def)
  next
    case (Program_Subscribe pgm cmt)
    then show ?thesis using assms parts(1) commitment_short [of cmt] b58_text_short [of pgm]
      by (simp add: rpc_body_def quoted_def cmt_val_def HASH_LEN_def)
  next
    case (Signature_Subscribe sig cmt)
    then show ?thesis using assms parts(1) commitment_short [of cmt] b58_text_short [of sig]
      by (simp add: rpc_body_def quoted_def cmt_val_def SIG_LEN_def)
  qed (use assms in simp_all)
  then show ?thesis by simp
qed

lemma rpc_send_ok:
  assumes "rpc_req_ok r" "good_value (rc_host c)" "rpc_new_id c = (c1, rid)"
    and "base + length (rpc_body rid r) + length (rc_host c) + length rest + 200 < 2 ^ 64"
  shows "\<exists>c' m. rpc_send (rpc_request r) (get_is_http r) ptr c = Some c' \<and> rc_out c' = rc_out c @ [m] \<and>
    rm_id m = rid \<and> rm_reqs m = [ptr] \<and> rc_rv c' = rc_rv c @ [(rid, ptr)] \<and>
    rc_obj c' = (rc_obj c)(ptr := rc_obj c ptr\<lparr>rq_id := rid, rq_sent := rc_now c\<rparr>) \<and>
    (get_is_http r \<longrightarrow> rm_chan m = Ch_Http \<and> (\<exists>hs'. http_server_parse sha1 base hs (rm_text m @ rest) =
       Done (length (rm_text m)) hs' \<and> hs_out hs' = hs_out hs @ [rpc_body rid r])) \<and>
    (\<not> get_is_http r \<and> rc_ws c \<longrightarrow> rm_chan m = Ch_Ws \<and>
       ws_parse st (rm_text m @ rest) = Done (length (rm_text m)) (ws_emit (Msg (rpc_body rid r)) st)) \<and>
    (\<not> get_is_http r \<and> \<not> rc_ws c \<longrightarrow> rm_chan m = Ch_None)"
proof -
  let ?c = "rpc_register rid ptr c1"
  note k = rpc_new_id_keeps [OF assms(3)]
  have f: "rc_host ?c = rc_host c" "rc_ws ?c = rc_ws c" "rc_out ?c = rc_out c" "rc_rv ?c = rc_rv c @ [(rid, ptr)]"
    "rc_obj ?c = (rc_obj c)(ptr := rc_obj c ptr\<lparr>rq_id := rid, rq_sent := rc_now c\<rparr>)"
    using k by (simp_all add: rpc_register_def)
  obtain jw where jw: "rpc_message rid (rpc_request r) = Some jw" "nw_text jw = rpc_body rid r" "nw_inv jw"
    using rpc_message_ok [OF assms(1), of rid] unfolding rpc_body_def by (rule jw_okE)
  have s: "rpc_send (rpc_request r) (get_is_http r) ptr c = rpc_submit rid [ptr] (get_is_http r) jw ?c"
    by (simp add: rpc_send_def assms(3) jw(1))
  have g: "good_value (rc_host ?c)" "base + length (rpc_body rid r) + length (rc_host ?c) + length rest + 200 < 2 ^ 64"
    using assms(2,4) f(1) by simp_all
  show ?thesis
    unfolding s using rpc_submit_delivers [OF jw(3,2) g, where rid = rid and ptrs = "[ptr]" and http = "get_is_http r" and ?sha1.0 = sha1 and hs = hs and st = st,
      OF rpc_body_short [OF assms(1)]] unfolding f by metis
qed

section \<open>Properties\<close>

text \<open>(C39) Sending a request registers it under the fresh number and hands one message to the
  connection of its kind; the bytes of that message, read by the HTTP server parser or the websocket parser,
  whatever follows them, give exactly one request body or one text message, and that is the documented JSON-RPC
  call with the same number.\<close>

theorem rpc_send_delivers:
  assumes "rpc_req_ok r" "good_value (rc_host c)" "rid = snd (rpc_new_id c)"
    and "base + length (rpc_body rid r) + length (rc_host c) + length rest + 200 < 2 ^ 64"
  shows "\<exists>c' m. rpc_send (rpc_request r) (get_is_http r) ptr c = Some c' \<and> rc_out c' = rc_out c @ [m] \<and>
    rm_id m = rid \<and> rm_reqs m = [ptr] \<and> rc_rv c' = rc_rv c @ [(rid, ptr)] \<and>
    rc_obj c' = (rc_obj c)(ptr := rc_obj c ptr\<lparr>rq_id := rid, rq_sent := rc_now c\<rparr>) \<and>
    (get_is_http r \<longrightarrow> rm_chan m = Ch_Http \<and> (\<exists>hs'. http_server_parse sha1 base hs (rm_text m @ rest) =
       Done (length (rm_text m)) hs' \<and> hs_out hs' = hs_out hs @ [rpc_body rid r])) \<and>
    (\<not> get_is_http r \<and> rc_ws c \<longrightarrow> rm_chan m = Ch_Ws \<and>
       ws_parse st (rm_text m @ rest) = Done (length (rm_text m)) (ws_emit (Msg (rpc_body rid r)) st)) \<and>
    (\<not> get_is_http r \<and> \<not> rc_ws c \<longrightarrow> rm_chan m = Ch_None)"
  by (rule rpc_send_ok [where ?c1.0 = "fst (rpc_new_id c)", OF assms(1,2) _ assms(4)]) (simp add: assms(3))

definition client0 :: rpc_client where
  "client0 = rpc_client_new ''h'' True (\<lambda>p. rpc_obj_new C_Slot) 5 (\<lambda>n. 0) (\<lambda>n old rid e. Apart)"

theorem rpc_send_delivers_witness:
  "\<exists>c' m. rpc_send (rpc_request (Get_Slot 2)) True 10 client0 = Some c' \<and> rc_out c' = [m] \<and> rm_id m = 1 \<and>
     (\<exists>hs'. http_server_parse (\<lambda>s. s) 4096 server0 (rm_text m) = Done (length (rm_text m)) hs' \<and>
        hs_out hs' = [''{\"jsonrpc\":\"2.0\",\"id\":1,\"method\":\"getSlot\",\"params\":[{\"commitment\":\"confirmed\"}]}''])"
proof -
  have b: "rpc_body 1 (Get_Slot 2) = ''{\"jsonrpc\":\"2.0\",\"id\":1,\"method\":\"getSlot\",\"params\":[{\"commitment\":\"confirmed\"}]}''"
    by code_simp
  have h: "good_value (rc_host client0)" "snd (rpc_new_id client0) = 1" "length (rc_host client0) = 1" "rc_out client0 = []"
    by (simp_all add: client0_def rpc_client_new_def rpc_new_id_def good_value_def is_space_def)
  have l: "4096 + length (rpc_body 1 (Get_Slot 2)) + length (rc_host client0) + length ([] :: string) + 200 < 2 ^ 64"
    unfolding b h(3) by simp
  obtain c' m where "rpc_send (rpc_request (Get_Slot 2)) True 10 client0 = Some c'" "rc_out c' = rc_out client0 @ [m]" "rm_id m = 1"
    "\<exists>hs'. http_server_parse (\<lambda>s. s) 4096 server0 (rm_text m @ []) = Done (length (rm_text m)) hs' \<and>
       hs_out hs' = hs_out server0 @ [rpc_body 1 (Get_Slot 2)]"
    using rpc_send_delivers [of "Get_Slot 2" client0 1 4096 "[]" 10 "\<lambda>s. s" server0, OF _ h(1) h(2) [symmetric] l] by auto
  then show ?thesis unfolding b h(4) by (auto simp: server0_def)
qed



text \<open>(C40) The client does not check that anybody waits for a reply: when a reply arrives a
  second time, its number is put on the list of free numbers a second time, and the next two messages carry the
  same number, so that the first reply is given to the requests of both.\<close>

theorem rpc_duplicate_reply:
  assumes "reply_id s = Some rid" "parse_response cb s c = Some c1"
  shows "\<exists>c2. parse_response cb s c1 = Some c2 \<and> snd (rpc_new_id c2) = rid \<and> snd (rpc_new_id (fst (rpc_new_id c2))) = rid"
proof -
  obtain jt idtok where jt: "jt_parse s = Some jt" "jt_find_val jt 1 ''id'' = Some idtok" "idtok \<noteq> 0" "jt_get_uint jt idtok = Some rid"
    using assms(1) by (auto simp: reply_id_def split: bind_splits if_splits)
  then obtain cm seen where "c1 = cm\<lparr>rc_reuse := rc_reuse cm @ [rid], rc_rv := rpc_erase rid seen (rc_rv cm)\<rparr>"
    using assms(2) by (auto simp: parse_response_def split: bind_splits)
  then have c1: "rc_reuse c1 = rc_reuse cm @ [rid]" "rpc_range rid c1 = []"
    by (auto simp: rpc_range_def rpc_erase_def case_prod_unfold comp_def)
  then show ?thesis using jt by (simp add: parse_response_def rpc_on_replies.simps rpc_new_id_def butlast_append)
qed

theorem rpc_duplicate_reply_witness:
  "\<exists>c1 c2. parse_response (\<lambda>p rq. []) ''{\"id\":1}'' client0 = Some c1 \<and> parse_response (\<lambda>p rq. []) ''{\"id\":1}'' c1 = Some c2 \<and>
     snd (rpc_new_id c2) = 1 \<and> snd (rpc_new_id (fst (rpc_new_id c2))) = 1"
proof -
  have r: "reply_id ''{\"id\":1}'' = Some 1" by code_simp
  then obtain jt idtok where jt: "jt_parse ''{\"id\":1}'' = Some jt" "jt_find_val jt 1 ''id'' = Some idtok" "idtok \<noteq> 0"
      "jt_get_uint jt idtok = Some 1"
    by (auto simp: reply_id_def split: bind_splits if_splits)
  have "rpc_range 1 client0 = []" by (simp add: rpc_range_def client0_def rpc_client_new_def)
  then obtain c1 where c1: "parse_response (\<lambda>p rq. []) ''{\"id\":1}'' client0 = Some c1"
    using jt by (simp add: parse_response_def rpc_on_replies.simps)
  show ?thesis using rpc_duplicate_reply [OF r c1] c1 by blast
qed

end
