(* ===== verification/Key_Store.thy ===== *)
theory Key_Store
  imports Key_Pair Json_Tree
begin

text \<open>
  The directory of keys, \<open>pc/key_store.cpp\<close>: the publishing, mapping and program keys are read from their
  files on first use and kept; account keys are files named by their public key.  The file system is a part of
  the state: \<open>ks_files\<close> holds the contents of the files that can be read, \<open>ks_disk\<close> says what a write to a
  file does.  New key pairs come from the crypto library and are arguments.  A fault (a file with more than 64
  numbers overruns the array of the key) is \<open>None\<close>.
\<close>

section \<open>Model\<close>

datatype disk = Written | Open_Failed | Write_Failed nat

record key_store =
  ks_dir :: string
  ks_files :: "string \<Rightarrow> string option"
  ks_disk :: "string \<Rightarrow> disk"
  ks_err :: "string option"
  ks_has_pkey :: bool
  ks_has_mkey :: bool
  ks_has_mpub :: bool
  ks_has_gkey :: bool
  ks_has_gpub :: bool
  ks_pkey :: string
  ks_mkey :: string
  ks_gkey :: string
  ks_ckey :: "string option"
  ks_ppub :: string
  ks_mpub :: string
  ks_gpub :: string

definition key_store_new :: "string \<Rightarrow> (string \<Rightarrow> string option) \<Rightarrow> (string \<Rightarrow> disk) \<Rightarrow> key_store" where
  "key_store_new dir files disk =
     \<lparr>ks_dir = dir, ks_files = files, ks_disk = disk, ks_err = None, ks_has_pkey = False, ks_has_mkey = False,
      ks_has_mpub = False, ks_has_gkey = False, ks_has_gpub = False, ks_pkey = key_pair_zero, ks_mkey = key_pair_zero,
      ks_gkey = key_pair_zero, ks_ckey = None, ks_ppub = hash_zero, ks_mpub = hash_zero, ks_gpub = hash_zero\<rparr>"

text \<open>Only the first buffer of the text is written; a failed write leaves what was written before.\<close>

definition write_key_file :: "string \<Rightarrow> string \<Rightarrow> key_store \<Rightarrow> (bool \<times> key_store) option" where
  "write_key_file file kp ks =
     do { wtr \<leftarrow> jw_val_key_pair kp jw_new;
          (bufs, _) \<leftarrow> nw_detach wtr;
          (case ks_disk ks file of
             Open_Failed \<Rightarrow> Some (False, ks)
           | Write_Failed n \<Rightarrow> Some (False, ks\<lparr>ks_files := (ks_files ks)(file := Some (take n (hd bufs)))\<rparr>)
           | Written \<Rightarrow> Some (True, ks\<lparr>ks_files := (ks_files ks)(file := Some (hd bufs))\<rparr>)) }"

text \<open>\<open>init\<close>, with the result of \<open>stat\<close> on the directory: whether it is a directory, its owner, its mode.\<close>

record fstat =
  st_isdir :: bool
  st_uid :: nat
  st_mode :: "32 word"

definition ks_set_err :: "string \<Rightarrow> key_store \<Rightarrow> bool \<times> key_store" where
  "ks_set_err msg ks = (False, ks\<lparr>ks_err := Some msg\<rparr>)"

definition ks_init :: "fstat option \<Rightarrow> nat \<Rightarrow> nat \<Rightarrow> string \<Rightarrow> key_store \<Rightarrow> bool \<times> key_store" where
  "ks_init fstat uid euid errno_text ks =
     (let ks = ks\<lparr>ks_has_pkey := False, ks_has_mkey := False, ks_has_mpub := False, ks_has_gkey := False, ks_has_gpub := False\<rparr>
      in case fstat of
           None \<Rightarrow> ks_set_err (''cant find key_store directory'' @ errno_text) ks
         | Some st \<Rightarrow>
             if \<not> st_isdir st then ks_set_err ''key_store path not a directory'' ks
             else if st_uid st \<noteq> uid \<or> st_uid st \<noteq> euid then ks_set_err ''user must own the key_store directory'' ks
             else if st_mode st AND 256 = 0 then ks_set_err ''user must have read access to key_store directory'' ks
             else if st_mode st AND 128 = 0 then ks_set_err ''user must have write access to key_store directory'' ks
             else if st_mode st AND 63 \<noteq> 0
               then ks_set_err ''key store directory must be restricted to user read/write permissions'' ks
             else (True, if last (ks_dir ks) \<noteq> CHR ''/'' then ks\<lparr>ks_dir := ks_dir ks @ ''/''\<rparr> else ks))"

definition publish_key_pair_file :: "key_store \<Rightarrow> string" where
  "publish_key_pair_file ks = ks_dir ks @ ''publish_key_pair.json''"

definition mapping_key_pair_file :: "key_store \<Rightarrow> string" where
  "mapping_key_pair_file ks = ks_dir ks @ ''mapping_key_pair.json''"

definition mapping_pub_key_file :: "key_store \<Rightarrow> string" where
  "mapping_pub_key_file ks = ks_dir ks @ ''mapping_key.json''"

definition program_key_pair_file :: "key_store \<Rightarrow> string" where
  "program_key_pair_file ks = ks_dir ks @ ''program_key_pair.json''"

definition program_pub_key_file :: "key_store \<Rightarrow> string" where
  "program_pub_key_file ks = ks_dir ks @ ''program_key.json''"

definition account_key_file :: "string \<Rightarrow> key_store \<Rightarrow> string" where
  "account_key_file pk ks = ks_dir ks @ ''account_'' @ hash_enc_base58 pk @ ''.json''"

text \<open>The publishing key; \<open>gen\<close> is the new key pair.\<close>

definition create_publish_key_pair :: "string \<Rightarrow> key_store \<Rightarrow> (string option \<times> key_store) option" where
  "create_publish_key_pair gen ks =
     do { let ks = ks\<lparr>ks_pkey := gen\<rparr>;
          (ok, ks) \<leftarrow> write_key_file (publish_key_pair_file ks) (ks_pkey ks) ks;
          if \<not> ok then Some (None, ks)
          else do { pub \<leftarrow> get_pub_key (ks_pkey ks);
                    Some (Some (ks_pkey ks), ks\<lparr>ks_ppub := pub, ks_has_pkey := True\<rparr>) } }"

definition get_publish_key_pair :: "key_store \<Rightarrow> (string option \<times> key_store) option" where
  "get_publish_key_pair ks =
     (if ks_has_pkey ks then Some (Some (ks_pkey ks), ks)
      else do { (ok, kp) \<leftarrow> kp_init_from_file (ks_files ks (publish_key_pair_file ks)) (ks_pkey ks);
                let ks = ks\<lparr>ks_pkey := kp\<rparr>;
                if \<not> ok then Some (None, ks)
                else do { pub \<leftarrow> get_pub_key kp;
                          Some (Some kp, ks\<lparr>ks_has_pkey := True, ks_ckey := Some (take HASH_LEN kp), ks_ppub := pub\<rparr>) } })"

text \<open>The cache is returned whether it was set or not; the inner option is the null pointer inside it.\<close>

definition get_publish_key_cache :: "key_store \<Rightarrow> (string option option \<times> key_store) option" where
  "get_publish_key_cache ks =
     do { (kp, ks) \<leftarrow> get_publish_key_pair ks; Some (if kp \<noteq> None then Some (ks_ckey ks) else None, ks) }"

definition get_publish_pub_key :: "key_store \<Rightarrow> (string option \<times> key_store) option" where
  "get_publish_pub_key ks =
     (if ks_has_pkey ks then Some (Some (ks_ppub ks), ks)
      else do { (kp, ks) \<leftarrow> get_publish_key_pair ks; Some (if kp \<noteq> None then Some (ks_ppub ks) else None, ks) })"

definition create_mapping_key_pair :: "string \<Rightarrow> key_store \<Rightarrow> (string option \<times> key_store) option" where
  "create_mapping_key_pair gen ks =
     do { let ks = ks\<lparr>ks_mkey := gen\<rparr>;
          (ok, ks) \<leftarrow> write_key_file (mapping_key_pair_file ks) (ks_mkey ks) ks;
          if \<not> ok then Some (None, ks)
          else do { pub \<leftarrow> get_pub_key (ks_mkey ks);
                    Some (Some (ks_mkey ks), ks\<lparr>ks_mpub := pub, ks_has_mkey := True, ks_has_mpub := True\<rparr>) } }"

definition get_mapping_key_pair :: "key_store \<Rightarrow> (string option \<times> key_store) option" where
  "get_mapping_key_pair ks =
     (if ks_has_mkey ks then Some (Some (ks_mkey ks), ks)
      else do { (ok, kp) \<leftarrow> kp_init_from_file (ks_files ks (mapping_key_pair_file ks)) (ks_mkey ks);
                let ks = ks\<lparr>ks_mkey := kp\<rparr>;
                if \<not> ok then Some (None, ks)
                else do { pub \<leftarrow> get_pub_key kp;
                          Some (Some kp, ks\<lparr>ks_mpub := pub, ks_has_mkey := True, ks_has_mpub := True\<rparr>) } })"

definition get_mapping_pub_key :: "key_store \<Rightarrow> (string option \<times> key_store) option" where
  "get_mapping_pub_key ks =
     (if ks_has_mpub ks then Some (Some (ks_mpub ks), ks)
      else do { (kp, ks) \<leftarrow> get_mapping_key_pair ks;
                if kp \<noteq> None then Some (Some (ks_mpub ks), ks)
                else do { (ok, pub) \<leftarrow> hash_init_from_file (ks_files ks (mapping_pub_key_file ks)) (ks_mpub ks);
                          let ks = ks\<lparr>ks_mpub := pub\<rparr>;
                          if \<not> ok then Some (None, ks)
                          else Some (Some pub, ks\<lparr>ks_has_mpub := True\<rparr>) } })"

definition create_program_key_pair :: "string \<Rightarrow> key_store \<Rightarrow> (string option \<times> key_store) option" where
  "create_program_key_pair gen ks =
     do { let ks = ks\<lparr>ks_gkey := gen\<rparr>;
          (ok, ks) \<leftarrow> write_key_file (program_key_pair_file ks) (ks_gkey ks) ks;
          if \<not> ok then Some (None, ks)
          else do { pub \<leftarrow> get_pub_key (ks_gkey ks);
                    Some (Some (ks_gkey ks), ks\<lparr>ks_gpub := pub, ks_has_gkey := True, ks_has_gpub := True\<rparr>) } }"

definition get_program_key_pair :: "key_store \<Rightarrow> (string option \<times> key_store) option" where
  "get_program_key_pair ks =
     (if ks_has_gkey ks then Some (Some (ks_gkey ks), ks)
      else do { (ok, kp) \<leftarrow> kp_init_from_file (ks_files ks (program_key_pair_file ks)) (ks_gkey ks);
                let ks = ks\<lparr>ks_gkey := kp\<rparr>;
                if \<not> ok then Some (None, ks)
                else do { pub \<leftarrow> get_pub_key kp;
                          Some (Some kp, ks\<lparr>ks_gpub := pub, ks_has_gkey := True, ks_has_gpub := True\<rparr>) } })"

definition get_program_pub_key :: "key_store \<Rightarrow> (string option \<times> key_store) option" where
  "get_program_pub_key ks =
     (if ks_has_gpub ks then Some (Some (ks_gpub ks), ks)
      else do { (kp, ks) \<leftarrow> get_program_key_pair ks;
                if kp \<noteq> None then Some (Some (ks_gpub ks), ks)
                else do { (ok, pub) \<leftarrow> hash_init_from_file (ks_files ks (program_pub_key_file ks)) (ks_gpub ks);
                          let ks = ks\<lparr>ks_gpub := pub\<rparr>;
                          if \<not> ok then Some (None, ks)
                          else Some (Some pub, ks\<lparr>ks_has_gpub := True\<rparr>) } })"

text \<open>Account keys: \<open>res\<close> is the caller's key pair before the call.\<close>

definition create_account_key_pair :: "string \<Rightarrow> key_store \<Rightarrow> (bool \<times> string \<times> key_store) option" where
  "create_account_key_pair gen ks =
     do { pk \<leftarrow> get_pub_key gen;
          (ok, ks) \<leftarrow> write_key_file (account_key_file pk ks) gen ks;
          Some (ok, gen, ks) }"

definition get_account_key_pair :: "string \<Rightarrow> string \<Rightarrow> key_store \<Rightarrow> (bool \<times> string) option" where
  "get_account_key_pair pk res ks =
     do { (ok, res) \<leftarrow> kp_init_from_file (ks_files ks (account_key_file pk ks)) res;
          if ok then do { chk \<leftarrow> get_pub_key res; Some (hash_eq chk pk, res) } else Some (False, res) }"

section \<open>The text of a key pair\<close>

text \<open>A key pair is the array of its bytes; its text is shorter than a buffer, so that the writer stays in its
  first buffer.\<close>

definition kp_json :: "string \<Rightarrow> jv" where
  "kp_json kp = JArr (map (\<lambda>c. JUint (of_nat (byte c))) kp)"

definition nw_near :: "'a net_wtr_scheme \<Rightarrow> bool" where
  "nw_near w \<longleftrightarrow> (\<forall>b \<in> set (wt_hd w). NET_BUF_LEN < length b + 32)"

lemma nw_put_near: "nw_put s w = Some w' \<Longrightarrow> nw_near w \<Longrightarrow> nw_near w'"
  by (auto simp: nw_put_def nw_near_def split: option.splits if_splits)

lemma nw_room_near:
  assumes "do { n \<leftarrow> tail_size w; if NET_BUF_LEN < n + k then nw_alloc w else Some w } = Some w'" "k \<le> 32" "nw_near w"
  shows "nw_near w'"
  using assms by (cases "wt_tl w") (auto simp: tail_size_def nw_alloc_def nw_near_def split: if_splits)

lemma nw_add_char_near:
  assumes "nw_add_char c w = Some w'" "nw_near w"
  shows "nw_near w'"
proof -
  obtain w1 where w1: "do { n \<leftarrow> tail_size w; if n = NET_BUF_LEN then nw_alloc w else Some w } = Some w1" "nw_put [c] w1 = Some w'"
    using assms(1) by (auto simp: nw_add_char_def bind_eq_Some_conv)
  have "nw_near w1"
    using w1(1) assms(2) by (cases "wt_tl w") (auto simp: tail_size_def nw_alloc_def nw_near_def split: if_splits)
  then show ?thesis using nw_put_near w1(2) by blast
qed

lemma nw_fill_near: "nw_fill 32 s w = Some w' \<Longrightarrow> nw_near w \<Longrightarrow> nw_near w'"
  using nw_put_near nw_room_near [of w 32] unfolding nw_fill_def nw_reserve_def
  by (fastforce simp: bind_eq_Some_conv split: if_splits)

lemma nw_near_upd [simp]: "nw_near (w\<lparr>jw_first := b\<rparr>) = nw_near w" "nw_near (w\<lparr>jw_st := st\<rparr>) = nw_near w"
  by (simp_all add: nw_near_def)

lemma jw_val_uint_near: "jw_val_uint v w = Some w' \<Longrightarrow> nw_near w \<Longrightarrow> nw_near w'"
  by (auto simp: jw_val_uint_def jw_add_first_def jw_add_uint_def bind_eq_Some_conv split: if_splits
    dest!: nw_add_char_near nw_fill_near)

lemma jw_val_bytes_near: "jw_val_bytes s w = Some w' \<Longrightarrow> nw_near w \<Longrightarrow> nw_near w'"
  by (induction s arbitrary: w) (auto simp: bind_eq_Some_conv dest!: jw_val_uint_near)

lemma jw_val_arr_near: "jw_val_type jw_arr w = Some w' \<Longrightarrow> nw_near w \<Longrightarrow> nw_near w'"
  by (auto simp: jw_val_type_def jw_add_first_def jw_add_arr_def bind_eq_Some_conv split: if_splits dest!: nw_add_char_near)

lemma jw_pop_near: "jw_pop w = Some w' \<Longrightarrow> nw_near w \<Longrightarrow> nw_near w'"
  by (cases "jw_st w") (auto simp: jw_pop_def bind_eq_Some_conv dest!: nw_add_char_near)

lemma jw_val_key_pair_near: "jw_val_key_pair kp w = Some w' \<Longrightarrow> nw_near w \<Longrightarrow> nw_near w'"
  by (auto simp: jw_val_key_pair_def bind_eq_Some_conv dest!: jw_val_arr_near jw_pop_near jw_val_bytes_near)

lemma sep_by_length: "(\<And>s. s \<in> set ss \<Longrightarrow> length s \<le> m) \<Longrightarrow> length (sep_by ss) \<le> (m + 1) * length ss"
proof (induction ss rule: sep_by.induct)
  case (2 s)
  then show ?case by simp
next
  case (3 s t ts)
  have "length (sep_by (t # ts)) \<le> (m + 1) * length (t # ts)" using 3 by simp
  moreover have "length s \<le> m" using 3(2) by simp
  ultimately show ?case by simp
qed simp

lemma unat_byte: "unat (of_nat (byte c) :: u64) = byte c"
proof -
  have "byte c < 2 ^ 64" using nat_of_char_less_256 [of c] by (rule less_trans) simp
  then show ?thesis by (simp add: unsigned_of_nat take_bit_nat_eq_self_iff)
qed

lemma byte_text_length: "length (uint_to_str (of_nat (byte c))) \<le> 3"
proof -
  have "unat (of_nat (byte c) :: u64) < 10 ^ 3"
    unfolding unat_byte using nat_of_char_less_256 [of c] by (rule less_trans) simp
  from put_digits_bound [OF _ this, of "[]"] show ?thesis by (simp add: uint_to_str_def)
qed

lemma kp_json_length: "length (render (kp_json kp)) \<le> 4 * length kp + 2"
proof -
  have "length (sep_by (map render (map (\<lambda>c. JUint (of_nat (byte c))) kp))) \<le>
      (3 + 1) * length (map render (map (\<lambda>c. JUint (of_nat (byte c))) kp))"
    by (rule sep_by_length) (use byte_text_length in auto)
  then show ?thesis by (simp add: kp_json_def)
qed

lemma kp_json_ok: "printable (kp_json kp)" "clean (kp_json kp)" "\<not> scalar (kp_json kp)"
  by (auto simp: kp_json_def)

lemma write_key_text:
  assumes "length kp = KEY_PAIR_LEN"
  obtains w where "jw_val_key_pair kp jw_new = Some w" "nw_detach w = Some ([render (kp_json kp)], w\<lparr>wt_hd := [], wt_tl := None, wt_sz := 0\<rparr>)"
proof -
  have e: "jw_val_key_pair kp jw_new = emit_elems [kp_json kp] jw_new"
    unfolding jw_val_key_pair_def kp_json_def jw_container_emit(4) [symmetric] jw_val_bytes_emit ..
  obtain w where w: "jw_val_key_pair kp jw_new = Some w" "jw_post jw_new (comma_sep True (map render [kp_json kp])) False w"
    using emit_ok(3) [OF jw_new_ok(1), of "[kp_json kp]"] kp_json_ok(1) e by auto
  have x: "nw_text w = render (kp_json kp)" "nw_bufs w" using w(2) by (simp_all add: jw_post_def comma_sep_def)
  have "nw_near w" by (rule jw_val_key_pair_near [OF w(1)]) (simp add: nw_near_def jw_new_def)
  moreover have "length (nw_text w) \<le> 258" using x(1) kp_json_length [of kp] assms by (simp add: KEY_PAIR_LEN_def)
  ultimately have h: "wt_hd w = []"
    by (cases "wt_hd w") (auto simp: nw_near_def nw_text_def NET_BUF_LEN_def)
  obtain t where "wt_tl w = Some t" using x(2) by (auto simp: nw_bufs_def)
  then show thesis using that [OF w(1)] h x(1) by (simp add: nw_detach_def nw_text_def)
qed

lemma kp_fill_elems:
  assumes "elems_at jt it (map (\<lambda>c. JUint (of_nat (byte c))) cs)" "length cs < f" "i + length cs \<le> length pk"
  shows "kp_fill f jt it i pk = Some (i + length cs, take i pk @ cs @ drop (i + length cs) pk)"
  using assms
proof (induction cs arbitrary: f it i pk)
  case Nil
  then show ?case by (cases f) auto
next
  case (Cons c cs)
  obtain g where f: "f = Suc g" using Cons.prems(2) by (cases f) auto
  from Cons.prems(1) obtain j where j: "json_at jt it (JUint (of_nat (byte c)))" "jt_get_next jt it = Some j"
    "elems_at jt j (map (\<lambda>c. JUint (of_nat (byte c))) cs)" by auto
  have b: "to_byte (unat (of_nat (byte c) :: u64) mod 256) = c"
    unfolding unat_byte by simp
  have u: "(take i pk @ [c]) @ cs @ drop (Suc i + length cs) pk = take i pk @ (c # cs) @ drop (i + length (c # cs)) pk"
    by simp
  have t: "take (Suc i) (pk[i := c]) = take i pk @ [c]" using Cons.prems(3) by (simp add: take_Suc_conv_app_nth)
  have "kp_fill g jt j (i + 1) (pk[i := c]) = Some (i + 1 + length cs, take (i + 1) (pk[i := c]) @ cs @ drop (i + 1 + length cs) (pk[i := c]))"
    by (rule Cons.IH [OF j(3)]) (use Cons.prems f in auto)
  then show ?case using j f b t Cons.prems(3) json_at_uint [OF j(1)] by (simp add: json_at_def)
qed

lemma chain_size: "chain lo hi nv p h t rs \<Longrightarrow> lo \<le> hi \<Longrightarrow> lo + length rs \<le> hi"
proof (induction rs arbitrary: lo p h)
  case (Cons r rs)
  then obtain m where m: "lo \<le> h" "h < m" "m \<le> hi" "chain m hi nv h (jn_next (nv ! h)) t rs" by auto
  then show ?case using Cons.IH [OF m(4,3)] by simp
qed simp

lemma json_at_size: "json_at jt i (JArr vs) \<Longrightarrow> length vs \<le> length (jt_nv jt)"
proof -
  assume "json_at jt i (JArr vs)"
  then obtain lo hi where c: "chain lo hi (jt_nv jt) 0 (jn_h (jt_nv jt ! i)) (jn_t (jt_nv jt ! i)) (map (elem (jt_buf jt)) vs)"
    "hi \<le> length (jt_nv jt)"
    by (auto simp: json_at_def rep_arr)
  show ?thesis
  proof (cases vs)
    case (Cons v vs')
    then have "lo \<le> hi" using c(1) by auto
    then show ?thesis using chain_size [OF c(1)] c(2) by simp
  qed simp
qed

lemma kp_text_back:
  assumes "length kp = KEY_PAIR_LEN" "length old = KEY_PAIR_LEN"
  shows "kp_init_from_json (render (kp_json kp)) old = Some (True, kp)"
proof -
  have "length (render (kp_json kp)) + 4 < 2 ^ 24" using kp_json_length [of kp] assms(1) by (simp add: KEY_PAIR_LEN_def)
  from jt_parse_json [OF kp_json_ok(2,3) this] obtain jt where jt: "jt_parse (render (kp_json kp)) = Some jt"
    "json_at jt 1 (kp_json kp)" by blast
  obtain j where j: "jt_get_first jt 1 = Some j" "elems_at jt j (map (\<lambda>c. JUint (of_nat (byte c))) kp)"
    using json_at_first [of jt 1] jt(2) by (auto simp: kp_json_def)
  have "length kp < Suc (length (jt_nv jt))"
    using json_at_size [OF jt(2) [unfolded kp_json_def]] by simp
  from kp_fill_elems [OF j(2) this, of 0 old] show ?thesis
    using jt(1) j(1) assms by (simp add: kp_init_from_json_def)
qed

section \<open>Results\<close>

lemma write_key_file_text:
  assumes "length kp = KEY_PAIR_LEN" "ks_disk ks file = Written"
  shows "write_key_file file kp ks = Some (True, ks\<lparr>ks_files := (ks_files ks)(file := Some (render (kp_json kp)))\<rparr>)"
  by (rule write_key_text [OF assms(1)]) (simp add: write_key_file_def assms(2))

lemma get_pub_key_half: "length kp = KEY_PAIR_LEN \<Longrightarrow> get_pub_key kp = Some (drop HASH_LEN kp)"
  by (simp add: get_pub_key_def hash_init_from_buf_def KEY_PAIR_LEN_def HASH_LEN_def)

lemma hash_eq_refl [simp]: "hash_eq pk pk"
  by (simp add: hash_eq_def)

text \<open>(C25) A key pair that the store has written is what it reads back: an account key pair
  under its public key, whatever the caller's buffer held; the mapping key pair and its public half in a new
  process that opens the same directory.  No other file changes.\<close>

theorem key_store_roundtrip:
  assumes "length kp = KEY_PAIR_LEN" "length old = KEY_PAIR_LEN" "\<And>f. ks_disk ks f = Written"
  shows "(\<exists>ks'. create_account_key_pair kp ks = Some (True, kp, ks') \<and>
       get_account_key_pair (drop HASH_LEN kp) old ks' = Some (True, kp) \<and>
       (\<forall>f. f \<noteq> account_key_file (drop HASH_LEN kp) ks \<longrightarrow> ks_files ks' f = ks_files ks f)) \<and>
    (\<exists>ks'. create_mapping_key_pair kp ks = Some (Some kp, ks') \<and>
       (\<exists>ks1 ks2. get_mapping_key_pair (key_store_new (ks_dir ks) (ks_files ks') (ks_disk ks)) = Some (Some kp, ks1) \<and>
          get_mapping_pub_key ks1 = Some (Some (drop HASH_LEN kp), ks2)) \<and>
       (\<forall>f. f \<noteq> mapping_key_pair_file ks \<longrightarrow> ks_files ks' f = ks_files ks f))"
proof (rule conjI)
  let ?pk = "drop HASH_LEN kp" and ?txt = "render (kp_json kp)"
  show "\<exists>ks'. create_account_key_pair kp ks = Some (True, kp, ks') \<and>
       get_account_key_pair ?pk old ks' = Some (True, kp) \<and>
       (\<forall>f. f \<noteq> account_key_file ?pk ks \<longrightarrow> ks_files ks' f = ks_files ks f)"
    by (rule exI [of _ "ks\<lparr>ks_files := (ks_files ks)(account_key_file ?pk ks := Some ?txt)\<rparr>"])
      (simp add: create_account_key_pair_def get_pub_key_half assms write_key_file_text get_account_key_pair_def
        account_key_file_def kp_init_from_file_def kp_text_back)
  let ?ks = "(ks\<lparr>ks_mkey := kp, ks_files := (ks_files ks)(mapping_key_pair_file ks := Some ?txt)\<rparr>)
    \<lparr>ks_mpub := ?pk, ks_has_mkey := True, ks_has_mpub := True\<rparr>"
  have z: "length key_pair_zero = KEY_PAIR_LEN" by (simp add: key_pair_zero_def)
  have a: "create_mapping_key_pair kp ks = Some (Some kp, ?ks)"
    by (simp add: create_mapping_key_pair_def get_pub_key_half assms write_key_file_text mapping_key_pair_file_def)
  have b: "\<exists>ks1 ks2. get_mapping_key_pair (key_store_new (ks_dir ks) (ks_files ?ks) (ks_disk ks)) = Some (Some kp, ks1) \<and>
      get_mapping_pub_key ks1 = Some (Some ?pk, ks2)"
    by (simp add: get_mapping_key_pair_def key_store_new_def mapping_key_pair_file_def kp_init_from_file_def
      kp_text_back [OF assms(1) z] get_pub_key_half [OF assms(1)] get_mapping_pub_key_def)
  show "\<exists>ks'. create_mapping_key_pair kp ks = Some (Some kp, ks') \<and>
       (\<exists>ks1 ks2. get_mapping_key_pair (key_store_new (ks_dir ks) (ks_files ks') (ks_disk ks)) = Some (Some kp, ks1) \<and>
          get_mapping_pub_key ks1 = Some (Some ?pk, ks2)) \<and>
       (\<forall>f. f \<noteq> mapping_key_pair_file ks \<longrightarrow> ks_files ks' f = ks_files ks f)"
    by (rule exI [of _ ?ks], rule conjI [OF a], rule conjI [OF b]) simp
qed

theorem key_store_roundtrip_witness:
  "\<exists>ks'. create_account_key_pair (replicate 64 CHR ''k'') (key_store_new ''/'' (\<lambda>_. None) (\<lambda>_. Written)) =
     Some (True, replicate 64 CHR ''k'', ks')"
  using key_store_roundtrip [of "replicate 64 CHR ''k''" key_pair_zero "key_store_new ''/'' (\<lambda>_. None) (\<lambda>_. Written)"]
  by (auto simp: KEY_PAIR_LEN_def key_pair_zero_def key_store_new_def)

text \<open> A publishing key pair that was just created has no key cache: the store reports
  the cache as present, and the pointer inside it is null until the process is restarted.\<close>

theorem new_publish_key_cache:
  assumes "length kp = KEY_PAIR_LEN" "\<And>f. ks_disk ks f = Written" "ks_ckey ks = None"
  shows "\<exists>ks'. create_publish_key_pair kp ks = Some (Some kp, ks') \<and> get_publish_key_cache ks' = Some (Some None, ks')"
  using assms
  by (simp add: create_publish_key_pair_def write_key_file_text get_pub_key_half publish_key_pair_file_def
    get_publish_key_cache_def get_publish_key_pair_def)

theorem new_publish_key_cache_witness:
  "\<exists>ks'. create_publish_key_pair (replicate 64 CHR ''k'') (key_store_new ''/'' (\<lambda>_. None) (\<lambda>_. Written)) =
       Some (Some (replicate 64 CHR ''k''), ks') \<and> get_publish_key_cache ks' = Some (Some None, ks')"
  by (rule new_publish_key_cache) (simp_all add: KEY_PAIR_LEN_def key_store_new_def)

end
