(* ===== verification/Request_Sub.thy ===== *)
theory Request_Sub
  imports Pyth_Prelude "HOL-Library.Word" Attr_Id
begin

unbundle bit_operations_syntax

text \<open>
  Subscriptions to requests, the first part of \<open>pc/request.cpp\<close>: a subscriber (a connected user) owns a set of
  numbered subscriptions; every request has the list of the nodes that subscribe to it and calls them when
  it has news.  Subscribers and requests are numbers; the intrusive list of a request is the list of its nodes
  in the order of insertion, which is what the list operations refine.  Writing outside a vector is \<open>None\<close>.
\<close>

section \<open>Model\<close>

record sub_node =
  sn_sub :: nat
  sn_req :: nat
  sn_idx :: nat

record sub_set =
  ss_sub :: nat
  ss_vec :: "sub_node option list"
  ss_free :: "nat list"
  ss_next :: nat

type_synonym sub_lists = "nat \<Rightarrow> sub_node list"

definition sub_set_new :: "nat \<Rightarrow> sub_set" where
  "sub_set_new s = \<lparr>ss_sub = s, ss_vec = [], ss_free = [], ss_next = 0\<rparr>"

definition add_sub :: "sub_node \<Rightarrow> sub_lists \<Rightarrow> sub_lists" where
  "add_sub n ls = ls(sn_req n := ls (sn_req n) @ [n])"

definition del_sub :: "sub_node \<Rightarrow> sub_lists \<Rightarrow> sub_lists" where
  "del_sub n ls = ls(sn_req n := remove1 n (ls (sn_req n)))"

text \<open>The number is kept in 32 bits, the counter and the free numbers in 64.\<close>

definition sub_add :: "nat \<Rightarrow> sub_set \<times> sub_lists \<Rightarrow> (nat \<times> sub_set \<times> sub_lists) option" where
  "sub_add rptr = (\<lambda>(s, ls).
     let (sidx, s) = (if ss_free s \<noteq> [] then (last (ss_free s) mod 2 ^ 32, s\<lparr>ss_free := butlast (ss_free s)\<rparr>)
                      else let t = (ss_next s + 1) mod 2 ^ 64
                           in (ss_next s mod 2 ^ 32, s\<lparr>ss_next := t, ss_vec := vec_resize t None (ss_vec s)\<rparr>));
         n = \<lparr>sn_sub = ss_sub s, sn_req = rptr, sn_idx = sidx\<rparr>
     in if sidx < length (ss_vec s) then Some (sidx, s\<lparr>ss_vec := (ss_vec s)[sidx := Some n]\<rparr>, add_sub n ls) else None)"

definition sub_del :: "nat \<Rightarrow> sub_set \<times> sub_lists \<Rightarrow> bool \<times> sub_set \<times> sub_lists" where
  "sub_del sidx = (\<lambda>(s, ls).
     if length (ss_vec s) \<le> sidx then (False, s, ls)
     else case ss_vec s ! sidx of
            None \<Rightarrow> (False, s, ls)
          | Some n \<Rightarrow> (True, s\<lparr>ss_vec := (ss_vec s)[sidx := None], ss_free := ss_free s @ [sidx]\<rparr>, del_sub n ls))"

definition sub_teardown :: "sub_set \<times> sub_lists \<Rightarrow> sub_set \<times> sub_lists" where
  "sub_teardown = (\<lambda>(s, ls).
     (s\<lparr>ss_vec := []\<rparr>, fold (\<lambda>n ls. case n of None \<Rightarrow> ls | Some n \<Rightarrow> del_sub n ls) (ss_vec s) ls))"

text \<open>\<open>on\_response\_sub\<close> calls the subscriber of every node with its number, if the subscriber implements the
  callback for the type of the request (\<open>impl\<close>, the dynamic cast).\<close>

definition on_response_sub :: "(nat \<Rightarrow> bool) \<Rightarrow> nat \<Rightarrow> sub_lists \<Rightarrow> (nat \<times> nat) list" where
  "on_response_sub impl rptr ls = map (\<lambda>n. (sn_sub n, sn_idx n)) (filter (\<lambda>n. impl (sn_sub n)) (ls rptr))"

text \<open>The status bits of the manager that a request waits for.\<close>

definition PC_PYTH_RPC_CONNECTED :: "32 word" where "PC_PYTH_RPC_CONNECTED = 1"
definition PC_PYTH_HAS_BLOCK_HASH :: "32 word" where "PC_PYTH_HAS_BLOCK_HASH = 2"
definition PC_PYTH_HAS_MAPPING :: "32 word" where "PC_PYTH_HAS_MAPPING = 4"

definition has_status :: "32 word \<Rightarrow> 32 word \<Rightarrow> bool" where
  "has_status status s \<longleftrightarrow> s = (status AND s)"

definition set_status :: "32 word \<Rightarrow> 32 word \<Rightarrow> 32 word" where
  "set_status status s = (status OR s)"

definition reset_status :: "32 word \<Rightarrow> 32 word \<Rightarrow> 32 word" where
  "reset_status status s = (status AND NOT s)"

definition request_is_ready :: "32 word \<Rightarrow> bool" where
  "request_is_ready status = has_status status (PC_PYTH_RPC_CONNECTED OR PC_PYTH_HAS_BLOCK_HASH)"

section \<open>What a subscriber owns\<close>

text \<open>The live subscriptions: number to request.\<close>

definition sub_abs :: "sub_set \<Rightarrow> nat \<Rightarrow> nat option" where
  "sub_abs s i = (if i < length (ss_vec s) then map_option sn_req (ss_vec s ! i) else None)"

definition sub_inv :: "sub_set \<times> sub_lists \<Rightarrow> bool" where
  "sub_inv = (\<lambda>(s, ls).
     length (ss_vec s) = ss_next s \<and> distinct (ss_free s) \<and>
     set (ss_free s) = {i. i < ss_next s \<and> ss_vec s ! i = None} \<and>
     (\<forall>i < ss_next s. \<forall>n. ss_vec s ! i = Some n \<longrightarrow> sn_idx n = i \<and> sn_sub n = ss_sub s) \<and>
     (\<forall>r. distinct (filter (\<lambda>n. sn_sub n = ss_sub s) (ls r)) \<and>
        set (filter (\<lambda>n. sn_sub n = ss_sub s) (ls r)) = {n. Some n \<in> set (ss_vec s) \<and> sn_req n = r}))"

lemma sub_inv_new: "(\<And>r n. n \<in> set (ls r) \<Longrightarrow> sn_sub n \<noteq> u) \<Longrightarrow> sub_inv (sub_set_new u, ls)"
  by (auto simp: sub_inv_def sub_set_new_def filter_empty_conv)

lemma vec_resize_next: "length xs = n \<Longrightarrow> vec_resize (Suc n) x xs = xs @ [x]"
  by (simp add: vec_resize_def)

text \<open>A free slot is filled with a new node.\<close>

lemma sub_inv_fill:
  assumes inv: "sub_inv (s, ls)" and i: "i \<in> set (ss_free s)"
    and n: "n = \<lparr>sn_sub = ss_sub s, sn_req = r, sn_idx = i\<rparr>"
  shows "sub_inv (s\<lparr>ss_free := remove1 i (ss_free s), ss_vec := (ss_vec s)[i := Some n]\<rparr>, add_sub n ls)"
proof -
  let ?v = "ss_vec s"
  have v: "length ?v = ss_next s" "i < ss_next s" "?v ! i = None" "distinct (ss_free s)"
    "set (ss_free s) = {i. i < ss_next s \<and> ?v ! i = None}"
    "\<And>j m. j < ss_next s \<Longrightarrow> ?v ! j = Some m \<Longrightarrow> sn_idx m = j \<and> sn_sub m = ss_sub s"
    using inv i by (auto simp: sub_inv_def)
  have new: "Some n \<notin> set ?v"
  proof
    assume "Some n \<in> set ?v"
    then obtain j where "j < ss_next s" "?v ! j = Some n" using v(1) by (auto simp: in_set_conv_nth)
    then show False using v(3) v(6) [of j n] n by auto
  qed
  have set: "Some m \<in> set (?v[i := Some n]) \<longleftrightarrow> m = n \<or> Some m \<in> set ?v" for m
  proof -
    have "set (?v[i := Some n]) = insert (Some n) (set (take i ?v) \<union> set (drop (Suc i) ?v))"
      using v(1,2) by (simp add: upd_conv_take_nth_drop)
    moreover have "set ?v = insert None (set (take i ?v) \<union> set (drop (Suc i) ?v))"
      by (subst id_take_nth_drop [of i ?v]) (use v in auto)
    ultimately show ?thesis by auto
  qed
  have "set (remove1 i (ss_free s)) = {j. j < ss_next s \<and> ?v[i := Some n] ! j = None}"
    using v by (auto simp: nth_list_update)
  moreover have "\<forall>j < ss_next s. \<forall>m. ?v[i := Some n] ! j = Some m \<longrightarrow> sn_idx m = j \<and> sn_sub m = ss_sub s"
    using v n by (auto simp: nth_list_update)
  moreover have "distinct (filter (\<lambda>n. sn_sub n = ss_sub s) (add_sub n ls q)) \<and>
      set (filter (\<lambda>n. sn_sub n = ss_sub s) (add_sub n ls q)) = {m. Some m \<in> set (?v[i := Some n]) \<and> sn_req m = q}" for q
  proof -
    have f: "distinct (filter (\<lambda>n. sn_sub n = ss_sub s) (ls q))"
      "set (filter (\<lambda>n. sn_sub n = ss_sub s) (ls q)) = {m. Some m \<in> set ?v \<and> sn_req m = q}"
      using inv by (auto simp: sub_inv_def)
    then have "n \<notin> set (filter (\<lambda>n. sn_sub n = ss_sub s) (ls q))" using new by simp
    moreover have "sn_sub n = ss_sub s" "sn_req n = r" using n by simp_all
    ultimately show ?thesis using f set by (auto simp: add_sub_def)
  qed
  ultimately show ?thesis using v(1,4) by (simp add: sub_inv_def)
qed

lemma remove1_last: "distinct xs \<Longrightarrow> xs \<noteq> [] \<Longrightarrow> remove1 (last xs) xs = butlast xs"
  by (induction xs) auto

lemma sub_add_ok:
  assumes inv: "sub_inv (s, ls)" and small: "ss_next s < 2 ^ 32"
  obtains i s' ls' where "sub_add r (s, ls) = Some (i, s', ls')" "sub_inv (s', ls')" "sub_abs s i = None"
    "sub_abs s' = (sub_abs s)(i := Some r)" "ss_sub s' = ss_sub s" "ls' = add_sub \<lparr>sn_sub = ss_sub s, sn_req = r, sn_idx = i\<rparr> ls"
proof -
  have len: "length (ss_vec s) = ss_next s" using inv by (simp add: sub_inv_def)
  show thesis
  proof (cases "ss_free s = []")
    case False
    let ?i = "last (ss_free s)"
    have i: "?i \<in> set (ss_free s)" using False by simp
    then have b: "?i < ss_next s" "ss_vec s ! ?i = None" using inv by (auto simp: sub_inv_def)
    have d: "distinct (ss_free s)" using inv by (simp add: sub_inv_def)
    have rm: "remove1 ?i (ss_free s) = butlast (ss_free s)" by (rule remove1_last [OF d False])
    let ?n = "\<lparr>sn_sub = ss_sub s, sn_req = r, sn_idx = ?i\<rparr>"
    show thesis
    proof (rule that)
      show "sub_add r (s, ls) = Some (?i, s\<lparr>ss_free := remove1 ?i (ss_free s), ss_vec := (ss_vec s)[?i := Some ?n]\<rparr>, add_sub ?n ls)"
        using False b len small by (simp add: sub_add_def rm Let_def)
      show "sub_inv (s\<lparr>ss_free := remove1 ?i (ss_free s), ss_vec := (ss_vec s)[?i := Some ?n]\<rparr>, add_sub ?n ls)"
        by (rule sub_inv_fill [OF inv i refl])
      show "sub_abs (s\<lparr>ss_free := remove1 ?i (ss_free s), ss_vec := (ss_vec s)[?i := Some ?n]\<rparr>) = (sub_abs s)(?i := Some r)"
        using b len by (auto simp: sub_abs_def fun_eq_iff nth_list_update)
    qed (use b len in \<open>simp_all add: sub_abs_def\<close>)
  next
    case True
    let ?s = "s\<lparr>ss_next := ss_next s + 1, ss_vec := ss_vec s @ [None], ss_free := [ss_next s]\<rparr>"
    have "set (ss_free s) = {}" using True by simp
    then have all: "\<And>i. i < ss_next s \<Longrightarrow> ss_vec s ! i \<noteq> None" using inv by (auto simp: sub_inv_def)
    have "(ss_vec s @ [None]) ! i = None \<longleftrightarrow> i = ss_next s" if "i < ss_next s + 1" for i
      using all [of i] that len by (auto simp: nth_append less_Suc_eq)
    then have "{i. i < ss_next s + 1 \<and> (ss_vec s @ [None]) ! i = None} = {ss_next s}" by auto
    moreover have "\<forall>i < ss_next s + 1. \<forall>n. (ss_vec s @ [None]) ! i = Some n \<longrightarrow> sn_idx n = i \<and> sn_sub n = ss_sub s"
      using inv len by (auto simp: sub_inv_def nth_append less_Suc_eq)
    ultimately have "sub_inv (?s, ls)"
      using inv len by (simp add: sub_inv_def)
    let ?n = "\<lparr>sn_sub = ss_sub s, sn_req = r, sn_idx = ss_next s\<rparr>"
    let ?t = "?s\<lparr>ss_free := [], ss_vec := (ss_vec s @ [None])[ss_next s := Some ?n]\<rparr>"
    show thesis
    proof (rule that)
      show "sub_add r (s, ls) = Some (ss_next s, ?t, add_sub ?n ls)"
        using True len small by (simp add: sub_add_def vec_resize_next Let_def)
      show "sub_inv (?t, add_sub ?n ls)"
        using sub_inv_fill [OF \<open>sub_inv (?s, ls)\<close>, of "ss_next s" ?n r] by simp
      show "sub_abs ?t = (sub_abs s)(ss_next s := Some r)"
        using len by (auto simp: sub_abs_def fun_eq_iff nth_append nth_list_update)
    qed (use len in \<open>simp_all add: sub_abs_def\<close>)
  qed
qed

lemma filter_del_sub:
  "filter P (del_sub n ls r) = (if r = sn_req n \<and> P n then remove1 n (filter P (ls r)) else filter P (ls r))"
  by (simp add: del_sub_def filter_remove1 remove1_idem)

lemma sub_del_ok:
  assumes inv: "sub_inv (s, ls)" and d: "sub_del j (s, ls) = (b, s', ls')"
  shows "sub_inv (s', ls')" "b \<longleftrightarrow> sub_abs s j \<noteq> None" "sub_abs s' = (sub_abs s)(j := None)" "ss_sub s' = ss_sub s"
proof -
  let ?v = "ss_vec s"
  have v: "length ?v = ss_next s" "distinct (ss_free s)" "set (ss_free s) = {i. i < ss_next s \<and> ?v ! i = None}"
    "\<And>j m. j < ss_next s \<Longrightarrow> ?v ! j = Some m \<Longrightarrow> sn_idx m = j \<and> sn_sub m = ss_sub s"
    using inv by (auto simp: sub_inv_def)
  have "sub_inv (s', ls') \<and> (b \<longleftrightarrow> sub_abs s j \<noteq> None) \<and> sub_abs s' = (sub_abs s)(j := None) \<and> ss_sub s' = ss_sub s"
  proof (cases "j < ss_next s \<and> ?v ! j \<noteq> None")
    case False
    then have "(b, s', ls') = (False, s, ls)" using d v(1) by (auto simp: sub_del_def split: option.splits)
    moreover have "sub_abs s j = None" using False v(1) by (auto simp: sub_abs_def)
    ultimately show ?thesis using inv by (auto simp: fun_upd_idem)
  next
    case True
    then obtain n where n: "?v ! j = Some n" "j < ss_next s" by auto
    have nn: "sn_idx n = j" "sn_sub n = ss_sub s" using v(4) [OF n(2,1)] by auto
    have r: "b" "s' = s\<lparr>ss_vec := ?v[j := None], ss_free := ss_free s @ [j]\<rparr>" "ls' = del_sub n ls"
      using d n v(1) by (auto simp: sub_del_def)
    have set: "Some m \<in> set (?v[j := None]) \<longleftrightarrow> m \<noteq> n \<and> Some m \<in> set ?v" for m
    proof
      assume "Some m \<in> set (?v[j := None])"
      then obtain i where i: "i < ss_next s" "?v[j := None] ! i = Some m" using v(1) by (auto simp: in_set_conv_nth)
      then have "i \<noteq> j" "?v ! i = Some m" using v(1) by (cases "i = j", auto)+
      then show "m \<noteq> n \<and> Some m \<in> set ?v" using i(1) v(1) v(4) [of i m] nn(1) by (auto simp: in_set_conv_nth)
    next
      assume "m \<noteq> n \<and> Some m \<in> set ?v"
      then obtain i where "i < ss_next s" "?v ! i = Some m" using v(1) by (auto simp: in_set_conv_nth)
      moreover have "i \<noteq> j" using \<open>m \<noteq> n \<and> Some m \<in> set ?v\<close> n calculation by auto
      ultimately show "Some m \<in> set (?v[j := None])" using v(1) by (auto simp: in_set_conv_nth nth_list_update)
    qed
    have "distinct (filter (\<lambda>n. sn_sub n = ss_sub s) (del_sub n ls q)) \<and>
        set (filter (\<lambda>n. sn_sub n = ss_sub s) (del_sub n ls q)) = {m. Some m \<in> set (?v[j := None]) \<and> sn_req m = q}" for q
    proof -
      have "distinct (filter (\<lambda>n. sn_sub n = ss_sub s) (ls q))"
        "set (filter (\<lambda>n. sn_sub n = ss_sub s) (ls q)) = {m. Some m \<in> set ?v \<and> sn_req m = q}"
        using inv by (auto simp: sub_inv_def)
      then show ?thesis using set nn by (simp add: filter_del_sub) auto
    qed
    then have "sub_inv (s', ls')"
      using v n r by (auto simp: sub_inv_def nth_list_update)
    moreover have "sub_abs s' = (sub_abs s)(j := None)" using r(2) v(1) n by (auto simp: sub_abs_def fun_eq_iff nth_list_update)
    ultimately show ?thesis using r n v(1) by (simp add: sub_abs_def)
  qed
  then show "sub_inv (s', ls')" "b \<longleftrightarrow> sub_abs s j \<noteq> None" "sub_abs s' = (sub_abs s)(j := None)" "ss_sub s' = ss_sub s"
    by blast+
qed

text \<open>After \<open>teardown\<close> no list calls the subscriber any more.\<close>

lemma fold_del_sub:
  "filter (\<lambda>n. sn_sub n = u) (fold (\<lambda>n ls. case n of None \<Rightarrow> ls | Some n \<Rightarrow> del_sub n ls) v ls r) =
     fold (\<lambda>n xs. case n of None \<Rightarrow> xs | Some n \<Rightarrow> if sn_req n = r \<and> sn_sub n = u then remove1 n xs else xs) v
       (filter (\<lambda>n. sn_sub n = u) (ls r))"
  by (induction v arbitrary: ls) (auto simp: filter_del_sub split: option.splits)

lemma fold_remove1:
  assumes "distinct xs"
  shows "set (fold (\<lambda>n xs. case n of None \<Rightarrow> xs | Some n \<Rightarrow> if P n then remove1 n xs else xs) v xs) =
    set xs - {n. Some n \<in> set v \<and> P n}"
  using assms by (induction v arbitrary: xs) (auto split: option.splits)

lemma sub_teardown_ok:
  assumes inv: "sub_inv (s, ls)" and t: "sub_teardown (s, ls) = (s', ls')"
  shows "filter (\<lambda>n. sn_sub n = ss_sub s) (ls' r) = []" "ss_free s' = ss_free s" "ss_vec s' = []"
proof -
  have d: "distinct (filter (\<lambda>n. sn_sub n = ss_sub s) (ls r))"
    "set (filter (\<lambda>n. sn_sub n = ss_sub s) (ls r)) = {m. Some m \<in> set (ss_vec s) \<and> sn_req m = r}"
    using inv by (auto simp: sub_inv_def)
  have "ls' = fold (\<lambda>n ls. case n of None \<Rightarrow> ls | Some n \<Rightarrow> del_sub n ls) (ss_vec s) ls" using t by (simp add: sub_teardown_def)
  then have "set (filter (\<lambda>n. sn_sub n = ss_sub s) (ls' r)) =
      set (filter (\<lambda>n. sn_sub n = ss_sub s) (ls r)) - {n. Some n \<in> set (ss_vec s) \<and> sn_req n = r \<and> sn_sub n = ss_sub s}"
    by (simp only: fold_del_sub fold_remove1 [OF d(1)])
  then show "filter (\<lambda>n. sn_sub n = ss_sub s) (ls' r) = []" using d(2) by (auto simp: filter_empty_conv)
  show "ss_free s' = ss_free s" "ss_vec s' = []" using t by (auto simp: sub_teardown_def)
qed

text \<open>The nodes of a subscriber in the list of a request are its live subscriptions.\<close>

definition nodes_of :: "sub_set \<times> sub_lists \<Rightarrow> nat \<Rightarrow> sub_node list" where
  "nodes_of = (\<lambda>(s, ls) r. filter (\<lambda>n. sn_sub n = ss_sub s) (ls r))"

lemma nodes_of_mem:
  assumes "sub_inv (s, ls)"
  shows "n \<in> set (nodes_of (s, ls) r) \<longleftrightarrow> sn_idx n < ss_next s \<and> ss_vec s ! sn_idx n = Some n \<and> sn_req n = r"
proof -
  have v: "length (ss_vec s) = ss_next s" "\<And>j m. j < ss_next s \<Longrightarrow> ss_vec s ! j = Some m \<Longrightarrow> sn_idx m = j"
    and d: "set (nodes_of (s, ls) r) = {m. Some m \<in> set (ss_vec s) \<and> sn_req m = r}"
    using assms by (auto simp: sub_inv_def nodes_of_def)
  have "Some n \<in> set (ss_vec s) \<longleftrightarrow> sn_idx n < ss_next s \<and> ss_vec s ! sn_idx n = Some n"
    unfolding in_set_conv_nth v(1) using v(2) by metis
  then show ?thesis unfolding d by simp
qed

lemma nodes_of_live:
  assumes inv: "sub_inv (s, ls)"
  shows "distinct (map sn_idx (nodes_of (s, ls) r))" "set (map sn_idx (nodes_of (s, ls) r)) = {i. sub_abs s i = Some r}"
    "n \<in> set (nodes_of (s, ls) r) \<Longrightarrow> sn_sub n = ss_sub s"
proof -
  have len: "length (ss_vec s) = ss_next s"
    and own: "\<And>j m. j < ss_next s \<Longrightarrow> ss_vec s ! j = Some m \<Longrightarrow> sn_idx m = j"
    and d: "distinct (nodes_of (s, ls) r)" using inv by (auto simp: sub_inv_def nodes_of_def)
  have "inj_on sn_idx (set (nodes_of (s, ls) r))" by (rule inj_onI) (simp add: nodes_of_mem [OF inv])
  then show "distinct (map sn_idx (nodes_of (s, ls) r))" unfolding distinct_map using d by blast
  show "set (map sn_idx (nodes_of (s, ls) r)) = {i. sub_abs s i = Some r}"
  proof (rule set_eqI, unfold mem_Collect_eq, rule iffI)
    fix i
    assume "i \<in> set (map sn_idx (nodes_of (s, ls) r))"
    then obtain n where "sn_idx n = i" "n \<in> set (nodes_of (s, ls) r)" by auto
    then show "sub_abs s i = Some r" using nodes_of_mem [OF inv] len by (auto simp: sub_abs_def)
  next
    fix i
    assume "sub_abs s i = Some r"
    then obtain n where n: "i < ss_next s" "ss_vec s ! i = Some n" "sn_req n = r"
      using len by (auto simp: sub_abs_def split: if_splits)
    have "sn_idx n = i" by (rule own [OF n(1,2)])
    then show "i \<in> set (map sn_idx (nodes_of (s, ls) r))" using n nodes_of_mem [OF inv, of n r] by auto
  qed
  show "n \<in> set (nodes_of (s, ls) r) \<Longrightarrow> sn_sub n = ss_sub s" by (simp add: nodes_of_def)
qed

lemma deliveries:
  "filter (\<lambda>(u, i). u = ss_sub s) (on_response_sub impl r ls) =
     (if impl (ss_sub s) then map (\<lambda>n. (ss_sub s, sn_idx n)) (nodes_of (s, ls) r) else [])"
proof -
  have "filter (\<lambda>(u, i). u = ss_sub s) (map (\<lambda>n. (sn_sub n, sn_idx n)) (filter (\<lambda>n. impl (sn_sub n)) ns)) =
      (if impl (ss_sub s) then map (\<lambda>n. (ss_sub s, sn_idx n)) (filter (\<lambda>n. sn_sub n = ss_sub s) ns) else [])"
    for ns :: "sub_node list"
    by (induction ns) auto
  then show ?thesis by (simp add: on_response_sub_def nodes_of_def)
qed

section \<open>Results\<close>

text \<open>(C26) A subscription set that has used fewer than \<open>2 ^ 32\<close> numbers (their width) is a finite
  map from numbers to requests: \<open>add\<close> uses a number that is not live, \<open>del\<close> succeeds exactly on live numbers,
  a request calls this subscriber once for every live subscription to it when the subscriber implements the
  callback of the request's type and not at all otherwise, and never after \<open>teardown\<close>.  The invariant holds
  of a new set and is kept.\<close>

theorem sub_set_refines:
  assumes "sub_inv (s, ls)" "ss_next s < 2 ^ 32"
  shows "sub_inv (sub_set_new u, \<lambda>_. []) \<and>
    (\<exists>i s' ls'. sub_add r (s, ls) = Some (i, s', ls') \<and> sub_inv (s', ls') \<and> sub_abs s i = None \<and> sub_abs s' = (sub_abs s)(i := Some r)) \<and>
    (\<exists>b s' ls'. sub_del j (s, ls) = (b, s', ls') \<and> sub_inv (s', ls') \<and> (b \<longleftrightarrow> sub_abs s j \<noteq> None) \<and> sub_abs s' = (sub_abs s)(j := None)) \<and>
    distinct (filter (\<lambda>(u, i). u = ss_sub s) (on_response_sub impl r ls)) \<and>
    set (filter (\<lambda>(u, i). u = ss_sub s) (on_response_sub impl r ls)) =
      (if impl (ss_sub s) then {ss_sub s} \<times> {i. sub_abs s i = Some r} else {}) \<and>
    filter (\<lambda>(u, i). u = ss_sub s) (on_response_sub impl r (snd (sub_teardown (s, ls)))) = []"
proof (intro conjI)
  show "sub_inv (sub_set_new u, \<lambda>_. [])" by (rule sub_inv_new) simp
  show "\<exists>i s' ls'. sub_add r (s, ls) = Some (i, s', ls') \<and> sub_inv (s', ls') \<and> sub_abs s i = None \<and> sub_abs s' = (sub_abs s)(i := Some r)"
    by (rule sub_add_ok [OF assms, of r]) blast
  show "\<exists>b s' ls'. sub_del j (s, ls) = (b, s', ls') \<and> sub_inv (s', ls') \<and> (b \<longleftrightarrow> sub_abs s j \<noteq> None) \<and> sub_abs s' = (sub_abs s)(j := None)"
    using sub_del_ok [OF assms(1)] by (cases "sub_del j (s, ls)") blast
  have m: "map (\<lambda>n. (ss_sub s, sn_idx n)) ns = map (Pair (ss_sub s)) (map sn_idx ns)" for ns :: "sub_node list" by simp
  show "distinct (filter (\<lambda>(u, i). u = ss_sub s) (on_response_sub impl r ls))"
    unfolding deliveries m using nodes_of_live(1) [OF assms(1)]
    by (cases "impl (ss_sub s)") (simp_all only: distinct_map if_True if_False distinct.simps, simp_all add: inj_on_def)
  show "set (filter (\<lambda>(u, i). u = ss_sub s) (on_response_sub impl r ls)) =
      (if impl (ss_sub s) then {ss_sub s} \<times> {i. sub_abs s i = Some r} else {})"
    unfolding deliveries m using nodes_of_live(2) [OF assms(1), of r] by auto
  obtain s' ls' where t: "sub_teardown (s, ls) = (s', ls')" by fastforce
  then have "ss_sub s' = ss_sub s" by (auto simp: sub_teardown_def)
  then have "filter (\<lambda>(u, i). u = ss_sub s') (on_response_sub impl r ls') = []"
    unfolding deliveries nodes_of_def using sub_teardown_ok(1) [OF assms(1) t] by simp
  then show "filter (\<lambda>(u, i). u = ss_sub s) (on_response_sub impl r (snd (sub_teardown (s, ls)))) = []"
    using t \<open>ss_sub s' = ss_sub s\<close> by simp
qed

theorem sub_set_refines_witness:
  "\<exists>i s' ls'. sub_add 7 (sub_set_new 1, \<lambda>_. []) = Some (i, s', ls') \<and> sub_abs s' = (sub_abs (sub_set_new 1))(i := Some 7)"
proof -
  have "ss_next (sub_set_new 1) < 2 ^ 32" by (simp add: sub_set_new_def)
  from sub_set_refines [OF sub_inv_new [of "\<lambda>_. []" 1] this, of 0 7 0] show ?thesis by simp blast
qed

text \<open> \<open>teardown\<close> empties the vector but keeps the list of free numbers: a set that
  had a free number writes past the end of the vector when a subscription is added after it.\<close>

theorem sub_reuse_after_teardown:
  assumes "ss_free s \<noteq> []"
  shows "sub_add r (sub_teardown (s, ls)) = None"
  using assms by (simp add: sub_add_def sub_teardown_def)

theorem sub_reuse_after_teardown_witness:
  "sub_add 7 (sub_teardown (\<lparr>ss_sub = 1, ss_vec = [None], ss_free = [0], ss_next = 1\<rparr>, \<lambda>_. [])) = None"
  by (rule sub_reuse_after_teardown) simp

end
