(* ===== verification/Admin_Request.thy ===== *)
theory Admin_Request
  imports Admin_Rpc Key_Store Request_Sub
begin

text \<open>
  The administration requests, \<open>pcapps/admin_request.cpp\<close>.  Four of them create an account first: the
  transaction that creates it is sent, its signature is waited for, then the transaction of the program is sent
  and its signature waited for.  The other five send one transaction.  A request has the state of its class, the
  JSON-RPC requests it sends and its error; what it does is the list of effects: the JSON-RPC requests handed
  to the client, in order, and the callback of its subscribers.  The key store is a part of the state, the
  block hash, the last mapping account and the product or price the request points to are read from the manager
  and given with every call.  A key is read when it is set; the classes hold pointers to the keys, which
  makes a difference only if a request is submitted again while it is in flight.
\<close>

section \<open>Model\<close>

datatype astate = e_create_sent | e_create_sig | e_init_sent | e_init_sig | e_add_sent | e_add_sig
  | e_sent | e_sig | e_done | e_error

definition e_confirmed :: nat where "e_confirmed = 2"
definition e_finalized :: nat where "e_finalized = 3"

definition MAP_TABLE_BYTES :: u64 where "MAP_TABLE_BYTES = 160056"
definition PROD_ACC_SIZE :: u64 where "PROD_ACC_SIZE = 512"
definition PRICE_BYTES :: u64 where "PRICE_BYTES = 6384"

text \<open>The members of the classes; \<open>aq_key\<close> is \<open>akey\_\<close>, \<open>key\_\<close> or \<open>skey\_\<close>.\<close>

record 'r areq1 =
  aq_st :: astate
  aq_cmt :: nat
  aq_key :: string
  aq_req :: 'r
  aq_err :: "string option"

record 'r areq2 = "'r areq1" +
  aq_mkey :: string
  aq_creq :: create_account

datatype 'r eff = Send_Create create_account | Send_Tx 'r | Send_Sig nat string | Notify

text \<open>What \<open>submit\<close> reads outside of the request: the block hash, new key pairs, the last mapping account with
  its number of products, the account and the price types of the product, the account, the type and the
  publishers of the price.\<close>

record aenv =
  ae_bhash :: string
  ae_gen :: string
  ae_last_map :: "(string \<times> nat) option"
  ae_prod :: "string \<times> nat list"
  ae_price :: "string \<times> nat \<times> string list"

text \<open>\<open>on\_error\_sub\<close> sets the error and calls the subscribers.\<close>

definition aq_fail :: "string \<Rightarrow> ('r, 'z) areq1_scheme \<Rightarrow> key_store \<Rightarrow> (('r, 'z) areq1_scheme \<times> key_store) \<times> 'r eff list" where
  "aq_fail msg r ks = ((r\<lparr>aq_err := Some msg\<rparr>, ks), [Notify])"

text \<open>A key that must exist, and one that must be written or read into a member.\<close>

definition need_key ::
    "(string option \<times> key_store) option \<Rightarrow> string \<Rightarrow> (key_store \<Rightarrow> string) \<Rightarrow> string \<Rightarrow> ('r, 'z) areq1_scheme \<Rightarrow>
     (string \<Rightarrow> key_store \<Rightarrow> ((('r, 'z) areq1_scheme \<times> key_store) \<times> 'r eff list) option) \<Rightarrow>
     ((('r, 'z) areq1_scheme \<times> key_store) \<times> 'r eff list) option" where
  "need_key q pre file post r k =
     do { (kp, ks) \<leftarrow> q; (case kp of None \<Rightarrow> Some (aq_fail (pre @ file ks @ post) r ks) | Some kp \<Rightarrow> k kp ks) }"

definition need_publish where
  "need_publish ks r k = need_key (get_publish_key_pair ks) ''missing or invalid publish key ['' publish_key_pair_file '']'' r k"

definition need_program where
  "need_program ks r k = need_key (get_program_pub_key ks) ''missing or invalid program public key ['' program_pub_key_file '']'' r k"

text \<open>The reply to a transaction: its error or none, and its signature.  \<open>sub\_sig\<close> asks for the
  confirmation of the signature.\<close>

type_synonym res = "string option \<times> string"

definition on_res_error :: "string \<Rightarrow> ('r, 'z) areq1_scheme \<Rightarrow> ('r, 'z) areq1_scheme \<times> 'r eff list" where
  "on_res_error msg r = (r\<lparr>aq_err := Some msg, aq_st := e_error\<rparr>, [Notify])"

definition sub_sig :: "astate \<Rightarrow> astate \<Rightarrow> nat \<Rightarrow> res \<Rightarrow> ('r, 'z) areq1_scheme \<Rightarrow> ('r, 'z) areq1_scheme \<times> 'r eff list" where
  "sub_sig from goal cmt res r =
     (case fst res of
        Some msg \<Rightarrow> on_res_error msg r
      | None \<Rightarrow> if aq_st r = from then (r\<lparr>aq_st := goal\<rparr>, [Send_Sig cmt (snd res)]) else (r, []))"

definition res_done :: "astate \<Rightarrow> string option \<Rightarrow> ('r, 'z) areq1_scheme \<Rightarrow> ('r, 'z) areq1_scheme \<times> 'r eff list" where
  "res_done from err r =
     (case err of
        Some msg \<Rightarrow> on_res_error msg r
      | None \<Rightarrow> if aq_st r = from then (r\<lparr>aq_st := e_done\<rparr>, [Notify]) else (r, []))"

text \<open>A confirmation names the signature that it is for; the code does not look at it.\<close>

definition sig_done :: "astate \<Rightarrow> string \<Rightarrow> string option \<Rightarrow> ('r, 'z) areq1_scheme \<Rightarrow> ('r, 'z) areq1_scheme \<times> 'r eff list" where
  "sig_done from s err r = res_done from err r"

text \<open>The confirmation of the signature of the account lets the second transaction go.\<close>

definition sig_next :: "astate \<Rightarrow> astate \<Rightarrow> string \<Rightarrow> string \<Rightarrow> string option \<Rightarrow>
    ('a admin_base_scheme, 'z) areq1_scheme \<Rightarrow> ('a admin_base_scheme, 'z) areq1_scheme \<times> 'a admin_base_scheme eff list" where
  "sig_next sent sig s bhash err r =
     (case err of
        Some msg \<Rightarrow> on_res_error msg r
      | None \<Rightarrow>
          if aq_st r = e_create_sig then
            (let r = r\<lparr>aq_st := sent, aq_req := ab_set_block_hash bhash (aq_req r)\<rparr> in (r, [Send_Tx (aq_req r)]))
          else if aq_st r = sig then (r\<lparr>aq_st := e_done\<rparr>, [Notify])
          else (r, []))"

definition send_create :: "string \<Rightarrow> 'r areq2 \<Rightarrow> key_store \<Rightarrow> (('r areq2 \<times> key_store) \<times> 'r eff list)" where
  "send_create bhash r ks =
     (let r = r\<lparr>aq_st := e_create_sent, aq_creq := (aq_creq r)\<lparr>ca_bhash := bhash\<rparr>\<rparr> in ((r, ks), [Send_Create (aq_creq r)]))"

definition send_tx :: "astate \<Rightarrow> string \<Rightarrow> 'a admin_base_scheme areq1 \<Rightarrow> key_store \<Rightarrow>
    (('a admin_base_scheme areq1 \<times> key_store) \<times> 'a admin_base_scheme eff list)" where
  "send_tx st bhash r ks =
     (let r = r\<lparr>aq_st := st, aq_req := ab_set_block_hash bhash (aq_req r)\<rparr> in ((r, ks), [Send_Tx (aq_req r)]))"

definition mapping_ready :: "(key_store \<Rightarrow> string) \<Rightarrow> string \<Rightarrow> 32 word \<Rightarrow> ('r, 'z) areq1_scheme \<Rightarrow> key_store \<Rightarrow>
    (bool \<times> ('r, 'z) areq1_scheme \<times> key_store) option" where
  "mapping_ready file pre status r ks =
     do { (mpub, ks) \<leftarrow> get_mapping_pub_key ks;
          (case mpub of
             None \<Rightarrow> Some (False, r\<lparr>aq_err := Some (pre @ file ks @ '']'')\<rparr>, ks)
           | Some _ \<Rightarrow> Some (has_status status (PC_PYTH_RPC_CONNECTED OR PC_PYTH_HAS_BLOCK_HASH OR PC_PYTH_HAS_MAPPING), r, ks)) }"

subsection \<open>Class init\_mapping\<close>

definition init_mapping_new :: "'r \<Rightarrow> create_account \<Rightarrow> 'r areq2" where
  "init_mapping_new q c =
     \<lparr>aq_st = e_create_sent, aq_cmt = e_confirmed, aq_key = key_pair_zero, aq_req = q, aq_err = None,
      aq_mkey = key_pair_zero, aq_creq = c\<rparr>"

definition init_mapping_submit :: "aenv \<Rightarrow> init_mapping areq2 \<Rightarrow> key_store \<Rightarrow> ((init_mapping areq2 \<times> key_store) \<times> init_mapping eff list) option" where
  "init_mapping_submit env r ks =
     need_key (get_publish_key_pair ks) ''missing or invalid publish key ['' publish_key_pair_file [] r (\<lambda>pkey ks.
     do { (mkey, ks) \<leftarrow> get_mapping_key_pair ks;
          if mkey \<noteq> None then Some (aq_fail (''mapping key pair already exists ['' @ mapping_key_pair_file ks @ '']'') r ks)
          else need_key (create_mapping_key_pair (ae_gen env) ks) ''failed to create mapping key pair ['' mapping_key_pair_file '']'' r (\<lambda>mkey ks.
               need_program ks r (\<lambda>gpub ks.
               let c = (aq_creq r)\<lparr>ca_snd := pkey, ca_account := mkey, ca_owner := gpub, ca_space := MAP_TABLE_BYTES\<rparr>;
                   q = ab_set_program gpub ((ab_set_publish pkey (aq_req r))\<lparr>im_mkey := mkey\<rparr>)
               in Some (send_create (ae_bhash env) (r\<lparr>aq_creq := c, aq_req := q\<rparr>) ks))) })"

definition init_mapping_on_create :: "res \<Rightarrow> init_mapping areq2 \<Rightarrow> init_mapping areq2 \<times> init_mapping eff list" where
  "init_mapping_on_create = sub_sig e_create_sent e_create_sig e_finalized"

definition init_mapping_on_tx :: "res \<Rightarrow> init_mapping areq2 \<Rightarrow> init_mapping areq2 \<times> init_mapping eff list" where
  "init_mapping_on_tx res r = sub_sig e_init_sent e_init_sig (aq_cmt r) res r"

definition init_mapping_on_sig :: "string \<Rightarrow> string \<Rightarrow> string option \<Rightarrow> init_mapping areq2 \<Rightarrow> init_mapping areq2 \<times> init_mapping eff list" where
  "init_mapping_on_sig = sig_next e_init_sent e_init_sig"

subsection \<open>Class add\_mapping\<close>

text \<open>The key pair of the last mapping account: the mapping key of the store, or an account key that is read
  into \<open>mkey\_\<close>.\<close>

definition add_mapping_new :: "'r \<Rightarrow> create_account \<Rightarrow> 'r areq2" where
  "add_mapping_new q c =
     \<lparr>aq_st = e_create_sent, aq_cmt = e_confirmed, aq_key = key_pair_zero, aq_req = q, aq_err = None,
      aq_mkey = key_pair_zero, aq_creq = c\<rparr>"

definition add_mapping_is_ready :: "32 word \<Rightarrow> ('r, 'z) areq1_scheme \<Rightarrow> key_store \<Rightarrow> (bool \<times> ('r, 'z) areq1_scheme \<times> key_store) option" where
  "add_mapping_is_ready = mapping_ready mapping_key_pair_file ''missing mapping key pairfile [''"

definition add_mapping_submit :: "aenv \<Rightarrow> add_mapping areq2 \<Rightarrow> key_store \<Rightarrow> ((add_mapping areq2 \<times> key_store) \<times> add_mapping eff list) option" where
  "add_mapping_submit env r ks =
     need_key (get_publish_key_pair ks) ''missing or invalid publish key ['' publish_key_pair_file [] r (\<lambda>pkey ks.
     need_key (get_mapping_key_pair ks) ''missing or invalid mapping key ['' mapping_key_pair_file '']'' r (\<lambda>mkey ks.
     do { (mpub, num) \<leftarrow> ae_last_map env;
          if num < PC_MAP_TABLE_SIZE then Some (aq_fail ''last mapping table not yet full'' r ks)
          else do { (gm, ks) \<leftarrow> get_mapping_pub_key ks;
                    gm \<leftarrow> gm;
                    (found, r) \<leftarrow>
                      (if hash_eq mpub gm then Some (True, r\<lparr>aq_req := (aq_req r)\<lparr>am_mkey := mkey\<rparr>\<rparr>)
                       else do { (ok, kp) \<leftarrow> get_account_key_pair mpub (aq_mkey r) ks;
                                 let r = r\<lparr>aq_mkey := kp\<rparr>;
                                 Some (ok, if ok then r\<lparr>aq_req := (aq_req r)\<lparr>am_mkey := kp\<rparr>\<rparr> else r) });
                    if \<not> found then Some (aq_fail ''cant find last mapping key_pair'' r ks)
                    else need_program ks r (\<lambda>gpub ks.
                         do { (ok, akey, ks) \<leftarrow> create_account_key_pair (ae_gen env) ks;
                              let r = r\<lparr>aq_key := akey\<rparr>;
                              if \<not> ok then Some (aq_fail ''failed to create new mapping key_pair'' r ks)
                              else let c = (aq_creq r)\<lparr>ca_snd := pkey, ca_account := akey, ca_owner := gpub, ca_space := MAP_TABLE_BYTES\<rparr>;
                                       q = (ab_set_publish pkey (ab_set_program gpub (aq_req r)))\<lparr>am_akey := akey\<rparr>
                                   in Some (send_create (ae_bhash env) (r\<lparr>aq_creq := c, aq_req := q\<rparr>) ks) }) } }))"

definition add_mapping_on_create :: "res \<Rightarrow> add_mapping areq2 \<Rightarrow> add_mapping areq2 \<times> add_mapping eff list" where
  "add_mapping_on_create = sub_sig e_create_sent e_create_sig e_finalized"

definition add_mapping_on_tx :: "res \<Rightarrow> add_mapping areq2 \<Rightarrow> add_mapping areq2 \<times> add_mapping eff list" where
  "add_mapping_on_tx res r = sub_sig e_init_sent e_init_sig (aq_cmt r) res r"

definition add_mapping_on_sig :: "string \<Rightarrow> string \<Rightarrow> string option \<Rightarrow> add_mapping areq2 \<Rightarrow> add_mapping areq2 \<times> add_mapping eff list" where
  "add_mapping_on_sig = sig_next e_init_sent e_init_sig"

subsection \<open>Class add\_product\<close>

definition add_product_new :: "'r \<Rightarrow> create_account \<Rightarrow> 'r areq2" where
  "add_product_new q c =
     \<lparr>aq_st = e_create_sent, aq_cmt = e_confirmed, aq_key = key_pair_zero, aq_req = q, aq_err = None,
      aq_mkey = key_pair_zero, aq_creq = c\<rparr>"

definition add_product_is_ready :: "32 word \<Rightarrow> ('r, 'z) areq1_scheme \<Rightarrow> key_store \<Rightarrow> (bool \<times> ('r, 'z) areq1_scheme \<times> key_store) option" where
  "add_product_is_ready = mapping_ready mapping_key_pair_file ''missing mapping key pairfile [''"

definition add_product_submit :: "aenv \<Rightarrow> add_product areq2 \<Rightarrow> key_store \<Rightarrow> ((add_product areq2 \<times> key_store) \<times> add_product eff list) option" where
  "add_product_submit env r ks =
     need_key (get_mapping_key_pair ks) ''missing or invalid mapping key ['' mapping_key_pair_file '']'' r (\<lambda>mkey ks.
     do { (mpub, num) \<leftarrow> ae_last_map env;
          if PC_MAP_TABLE_SIZE \<le> num then Some (aq_fail ''mapping table full. run add_mapping first'' r ks)
          else do { (gm, ks) \<leftarrow> get_mapping_pub_key ks;
                    gm \<leftarrow> gm;
                    (found, r) \<leftarrow>
                      (if hash_eq mpub gm then Some (True, r\<lparr>aq_req := (aq_req r)\<lparr>ap_mkey := mkey\<rparr>\<rparr>)
                       else do { (ok, kp) \<leftarrow> get_account_key_pair mpub (aq_mkey r) ks;
                                 let r = r\<lparr>aq_mkey := kp\<rparr>;
                                 Some (ok, if ok then r\<lparr>aq_req := (aq_req r)\<lparr>ap_mkey := kp\<rparr>\<rparr> else r) });
                    if \<not> found then Some (aq_fail ''cant find last mapping key_pair'' r ks)
                    else need_publish ks r (\<lambda>pkey ks.
                         need_program ks r (\<lambda>gpub ks.
                         do { (ok, akey, ks) \<leftarrow> create_account_key_pair (ae_gen env) ks;
                              let r = r\<lparr>aq_key := akey\<rparr>;
                              if \<not> ok then Some (aq_fail ''failed to create new symbol key_pair'' r ks)
                              else let c = (aq_creq r)\<lparr>ca_snd := pkey, ca_account := akey, ca_owner := gpub, ca_space := PROD_ACC_SIZE\<rparr>;
                                       q = (ab_set_publish pkey (ab_set_program gpub (aq_req r)))\<lparr>ap_akey := akey\<rparr>
                                   in Some (send_create (ae_bhash env) (r\<lparr>aq_creq := c, aq_req := q\<rparr>) ks) })) } })"

definition add_product_on_create :: "res \<Rightarrow> add_product areq2 \<Rightarrow> add_product areq2 \<times> add_product eff list" where
  "add_product_on_create = sub_sig e_create_sent e_create_sig e_finalized"

definition add_product_on_tx :: "res \<Rightarrow> add_product areq2 \<Rightarrow> add_product areq2 \<times> add_product eff list" where
  "add_product_on_tx res r = sub_sig e_add_sent e_add_sig (aq_cmt r) res r"

definition add_product_on_sig :: "string \<Rightarrow> string \<Rightarrow> string option \<Rightarrow> add_product areq2 \<Rightarrow> add_product areq2 \<times> add_product eff list" where
  "add_product_on_sig = sig_next e_add_sent e_add_sig"

subsection \<open>Class upd\_product\<close>

text \<open>The key pair of an account that exists is read into the member.\<close>

definition need_account where
  "need_account noun acc ks r k =
     do { (ok, kp) \<leftarrow> get_account_key_pair acc (aq_key r) ks;
          let r = r\<lparr>aq_key := kp\<rparr>;
          if \<not> ok then Some (aq_fail (''missing key pair for '' @ noun @ '' acct ['' @ hash_enc_base58 acc @ '']'') r ks)
          else k kp r }"

definition upd_product_new :: "'r \<Rightarrow> 'r areq1" where
  "upd_product_new q = \<lparr>aq_st = e_sent, aq_cmt = e_confirmed, aq_key = key_pair_zero, aq_req = q, aq_err = None\<rparr>"

definition upd_product_is_ready :: "32 word \<Rightarrow> ('r, 'z) areq1_scheme \<Rightarrow> key_store \<Rightarrow> (bool \<times> ('r, 'z) areq1_scheme \<times> key_store) option" where
  "upd_product_is_ready = mapping_ready mapping_key_pair_file ''missing mapping key pairfile [''"

definition upd_product_reset :: "upd_product areq1 \<Rightarrow> upd_product areq1" where
  "upd_product_reset r = r\<lparr>aq_err := None, aq_st := e_sent\<rparr>"

definition upd_product_submit :: "aenv \<Rightarrow> upd_product areq1 \<Rightarrow> key_store \<Rightarrow> ((upd_product areq1 \<times> key_store) \<times> upd_product eff list) option" where
  "upd_product_submit env r ks =
     need_publish ks r (\<lambda>pkey ks. need_program ks r (\<lambda>gpub ks. need_account ''product'' (fst (ae_prod env)) ks r (\<lambda>akey r.
       Some (send_tx e_sent (ae_bhash env) (r\<lparr>aq_req := (ab_set_publish pkey (ab_set_program gpub (aq_req r)))\<lparr>upr_akey := akey\<rparr>\<rparr>) ks))))"

definition upd_product_on_tx :: "res \<Rightarrow> upd_product areq1 \<Rightarrow> upd_product areq1 \<times> upd_product eff list" where
  "upd_product_on_tx res r = sub_sig e_sent e_sig (aq_cmt r) res r"

definition upd_product_on_sig :: "string \<Rightarrow> string option \<Rightarrow> upd_product areq1 \<Rightarrow> upd_product areq1 \<times> upd_product eff list" where
  "upd_product_on_sig = sig_done e_sig"

subsection \<open>Class add\_price\<close>

text \<open>The key of the product is read into \<open>mkey\_\<close>.\<close>

definition add_price_new :: "'r \<Rightarrow> create_account \<Rightarrow> 'r areq2" where
  "add_price_new q c =
     \<lparr>aq_st = e_create_sent, aq_cmt = e_confirmed, aq_key = key_pair_zero, aq_req = q, aq_err = None,
      aq_mkey = key_pair_zero, aq_creq = c\<rparr>"

definition add_price_is_ready :: "32 word \<Rightarrow> ('r, 'z) areq1_scheme \<Rightarrow> key_store \<Rightarrow> (bool \<times> ('r, 'z) areq1_scheme \<times> key_store) option" where
  "add_price_is_ready = mapping_ready mapping_key_pair_file ''missing mapping key pairfile [''"

definition add_price_submit :: "aenv \<Rightarrow> add_price areq2 \<Rightarrow> key_store \<Rightarrow> ((add_price areq2 \<times> key_store) \<times> add_price eff list) option" where
  "add_price_submit env r ks =
     need_publish ks r (\<lambda>pkey ks. need_program ks r (\<lambda>gpub ks.
     if apr_ptype (aq_req r) \<in> set (snd (ae_prod env)) then Some (aq_fail ''price_type already exists for this product'' r ks)
     else do { (ok, kp) \<leftarrow> get_account_key_pair (fst (ae_prod env)) (aq_mkey r) ks;
               let r = r\<lparr>aq_mkey := kp\<rparr>;
               if \<not> ok then Some (aq_fail (''missing key pair for product acct ['' @ hash_enc_base58 (fst (ae_prod env)) @ '']'') r ks)
               else do { (ok, akey, ks) \<leftarrow> create_account_key_pair (ae_gen env) ks;
                         let r = r\<lparr>aq_key := akey\<rparr>;
                         if \<not> ok then Some (aq_fail ''failed to create new symbol key_pair'' r ks)
                         else let c = (aq_creq r)\<lparr>ca_snd := pkey, ca_account := akey, ca_owner := gpub, ca_space := PRICE_BYTES\<rparr>;
                                  q = (ab_set_publish pkey (ab_set_program gpub (aq_req r)))\<lparr>apr_skey := kp, apr_akey := akey\<rparr>
                              in Some (send_create (ae_bhash env) (r\<lparr>aq_creq := c, aq_req := q\<rparr>) ks) } }))"

definition add_price_on_create :: "res \<Rightarrow> add_price areq2 \<Rightarrow> add_price areq2 \<times> add_price eff list" where
  "add_price_on_create = sub_sig e_create_sent e_create_sig e_finalized"

definition add_price_on_tx :: "res \<Rightarrow> add_price areq2 \<Rightarrow> add_price areq2 \<times> add_price eff list" where
  "add_price_on_tx res r = sub_sig e_add_sent e_add_sig (aq_cmt r) res r"

definition add_price_on_sig :: "string \<Rightarrow> string \<Rightarrow> string option \<Rightarrow> add_price areq2 \<Rightarrow> add_price areq2 \<times> add_price eff list" where
  "add_price_on_sig = sig_next e_add_sent e_add_sig"

subsection \<open>Classes init\_price and set\_min\_pub\_req\<close>

definition init_price_new :: "'r \<Rightarrow> 'r areq1" where
  "init_price_new q = \<lparr>aq_st = e_init_sent, aq_cmt = e_confirmed, aq_key = key_pair_zero, aq_req = q, aq_err = None\<rparr>"

definition init_price_is_ready :: "32 word \<Rightarrow> ('r, 'z) areq1_scheme \<Rightarrow> key_store \<Rightarrow> (bool \<times> ('r, 'z) areq1_scheme \<times> key_store) option" where
  "init_price_is_ready = mapping_ready mapping_key_pair_file ''missing mapping key pairfile [''"

definition init_price_submit :: "aenv \<Rightarrow> init_price areq1 \<Rightarrow> key_store \<Rightarrow> ((init_price areq1 \<times> key_store) \<times> init_price eff list) option" where
  "init_price_submit env r ks =
     need_publish ks r (\<lambda>pkey ks. need_program ks r (\<lambda>gpub ks. need_account ''price'' (fst (ae_price env)) ks r (\<lambda>akey r.
       Some (send_tx e_init_sent (ae_bhash env)
         (r\<lparr>aq_req := (ab_set_publish pkey (ab_set_program gpub (aq_req r)))\<lparr>ip_akey := akey, ip_ptype := fst (snd (ae_price env))\<rparr>\<rparr>) ks))))"

definition init_price_on_tx :: "res \<Rightarrow> init_price areq1 \<Rightarrow> init_price areq1 \<times> init_price eff list" where
  "init_price_on_tx res r = sub_sig e_init_sent e_init_sig (aq_cmt r) res r"

definition init_price_on_sig :: "string \<Rightarrow> string option \<Rightarrow> init_price areq1 \<Rightarrow> init_price areq1 \<times> init_price eff list" where
  "init_price_on_sig = sig_done e_init_sig"

definition set_min_pub_rpc_new :: "'r \<Rightarrow> 'r areq1" where
  "set_min_pub_rpc_new q = \<lparr>aq_st = e_init_sent, aq_cmt = e_confirmed, aq_key = key_pair_zero, aq_req = q, aq_err = None\<rparr>"

definition set_min_pub_rpc_is_ready :: "32 word \<Rightarrow> ('r, 'z) areq1_scheme \<Rightarrow> key_store \<Rightarrow> (bool \<times> ('r, 'z) areq1_scheme \<times> key_store) option" where
  "set_min_pub_rpc_is_ready = mapping_ready mapping_key_pair_file ''missing mapping key pairfile [''"

definition set_min_pub_rpc_submit :: "aenv \<Rightarrow> set_min_pub_rpc areq1 \<Rightarrow> key_store \<Rightarrow> ((set_min_pub_rpc areq1 \<times> key_store) \<times> set_min_pub_rpc eff list) option" where
  "set_min_pub_rpc_submit env r ks =
     need_publish ks r (\<lambda>pkey ks. need_program ks r (\<lambda>gpub ks. need_account ''price'' (fst (ae_price env)) ks r (\<lambda>akey r.
       Some (send_tx e_init_sent (ae_bhash env) (r\<lparr>aq_req := (ab_set_publish pkey (ab_set_program gpub (aq_req r)))\<lparr>smp_akey := akey\<rparr>\<rparr>) ks))))"

definition set_min_pub_rpc_on_tx :: "res \<Rightarrow> set_min_pub_rpc areq1 \<Rightarrow> set_min_pub_rpc areq1 \<times> set_min_pub_rpc eff list" where
  "set_min_pub_rpc_on_tx res r = sub_sig e_init_sent e_init_sig (aq_cmt r) res r"

definition set_min_pub_rpc_on_sig :: "string \<Rightarrow> string option \<Rightarrow> set_min_pub_rpc areq1 \<Rightarrow> set_min_pub_rpc areq1 \<times> set_min_pub_rpc eff list" where
  "set_min_pub_rpc_on_sig = sig_done e_init_sig"

subsection \<open>Class add\_publisher\<close>

definition add_publisher_new :: "'r \<Rightarrow> 'r areq1" where
  "add_publisher_new q = \<lparr>aq_st = e_add_sent, aq_cmt = e_confirmed, aq_key = key_pair_zero, aq_req = q, aq_err = None\<rparr>"

definition add_publisher_is_ready :: "32 word \<Rightarrow> ('r, 'z) areq1_scheme \<Rightarrow> key_store \<Rightarrow> (bool \<times> ('r, 'z) areq1_scheme \<times> key_store) option" where
  "add_publisher_is_ready = mapping_ready mapping_pub_key_file ''missing mapping key file [''"

definition add_publisher_submit :: "aenv \<Rightarrow> add_publisher areq1 \<Rightarrow> key_store \<Rightarrow> ((add_publisher areq1 \<times> key_store) \<times> add_publisher eff list) option" where
  "add_publisher_submit env r ks =
     (if apb_nkey (aq_req r) \<in> set (snd (snd (ae_price env))) then Some (aq_fail ''publisher already exists for this symbol'' r ks)
      else need_publish ks r (\<lambda>pkey ks. need_program ks r (\<lambda>gpub ks. need_account ''price'' (fst (ae_price env)) ks r (\<lambda>akey r.
        Some (send_tx e_add_sent (ae_bhash env) (r\<lparr>aq_req := (ab_set_publish pkey (ab_set_program gpub (aq_req r)))\<lparr>apb_akey := akey\<rparr>\<rparr>) ks)))))"

definition add_publisher_on_tx :: "res \<Rightarrow> add_publisher areq1 \<Rightarrow> add_publisher areq1 \<times> add_publisher eff list" where
  "add_publisher_on_tx res r = sub_sig e_add_sent e_add_sig (aq_cmt r) res r"

definition add_publisher_on_sig :: "string \<Rightarrow> string option \<Rightarrow> add_publisher areq1 \<Rightarrow> add_publisher areq1 \<times> add_publisher eff list" where
  "add_publisher_on_sig = sig_done e_add_sig"

subsection \<open>Class del\_publisher\<close>

definition del_publisher_new :: "'r \<Rightarrow> 'r areq1" where
  "del_publisher_new q = \<lparr>aq_st = e_add_sent, aq_cmt = e_confirmed, aq_key = key_pair_zero, aq_req = q, aq_err = None\<rparr>"

definition del_publisher_is_ready :: "32 word \<Rightarrow> ('r, 'z) areq1_scheme \<Rightarrow> key_store \<Rightarrow> (bool \<times> ('r, 'z) areq1_scheme \<times> key_store) option" where
  "del_publisher_is_ready = mapping_ready mapping_pub_key_file ''missing mapping key file [''"

definition del_publisher_submit :: "aenv \<Rightarrow> del_publisher areq1 \<Rightarrow> key_store \<Rightarrow> ((del_publisher areq1 \<times> key_store) \<times> del_publisher eff list) option" where
  "del_publisher_submit env r ks =
     (if dpb_nkey (aq_req r) \<notin> set (snd (snd (ae_price env))) then Some (aq_fail ''publisher not defined for this symbol'' r ks)
      else need_publish ks r (\<lambda>pkey ks. need_program ks r (\<lambda>gpub ks. need_account ''price'' (fst (ae_price env)) ks r (\<lambda>akey r.
        Some (send_tx e_add_sent (ae_bhash env) (r\<lparr>aq_req := (ab_set_publish pkey (ab_set_program gpub (aq_req r)))\<lparr>dpb_akey := akey\<rparr>\<rparr>) ks)))))"

definition del_publisher_on_tx :: "res \<Rightarrow> del_publisher areq1 \<Rightarrow> del_publisher areq1 \<times> del_publisher eff list" where
  "del_publisher_on_tx res r = sub_sig e_add_sent e_add_sig (aq_cmt r) res r"

definition del_publisher_on_sig :: "string \<Rightarrow> string option \<Rightarrow> del_publisher areq1 \<Rightarrow> del_publisher areq1 \<times> del_publisher eff list" where
  "del_publisher_on_sig = sig_done e_add_sig"

subsection \<open>Class get\_minimum\_balance\_rent\_exemption\<close>

text \<open>It has no signature; its states are \<open>e_sent\<close>, \<open>e_done\<close> and \<open>e_error\<close>.  The JSON-RPC request is the
  size that it asks for.\<close>

definition min_balance_submit :: "u64 areq1 \<Rightarrow> u64 areq1 \<times> u64 eff list" where
  "min_balance_submit r = (let r = r\<lparr>aq_st := e_sent\<rparr> in (r, [Send_Tx (aq_req r)]))"

definition min_balance_on_response :: "string option \<Rightarrow> u64 areq1 \<Rightarrow> u64 areq1 \<times> u64 eff list" where
  "min_balance_on_response = res_done e_sent"

section \<open>Calls\<close>

text \<open>The calls a request receives: \<open>submit\<close> from the manager, the replies to the transactions and the
  confirmation of a signature from the client, with the signature and the block hash of the moment.\<close>

datatype acall2 = C_submit aenv | C_create res | C_tx res | C_sig string string "string option"
datatype acall1 = T_submit aenv | T_tx res | T_sig string "string option"

fun init_mapping_step :: "acall2 \<Rightarrow> init_mapping areq2 \<times> key_store \<Rightarrow> ((init_mapping areq2 \<times> key_store) \<times> init_mapping eff list) option" where
  "init_mapping_step (C_submit env) (r, ks) = init_mapping_submit env r ks"
| "init_mapping_step (C_create res) (r, ks) = (let (r, es) = init_mapping_on_create res r in Some ((r, ks), es))"
| "init_mapping_step (C_tx res) (r, ks) = (let (r, es) = init_mapping_on_tx res r in Some ((r, ks), es))"
| "init_mapping_step (C_sig s bhash err) (r, ks) = (let (r, es) = init_mapping_on_sig s bhash err r in Some ((r, ks), es))"

fun add_mapping_step :: "acall2 \<Rightarrow> add_mapping areq2 \<times> key_store \<Rightarrow> ((add_mapping areq2 \<times> key_store) \<times> add_mapping eff list) option" where
  "add_mapping_step (C_submit env) (r, ks) = add_mapping_submit env r ks"
| "add_mapping_step (C_create res) (r, ks) = (let (r, es) = add_mapping_on_create res r in Some ((r, ks), es))"
| "add_mapping_step (C_tx res) (r, ks) = (let (r, es) = add_mapping_on_tx res r in Some ((r, ks), es))"
| "add_mapping_step (C_sig s bhash err) (r, ks) = (let (r, es) = add_mapping_on_sig s bhash err r in Some ((r, ks), es))"

fun add_product_step :: "acall2 \<Rightarrow> add_product areq2 \<times> key_store \<Rightarrow> ((add_product areq2 \<times> key_store) \<times> add_product eff list) option" where
  "add_product_step (C_submit env) (r, ks) = add_product_submit env r ks"
| "add_product_step (C_create res) (r, ks) = (let (r, es) = add_product_on_create res r in Some ((r, ks), es))"
| "add_product_step (C_tx res) (r, ks) = (let (r, es) = add_product_on_tx res r in Some ((r, ks), es))"
| "add_product_step (C_sig s bhash err) (r, ks) = (let (r, es) = add_product_on_sig s bhash err r in Some ((r, ks), es))"

fun add_price_step :: "acall2 \<Rightarrow> add_price areq2 \<times> key_store \<Rightarrow> ((add_price areq2 \<times> key_store) \<times> add_price eff list) option" where
  "add_price_step (C_submit env) (r, ks) = add_price_submit env r ks"
| "add_price_step (C_create res) (r, ks) = (let (r, es) = add_price_on_create res r in Some ((r, ks), es))"
| "add_price_step (C_tx res) (r, ks) = (let (r, es) = add_price_on_tx res r in Some ((r, ks), es))"
| "add_price_step (C_sig s bhash err) (r, ks) = (let (r, es) = add_price_on_sig s bhash err r in Some ((r, ks), es))"

fun upd_product_step :: "acall1 \<Rightarrow> upd_product areq1 \<times> key_store \<Rightarrow> ((upd_product areq1 \<times> key_store) \<times> upd_product eff list) option" where
  "upd_product_step (T_submit env) (r, ks) = upd_product_submit env r ks"
| "upd_product_step (T_tx res) (r, ks) = (let (r, es) = upd_product_on_tx res r in Some ((r, ks), es))"
| "upd_product_step (T_sig s err) (r, ks) = (let (r, es) = upd_product_on_sig s err r in Some ((r, ks), es))"

fun init_price_step :: "acall1 \<Rightarrow> init_price areq1 \<times> key_store \<Rightarrow> ((init_price areq1 \<times> key_store) \<times> init_price eff list) option" where
  "init_price_step (T_submit env) (r, ks) = init_price_submit env r ks"
| "init_price_step (T_tx res) (r, ks) = (let (r, es) = init_price_on_tx res r in Some ((r, ks), es))"
| "init_price_step (T_sig s err) (r, ks) = (let (r, es) = init_price_on_sig s err r in Some ((r, ks), es))"

fun set_min_pub_rpc_step :: "acall1 \<Rightarrow> set_min_pub_rpc areq1 \<times> key_store \<Rightarrow> ((set_min_pub_rpc areq1 \<times> key_store) \<times> set_min_pub_rpc eff list) option" where
  "set_min_pub_rpc_step (T_submit env) (r, ks) = set_min_pub_rpc_submit env r ks"
| "set_min_pub_rpc_step (T_tx res) (r, ks) = (let (r, es) = set_min_pub_rpc_on_tx res r in Some ((r, ks), es))"
| "set_min_pub_rpc_step (T_sig s err) (r, ks) = (let (r, es) = set_min_pub_rpc_on_sig s err r in Some ((r, ks), es))"

fun add_publisher_step :: "acall1 \<Rightarrow> add_publisher areq1 \<times> key_store \<Rightarrow> ((add_publisher areq1 \<times> key_store) \<times> add_publisher eff list) option" where
  "add_publisher_step (T_submit env) (r, ks) = add_publisher_submit env r ks"
| "add_publisher_step (T_tx res) (r, ks) = (let (r, es) = add_publisher_on_tx res r in Some ((r, ks), es))"
| "add_publisher_step (T_sig s err) (r, ks) = (let (r, es) = add_publisher_on_sig s err r in Some ((r, ks), es))"

fun del_publisher_step :: "acall1 \<Rightarrow> del_publisher areq1 \<times> key_store \<Rightarrow> ((del_publisher areq1 \<times> key_store) \<times> del_publisher eff list) option" where
  "del_publisher_step (T_submit env) (r, ks) = del_publisher_submit env r ks"
| "del_publisher_step (T_tx res) (r, ks) = (let (r, es) = del_publisher_on_tx res r in Some ((r, ks), es))"
| "del_publisher_step (T_sig s err) (r, ks) = (let (r, es) = del_publisher_on_sig s err r in Some ((r, ks), es))"

text \<open>A run logs every call with its effects.\<close>

type_synonym ('c, 'e) alog = "('c \<times> 'e list) list"

definition effects :: "('c, 'r eff) alog \<Rightarrow> 'r eff list" where
  "effects l = concat (map snd l)"

definition sends :: "('c, 'r eff) alog \<Rightarrow> 'r eff list" where
  "sends l = filter (\<lambda>e. e \<noteq> Notify) (effects l)"

text \<open>The signatures whose confirmation was asked for, and those that were confirmed without error.\<close>

fun sig_of :: "'r eff \<Rightarrow> string list" where
  "sig_of (Send_Sig cmt s) = [s]"
| "sig_of _ = []"

definition asked :: "('c, 'r eff) alog \<Rightarrow> string list" where
  "asked l = concat (map sig_of (sends l))"

fun conf2 :: "acall2 \<Rightarrow> string list" where
  "conf2 (C_sig s bhash None) = [s]"
| "conf2 _ = []"

fun conf1 :: "acall1 \<Rightarrow> string list" where
  "conf1 (T_sig s None) = [s]"
| "conf1 _ = []"

definition confirmed :: "('c \<Rightarrow> string list) \<Rightarrow> ('c, 'r eff) alog \<Rightarrow> string list" where
  "confirmed conf l = concat (map (conf \<circ> fst) l)"

text \<open>What the environment does: the manager submits a request until it has sent something; the account
  creation, or the single transaction, gets replies only once something was sent; and the node confirms a
  signature at most as often as it was asked to.  Errors may come at any time.\<close>

fun may_call2 :: "acall2 \<Rightarrow> (acall2, 'r eff) alog \<Rightarrow> bool" where
  "may_call2 (C_submit env) l \<longleftrightarrow> sends l = []"
| "may_call2 (C_create res) l \<longleftrightarrow> sends l \<noteq> []"
| "may_call2 (C_sig s bhash None) l \<longleftrightarrow> count_list (confirmed conf2 l) s < count_list (asked l) s"
| "may_call2 _ l \<longleftrightarrow> True"

fun may_call1 :: "acall1 \<Rightarrow> (acall1, 'r eff) alog \<Rightarrow> bool" where
  "may_call1 (T_submit env) l \<longleftrightarrow> sends l = []"
| "may_call1 (T_tx res) l \<longleftrightarrow> sends l \<noteq> []"
| "may_call1 (T_sig s None) l \<longleftrightarrow> count_list (confirmed conf1 l) s < count_list (asked l) s"
| "may_call1 _ l \<longleftrightarrow> True"

inductive admin_run :: "('c \<Rightarrow> ('c, 'r eff) alog \<Rightarrow> bool) \<Rightarrow> ('c \<Rightarrow> 's \<Rightarrow> ('s \<times> 'r eff list) option) \<Rightarrow> 's \<Rightarrow>
    's \<Rightarrow> ('c, 'r eff) alog \<Rightarrow> bool" for may step s0 where
  start: "admin_run may step s0 s0 []"
| call: "admin_run may step s0 s l \<Longrightarrow> may c l \<Longrightarrow> step c s = Some (s', es) \<Longrightarrow> admin_run may step s0 s' (l @ [(c, es)])"

lemma effects_simps [simp]: "effects [] = []" "effects (l @ [(c, es)]) = effects l @ es"
  by (simp_all add: effects_def)

lemma sends_simps [simp]: "sends [] = []" "sends (l @ [(c, es)]) = sends l @ filter (\<lambda>e. e \<noteq> Notify) es"
  by (simp_all add: sends_def)

lemma asked_simps [simp]:
  "asked [] = []" "asked (l @ [(c, es)]) = asked l @ concat (map sig_of (filter (\<lambda>e. e \<noteq> Notify) es))"
  by (simp_all add: asked_def)

lemma confirmed_simps [simp]: "confirmed conf [] = []" "confirmed conf (l @ [(c, es)]) = confirmed conf l @ conf c"
  by (simp_all add: confirmed_def)

section \<open>Two transactions\<close>

text \<open>The accounts of the two transactions agree: the payer, the owner of the new account and the account.\<close>

definition keys_agree :: "('a admin_base_scheme \<Rightarrow> string) \<Rightarrow> create_account \<Rightarrow> 'a admin_base_scheme \<Rightarrow> bool" where
  "keys_agree key c q \<longleftrightarrow> ca_snd c = ab_pkey q \<and> ca_owner c = ab_gkey q \<and> ca_account c = key q"

text \<open>What \<open>submit\<close> does: it fails, telling the subscribers, or sends the first transaction.\<close>

definition submitted2 :: "('a admin_base_scheme \<Rightarrow> string) \<Rightarrow> 'a admin_base_scheme areq2 \<Rightarrow> 'a admin_base_scheme areq2 \<Rightarrow>
    'a admin_base_scheme eff list \<Rightarrow> bool" where
  "submitted2 key r r' es \<longleftrightarrow> aq_cmt r' = aq_cmt r \<and>
     ((es = [Notify] \<and> aq_err r' \<noteq> None \<and> aq_st r' = aq_st r \<and> aq_creq r' = aq_creq r \<and>
       (keys_agree key (aq_creq r) (aq_req r) \<longrightarrow> keys_agree key (aq_creq r) (aq_req r'))) \<or>
      (es = [Send_Create (aq_creq r')] \<and> aq_st r' = e_create_sent \<and> keys_agree key (aq_creq r') (aq_req r')))"

text \<open>The second transaction is sent only by the confirmation without error of the signature of the account's
  creation: \<open>tx_confirmed2 key l\<close> looks at every call of the log that sends it, and at the log before that call.\<close>

definition tx_confirmed2 :: "('a admin_base_scheme \<Rightarrow> string) \<Rightarrow> (acall2, 'a admin_base_scheme eff) alog \<Rightarrow> bool" where
  "tx_confirmed2 key l \<longleftrightarrow> (\<forall>l1 c es l2 q. l = l1 @ (c, es) # l2 \<and> Send_Tx q \<in> set es \<longrightarrow>
     (\<exists>a s. c = C_sig s (ab_bhash q) None \<and> es = [Send_Tx q] \<and> sends l1 = [Send_Create a, Send_Sig e_finalized s] \<and>
        (C_create (None, s), [Send_Sig e_finalized s]) \<in> set l1 \<and> keys_agree key a q))"

text \<open>The request is done by the confirmation without error of the signature of the second transaction, and
  nothing is sent afterwards.\<close>

definition done_by2 where
  "done_by2 cmt l \<longleftrightarrow> (\<exists>l1 s2 h l2 a s1 q. l = l1 @ (C_sig s2 h None, [Notify]) # l2 \<and>
     (C_tx (None, s2), [Send_Sig cmt s2]) \<in> set l1 \<and>
     sends l1 = [Send_Create a, Send_Sig e_finalized s1, Send_Tx q, Send_Sig cmt s2] \<and> sends l = sends l1)"

definition states2 :: "astate \<Rightarrow> astate \<Rightarrow> astate set" where
  "states2 sent sig = {e_create_sent, e_create_sig, sent, sig, e_done, e_error}"

text \<open>What was sent, asked for and confirmed in every state.\<close>

definition at_state2 where
  "at_state2 key sent sig r l \<longleftrightarrow>
     (aq_st r = e_create_sent \<longrightarrow>
        sends l = [] \<or> sends l = [Send_Create (aq_creq r)] \<and> keys_agree key (aq_creq r) (aq_req r)) \<and>
     (aq_st r = e_create_sig \<longrightarrow> confirmed conf2 l = [] \<and> (\<exists>s. sends l = [Send_Create (aq_creq r), Send_Sig e_finalized s] \<and>
        (C_create (None, s), [Send_Sig e_finalized s]) \<in> set l) \<and> keys_agree key (aq_creq r) (aq_req r)) \<and>
     (aq_st r = sent \<longrightarrow> (\<exists>a s q. sends l = [Send_Create a, Send_Sig e_finalized s, Send_Tx q] \<and> confirmed conf2 l = [s])) \<and>
     (aq_st r = sig \<longrightarrow> (\<exists>a s q s2. sends l = [Send_Create a, Send_Sig e_finalized s, Send_Tx q, Send_Sig (aq_cmt r) s2] \<and>
        (C_tx (None, s2), [Send_Sig (aq_cmt r) s2]) \<in> set l \<and> confirmed conf2 l = [s])) \<and>
     (aq_st r = e_done \<longrightarrow> done_by2 (aq_cmt r) l)"

lemma tx_confirmed2_snoc:
  assumes "tx_confirmed2 key l" "\<And>q. Send_Tx q \<notin> set es"
  shows "tx_confirmed2 key (l @ [(c, es)])"
  unfolding tx_confirmed2_def
proof (intro allI impI, elim conjE)
  fix l1 c' es' l2 q
  assume a: "l @ [(c, es)] = l1 @ (c', es') # l2" and q: "Send_Tx q \<in> set es'"
  then have "l2 \<noteq> []" using assms(2) by auto
  then have "l = l1 @ (c', es') # butlast l2" using arg_cong [OF a, of butlast] by (simp add: butlast_append)
  then show "\<exists>a s. c' = C_sig s (ab_bhash q) None \<and> es' = [Send_Tx q] \<and> sends l1 = [Send_Create a, Send_Sig e_finalized s] \<and>
        (C_create (None, s), [Send_Sig e_finalized s]) \<in> set l1 \<and> keys_agree key a q"
    using assms(1) q unfolding tx_confirmed2_def by blast
qed

lemma tx_confirmed2_tx:
  assumes "tx_confirmed2 key l" "sends l = [Send_Create a, Send_Sig e_finalized s]"
    "(C_create (None, s), [Send_Sig e_finalized s]) \<in> set l" "keys_agree key a q" "ab_bhash q = h"
  shows "tx_confirmed2 key (l @ [(C_sig s h None, [Send_Tx q])])"
  unfolding tx_confirmed2_def
proof (intro allI impI, elim conjE)
  fix l1 c' es' l2 q'
  assume eq: "l @ [(C_sig s h None, [Send_Tx q])] = l1 @ (c', es') # l2" and q: "Send_Tx q' \<in> set es'"
  show "\<exists>a s. c' = C_sig s (ab_bhash q') None \<and> es' = [Send_Tx q'] \<and> sends l1 = [Send_Create a, Send_Sig e_finalized s] \<and>
        (C_create (None, s), [Send_Sig e_finalized s]) \<in> set l1 \<and> keys_agree key a q'"
  proof (cases "l2 = []")
    case True
    then show ?thesis using eq q assms by auto
  next
    case False
    then have "l = l1 @ (c', es') # butlast l2" using arg_cong [OF eq, of butlast] by (simp add: butlast_append)
    then show ?thesis using assms(1) q unfolding tx_confirmed2_def by blast
  qed
qed

lemma done_by2_snoc:
  assumes "done_by2 cmt l" "\<forall>e \<in> set es. e = Notify"
  shows "done_by2 cmt (l @ [(c, es)])"
proof -
  obtain l1 s2 h l2 a s1 q where l: "l = l1 @ (C_sig s2 h None, [Notify]) # l2" "(C_tx (None, s2), [Send_Sig cmt s2]) \<in> set l1"
     "sends l1 = [Send_Create a, Send_Sig e_finalized s1, Send_Tx q, Send_Sig cmt s2]" "sends l = sends l1"
    using assms(1) unfolding done_by2_def by blast
  have "filter (\<lambda>e. e \<noteq> Notify) es = []" using assms(2) by (simp add: filter_empty_conv)
  then have "sends (l @ [(c, es)]) = sends l1" using l(4) by simp
  moreover have "l @ [(c, es)] = l1 @ (C_sig s2 h None, [Notify]) # (l2 @ [(c, es)])" using l(1) by simp
  ultimately show ?thesis using l(2,3) unfolding done_by2_def by blast
qed

locale two_step =
  fixes step :: "acall2 \<Rightarrow> 'a admin_base_scheme areq2 \<times> key_store \<Rightarrow> (('a admin_base_scheme areq2 \<times> key_store) \<times> 'a admin_base_scheme eff list) option"
    and sent sig :: astate
    and key :: "'a admin_base_scheme \<Rightarrow> string"
  assumes stages: "(sent, sig) \<in> {(e_init_sent, e_init_sig), (e_add_sent, e_add_sig)}"
    and submit: "step (C_submit env) (r, ks) = Some ((r', ks'), es) \<Longrightarrow> submitted2 key r r' es"
    and on_create: "step (C_create res) (r, ks) = (let (r, es) = sub_sig e_create_sent e_create_sig e_finalized res r in Some ((r, ks), es))"
    and on_tx: "step (C_tx res) (r, ks) = (let (r, es) = sub_sig sent sig (aq_cmt r) res r in Some ((r, ks), es))"
    and on_sig: "step (C_sig s bhash err) (r, ks) = (let (r, es) = sig_next sent sig s bhash err r in Some ((r, ks), es))"
    and key_bhash: "key (ab_set_block_hash h q) = key q"
begin

lemma distinct_stages: "distinct [e_create_sent, e_create_sig, sent, sig, e_done, e_error]"
  using stages by auto

definition inv :: "'a admin_base_scheme areq2 \<times> key_store \<Rightarrow> (acall2, 'a admin_base_scheme eff) alog \<Rightarrow> bool" where
  "inv s l \<longleftrightarrow> aq_st (fst s) \<in> states2 sent sig \<and> at_state2 key sent sig (fst s) l \<and> tx_confirmed2 key l \<and>
     (\<forall>x. count_list (confirmed conf2 l) x \<le> count_list (asked l) x)"

lemma invI:
  assumes "aq_st r \<in> states2 sent sig" "at_state2 key sent sig r l" "tx_confirmed2 key l"
    "\<And>x. count_list (confirmed conf2 l) x \<le> count_list (asked l) x"
  shows "inv (r, ks) l"
  using assms by (simp add: inv_def)

lemma counts:
  assumes "inv (r, ks) l" "may_call2 c l"
  shows "count_list (confirmed conf2 (l @ [(c, es)])) x \<le> count_list (asked (l @ [(c, es)])) x"
proof -
  have le: "count_list (confirmed conf2 l) x \<le> count_list (asked l) x" using assms(1) by (simp add: inv_def)
  show ?thesis
  proof (cases "\<exists>s h. c = C_sig s h None")
    case True
    then obtain s h where "c = C_sig s h None" by blast
    then show ?thesis using le assms(2) by (cases "s = x") simp_all
  next
    case False
    then have "conf2 c = []" by (cases c rule: conf2.cases) auto
    then show ?thesis using le by simp
  qed
qed

text \<open>A call without effect on the state.\<close>

lemma step_idle:
  assumes "inv (r, ks) l" "may_call2 c l" "\<forall>e \<in> set es. e = Notify" "conf2 c = []"
    and "aq_st r' = aq_st r" "aq_creq r' = aq_creq r" "aq_cmt r' = aq_cmt r"
    and "keys_agree key (aq_creq r) (aq_req r) \<Longrightarrow> keys_agree key (aq_creq r) (aq_req r')"
  shows "inv (r', ks') (l @ [(c, es)])"
proof (rule invI)
  have f: "filter (\<lambda>e. e \<noteq> Notify) es = []" using assms(3) by (simp add: filter_empty_conv)
  show "aq_st r' \<in> states2 sent sig" using assms(1,5) by (simp add: inv_def)
  show "tx_confirmed2 key (l @ [(c, es)])" by (rule tx_confirmed2_snoc) (use assms in \<open>auto simp: inv_def\<close>)
  have a: "at_state2 key sent sig r l" using assms(1) by (simp add: inv_def)
  have "aq_st r = e_done \<Longrightarrow> done_by2 (aq_cmt r) (l @ [(c, es)])"
    using done_by2_snoc [OF _ assms(3)] a by (simp add: at_state2_def)
  moreover have "confirmed conf2 (l @ [(c, es)]) = confirmed conf2 l" "sends (l @ [(c, es)]) = sends l"
    "\<And>e. e \<in> set l \<Longrightarrow> e \<in> set (l @ [(c, es)])" using f assms(4) by simp_all
  ultimately show "at_state2 key sent sig r' (l @ [(c, es)])"
    using a assms(5-8) unfolding at_state2_def by metis
qed (rule counts [OF assms(1,2)])

lemma step_error:
  assumes "inv (r, ks) l" "may_call2 c l" "on_res_error msg r = (r', es)"
  shows "inv (r', ks') (l @ [(c, es)])"
proof (rule invI)
  have f: "r' = r\<lparr>aq_err := Some msg, aq_st := e_error\<rparr>" "es = [Notify]" using assms(3) by (auto simp: on_res_error_def)
  show "aq_st r' \<in> states2 sent sig" "at_state2 key sent sig r' (l @ [(c, es)])"
    using f distinct_stages by (simp_all add: states2_def at_state2_def) metis
  show "tx_confirmed2 key (l @ [(c, es)])" by (rule tx_confirmed2_snoc) (use assms(1) f in \<open>auto simp: inv_def\<close>)
qed (rule counts [OF assms(1,2)])

lemma step_submit:
  assumes "inv (r, ks) l" "sends l = []" "submitted2 key r r' es"
  shows "inv (r', ks') (l @ [(C_submit env, es)])"
proof (cases "es = [Notify]")
  case True
  then show ?thesis using assms by (intro step_idle [OF assms(1)]) (auto simp: submitted2_def)
next
  case False
  then have f: "es = [Send_Create (aq_creq r')]" "aq_st r' = e_create_sent" "keys_agree key (aq_creq r') (aq_req r')"
    using assms(3) by (auto simp: submitted2_def)
  show ?thesis
  proof (rule invI)
    show "tx_confirmed2 key (l @ [(C_submit env, es)])" by (rule tx_confirmed2_snoc) (use assms(1) f in \<open>auto simp: inv_def\<close>)
    show "at_state2 key sent sig r' (l @ [(C_submit env, es)])"
      using f assms(2) distinct_stages by (auto simp: at_state2_def)
  qed (use f counts [OF assms(1), of "C_submit env" es] assms(2) in \<open>simp_all add: states2_def\<close>)
qed

lemma step_create:
  assumes inv: "inv (r, ks) l" and m: "may_call2 (C_create res) l" and "sub_sig e_create_sent e_create_sig e_finalized res r = (r', es)"
  shows "inv (r', ks') (l @ [(C_create res, es)])"
proof (cases "fst res")
  case None
  show ?thesis
  proof (cases "aq_st r = e_create_sent")
    case True
    obtain s where res: "res = (None, s)" using None by (cases res) simp
    have f: "r' = r\<lparr>aq_st := e_create_sig\<rparr>" "es = [Send_Sig e_finalized s]"
      using assms(3) True by (auto simp: sub_sig_def res)
    have x: "sends l = [Send_Create (aq_creq r)]" "keys_agree key (aq_creq r) (aq_req r)"
      using inv True m by (auto simp: inv_def at_state2_def)
    have "confirmed conf2 l = []"
    proof (rule ccontr)
      assume "confirmed conf2 l \<noteq> []"
      then obtain y ys where "confirmed conf2 l = y # ys" by (cases "confirmed conf2 l") auto
      then have "0 < count_list (confirmed conf2 l) y" by simp
      moreover have "count_list (confirmed conf2 l) y \<le> count_list (asked l) y" using inv by (simp add: inv_def)
      moreover have "asked l = []" using x(1) by (simp add: asked_def)
      ultimately show False by simp
    qed
    then show ?thesis
      using x f distinct_stages by (intro invI counts [OF inv m] tx_confirmed2_snoc)
        (use inv in \<open>auto simp: inv_def at_state2_def states2_def res\<close>)
  next
    case False
    then show ?thesis using assms None by (intro step_idle [OF inv m]) (auto simp: sub_sig_def)
  qed
next
  case (Some msg)
  then show ?thesis using step_error [OF inv m] assms(3) by (simp add: sub_sig_def)
qed

lemma step_tx:
  assumes inv: "inv (r, ks) l" and m: "may_call2 (C_tx res) l" and "sub_sig sent sig (aq_cmt r) res r = (r', es)"
  shows "inv (r', ks') (l @ [(C_tx res, es)])"
proof (cases "fst res")
  case None
  show ?thesis
  proof (cases "aq_st r = sent")
    case True
    obtain s where res: "res = (None, s)" using None by (cases res) simp
    have f: "r' = r\<lparr>aq_st := sig\<rparr>" "es = [Send_Sig (aq_cmt r) s]"
      using assms(3) True by (auto simp: sub_sig_def res)
    have "\<exists>a s q. sends l = [Send_Create a, Send_Sig e_finalized s, Send_Tx q] \<and> confirmed conf2 l = [s]"
      using inv True distinct_stages by (auto simp: inv_def at_state2_def)
    then show ?thesis
      using f distinct_stages by (intro invI counts [OF inv m] tx_confirmed2_snoc)
        (use inv in \<open>auto simp: inv_def at_state2_def states2_def res\<close>)
  next
    case False
    then show ?thesis using assms None by (intro step_idle [OF inv m]) (auto simp: sub_sig_def)
  qed
next
  case (Some msg)
  then show ?thesis using step_error [OF inv m] assms(3) by (simp add: sub_sig_def)
qed

lemma step_sig:
  assumes inv: "inv (r, ks) l" and m: "may_call2 (C_sig s bhash err) l" and "sig_next sent sig s bhash err r = (r', es)"
  shows "inv (r', ks') (l @ [(C_sig s bhash err, es)])"
proof (cases err)
  case None
  have cnt: "count_list (confirmed conf2 l) s < count_list (asked l) s" using m None by simp
  have a: "at_state2 key sent sig r l" using inv by (simp add: inv_def)
  consider "aq_st r = e_create_sig" | "aq_st r = sig" | "aq_st r \<notin> {e_create_sig, sig}" by auto
  then show ?thesis
  proof cases
    case 1
    let ?q = "ab_set_block_hash bhash (aq_req r)"
    have f: "r' = r\<lparr>aq_st := sent, aq_req := ?q\<rparr>" "es = [Send_Tx ?q]"
      using assms(3) None 1 by (auto simp: sig_next_def)
    obtain s1 where x: "sends l = [Send_Create (aq_creq r), Send_Sig e_finalized s1]" "confirmed conf2 l = []"
      "(C_create (None, s1), [Send_Sig e_finalized s1]) \<in> set l" "keys_agree key (aq_creq r) (aq_req r)"
      using a 1 by (auto simp: at_state2_def)
    have s: "s1 = s" using cnt x(1,2) by (auto simp: asked_def split: if_splits)
    have k: "keys_agree key (aq_creq r) ?q" "ab_bhash ?q = bhash"
      using x(4) by (simp_all add: keys_agree_def key_bhash) (simp_all add: ab_set_block_hash_def)
    have "tx_confirmed2 key (l @ [(C_sig s bhash None, [Send_Tx ?q])])"
      by (rule tx_confirmed2_tx [OF _ x(1,3) [unfolded s] k]) (use inv in \<open>simp add: inv_def\<close>)
    then show ?thesis
      using f x s None distinct_stages by (intro invI counts [OF inv m]) (auto simp: at_state2_def states2_def)
  next
    case 2
    have f: "r' = r\<lparr>aq_st := e_done\<rparr>" "es = [Notify]" using assms(3) None 2 distinct_stages by (auto simp: sig_next_def)
    obtain b s1 q s2 where x: "sends l = [Send_Create b, Send_Sig e_finalized s1, Send_Tx q, Send_Sig (aq_cmt r) s2]"
      "(C_tx (None, s2), [Send_Sig (aq_cmt r) s2]) \<in> set l" "confirmed conf2 l = [s1]"
      using a 2 distinct_stages by (auto simp: at_state2_def)
    have s: "s2 = s" using cnt x(1,3) by (auto simp: asked_def split: if_splits)
    have "done_by2 (aq_cmt r) (l @ [(C_sig s bhash None, [Notify])])"
      unfolding done_by2_def using x s by (intro exI [of _ l] exI [of _ s] exI [of _ bhash] exI [of _ "[]"]) auto
    then show ?thesis
      using f None distinct_stages by (intro invI counts [OF inv m] tx_confirmed2_snoc)
        (use inv in \<open>auto simp: inv_def at_state2_def states2_def\<close>)
  next
    case 3
    then have f: "r' = r" "es = []" using assms(3) None by (auto simp: sig_next_def)
    have "confirmed conf2 l \<noteq> [] \<or> asked l \<noteq> []" using cnt by auto
    have "aq_st r \<noteq> e_create_sent"
      using a cnt by (auto simp: at_state2_def asked_def)
    moreover have "aq_st r \<noteq> sent"
      using a cnt distinct_stages by (auto simp: at_state2_def asked_def split: if_splits)
    ultimately have "aq_st r \<in> {e_done, e_error}" using inv 3 by (auto simp: inv_def states2_def)
    moreover have "aq_st r = e_done \<Longrightarrow> done_by2 (aq_cmt r) (l @ [(C_sig s bhash err, es)])"
      using a f by (intro done_by2_snoc) (auto simp: at_state2_def)
    ultimately show ?thesis
      using f distinct_stages by (intro invI counts [OF inv m] tx_confirmed2_snoc)
        (use inv in \<open>auto simp: inv_def at_state2_def states2_def\<close>)
  qed
next
  case (Some msg)
  then show ?thesis using step_error [OF inv m] assms(3) by (simp add: sig_next_def)
qed

lemma run_inv:
  assumes "admin_run may_call2 step (r0, ks0) s l" "aq_st r0 = e_create_sent"
  shows "inv s l"
  using assms(1)
proof induction
  case start
  then show ?case using assms(2) distinct_stages by (auto simp: inv_def at_state2_def states2_def tx_confirmed2_def)
next
  case (call s l c s' es)
  obtain r ks r' ks' where s: "s = (r, ks)" "s' = (r', ks')" by (cases s, cases s')
  show ?case
  proof (cases c)
    case (C_submit env)
    then show ?thesis using call step_submit submit by (auto simp: s)
  next
    case (C_create res)
    then show ?thesis using call step_create [of r ks l res r' es ks'] by (auto simp: s on_create split: prod.splits)
  next
    case (C_tx res)
    then show ?thesis using call step_tx [of r ks l res r' es ks'] by (auto simp: s on_tx split: prod.splits)
  next
    case (C_sig x bhash err)
    then show ?thesis using call step_sig [of r ks l x bhash err r' es ks'] by (auto simp: s on_sig split: prod.splits)
  qed
qed

text \<open>The contract of a request with two transactions.\<close>

lemma in_order:
  assumes "admin_run may_call2 step (r0, ks0) (r, ks) l" "aq_st r0 = e_create_sent"
  shows "aq_st r \<in> states2 sent sig \<and> tx_confirmed2 key l \<and> (aq_st r = e_done \<longrightarrow> done_by2 (aq_cmt r) l)"
  using run_inv [OF assms] by (auto simp: inv_def at_state2_def)

text \<open>When every reply is good the request gets done.\<close>

lemma completes:
  assumes "step (C_submit env) (r, ks) = Some ((r1, ks1), [Send_Create c])"
  shows "\<exists>r' q. aq_st r' = e_done \<and> keys_agree key c q \<and> admin_run may_call2 step (r, ks) (r', ks1)
    [(C_submit env, [Send_Create c]), (C_create (None, s1), [Send_Sig e_finalized s1]), (C_sig s1 h None, [Send_Tx q]),
     (C_tx (None, s2), [Send_Sig (aq_cmt r) s2]), (C_sig s2 h' None, [Notify])]"
proof -
  have s: "aq_st r1 = e_create_sent" "c = aq_creq r1" "keys_agree key c (aq_req r1)" "aq_cmt r1 = aq_cmt r"
    using submit [OF assms] by (auto simp: submitted2_def)
  let ?q = "ab_set_block_hash h (aq_req r1)"
  let ?r = "r1\<lparr>aq_st := sent, aq_req := ?q\<rparr>"
  have k: "keys_agree key c ?q" using s(3) by (simp add: keys_agree_def key_bhash) (simp add: ab_set_block_hash_def)
  note eff = sends_def effects_def asked_def confirmed_def
  have 1: "admin_run may_call2 step (r, ks) (r1, ks1) ([] @ [(C_submit env, [Send_Create c])])"
    by (rule admin_run.call, rule admin_run.start, simp, rule assms)
  have 2: "admin_run may_call2 step (r, ks) (r1\<lparr>aq_st := e_create_sig\<rparr>, ks1)
      (([] @ [(C_submit env, [Send_Create c])]) @ [(C_create (None, s1), [Send_Sig e_finalized s1])])"
    by (rule admin_run.call, rule 1) (use s(1) in \<open>simp_all add: on_create sub_sig_def eff\<close>)
  have 3: "admin_run may_call2 step (r, ks) (?r, ks1)
      ((([] @ [(C_submit env, [Send_Create c])]) @ [(C_create (None, s1), [Send_Sig e_finalized s1])]) @ [(C_sig s1 h None, [Send_Tx ?q])])"
    by (rule admin_run.call, rule 2) (simp_all add: on_sig sig_next_def eff)
  have 4: "admin_run may_call2 step (r, ks) (?r\<lparr>aq_st := sig\<rparr>, ks1)
      (((([] @ [(C_submit env, [Send_Create c])]) @ [(C_create (None, s1), [Send_Sig e_finalized s1])]) @ [(C_sig s1 h None, [Send_Tx ?q])])
        @ [(C_tx (None, s2), [Send_Sig (aq_cmt r) s2])])"
    by (rule admin_run.call, rule 3) (use s(4) in \<open>simp_all add: on_tx sub_sig_def eff\<close>)
  have 5: "admin_run may_call2 step (r, ks) (?r\<lparr>aq_st := e_done\<rparr>, ks1)
      ((((([] @ [(C_submit env, [Send_Create c])]) @ [(C_create (None, s1), [Send_Sig e_finalized s1])]) @ [(C_sig s1 h None, [Send_Tx ?q])])
        @ [(C_tx (None, s2), [Send_Sig (aq_cmt r) s2])]) @ [(C_sig s2 h' None, [Notify])])"
    by (rule admin_run.call, rule 4) (use stages in \<open>auto simp: on_sig sig_next_def eff\<close>)
  show ?thesis
    by (rule exI [of _ "?r\<lparr>aq_st := e_done\<rparr>"], rule exI [of _ ?q]) (use 5 k in simp)
qed

end

section \<open>One transaction\<close>

definition submitted1 :: "astate \<Rightarrow> 'r areq1 \<Rightarrow> 'r areq1 \<Rightarrow> 'r eff list \<Rightarrow> bool" where
  "submitted1 sent r r' es \<longleftrightarrow> aq_cmt r' = aq_cmt r \<and>
     ((es = [Notify] \<and> aq_err r' \<noteq> None \<and> aq_st r' = aq_st r) \<or> (es = [Send_Tx (aq_req r')] \<and> aq_st r' = sent))"

definition states1 :: "astate \<Rightarrow> astate \<Rightarrow> astate set" where
  "states1 sent sig = {sent, sig, e_done, e_error}"

text \<open>The request is done by the confirmation without error of the signature of its transaction.\<close>

definition done_by1 where
  "done_by1 cmt l \<longleftrightarrow> (\<exists>l1 s l2 q. l = l1 @ (T_sig s None, [Notify]) # l2 \<and>
     (T_tx (None, s), [Send_Sig cmt s]) \<in> set l1 \<and> sends l1 = [Send_Tx q, Send_Sig cmt s] \<and> sends l = sends l1)"

definition at_state1 where
  "at_state1 sent sig r l \<longleftrightarrow>
     (aq_st r = sent \<longrightarrow> sends l = [] \<or> (\<exists>q. sends l = [Send_Tx q])) \<and>
     (aq_st r = sig \<longrightarrow> confirmed conf1 l = [] \<and> (\<exists>q s. sends l = [Send_Tx q, Send_Sig (aq_cmt r) s] \<and>
        (T_tx (None, s), [Send_Sig (aq_cmt r) s]) \<in> set l)) \<and>
     (aq_st r = e_done \<longrightarrow> done_by1 (aq_cmt r) l)"

lemma done_by1_snoc:
  assumes "done_by1 cmt l" "\<forall>e \<in> set es. e = Notify"
  shows "done_by1 cmt (l @ [(c, es)])"
proof -
  obtain l1 s l2 q where l: "l = l1 @ (T_sig s None, [Notify]) # l2" "(T_tx (None, s), [Send_Sig cmt s]) \<in> set l1"
     "sends l1 = [Send_Tx q, Send_Sig cmt s]" "sends l = sends l1"
    using assms(1) unfolding done_by1_def by blast
  have "filter (\<lambda>e. e \<noteq> Notify) es = []" using assms(2) by (simp add: filter_empty_conv)
  then have "sends (l @ [(c, es)]) = sends l1" using l(4) by simp
  moreover have "l @ [(c, es)] = l1 @ (T_sig s None, [Notify]) # (l2 @ [(c, es)])" using l(1) by simp
  ultimately show ?thesis using l(2,3) unfolding done_by1_def by blast
qed

locale one_step =
  fixes step :: "acall1 \<Rightarrow> 'r areq1 \<times> key_store \<Rightarrow> (('r areq1 \<times> key_store) \<times> 'r eff list) option"
    and sent sig :: astate
  assumes stages: "(sent, sig) \<in> {(e_sent, e_sig), (e_init_sent, e_init_sig), (e_add_sent, e_add_sig)}"
    and submit: "step (T_submit env) (r, ks) = Some ((r', ks'), es) \<Longrightarrow> submitted1 sent r r' es"
    and on_tx: "step (T_tx res) (r, ks) = (let (r, es) = sub_sig sent sig (aq_cmt r) res r in Some ((r, ks), es))"
    and on_sig: "step (T_sig s err) (r, ks) = (let (r, es) = sig_done sig s err r in Some ((r, ks), es))"
begin

lemma distinct_stages: "distinct [sent, sig, e_done, e_error]"
  using stages by auto

definition inv :: "'r areq1 \<times> key_store \<Rightarrow> (acall1, 'r eff) alog \<Rightarrow> bool" where
  "inv s l \<longleftrightarrow> aq_st (fst s) \<in> states1 sent sig \<and> at_state1 sent sig (fst s) l \<and>
     (\<forall>x. count_list (confirmed conf1 l) x \<le> count_list (asked l) x)"

lemma invI:
  assumes "aq_st r \<in> states1 sent sig" "at_state1 sent sig r l"
    "\<And>x. count_list (confirmed conf1 l) x \<le> count_list (asked l) x"
  shows "inv (r, ks) l"
  using assms by (simp add: inv_def)

lemma counts:
  assumes "inv (r, ks) l" "may_call1 c l"
  shows "count_list (confirmed conf1 (l @ [(c, es)])) x \<le> count_list (asked (l @ [(c, es)])) x"
proof -
  have le: "count_list (confirmed conf1 l) x \<le> count_list (asked l) x" using assms(1) by (simp add: inv_def)
  show ?thesis
  proof (cases "\<exists>s. c = T_sig s None")
    case True
    then obtain s where "c = T_sig s None" by blast
    then show ?thesis using le assms(2) by (cases "s = x") simp_all
  next
    case False
    then have "conf1 c = []" by (cases c rule: conf1.cases) auto
    then show ?thesis using le by simp
  qed
qed

lemma step_idle:
  assumes "inv (r, ks) l" "may_call1 c l" "\<forall>e \<in> set es. e = Notify" "conf1 c = []"
    and "aq_st r' = aq_st r" "aq_cmt r' = aq_cmt r"
  shows "inv (r', ks') (l @ [(c, es)])"
proof (rule invI)
  have f: "filter (\<lambda>e. e \<noteq> Notify) es = []" using assms(3) by (simp add: filter_empty_conv)
  show "aq_st r' \<in> states1 sent sig" using assms(1,5) by (simp add: inv_def)
  have a: "at_state1 sent sig r l" using assms(1) by (simp add: inv_def)
  have "aq_st r = e_done \<Longrightarrow> done_by1 (aq_cmt r) (l @ [(c, es)])"
    using done_by1_snoc [OF _ assms(3)] a by (simp add: at_state1_def)
  moreover have "confirmed conf1 (l @ [(c, es)]) = confirmed conf1 l" "sends (l @ [(c, es)]) = sends l"
    "\<And>e. e \<in> set l \<Longrightarrow> e \<in> set (l @ [(c, es)])" using f assms(4) by simp_all
  ultimately show "at_state1 sent sig r' (l @ [(c, es)])"
    using a assms(5,6) unfolding at_state1_def by metis
qed (rule counts [OF assms(1,2)])

lemma step_error:
  assumes "inv (r, ks) l" "may_call1 c l" "on_res_error msg r = (r', es)"
  shows "inv (r', ks') (l @ [(c, es)])"
proof (rule invI)
  have f: "r' = r\<lparr>aq_err := Some msg, aq_st := e_error\<rparr>" "es = [Notify]" using assms(3) by (auto simp: on_res_error_def)
  show "aq_st r' \<in> states1 sent sig" "at_state1 sent sig r' (l @ [(c, es)])"
    using f distinct_stages by (simp_all add: states1_def at_state1_def) metis
qed (rule counts [OF assms(1,2)])

lemma step_submit:
  assumes "inv (r, ks) l" "sends l = []" "submitted1 sent r r' es"
  shows "inv (r', ks') (l @ [(T_submit env, es)])"
proof (cases "es = [Notify]")
  case True
  then show ?thesis using assms by (intro step_idle [OF assms(1)]) (auto simp: submitted1_def)
next
  case False
  then have f: "es = [Send_Tx (aq_req r')]" "aq_st r' = sent" using assms(3) by (auto simp: submitted1_def)
  show ?thesis
  proof (rule invI)
    show "at_state1 sent sig r' (l @ [(T_submit env, es)])"
      using f assms(2) distinct_stages by (auto simp: at_state1_def)
  qed (use f counts [OF assms(1), of "T_submit env" es] assms(2) in \<open>simp_all add: states1_def\<close>)
qed

lemma step_tx:
  assumes inv: "inv (r, ks) l" and m: "may_call1 (T_tx res) l" and "sub_sig sent sig (aq_cmt r) res r = (r', es)"
  shows "inv (r', ks') (l @ [(T_tx res, es)])"
proof (cases "fst res")
  case None
  show ?thesis
  proof (cases "aq_st r = sent")
    case True
    obtain s where res: "res = (None, s)" using None by (cases res) simp
    have f: "r' = r\<lparr>aq_st := sig\<rparr>" "es = [Send_Sig (aq_cmt r) s]"
      using assms(3) True by (auto simp: sub_sig_def res)
    obtain q where x: "sends l = [Send_Tx q]" using inv True m by (auto simp: inv_def at_state1_def)
    have "confirmed conf1 l = []"
    proof (rule ccontr)
      assume "confirmed conf1 l \<noteq> []"
      then obtain y ys where "confirmed conf1 l = y # ys" by (cases "confirmed conf1 l") auto
      then have "0 < count_list (confirmed conf1 l) y" by simp
      moreover have "count_list (confirmed conf1 l) y \<le> count_list (asked l) y" using inv by (simp add: inv_def)
      moreover have "asked l = []" using x by (simp add: asked_def)
      ultimately show False by simp
    qed
    then show ?thesis
      using x f distinct_stages by (intro invI counts [OF inv m]) (auto simp: at_state1_def states1_def res)
  next
    case False
    then show ?thesis using assms None by (intro step_idle [OF inv m]) (auto simp: sub_sig_def)
  qed
next
  case (Some msg)
  then show ?thesis using step_error [OF inv m] assms(3) by (simp add: sub_sig_def)
qed

lemma step_sig:
  assumes inv: "inv (r, ks) l" and m: "may_call1 (T_sig s err) l" and "sig_done sig s err r = (r', es)"
  shows "inv (r', ks') (l @ [(T_sig s err, es)])"
proof (cases err)
  case None
  have cnt: "count_list (confirmed conf1 l) s < count_list (asked l) s" using m None by simp
  have a: "at_state1 sent sig r l" using inv by (simp add: inv_def)
  show ?thesis
  proof (cases "aq_st r = sig")
    case True
    then have f: "r' = r\<lparr>aq_st := e_done\<rparr>" "es = [Notify]"
      using assms(3) None by (auto simp: sig_done_def res_done_def)
    obtain q s2 where x: "sends l = [Send_Tx q, Send_Sig (aq_cmt r) s2]" "confirmed conf1 l = []"
      "(T_tx (None, s2), [Send_Sig (aq_cmt r) s2]) \<in> set l"
      using a True by (auto simp: at_state1_def)
    have s: "s2 = s" using cnt x(1,2) by (auto simp: asked_def split: if_splits)
    have "done_by1 (aq_cmt r) (l @ [(T_sig s None, [Notify])])"
      unfolding done_by1_def using x s by (intro exI [of _ l] exI [of _ s] exI [of _ "[]"]) auto
    then show ?thesis
      using f None distinct_stages by (intro invI counts [OF inv m]) (auto simp: at_state1_def states1_def)
  next
    case False
    then have f: "r' = r" "es = []" using assms(3) None by (auto simp: sig_done_def res_done_def)
    have "aq_st r \<noteq> sent" using a cnt by (auto simp: at_state1_def asked_def)
    then have "aq_st r \<in> {e_done, e_error}" using inv False by (auto simp: inv_def states1_def)
    moreover have "aq_st r = e_done \<Longrightarrow> done_by1 (aq_cmt r) (l @ [(T_sig s err, es)])"
      using a f by (intro done_by1_snoc) (auto simp: at_state1_def)
    ultimately show ?thesis
      using f distinct_stages by (intro invI counts [OF inv m]) (auto simp: at_state1_def states1_def)
  qed
next
  case (Some msg)
  then show ?thesis using step_error [OF inv m] assms(3) by (simp add: sig_done_def res_done_def)
qed

lemma run_inv:
  assumes "admin_run may_call1 step (r0, ks0) s l" "aq_st r0 = sent"
  shows "inv s l"
  using assms(1)
proof induction
  case start
  then show ?case using assms(2) distinct_stages by (auto simp: inv_def at_state1_def states1_def)
next
  case (call s l c s' es)
  obtain r ks r' ks' where s: "s = (r, ks)" "s' = (r', ks')" by (cases s, cases s')
  show ?case
  proof (cases c)
    case (T_submit env)
    then show ?thesis using call step_submit submit by (auto simp: s)
  next
    case (T_tx res)
    then show ?thesis using call step_tx [of r ks l res r' es ks'] by (auto simp: s on_tx split: prod.splits)
  next
    case (T_sig x err)
    then show ?thesis using call step_sig [of r ks l x err r' es ks'] by (auto simp: s on_sig split: prod.splits)
  qed
qed

lemma in_order:
  assumes "admin_run may_call1 step (r0, ks0) (r, ks) l" "aq_st r0 = sent"
  shows "aq_st r \<in> states1 sent sig \<and> (aq_st r = e_done \<longrightarrow> done_by1 (aq_cmt r) l)"
  using run_inv [OF assms] by (auto simp: inv_def at_state1_def)

lemma completes:
  assumes "step (T_submit env) (r, ks) = Some ((r1, ks1), [Send_Tx q])"
  shows "\<exists>r'. aq_st r' = e_done \<and> admin_run may_call1 step (r, ks) (r', ks1)
    [(T_submit env, [Send_Tx q]), (T_tx (None, s), [Send_Sig (aq_cmt r) s]), (T_sig s None, [Notify])]"
proof -
  have s: "aq_st r1 = sent" "aq_cmt r1 = aq_cmt r"
    using submit [OF assms] by (auto simp: submitted1_def)
  note eff = sends_def effects_def asked_def confirmed_def
  have 1: "admin_run may_call1 step (r, ks) (r1, ks1) ([] @ [(T_submit env, [Send_Tx q])])"
    by (rule admin_run.call, rule admin_run.start, simp, rule assms)
  have 2: "admin_run may_call1 step (r, ks) (r1\<lparr>aq_st := sig\<rparr>, ks1)
      (([] @ [(T_submit env, [Send_Tx q])]) @ [(T_tx (None, s), [Send_Sig (aq_cmt r) s])])"
    by (rule admin_run.call, rule 1) (use s in \<open>simp_all add: on_tx sub_sig_def eff\<close>)
  have 3: "admin_run may_call1 step (r, ks) (r1\<lparr>aq_st := e_done\<rparr>, ks1)
      ((([] @ [(T_submit env, [Send_Tx q])]) @ [(T_tx (None, s), [Send_Sig (aq_cmt r) s])]) @ [(T_sig s None, [Notify])])"
    by (rule admin_run.call, rule 2) (simp_all add: on_sig sig_done_def res_done_def eff)
  show ?thesis by (rule exI [of _ "r1\<lparr>aq_st := e_done\<rparr>"]) (use 3 in simp)
qed

end

section \<open>The classes keep the contracts\<close>

text \<open>\<open>yields P m\<close>: whatever \<open>m\<close> returns satisfies \<open>P\<close>; one rule for every construct of \<open>submit\<close>.\<close>

definition yields :: "('r \<Rightarrow> 'e \<Rightarrow> bool) \<Rightarrow> (('r \<times> key_store) \<times> 'e) option \<Rightarrow> bool" where
  "yields P m \<longleftrightarrow> (\<forall>r ks es. m = Some ((r, ks), es) \<longrightarrow> P r es)"

named_theorems yields

lemma yieldsD: "yields P m \<Longrightarrow> m = Some ((r, ks), es) \<Longrightarrow> P r es"
  by (auto simp: yields_def)

lemma yields_fail [yields]: "P (r\<lparr>aq_err := Some msg\<rparr>) [Notify] \<Longrightarrow> yields P (Some (aq_fail msg r ks))"
  by (simp add: yields_def aq_fail_def)

lemma yields_bind [yields]: "(\<And>x. q = Some x \<Longrightarrow> yields P (k x)) \<Longrightarrow> yields P (q \<bind> k)"
  by (auto simp: yields_def bind_eq_Some_conv)

lemma yields_if [yields]: "(b \<Longrightarrow> yields P m) \<Longrightarrow> (\<not> b \<Longrightarrow> yields P m') \<Longrightarrow> yields P (if b then m else m')"
  by simp

lemma yields_prod [yields]: "(\<And>a b. x = (a, b) \<Longrightarrow> yields P (f a b)) \<Longrightarrow> yields P (case x of (a, b) \<Rightarrow> f a b)"
  by (cases x) simp

lemma yields_need_key [yields]:
  "(\<And>msg. P (r\<lparr>aq_err := Some msg\<rparr>) [Notify]) \<Longrightarrow> (\<And>kp ks. yields P (k kp ks)) \<Longrightarrow> yields P (need_key q pre file post r k)"
  unfolding need_key_def by (intro yields_bind yields_prod) (auto intro: yields_fail split: option.splits)

lemma yields_need_publish [yields]:
  "(\<And>msg. P (r\<lparr>aq_err := Some msg\<rparr>) [Notify]) \<Longrightarrow> (\<And>kp ks. yields P (k kp ks)) \<Longrightarrow> yields P (need_publish ks r k)"
  unfolding need_publish_def by (rule yields_need_key)

lemma yields_need_program [yields]:
  "(\<And>msg. P (r\<lparr>aq_err := Some msg\<rparr>) [Notify]) \<Longrightarrow> (\<And>kp ks. yields P (k kp ks)) \<Longrightarrow> yields P (need_program ks r k)"
  unfolding need_program_def by (rule yields_need_key)

lemma yields_need_account [yields]:
  "(\<And>kp msg. P (r\<lparr>aq_key := kp, aq_err := Some msg\<rparr>) [Notify]) \<Longrightarrow> (\<And>kp. yields P (k kp (r\<lparr>aq_key := kp\<rparr>))) \<Longrightarrow>
     yields P (need_account noun acc ks r k)"
  unfolding need_account_def Let_def by (intro yields_bind yields_prod yields_if yields_fail) auto

lemma yields_send_tx [yields]:
  "P (r\<lparr>aq_st := st, aq_req := ab_set_block_hash h (aq_req r)\<rparr>) [Send_Tx (ab_set_block_hash h (aq_req r))] \<Longrightarrow>
     yields P (Some (send_tx st h r ks))"
  by (simp add: yields_def send_tx_def)

lemma yields_send_create [yields]:
  "P (r\<lparr>aq_st := e_create_sent, aq_creq := (aq_creq r)\<lparr>ca_bhash := h\<rparr>\<rparr>) [Send_Create ((aq_creq r)\<lparr>ca_bhash := h\<rparr>)] \<Longrightarrow>
     yields P (Some (send_create h r ks))"
  by (simp add: yields_def send_create_def)

lemmas submit_simps = keys_agree_def ab_set_program_def ab_set_publish_def submitted1_def submitted2_def

lemma one_step_submits:
  "upd_product_submit env ur ks = Some ((ur', ks'), ues) \<Longrightarrow> submitted1 e_sent ur ur' ues"
  "init_price_submit env ir ks = Some ((ir', ks'), ies) \<Longrightarrow> submitted1 e_init_sent ir ir' ies"
  "set_min_pub_rpc_submit env sr ks = Some ((sr', ks'), ses) \<Longrightarrow> submitted1 e_init_sent sr sr' ses"
  "add_publisher_submit env ar ks = Some ((ar', ks'), aes) \<Longrightarrow> submitted1 e_add_sent ar ar' aes"
  "del_publisher_submit env dr ks = Some ((dr', ks'), des) \<Longrightarrow> submitted1 e_add_sent dr dr' des"
  by (erule yieldsD [rotated], unfold upd_product_submit_def init_price_submit_def set_min_pub_rpc_submit_def
        add_publisher_submit_def del_publisher_submit_def, intro yields; simp add: submit_simps)+

lemma init_mapping_submitted:
  "init_mapping_submit env r ks = Some ((r', ks'), es) \<Longrightarrow> submitted2 im_mkey r r' es"
  by (erule yieldsD [rotated], unfold init_mapping_submit_def Let_def, intro yields; simp add: submit_simps)

lemma add_mapping_submitted:
  "add_mapping_submit env r ks = Some ((r', ks'), es) \<Longrightarrow> submitted2 am_akey r r' es"
  by (erule yieldsD [rotated], unfold add_mapping_submit_def Let_def, intro yields)
    (auto simp: submit_simps bind_eq_Some_conv split: if_splits)

lemma add_product_submitted:
  "add_product_submit env r ks = Some ((r', ks'), es) \<Longrightarrow> submitted2 ap_akey r r' es"
  by (erule yieldsD [rotated], unfold add_product_submit_def Let_def, intro yields)
    (auto simp: submit_simps bind_eq_Some_conv split: if_splits)

lemma add_price_submitted:
  "add_price_submit env r ks = Some ((r', ks'), es) \<Longrightarrow> submitted2 apr_akey r r' es"
  by (erule yieldsD [rotated], unfold add_price_submit_def Let_def, intro yields)
    (auto simp: submit_simps bind_eq_Some_conv split: if_splits)

interpretation init_mapping: two_step init_mapping_step e_init_sent e_init_sig im_mkey
  by unfold_locales (auto simp: init_mapping_submitted init_mapping_on_create_def init_mapping_on_tx_def
    init_mapping_on_sig_def ab_set_block_hash_def)

interpretation add_mapping: two_step add_mapping_step e_init_sent e_init_sig am_akey
  by unfold_locales (auto simp: add_mapping_submitted add_mapping_on_create_def add_mapping_on_tx_def
    add_mapping_on_sig_def ab_set_block_hash_def)

interpretation add_product: two_step add_product_step e_add_sent e_add_sig ap_akey
  by unfold_locales (auto simp: add_product_submitted add_product_on_create_def add_product_on_tx_def
    add_product_on_sig_def ab_set_block_hash_def)

interpretation add_price: two_step add_price_step e_add_sent e_add_sig apr_akey
  by unfold_locales (auto simp: add_price_submitted add_price_on_create_def add_price_on_tx_def
    add_price_on_sig_def ab_set_block_hash_def)

interpretation upd_product: one_step upd_product_step e_sent e_sig
  by unfold_locales (auto simp: one_step_submits upd_product_on_tx_def upd_product_on_sig_def)

interpretation init_price: one_step init_price_step e_init_sent e_init_sig
  by unfold_locales (auto simp: one_step_submits init_price_on_tx_def init_price_on_sig_def)

interpretation set_min_pub: one_step set_min_pub_rpc_step e_init_sent e_init_sig
  by unfold_locales (auto simp: one_step_submits set_min_pub_rpc_on_tx_def set_min_pub_rpc_on_sig_def)

interpretation add_publisher: one_step add_publisher_step e_add_sent e_add_sig
  by unfold_locales (auto simp: one_step_submits add_publisher_on_tx_def add_publisher_on_sig_def)

interpretation del_publisher: one_step del_publisher_step e_add_sent e_add_sig
  by unfold_locales (auto simp: one_step_submits del_publisher_on_tx_def del_publisher_on_sig_def)

section \<open>Results\<close>

text \<open>(C27) Each of the four requests that create an account, submitted until it sends
  something and then called in any order with replies, errors and confirmations, where the node confirms a
  signature at most as often as it was asked to: the transaction of the program is sent only by the
  confirmation without error of the signature in the reply to the account's creation, asked for at commitment
  "finalized", and nothing else was sent before it; both transactions have the same payer, program and account.
  The request is done only by the confirmation without error of the signature in the reply to the second
  transaction, asked for at the commitment that was set, and nothing is sent afterwards.\<close>

theorem admin_two_transactions:
  shows "(admin_run may_call2 init_mapping_step (init_mapping_new iq ic, ks0) (ir, ks1) il \<longrightarrow>
      tx_confirmed2 im_mkey il \<and> (aq_st ir = e_done \<longrightarrow> done_by2 (aq_cmt ir) il)) \<and>
    (admin_run may_call2 add_mapping_step (add_mapping_new mq mc, ks0) (mr, ks1) ml \<longrightarrow>
      tx_confirmed2 am_akey ml \<and> (aq_st mr = e_done \<longrightarrow> done_by2 (aq_cmt mr) ml)) \<and>
    (admin_run may_call2 add_product_step (add_product_new pq pc, ks0) (pr, ks1) pl \<longrightarrow>
      tx_confirmed2 ap_akey pl \<and> (aq_st pr = e_done \<longrightarrow> done_by2 (aq_cmt pr) pl)) \<and>
    (admin_run may_call2 add_price_step (add_price_new xq xc, ks0) (xr, ks1) xl \<longrightarrow>
      tx_confirmed2 apr_akey xl \<and> (aq_st xr = e_done \<longrightarrow> done_by2 (aq_cmt xr) xl))"
  using init_mapping.in_order [of "init_mapping_new iq ic" ks0 ir ks1 il] add_mapping.in_order [of "add_mapping_new mq mc" ks0 mr ks1 ml]
    add_product.in_order [of "add_product_new pq pc" ks0 pr ks1 pl] add_price.in_order [of "add_price_new xq xc" ks0 xr ks1 xl]
  by (simp add: init_mapping_new_def add_mapping_new_def add_product_new_def add_price_new_def)

text \<open>A key store that has its keys, and a run of \<open>init\_mapping\<close> that gets done.\<close>

definition sample_store :: key_store where
  "sample_store = (key_store_new ''/'' (\<lambda>_. None) (\<lambda>_. Written))
     \<lparr>ks_has_pkey := True, ks_has_gpub := True, ks_pkey := replicate 64 CHR ''p'', ks_gpub := replicate 32 CHR ''g''\<rparr>"

definition sample_init :: "init_mapping areq2" where
  "sample_init = init_mapping_new \<lparr>ab_bhash = [], ab_pkey = [], ab_gkey = [], ab_sig = [], im_mkey = []\<rparr>
     \<lparr>ca_bhash = [], ca_snd = [], ca_account = [], ca_owner = [], ca_lamports = 7, ca_space = 0, ca_sig = []\<rparr>"

lemma sample_submit:
  "\<exists>r1 ks1 c. init_mapping_step (C_submit \<lparr>ae_bhash = ''h'', ae_gen = replicate 64 CHR ''m'', ae_last_map = None,
       ae_prod = ([], []), ae_price = ([], 0, [])\<rparr>) (sample_init, sample_store) = Some ((r1, ks1), [Send_Create c])"
  by (simp add: init_mapping_submit_def need_key_def need_program_def get_publish_key_pair_def get_mapping_key_pair_def
    sample_store_def key_store_new_def kp_init_from_file_def create_mapping_key_pair_def write_key_file_text
    KEY_PAIR_LEN_def get_pub_key_half get_program_pub_key_def send_create_def Let_def)

theorem admin_two_transactions_witness:
  "\<exists>r ks l. admin_run may_call2 init_mapping_step (sample_init, sample_store) (r, ks) l \<and> aq_st r = e_done \<and>
     length (sends l) = 4 \<and> tx_confirmed2 im_mkey l \<and> done_by2 (aq_cmt r) l"
proof -
  obtain env :: aenv and r1 ks1 c where "init_mapping_step (C_submit env) (sample_init, sample_store) = Some ((r1, ks1), [Send_Create c])"
    using sample_submit by blast
  from init_mapping.completes [OF this, of "''s''" "''h''" "''t''" "''i''"] obtain r q where
    r: "aq_st r = e_done" "admin_run may_call2 init_mapping_step (sample_init, sample_store) (r, ks1)
      [(C_submit env, [Send_Create c]), (C_create (None, ''s''), [Send_Sig e_finalized ''s'']), (C_sig ''s'' ''h'' None, [Send_Tx q]),
       (C_tx (None, ''t''), [Send_Sig (aq_cmt sample_init) ''t'']), (C_sig ''t'' ''i'' None, [Notify])]" by blast
  note * = admin_two_transactions [THEN conjunct1, rule_format, OF r(2) [unfolded sample_init_def], folded sample_init_def]
  show ?thesis
    by (rule exI [of _ r], rule exI [of _ ks1], rule exI, rule conjI, rule r(2)) (use * r(1) in \<open>simp add: sends_def effects_def\<close>)
qed

text \<open>(C28) In the same runs every request is in a state of its own class.  The five requests with
  one transaction are done only by the confirmation without error of the signature in the reply to the
  transaction, asked for at the commitment that was set, after the transaction and before anything else is sent.\<close>

theorem admin_request_states:
  shows "(admin_run may_call2 init_mapping_step (init_mapping_new iq ic, ks0) (ir, ks1) il \<longrightarrow>
      aq_st ir \<in> {e_create_sent, e_create_sig, e_init_sent, e_init_sig, e_done, e_error}) \<and>
    (admin_run may_call2 add_mapping_step (add_mapping_new mq mc, ks0) (mr, ks1) ml \<longrightarrow>
      aq_st mr \<in> {e_create_sent, e_create_sig, e_init_sent, e_init_sig, e_done, e_error}) \<and>
    (admin_run may_call2 add_product_step (add_product_new pq pc, ks0) (pr, ks1) pl \<longrightarrow>
      aq_st pr \<in> {e_create_sent, e_create_sig, e_add_sent, e_add_sig, e_done, e_error}) \<and>
    (admin_run may_call2 add_price_step (add_price_new xq xc, ks0) (xr, ks1) xl \<longrightarrow>
      aq_st xr \<in> {e_create_sent, e_create_sig, e_add_sent, e_add_sig, e_done, e_error}) \<and>
    (admin_run may_call1 upd_product_step (upd_product_new uq, ks0) (ur, ks1) ul \<longrightarrow>
      aq_st ur \<in> {e_sent, e_sig, e_done, e_error} \<and> (aq_st ur = e_done \<longrightarrow> done_by1 (aq_cmt ur) ul)) \<and>
    (admin_run may_call1 init_price_step (init_price_new jq, ks0) (jr, ks1) jl \<longrightarrow>
      aq_st jr \<in> {e_init_sent, e_init_sig, e_done, e_error} \<and> (aq_st jr = e_done \<longrightarrow> done_by1 (aq_cmt jr) jl)) \<and>
    (admin_run may_call1 set_min_pub_rpc_step (set_min_pub_rpc_new sq, ks0) (sr, ks1) sl \<longrightarrow>
      aq_st sr \<in> {e_init_sent, e_init_sig, e_done, e_error} \<and> (aq_st sr = e_done \<longrightarrow> done_by1 (aq_cmt sr) sl)) \<and>
    (admin_run may_call1 add_publisher_step (add_publisher_new aq, ks0) (ar, ks1) al \<longrightarrow>
      aq_st ar \<in> {e_add_sent, e_add_sig, e_done, e_error} \<and> (aq_st ar = e_done \<longrightarrow> done_by1 (aq_cmt ar) al)) \<and>
    (admin_run may_call1 del_publisher_step (del_publisher_new dq, ks0) (dr, ks1) dl \<longrightarrow>
      aq_st dr \<in> {e_add_sent, e_add_sig, e_done, e_error} \<and> (aq_st dr = e_done \<longrightarrow> done_by1 (aq_cmt dr) dl))"
  using init_mapping.in_order [of "init_mapping_new iq ic" ks0 ir ks1 il] add_mapping.in_order [of "add_mapping_new mq mc" ks0 mr ks1 ml]
    add_product.in_order [of "add_product_new pq pc" ks0 pr ks1 pl] add_price.in_order [of "add_price_new xq xc" ks0 xr ks1 xl]
    upd_product.in_order [of "upd_product_new uq" ks0 ur ks1 ul] init_price.in_order [of "init_price_new jq" ks0 jr ks1 jl]
    set_min_pub.in_order [of "set_min_pub_rpc_new sq" ks0 sr ks1 sl] add_publisher.in_order [of "add_publisher_new aq" ks0 ar ks1 al]
    del_publisher.in_order [of "del_publisher_new dq" ks0 dr ks1 dl]
  unfolding states1_def states2_def
  by (simp add: init_mapping_new_def add_mapping_new_def add_product_new_def add_price_new_def upd_product_new_def
    init_price_new_def set_min_pub_rpc_new_def add_publisher_new_def del_publisher_new_def)

text \<open>A key store whose files hold the key pair of the account, and a run of \<open>set\_min\_pub\_rpc\<close> that gets done.\<close>

definition sample_keys :: key_store where
  "sample_keys = sample_store\<lparr>ks_files := \<lambda>f. Some (render (kp_json (replicate 64 CHR ''m'')))\<rparr>"

definition sample_min :: set_min_pub_rpc where
  "sample_min = \<lparr>ab_bhash = [], ab_pkey = [], ab_gkey = [], ab_sig = [], smp_min_pub = 3, smp_akey = []\<rparr>"

lemma sample_account:
  "get_account_key_pair (replicate 32 CHR ''m'') key_pair_zero sample_keys = Some (True, replicate 64 CHR ''m'')"
proof -
  have "kp_init_from_json (render (kp_json (replicate 64 CHR ''m''))) key_pair_zero = Some (True, replicate 64 CHR ''m'')"
    by (rule kp_text_back) (simp_all add: KEY_PAIR_LEN_def key_pair_zero_def)
  then show ?thesis
    by (simp add: get_account_key_pair_def sample_keys_def kp_init_from_file_def get_pub_key_half KEY_PAIR_LEN_def HASH_LEN_def)
qed

lemma sample_min_submit:
  "\<exists>r1 ks1 q. set_min_pub_rpc_step (T_submit \<lparr>ae_bhash = ''h'', ae_gen = [], ae_last_map = None, ae_prod = ([], []),
       ae_price = (replicate 32 CHR ''m'', 1, [])\<rparr>) (set_min_pub_rpc_new sample_min, sample_keys) = Some ((r1, ks1), [Send_Tx q])"
proof -
  have "ks_has_pkey sample_keys" "ks_has_gpub sample_keys" by (simp_all add: sample_keys_def sample_store_def)
  then show ?thesis
    by (simp add: set_min_pub_rpc_submit_def need_publish_def need_program_def need_key_def need_account_def
      get_publish_key_pair_def get_program_pub_key_def set_min_pub_rpc_new_def sample_account send_tx_def Let_def)
qed

theorem admin_request_states_witness:
  "\<exists>r ks l. admin_run may_call1 set_min_pub_rpc_step (set_min_pub_rpc_new sample_min, sample_keys) (r, ks) l \<and>
     aq_st r = e_done \<and> length (sends l) = 2 \<and> done_by1 (aq_cmt r) l"
proof -
  obtain env :: aenv and r1 ks1 q where "set_min_pub_rpc_step (T_submit env) (set_min_pub_rpc_new sample_min, sample_keys) = Some ((r1, ks1), [Send_Tx q])"
    using sample_min_submit by blast
  from set_min_pub.completes [OF this, of "''s''"] obtain r where
    r: "aq_st r = e_done" "admin_run may_call1 set_min_pub_rpc_step (set_min_pub_rpc_new sample_min, sample_keys) (r, ks1)
      [(T_submit env, [Send_Tx q]), (T_tx (None, ''s''), [Send_Sig (aq_cmt (set_min_pub_rpc_new sample_min)) ''s'']),
       (T_sig ''s'' None, [Notify])]" by blast
  note * = admin_request_states [THEN conjunct2, THEN conjunct2, THEN conjunct2, THEN conjunct2, THEN conjunct2, THEN conjunct2,
    THEN conjunct1, rule_format, OF r(2)]
  show ?thesis
    by (rule exI [of _ r], rule exI [of _ ks1], rule exI, rule conjI, rule r(2)) (use * r(1) in \<open>simp add: sends_def effects_def\<close>)
qed

end
