(* ===== verification/Spec2Isabelle.thy ===== *)
theory Spec2Isabelle
  imports Int_Util Sort_Stable Price_Model Pd Oracle Upd_Aggregate Text_Codec Hash_Map Dbl_List Jtree
    Net_Wtr Json_Wtr Net_Stream Ws_Frame Http Key_Pair Bincode Attr_Id Json_Tree Upd_Price Admin_Rpc Rpc_Client Key_Store Request_Sub Admin_Request
begin

text \<open>
  Verification of pyth-client.

  \<^bold>\<open>The program.\<close>  pyth-client publishes prices to a Solana program and reads the aggregated prices
  back.  Publishers talk to the daemon \<open>pythd\<close> over websockets; the daemon (\<open>src/pc\<close>) keeps a picture of the
  accounts of the program, which it fills from a Solana RPC node by JSON-RPC over HTTP and websockets, and sends
  price updates as signed transactions.  The administration tool (\<open>src/pcapps\<close>) creates and changes the
  accounts.  The C part of the program on the chain (\<open>src/program/c/src/oracle\<close>) aggregates the
  quotes of the publishers of a price account.  Code is translated from these three directories; file names
  below are relative to \<open>src/\<close>.

  \<^bold>\<open>Conventions\<close> (Pyth_Prelude).  Unsigned integers whose wrap-around matters are words; signed integers are
  \<open>int\<close> with a check after every operation, so that overflow is the result \<open>None\<close>; an access outside an array is
  \<open>None\<close> as well.  Thus \<open>f x = Some y\<close> always says that the code runs to its end without undefined behaviour.
  Bytes are characters, byte strings and texts are HOL strings, vectors are lists, pointers to objects are natural
  numbers with a store as a function, and classes are records with the source's members (\<open>jt_nv\<close> for \<open>nv_\<close> of
  \<open>jtree\<close>, \<open>rc_reuse\<close> for \<open>reuse_\<close> of \<open>rpc_client\<close>).  External code is a parameter: the ed25519 and hash
  functions, the clock, the random numbers, the results of system calls.

  \<^bold>\<open>On the chain.\<close>
  \<^item> Int_Util (\<open>program/c/src/oracle/util\<close>: \<open>align.h\<close>, \<open>sar.h\<close>, \<open>avg.h\<close>, \<open>hash.h\<close>): each bit trick equals the
    operation it stands for, on words of every width the code instantiates.
  \<^item> Sort_Stable (\<open>sort/tmpl\<close>): the sorting networks, the recursive merge sort with its ping-pong buffers, and
    that it returns a sorted stable permutation inside its arrays.  Price_Model (\<open>model/price_model.c\<close>) uses it.
  \<^item> Pd (\<open>pd.h\<close>): decimal numbers with bounded mantissa; accuracy and absence of overflow on normal forms, the
    loops of \<open>pd_load\<close>, \<open>pd_store\<close> and \<open>pd_scale\<close> terminate by measures; \<open>pd_sqrt\<close> is partial.
  \<^item> Oracle (\<open>oracle.h\<close>) has the account structures and Upd_Aggregate (\<open>upd_aggregate.h\<close>) the aggregation and the
    moving averages.  The specification is independent of the loops: the set of valid quotes, their count, and
    the quartiles of the sorted votes; \<open>upd_aggregate_correct\<close> says that the code refines it.
  \<^item> Commands (\<open>oracle.h\<close>): the command numbers and the documented roles of accounts, against which the
    transactions of the client are judged.

  \<^bold>\<open>Data structures of the client.\<close>
  \<^item> Text_Codec (\<open>pc/misc.cpp\<close>): base 58, base 64, integers, decimals, time stamps and host names.
  \<^item> Hash_Map (\<open>pc/hash_map.hpp\<close>), Dbl_List (\<open>pc/dbl_list.hpp\<close>): both are refinements, of a finite map and of a list
    of distinct nodes.  The linked structures are segments, \<open>seg\<close> and \<open>path\<close>, in a store.
    Their contracts are locales that are interpreted on the code's model.  The contract of the map has a room:
    node numbers have 32 bits, and every node is on a chain or on the free list (\<open>hm_cover\<close>).  The contract
    of the list says that the links of other nodes do not change.
  \<^item> Jtree (\<open>pc/jtree.cpp\<close>): the parser as written, a character-level state machine that appends nodes to a vector
    and threads links through it; the invariant of every parse and the termination of key lookup.  Json_Tree
    relates the nodes to JSON values: \<open>chain\<close> says what the links from a container mean, \<open>json_at\<close> that a node
    represents a value, and the printed text of a value is parsed to a tree that represents it.
  \<^item> Json_Wtr and Net_Wtr (\<open>json_wtr\<close>, \<open>net_wtr\<close> in \<open>pc/net_socket.cpp\<close>): message buffers of a fixed capacity; the
    text of a writer is the concatenation of its buffers, and the writer refines a reference printer.
    Json_Calls executes sequences of writer calls symbolically; the request builders rest on it.

  \<^bold>\<open>The network\<close> (\<open>pc/net_socket.cpp\<close>).
  \<^item> Net_Stream: receiving and sending in pieces.  The result of each system call is an input, so the theorems hold
    for every way the network cuts the stream; a parser is a locale that Ws_Frame interprets.
  \<^item> Ws_Frame: framing with masks, fragments and control frames.  The parser counts the bytes it unmasks with 32
    bits and adds lengths with 64: \<open>hdr_sane\<close> is the condition on the headers of a stream under which
    neither wraps.  Http: both parsers and the upgrade; Byte_Order: integers in memory and in network order.

  \<^bold>\<open>Requests to the chain.\<close>
  \<^item> Key_Pair (\<open>pc/key_pair.cpp\<close>), Key_Store (\<open>pc/key_store.cpp\<close>): keys, signatures and the key files.  The signature
    functions are parameters; what the code relies on, that signatures verify, is a named hypothesis.
  \<^item> Bincode (\<open>pc/bincode.hpp\<close>): the writer of transactions, with a decoder of the Solana wire format as the
    specification.  Upd_Price (\<open>rpc::upd_price\<close>) and Admin_Rpc (\<open>pcapps/admin_rpc_client.cpp\<close>) show that each
    request writes the documented transaction, signed by each of its signers.  Attr_Id (\<open>pc/attr_id.cpp\<close>): product attributes.
  \<^item> Rpc_Request and Rpc_Response: the JSON calls and the reading of replies, by the parser and writer above.
    Rpc_Client (\<open>rpc_client\<close>): numbering, waiting requests, notifications, with the correlation invariant by rule
    induction over all sequences of events, and delivery of a request through HTTP or websocket framing to a peer.
    The dispatch of a reply iterates over a range of an unordered multimap while callbacks may add elements;
    where the library puts these, and whether it rehashes, is the parameter \<open>rc_mm\<close>, and the loop follows it.
  \<^item> Request_Sub (\<open>request_sub_set\<close>, \<open>request_node\<close>) and Admin_Request (\<open>pcapps/admin_request.cpp\<close>): the requests of
    the manager.  The administration requests are state machines; the locales \<open>two_step\<close> and \<open>one_step\<close> state what
    the classes have in common and are interpreted on each of the nine, so that the order of the transactions and
    the guards are proved once, for every order of calls and replies that \<open>may_call2\<close> and \<open>may_call1\<close>
    admit: a reply comes only after something was sent, and a signature is confirmed at most as often as it
    was asked to.  A confirmation carries its signature, so that a run shows which transaction was confirmed.

  \<^bold>\<open>Bounds and fuel.\<close>  Recursion is structural or has a measure, or the loop may run forever and is a
  \<open>partial_function (option)\<close>: the search of a hash chain, the search of a key in a tree, unmasking, the
  dispatch of a reply (that these return, where they do, is proved from the invariants or is a premise of the
  theorems that follow them), the square root and the loops over attribute and account lists.  Fuel is used by the walk over a
  tree (\<open>read_back\<close>, twice the number of nodes) and by the reading of a key array (\<open>kp_fill\<close>, the number
  of nodes), and it is proved that it suffices.  Texts are below \<open>2 ^ 22\<close> or \<open>2 ^ 24\<close> bytes where the node
  numbers of 24 bits must not wrap.  Base 58 is bounded at 120 bytes, where the size that the code computes in
  floating point is the exact product of the model.

  \<^bold>\<open>Errors of the code.\<close>  Where the code fails, a theorem states the failure on a concrete or general input: a
  reply delivered twice frees its number twice; the reply for a missing account is read outside the node vector; an
  HTTP server keeps pointers into a buffer that moves; the websocket length check wraps; a text of more than 32
  bytes overflows a key; a price of the wrong sign overflows the confidence; the power-of-ten table is read out of
  range; a subscription set is written out of range after teardown; and others listed with the theories.

  \<^bold>\<open>Not modelled.\<close>  System calls and what only wraps them (epoll loops, sockets, memory maps, the capture thread),
  logging, the command-line programs, the transaction proxy \<open>tx_svr\<close>, the decoding of compressed account data (zstd), the
  OpenSSL key cache, the Rust program on the chain (another language), tests and scripts.
\<close>

end
